(* ===== verification/Go4_Prelude.thy ===== *)
theory Go4_Prelude
  imports Main "HOL-Library.Multiset" "HOL-Library.Monad_Syntax" "HOL-Library.Word"
begin

text \<open>
  Shared vocabulary of the development.

  \<^item> \<open>succeeds m Q\<close>: the computation \<open>m\<close> of the option monad returns (\<open>None\<close> is a Go
    panic, or a loop that does not end) and its result satisfies \<open>Q\<close>; with its rules this is a
    small weakest-precondition calculus.
  \<^item> \<open>swap\<close>: the exchange of two slice elements.
  \<^item> \<open>seg_perm a b xs ys\<close>: \<open>ys\<close> is \<open>xs\<close> with the elements of the half-open index range
    \<open>[a, b)\<close> rearranged and nothing else touched.

  The collections \<open>wp\<close> (rewriting of \<open>succeeds\<close>) and \<open>seg_intros\<close> (introduction rules for
  rearrangements) carry the component proofs.
\<close>

named_theorems wp "rewriting of succeeds over the option monad"
named_theorems seg_intros "introduction rules for rearrangements of a segment"

type_synonym byte = "8 word"
type_synonym bytes = "byte list"

section \<open>Computations that may panic\<close>

declare Option.bind_cong [fundef_cong]

definition succeeds :: "'a option \<Rightarrow> ('a \<Rightarrow> bool) \<Rightarrow> bool" where
  "succeeds m Q \<longleftrightarrow> (\<exists>x. m = Some x \<and> Q x)"

lemma succeeds_Some [simp, wp]: "succeeds (Some x) Q \<longleftrightarrow> Q x"
  by (simp add: succeeds_def)

lemma succeeds_None [simp, wp]: "\<not> succeeds None Q"
  by (simp add: succeeds_def)

lemma succeeds_bind [simp, wp]:
  "succeeds (m \<bind> f) Q \<longleftrightarrow> succeeds m (\<lambda>x. succeeds (f x) Q)"
  by (cases m) (simp_all add: succeeds_def)

lemma succeeds_if [wp]:
  "succeeds (if c then m else n) Q \<longleftrightarrow> (c \<longrightarrow> succeeds m Q) \<and> (\<not> c \<longrightarrow> succeeds n Q)"
  by simp

lemma succeeds_mono:
  "succeeds m P \<Longrightarrow> (\<And>x. P x \<Longrightarrow> Q x) \<Longrightarrow> succeeds m Q"
  by (auto simp: succeeds_def)

lemma succeeds_conj:
  "succeeds m P \<Longrightarrow> succeeds m Q \<Longrightarrow> succeeds m (\<lambda>x. P x \<and> Q x)"
  by (auto simp: succeeds_def)

section \<open>Exchanging and rearranging elements of a slice\<close>

definition swap :: "nat \<Rightarrow> nat \<Rightarrow> 'a list \<Rightarrow> 'a list" where
  "swap i j xs = xs[i := xs ! j, j := xs ! i]"

lemma length_swap [simp]: "length (swap i j xs) = length xs"
  by (simp add: swap_def)

lemma swap_self [simp]: "swap i i xs = xs"
  by (simp add: swap_def)

lemma swap_commute: "swap i j xs = swap j i xs"
  by (cases "i = j") (simp_all add: swap_def list_update_swap)

lemma nth_swap:
  "i < length xs \<Longrightarrow> j < length xs \<Longrightarrow> k < length xs \<Longrightarrow>
     swap i j xs ! k = (if k = i then xs ! j else if k = j then xs ! i else xs ! k)"
  by (auto simp: swap_def nth_list_update)

lemma mset_swap_eq [simp]:
  "i < length xs \<Longrightarrow> j < length xs \<Longrightarrow> mset (swap i j xs) = mset xs"
  by (simp add: swap_def mset_swap)

definition seg :: "nat \<Rightarrow> nat \<Rightarrow> 'a list \<Rightarrow> 'a list" where
  "seg a b xs = take (b - a) (drop a xs)"

lemma length_seg [simp]: "b \<le> length xs \<Longrightarrow> length (seg a b xs) = b - a"
  by (auto simp: seg_def)

lemma nth_seg: "b \<le> length xs \<Longrightarrow> k < b - a \<Longrightarrow> seg a b xs ! k = xs ! (a + k)"
  by (simp add: seg_def)

lemma seg_empty [simp]: "b \<le> a \<Longrightarrow> seg a b xs = []"
  by (simp add: seg_def)

lemma seg_append: "a \<le> m \<Longrightarrow> m \<le> b \<Longrightarrow> seg a m xs @ seg m b xs = seg a b xs"
proof -
  assume "a \<le> m" "m \<le> b"
  then have "seg a b xs = take ((m - a) + (b - m)) (drop a xs)"
    by (simp add: seg_def)
  also have "\<dots> = take (m - a) (drop a xs) @ take (b - m) (drop (m - a) (drop a xs))"
    by (rule take_add)
  finally show ?thesis
    using \<open>a \<le> m\<close> by (simp add: seg_def)
qed

text \<open>A slice expression of Go: out of range it panics.\<close>

definition slice :: "'a list \<Rightarrow> nat \<Rightarrow> nat \<Rightarrow> 'a list option" where
  "slice xs a b = (if a \<le> b \<and> b \<le> length xs then Some (seg a b xs) else None)"

lemma seg_full [simp]: "seg 0 (length xs) xs = xs"
  by (simp add: seg_def)

lemma seg_split3: "a \<le> b \<Longrightarrow> b \<le> length xs \<Longrightarrow> xs = seg 0 a xs @ seg a b xs @ seg b (length xs) xs"
  by (metis le_trans seg_append seg_full zero_le)

lemma set_seg: "b \<le> length xs \<Longrightarrow> x \<in> set (seg a b xs) \<longleftrightarrow> (\<exists>k. a \<le> k \<and> k < b \<and> x = xs ! k)"
proof -
  assume b: "b \<le> length xs"
  have "k < b" "a + (k - a) = k" "k - a < b - a" if "a \<le> k" "k < b" for k
    using that by auto
  moreover have "a + k < b" if "k < b - a" for k
    using that by simp
  ultimately show ?thesis
    using b by (metis in_set_conv_nth le_add1 length_seg nth_seg)
qed

lemma seg_cong:
  "length xs = length ys \<Longrightarrow> b \<le> length xs \<Longrightarrow> (\<And>k. a \<le> k \<Longrightarrow> k < b \<Longrightarrow> xs ! k = ys ! k) \<Longrightarrow>
     seg a b xs = seg a b ys"
  by (rule nth_equalityI) (simp_all add: nth_seg)

definition seg_perm :: "nat \<Rightarrow> nat \<Rightarrow> 'a list \<Rightarrow> 'a list \<Rightarrow> bool" where
  "seg_perm a b xs ys \<longleftrightarrow>
     mset ys = mset xs \<and> (\<forall>k < length xs. k < a \<or> b \<le> k \<longrightarrow> ys ! k = xs ! k)"

lemma seg_perm_length: "seg_perm a b xs ys \<Longrightarrow> length ys = length xs"
  unfolding seg_perm_def by (metis size_mset)

lemma seg_perm_mset: "seg_perm a b xs ys \<Longrightarrow> mset ys = mset xs"
  by (simp add: seg_perm_def)

lemma seg_perm_outside:
  "seg_perm a b xs ys \<Longrightarrow> k < length xs \<Longrightarrow> k < a \<or> b \<le> k \<Longrightarrow> ys ! k = xs ! k"
  unfolding seg_perm_def by blast

lemma seg_perm_refl [simp, seg_intros]: "seg_perm a b xs xs"
  by (simp add: seg_perm_def)

lemma seg_perm_trans [trans]:
  assumes "seg_perm a b xs ys" "seg_perm a b ys zs"
  shows "seg_perm a b xs zs"
  using assms seg_perm_length [OF assms(1)] by (simp add: seg_perm_def)

lemma seg_perm_mono:
  "seg_perm a b xs ys \<Longrightarrow> a' \<le> a \<Longrightarrow> b \<le> b' \<Longrightarrow> seg_perm a' b' xs ys"
  by (simp add: seg_perm_def)

lemma seg_perm_swap [seg_intros]:
  "a \<le> i \<Longrightarrow> i < b \<Longrightarrow> a \<le> j \<Longrightarrow> j < b \<Longrightarrow> b \<le> length xs \<Longrightarrow> seg_perm a b xs (swap i j xs)"
  by (auto simp: seg_perm_def nth_swap)

lemma seg_perm_swap_trans:
  assumes "seg_perm a b xs ys" "a \<le> i" "i < b" "a \<le> j" "j < b" "b \<le> length xs"
  shows "seg_perm a b xs (swap i j ys)"
  using assms seg_perm_length [OF assms(1)]
  by (intro seg_perm_trans [OF assms(1)] seg_perm_swap) simp_all

lemma seg_perm_mset_seg:
  assumes p: "seg_perm a b xs ys" and ab: "a \<le> b" "b \<le> length xs"
  shows "mset (seg a b ys) = mset (seg a b xs)"
proof -
  have len: "length ys = length xs"
    using p by (rule seg_perm_length)
  have lo: "seg 0 a ys = seg 0 a xs"
    using p ab len by (intro seg_cong) (auto simp: seg_perm_outside)
  have hi: "seg b (length xs) ys = seg b (length xs) xs"
    using p ab len by (intro seg_cong) (auto simp: seg_perm_outside)
  have "mset (seg 0 a ys @ seg a b ys @ seg b (length xs) ys) =
        mset (seg 0 a xs @ seg a b xs @ seg b (length xs) xs)"
    using p ab len seg_split3 [of a b ys] seg_split3 [of a b xs]
    by (simp add: seg_perm_def)
  then show ?thesis
    by (simp add: lo hi)
qed

lemma seg_perm_source:
  assumes "seg_perm a b xs ys" "b \<le> length xs" "a \<le> k" "k < b"
  obtains k' where "a \<le> k'" "k' < b" "ys ! k = xs ! k'"
proof -
  have "ys ! k \<in> set (seg a b ys)"
    using assms seg_perm_length [OF assms(1)] by (auto simp: set_seg)
  also have "set (seg a b ys) = set (seg a b xs)"
    using seg_perm_mset_seg [OF assms(1)] assms(2-4) mset_eq_setD by (metis le_trans less_imp_le)
  finally show thesis
    using that assms(2) by (auto simp: set_seg)
qed

lemma seg_perm_all:
  assumes "seg_perm a b xs ys" "b \<le> length xs"
    and "\<And>k. a \<le> k \<Longrightarrow> k < b \<Longrightarrow> P (xs ! k)"
    and "a \<le> k" "k < b"
  shows "P (ys ! k)"
  using assms by (metis seg_perm_source)

section \<open>Ranges split by a predicate\<close>

definition split_by :: "('a \<Rightarrow> bool) \<Rightarrow> nat \<Rightarrow> nat \<Rightarrow> nat \<Rightarrow> 'a list \<Rightarrow> bool" where
  "split_by P a m b xs \<longleftrightarrow>
     a \<le> m \<and> m \<le> b \<and> (\<forall>k. a \<le> k \<and> k < m \<longrightarrow> P (xs ! k)) \<and> (\<forall>k. m \<le> k \<and> k < b \<longrightarrow> \<not> P (xs ! k))"

text \<open>
  One turn of a two-sided partitioning loop: the first misplaced element from the left and the
  first from the right are exchanged, and what lies between them has been split.
\<close>

lemma split_by_exchange:
  assumes i: "a \<le> i" "i + 1 < j" "j \<le> b" "b \<le> length xs"
    and left: "\<And>k. a \<le> k \<Longrightarrow> k < i \<Longrightarrow> P (xs ! k)" and bad: "\<not> P (xs ! i)" "P (xs ! (j - 1))"
    and right: "\<And>k. j \<le> k \<Longrightarrow> k < b \<Longrightarrow> \<not> P (xs ! k)"
    and rest: "seg_perm (i + 1) (j - 1) (swap i (j - 1) xs) ys" "split_by P (i + 1) m (j - 1) ys"
  shows "seg_perm a b xs ys" "split_by P a m b ys"
proof -
  let ?zs = "swap i (j - 1) xs"
  have m: "i + 1 \<le> m" "m \<le> j - 1"
    using rest(2) by (simp_all add: split_by_def)
  have "seg_perm a b ?zs ys"
    using rest(1) i by (auto intro: seg_perm_mono)
  moreover have "seg_perm a b xs ?zs"
    using i by (intro seg_perm_swap) auto
  ultimately show "seg_perm a b xs ys"
    by (rule seg_perm_trans [rotated])
  have out: "ys ! k = (if k = i then xs ! (j - 1) else if k = j - 1 then xs ! i else xs ! k)"
    if k: "k < b" "k \<le> i \<or> j - 1 \<le> k" for k
  proof -
    have "ys ! k = ?zs ! k"
      using k i by (intro seg_perm_outside [OF rest(1)]) auto
    also have "\<dots> = (if k = i then xs ! (j - 1) else if k = j - 1 then xs ! i else xs ! k)"
      using k i by (intro nth_swap) auto
    finally show ?thesis .
  qed
  have "P (ys ! k)" if "a \<le> k" "k < m" for k
  proof (cases "k \<le> i")
    case True
    with that i m show ?thesis using left bad by (simp add: out)
  qed (use rest(2) that in \<open>simp add: split_by_def\<close>)
  moreover have "\<not> P (ys ! k)" if "m \<le> k" "k < b" for k
  proof (cases "k < j - 1")
    case False
    with that i m show ?thesis using right bad by (cases "k = j - 1") (simp_all add: out)
  qed (use rest(2) that in \<open>simp add: split_by_def\<close>)
  ultimately show "split_by P a m b ys"
    using i m by (simp add: split_by_def)
qed

lemma unat_of_nat_small: "n < 2 ^ LENGTH('a) \<Longrightarrow> unat (of_nat n :: 'a::len word) = n"
  by (simp add: unsigned_of_nat take_bit_nat_eq_self_iff)

section \<open>Byte strings\<close>

text \<open>\<open>ascii\<close> turns a string literal into the bytes of the Go string.\<close>

definition ascii :: "string \<Rightarrow> bytes" where
  "ascii s = map of_char s"

text \<open>\<open>strconv.FormatInt(n, 10)\<close> of a number that is not negative.\<close>

fun decimal :: "nat \<Rightarrow> bytes" where
  "decimal n = (if n < 10 then [48 + of_nat n] else decimal (n div 10) @ [48 + of_nat (n mod 10)])"

declare decimal.simps [simp del]

text \<open>The last \<open>n\<close> elements.\<close>

definition suffix_of :: "nat \<Rightarrow> 'a list \<Rightarrow> 'a list" where
  "suffix_of n xs = drop (length xs - n) xs"

lemma length_suffix_of [simp]: "length (suffix_of n xs) = min n (length xs)"
  by (simp add: suffix_of_def)

lemma suffix_of_all: "length xs \<le> n \<Longrightarrow> suffix_of n xs = xs"
  by (simp add: suffix_of_def)

lemma suffix_of_append: "n \<le> length ys \<Longrightarrow> suffix_of n (xs @ ys) = suffix_of n ys"
  by (simp add: suffix_of_def)

lemma suffix_of_suffix_append: "suffix_of n (suffix_of n xs @ ys) = suffix_of n (xs @ ys)"
  by (cases "length xs \<le> n") (auto simp: suffix_of_def add.commute)

section \<open>Signed 64-bit arithmetic\<close>

definition int64 :: "int \<Rightarrow> int" where
  "int64 x = signed_take_bit 63 x"

lemma int64_id: "- (2 ^ 63) \<le> x \<Longrightarrow> x < 2 ^ 63 \<Longrightarrow> int64 x = x"
  by (simp add: int64_def signed_take_bit_int_eq_self_iff)

end
