(* ===== verification/Sort_Func.thy ===== *)
theory Sort_Func
  imports Go4_Prelude
begin

text \<open>
  The generated file \<open>src/sort/zfuncversion.go\<close> of the package \<open>sort\<close>: the sorting routines over a pair of functions
  \<open>lessSwap\<close> instead of an \<open>Interface\<close>. \<open>Less\<close> and \<open>Swap\<close> may panic, as indexing a slice does, so they return
  options and every routine lives in the option monad. Loops that need an argument to end are partial functions.

  Indices are naturals. Every index expression of the code is non-negative on the calls the
  package makes, and each subtraction is guarded (\<open>j > a\<close> before \<open>j-1\<close>), so truncated
  subtraction agrees with Go's.
\<close>

record 'd lessSwap =
  Less :: "'d \<Rightarrow> nat \<Rightarrow> nat \<Rightarrow> bool option"
  Swap :: "'d \<Rightarrow> nat \<Rightarrow> nat \<Rightarrow> 'd option"

section \<open>Insertion sort and heap sort\<close>

function insertionSort_inner_func ::
  "'d lessSwap \<Rightarrow> 'd \<Rightarrow> nat \<Rightarrow> nat \<Rightarrow> 'd option" where
  "insertionSort_inner_func S d a j =
     (if j > a then do {
        l \<leftarrow> Less S d j (j - 1);
        (if l then do {
           d' \<leftarrow> Swap S d j (j - 1);
           insertionSort_inner_func S d' a (j - 1)
         } else Some d)
      } else Some d)"
  by pat_completeness auto
termination
  by (relation "measure (\<lambda>(S, d, a, j). j)") auto

function insertionSort_outer_func ::
  "'d lessSwap \<Rightarrow> 'd \<Rightarrow> nat \<Rightarrow> nat \<Rightarrow> nat \<Rightarrow> 'd option" where
  "insertionSort_outer_func S d a b i =
     (if i < b then do {
        d' \<leftarrow> insertionSort_inner_func S d a i;
        insertionSort_outer_func S d' a b (i + 1)
      } else Some d)"
  by pat_completeness auto
termination
  by (relation "measure (\<lambda>(S, d, a, b, i). b - i)") auto

definition insertionSort_func ::
  "'d lessSwap \<Rightarrow> 'd \<Rightarrow> nat \<Rightarrow> nat \<Rightarrow> 'd option" where
  "insertionSort_func S d a b = insertionSort_outer_func S d a b (a + 1)"

function siftDown_func ::
  "'d lessSwap \<Rightarrow> 'd \<Rightarrow> nat \<Rightarrow> nat \<Rightarrow> nat \<Rightarrow> 'd option" where
  "siftDown_func S d root hi first =
     (let child = 2 * root + 1 in
      if child \<ge> hi then Some d
      else do {
        right \<leftarrow> (if child + 1 < hi then Less S d (first + child) (first + child + 1)
                 else Some False);
        let child = (if right then child + 1 else child);
        l \<leftarrow> Less S d (first + root) (first + child);
        (if \<not> l then Some d
         else do {
           d' \<leftarrow> Swap S d (first + root) (first + child);
           siftDown_func S d' child hi first
         })
      })"
  by pat_completeness auto
termination
  by (relation "measure (\<lambda>(S, d, root, hi, first). hi - root)") auto

text \<open>\<open>heapSort_build_func n\<close> runs the first loop for \<open>i = n-1, \<dots>, 0\<close>; likewise \<open>heapSort_pop_func\<close> the second.\<close>

primrec heapSort_build_func ::
  "nat \<Rightarrow> 'd lessSwap \<Rightarrow> 'd \<Rightarrow> nat \<Rightarrow> nat \<Rightarrow> 'd option" where
  "heapSort_build_func 0 S d hi first = Some d"
| "heapSort_build_func (Suc i) S d hi first = do {
     d' \<leftarrow> siftDown_func S d i hi first;
     heapSort_build_func i S d' hi first
   }"

primrec heapSort_pop_func ::
  "nat \<Rightarrow> 'd lessSwap \<Rightarrow> 'd \<Rightarrow> nat \<Rightarrow> 'd option" where
  "heapSort_pop_func 0 S d first = Some d"
| "heapSort_pop_func (Suc i) S d first = do {
     d' \<leftarrow> Swap S d first (first + i);
     d'' \<leftarrow> siftDown_func S d' 0 i first;
     heapSort_pop_func i S d'' first
   }"

definition heapSort_func ::
  "'d lessSwap \<Rightarrow> 'd \<Rightarrow> nat \<Rightarrow> nat \<Rightarrow> 'd option" where
  "heapSort_func S d a b = (let first = a; hi = b - a in do {
     d' \<leftarrow> heapSort_build_func ((hi - 1) div 2 + 1) S d hi first;
     heapSort_pop_func hi S d' first
   })"

section \<open>Quicksort\<close>

definition medianOfThree_func ::
  "'d lessSwap \<Rightarrow> 'd \<Rightarrow> nat \<Rightarrow> nat \<Rightarrow> nat \<Rightarrow> 'd option" where
  "medianOfThree_func S d m1 m0 m2 = do {
     l \<leftarrow> Less S d m1 m0;
     d \<leftarrow> (if l then Swap S d m1 m0 else Some d);
     l \<leftarrow> Less S d m2 m1;
     (if l then do {
        d \<leftarrow> Swap S d m2 m1;
        l \<leftarrow> Less S d m1 m0;
        (if l then Swap S d m1 m0 else Some d)
      } else Some d)
   }"

fun swapRange_func ::
  "'d lessSwap \<Rightarrow> 'd \<Rightarrow> nat \<Rightarrow> nat \<Rightarrow> nat \<Rightarrow> 'd option" where
  "swapRange_func S d a b 0 = Some d"
| "swapRange_func S d a b (Suc n) = do {
     d' \<leftarrow> Swap S d a b;
     swapRange_func S d' (a + 1) (b + 1) n
   }"

text \<open>The four scans of \<open>doPivot_func\<close>, in the order of the code but for the last loop, which uses the last and the first.\<close>

function scan_less_func ::
  "'d lessSwap \<Rightarrow> 'd \<Rightarrow> nat \<Rightarrow> nat \<Rightarrow> nat \<Rightarrow> nat option" where
  "scan_less_func S d pivot a c =
     (if a < c then do {
        l \<leftarrow> Less S d a pivot;
        (if l then scan_less_func S d pivot (a + 1) c else Some a)
      } else Some a)"
  by pat_completeness auto
termination
  by (relation "measure (\<lambda>(S, d, pivot, a, c). c - a)") auto

function scan_not_greater_func ::
  "'d lessSwap \<Rightarrow> 'd \<Rightarrow> nat \<Rightarrow> nat \<Rightarrow> nat \<Rightarrow> nat option" where
  "scan_not_greater_func S d pivot b c =
     (if b < c then do {
        l \<leftarrow> Less S d pivot b;
        (if \<not> l then scan_not_greater_func S d pivot (b + 1) c else Some b)
      } else Some b)"
  by pat_completeness auto
termination
  by (relation "measure (\<lambda>(S, d, pivot, b, c). c - b)") auto

function scan_greater_down_func ::
  "'d lessSwap \<Rightarrow> 'd \<Rightarrow> nat \<Rightarrow> nat \<Rightarrow> nat \<Rightarrow> nat option" where
  "scan_greater_down_func S d pivot b c =
     (if b < c then do {
        l \<leftarrow> Less S d pivot (c - 1);
        (if l then scan_greater_down_func S d pivot b (c - 1) else Some c)
      } else Some c)"
  by pat_completeness auto
termination
  by (relation "measure (\<lambda>(S, d, pivot, b, c). c)") auto

function scan_not_less_down_func ::
  "'d lessSwap \<Rightarrow> 'd \<Rightarrow> nat \<Rightarrow> nat \<Rightarrow> nat \<Rightarrow> nat option" where
  "scan_not_less_down_func S d pivot a b =
     (if a < b then do {
        l \<leftarrow> Less S d (b - 1) pivot;
        (if \<not> l then scan_not_less_down_func S d pivot a (b - 1) else Some b)
      } else Some b)"
  by pat_completeness auto
termination
  by (relation "measure (\<lambda>(S, d, pivot, a, b). b)") auto

text \<open>The two partitioning loops of \<open>doPivot_func\<close>.\<close>

partial_function (option) partition_loop_func ::
  "'d lessSwap \<Rightarrow> 'd \<Rightarrow> nat \<Rightarrow> nat \<Rightarrow> nat \<Rightarrow> ('d \<times> nat \<times> nat) option" where
  "partition_loop_func S d pivot b c = do {
     b \<leftarrow> scan_not_greater_func S d pivot b c;
     c \<leftarrow> scan_greater_down_func S d pivot b c;
     (if b \<ge> c then Some (d, b, c)
      else do {
        d \<leftarrow> Swap S d b (c - 1);
        partition_loop_func S d pivot (b + 1) (c - 1)
      })
   }"

partial_function (option) protect_loop_func ::
  "'d lessSwap \<Rightarrow> 'd \<Rightarrow> nat \<Rightarrow> nat \<Rightarrow> nat \<Rightarrow> ('d \<times> nat) option" where
  "protect_loop_func S d pivot a b = do {
     b \<leftarrow> scan_not_less_down_func S d pivot a b;
     a \<leftarrow> scan_less_func S d pivot a b;
     (if a \<ge> b then Some (d, b)
      else do {
        d \<leftarrow> Swap S d a (b - 1);
        protect_loop_func S d pivot (a + 1) (b - 1)
      })
   }"

text \<open>The test of three points for equality to the pivot, and the choice of the pivot.\<close>

definition test_dups_func ::
  "'d lessSwap \<Rightarrow> 'd \<Rightarrow> nat \<Rightarrow> nat \<Rightarrow> nat \<Rightarrow> nat \<Rightarrow> nat \<Rightarrow> ('d \<times> nat \<times> nat \<times> nat) option" where
  "test_dups_func S d pivot m hi b c = do {
     l \<leftarrow> Less S d pivot (hi - 1);
     (d, c, dups) \<leftarrow> (if \<not> l then do { d \<leftarrow> Swap S d c (hi - 1); Some (d, c + 1, 1) }
                     else Some (d, c, 0::nat));
     l \<leftarrow> Less S d (b - 1) pivot;
     let (b, dups) = (if \<not> l then (b - 1, dups + 1) else (b, dups));
     l \<leftarrow> Less S d m pivot;
     (if \<not> l then do { d \<leftarrow> Swap S d m (b - 1); Some (d, b - 1, c, dups + 1) }
      else Some (d, b, c, dups))
   }"

definition choose_pivot_func ::
  "'d lessSwap \<Rightarrow> 'd \<Rightarrow> nat \<Rightarrow> nat \<Rightarrow> 'd option" where
  "choose_pivot_func S d lo hi = (let m = lo + (hi - lo) div 2 in do {
     d \<leftarrow> (if hi - lo > 40 then (let s = (hi - lo) div 8 in do {
            d \<leftarrow> medianOfThree_func S d lo (lo + s) (lo + 2 * s);
            d \<leftarrow> medianOfThree_func S d m (m - s) (m + s);
            medianOfThree_func S d (hi - 1) (hi - 1 - s) (hi - 1 - 2 * s)
          }) else Some d);
     medianOfThree_func S d lo m (hi - 1)
   })"

definition doPivot_func ::
  "'d lessSwap \<Rightarrow> 'd \<Rightarrow> nat \<Rightarrow> nat \<Rightarrow> ('d \<times> nat \<times> nat) option" where
  "doPivot_func S d lo hi = (let m = lo + (hi - lo) div 2; pivot = lo in do {
     d \<leftarrow> choose_pivot_func S d lo hi;
     a \<leftarrow> scan_less_func S d pivot (lo + 1) (hi - 1);
     (d, b, c) \<leftarrow> partition_loop_func S d pivot a (hi - 1);
     (d, b, c, protect) \<leftarrow>
       (if \<not> hi - c < 5 \<and> hi - c < (hi - lo) div 4 then do {
          (d, b, c, dups) \<leftarrow> test_dups_func S d pivot m hi b c;
          Some (d, b, c, dups > 1)
        } else Some (d, b, c, hi - c < 5));
     (d, b) \<leftarrow> (if protect then protect_loop_func S d pivot a b else Some (d, b));
     d \<leftarrow> Swap S d pivot (b - 1);
     Some (d, b - 1, c)
   })"

function shell_pass_func ::
  "'d lessSwap \<Rightarrow> 'd \<Rightarrow> nat \<Rightarrow> nat \<Rightarrow> 'd option" where
  "shell_pass_func S d b i =
     (if i < b then do {
        l \<leftarrow> Less S d i (i - 6);
        d' \<leftarrow> (if l then Swap S d i (i - 6) else Some d);
        shell_pass_func S d' b (i + 1)
      } else Some d)"
  by pat_completeness auto
termination
  by (relation "measure (\<lambda>(S, d, b, i). b - i)") auto

text \<open>The second recursive call is the next turn of the \<open>for\<close> loop.\<close>

function quickSort_func ::
  "'d lessSwap \<Rightarrow> 'd \<Rightarrow> nat \<Rightarrow> nat \<Rightarrow> nat \<Rightarrow> 'd option" where
  "quickSort_func S d a b maxDepth =
     (if b - a > 12 then
        (if maxDepth = 0 then heapSort_func S d a b
         else do {
           (d, mlo, mhi) \<leftarrow> doPivot_func S d a b;
           (if mlo - a < b - mhi then do {
              d \<leftarrow> quickSort_func S d a mlo (maxDepth - 1);
              quickSort_func S d mhi b (maxDepth - 1)
            } else do {
              d \<leftarrow> quickSort_func S d mhi b (maxDepth - 1);
              quickSort_func S d a mlo (maxDepth - 1)
            })
         })
      else if b - a > 1 then do {
        d \<leftarrow> shell_pass_func S d b (a + 6);
        insertionSort_func S d a b
      } else Some d)"
  by pat_completeness auto
termination
  by (relation "measure (\<lambda>(S, d, a, b, maxDepth). maxDepth)") auto

section \<open>Stable sorting\<close>

text \<open>The three searches of \<open>symMerge_func\<close> and its two insertions.\<close>

function search_ge_func ::
  "'d lessSwap \<Rightarrow> 'd \<Rightarrow> nat \<Rightarrow> nat \<Rightarrow> nat \<Rightarrow> nat option" where
  "search_ge_func S d a i j =
     (if i < j then (let h = i + (j - i) div 2 in do {
        l \<leftarrow> Less S d h a;
        (if l then search_ge_func S d a (h + 1) j else search_ge_func S d a i h)
      }) else Some i)"
  by pat_completeness auto
termination
  by (relation "measure (\<lambda>(S, d, a, i, j). j - i)") auto

function search_gt_func ::
  "'d lessSwap \<Rightarrow> 'd \<Rightarrow> nat \<Rightarrow> nat \<Rightarrow> nat \<Rightarrow> nat option" where
  "search_gt_func S d m i j =
     (if i < j then (let h = i + (j - i) div 2 in do {
        l \<leftarrow> Less S d m h;
        (if \<not> l then search_gt_func S d m (h + 1) j else search_gt_func S d m i h)
      }) else Some i)"
  by pat_completeness auto
termination
  by (relation "measure (\<lambda>(S, d, m, i, j). j - i)") auto

function search_sym_func ::
  "'d lessSwap \<Rightarrow> 'd \<Rightarrow> nat \<Rightarrow> nat \<Rightarrow> nat \<Rightarrow> nat option" where
  "search_sym_func S d p start r =
     (if start < r then (let c = start + (r - start) div 2 in do {
        l \<leftarrow> Less S d (p - c) c;
        (if \<not> l then search_sym_func S d p (c + 1) r else search_sym_func S d p start c)
      }) else Some start)"
  by pat_completeness auto
termination
  by (relation "measure (\<lambda>(S, d, p, start, r). r - start)") auto

function bubble_up_func ::
  "'d lessSwap \<Rightarrow> 'd \<Rightarrow> nat \<Rightarrow> nat \<Rightarrow> 'd option" where
  "bubble_up_func S d k i =
     (if k < i - 1 then do { d' \<leftarrow> Swap S d k (k + 1); bubble_up_func S d' (k + 1) i } else Some d)"
  by pat_completeness auto
termination
  by (relation "measure (\<lambda>(S, d, k, i). i - k)") auto

function bubble_down_func ::
  "'d lessSwap \<Rightarrow> 'd \<Rightarrow> nat \<Rightarrow> nat \<Rightarrow> 'd option" where
  "bubble_down_func S d k i =
     (if k > i then do { d' \<leftarrow> Swap S d k (k - 1); bubble_down_func S d' (k - 1) i } else Some d)"
  by pat_completeness auto
termination
  by (relation "measure (\<lambda>(S, d, k, i). k)") auto

text \<open>The loop of \<open>rotate_func\<close> does not end on degenerate arguments.\<close>

partial_function (option) rotate_loop_func ::
  "'d lessSwap \<Rightarrow> 'd \<Rightarrow> nat \<Rightarrow> nat \<Rightarrow> nat \<Rightarrow> 'd option" where
  "rotate_loop_func S d m i j =
     (if i \<noteq> j then
        (if i > j then do {
           d' \<leftarrow> swapRange_func S d (m - i) m j;
           rotate_loop_func S d' m (i - j) j
         } else do {
           d' \<leftarrow> swapRange_func S d (m - i) (m + j - i) i;
           rotate_loop_func S d' m i (j - i)
         })
      else swapRange_func S d (m - i) m i)"

definition rotate_func ::
  "'d lessSwap \<Rightarrow> 'd \<Rightarrow> nat \<Rightarrow> nat \<Rightarrow> nat \<Rightarrow> 'd option" where
  "rotate_func S d a m b = rotate_loop_func S d m (m - a) (b - m)"

lemma halves_smaller:
  fixes a b mid :: nat
  assumes "mid = a + (b - a) div 2"
  shows "a < s \<and> s < mid \<Longrightarrow> mid - a < b - a" and "mid < e \<and> e < b \<Longrightarrow> b - mid < b - a"
  using assms by linarith+

function symMerge_func ::
  "'d lessSwap \<Rightarrow> 'd \<Rightarrow> nat \<Rightarrow> nat \<Rightarrow> nat \<Rightarrow> 'd option" where
  "symMerge_func S d a m b =
     (if m - a = 1 then do {
        i \<leftarrow> search_ge_func S d a m b;
        bubble_up_func S d a i
      }
      else if b - m = 1 then do {
        i \<leftarrow> search_gt_func S d m a m;
        bubble_down_func S d m i
      }
      else (let mid = a + (b - a) div 2; n = mid + m;
                start = (if m > mid then n - b else a);
                r = (if m > mid then mid else m);
                p = n - 1 in do {
        start \<leftarrow> search_sym_func S d p start r;
        let end = n - start;
        d \<leftarrow> (if start < m \<and> m < end then rotate_func S d start m end else Some d);
        d \<leftarrow> (if a < start \<and> start < mid then symMerge_func S d a start mid else Some d);
        (if mid < end \<and> end < b then symMerge_func S d mid end b else Some d)
      }))"
  by pat_completeness auto
termination
  by (relation "measure (\<lambda>(S, d, a, m, b). b - a)", simp, unfold in_measure prod.case,
      erule (1) halves_smaller(1), erule (1) halves_smaller(2))

text \<open>The loops of \<open>stable_func\<close>: the blocks, the merges of one level, the levels.\<close>

partial_function (option) stable_blocks_func ::
  "'d lessSwap \<Rightarrow> 'd \<Rightarrow> nat \<Rightarrow> nat \<Rightarrow> nat \<Rightarrow> nat \<Rightarrow> 'd option" where
  "stable_blocks_func S d blockSize n a b =
     (if b \<le> n then do {
        d' \<leftarrow> insertionSort_func S d a b;
        stable_blocks_func S d' blockSize n b (b + blockSize)
      } else insertionSort_func S d a n)"

partial_function (option) merge_pass_func ::
  "'d lessSwap \<Rightarrow> 'd \<Rightarrow> nat \<Rightarrow> nat \<Rightarrow> nat \<Rightarrow> nat \<Rightarrow> 'd option" where
  "merge_pass_func S d blockSize n a b =
     (if b \<le> n then do {
        d' \<leftarrow> symMerge_func S d a (a + blockSize) b;
        merge_pass_func S d' blockSize n b (b + 2 * blockSize)
      } else (let m = a + blockSize in if m < n then symMerge_func S d a m n else Some d))"

partial_function (option) merge_levels_func ::
  "'d lessSwap \<Rightarrow> 'd \<Rightarrow> nat \<Rightarrow> nat \<Rightarrow> 'd option" where
  "merge_levels_func S d blockSize n =
     (if blockSize < n then do {
        d' \<leftarrow> merge_pass_func S d blockSize n 0 (2 * blockSize);
        merge_levels_func S d' (blockSize * 2) n
      } else Some d)"

definition stable_func :: "'d lessSwap \<Rightarrow> 'd \<Rightarrow> nat \<Rightarrow> 'd option" where
  "stable_func S d n = (let blockSize = 20 in do {
     d \<leftarrow> stable_blocks_func S d blockSize n 0 blockSize;
     merge_levels_func S d blockSize n
   })"

declare insertionSort_inner_func.simps [simp del]
  insertionSort_outer_func.simps [simp del]
  siftDown_func.simps [simp del]
  scan_less_func.simps [simp del]
  scan_not_greater_func.simps [simp del]
  scan_greater_down_func.simps [simp del]
  scan_not_less_down_func.simps [simp del]
  shell_pass_func.simps [simp del]
  quickSort_func.simps [simp del]
  search_ge_func.simps [simp del]
  search_gt_func.simps [simp del]
  search_sym_func.simps [simp del]
  bubble_up_func.simps [simp del]
  bubble_down_func.simps [simp del]
  symMerge_func.simps [simp del]

end
