(* ===== verification/Sort_Model.thy ===== *)
theory Sort_Model
  imports Sort_Func
begin

text \<open>
  The package \<open>sort\<close> (\<open>src/sort/sort.go\<close>, \<open>src/sort/search.go\<close>).

  An implementation of Go's \<open>Interface\<close> is a record of functions over a state type \<open>'d\<close> (the
  collection being sorted). \<open>Less\<close> and \<open>Swap\<close> may panic, as indexing a slice does, so they
  return options and every routine lives in the option monad. \<open>lessSwap\<close> is the pair of
  functions; \<open>Interface\<close> extends it by \<open>Len\<close>. The routines of \<open>sort.go\<close> are written over the
  extensible record \<open>('d, 'x) lessSwap_scheme\<close> and used at \<open>'d Interface\<close>; the \<open>_func\<close> variants that
  \<open>genzfunc.go\<close> derives from them are those of \<open>Sort_Func\<close>.

  Indices are naturals. Every index expression of the code is non-negative on the calls the
  package makes, and each subtraction is guarded (\<open>j > a\<close> before \<open>j-1\<close>), so truncated
  subtraction agrees with Go's.
\<close>

record 'd Interface = "'d lessSwap" +
  Len :: "'d \<Rightarrow> nat"

record 'd funcs =
  funcs_length :: nat
  funcs_lessSwap :: "'d lessSwap"

text \<open>The dynamic type test \<open>data.(*funcs)\<close> of \<open>Sort\<close> and \<open>Stable\<close> distinguishes these.\<close>

datatype 'd sortable = Iface "'d Interface" | Funcs "'d funcs"

definition MakeInterface ::
  "nat \<Rightarrow> ('d \<Rightarrow> nat \<Rightarrow> nat \<Rightarrow> 'd option) \<Rightarrow> ('d \<Rightarrow> nat \<Rightarrow> nat \<Rightarrow> bool option) \<Rightarrow> 'd sortable" where
  "MakeInterface len sw ls =
     Funcs \<lparr>funcs_length = len, funcs_lessSwap = \<lparr>Less = ls, Swap = sw\<rparr>\<rparr>"

section \<open>Insertion sort\<close>

function insertionSort_inner ::
  "('d, 'x) lessSwap_scheme \<Rightarrow> 'd \<Rightarrow> nat \<Rightarrow> nat \<Rightarrow> 'd option" where
  "insertionSort_inner S d a j =
     (if j > a then do {
        l \<leftarrow> Less S d j (j - 1);
        (if l then do {
           d' \<leftarrow> Swap S d j (j - 1);
           insertionSort_inner S d' a (j - 1)
         } else Some d)
      } else Some d)"
  by pat_completeness auto
termination
  by (relation "measure (\<lambda>(S, d, a, j). j)") auto

function insertionSort_outer ::
  "('d, 'x) lessSwap_scheme \<Rightarrow> 'd \<Rightarrow> nat \<Rightarrow> nat \<Rightarrow> nat \<Rightarrow> 'd option" where
  "insertionSort_outer S d a b i =
     (if i < b then do {
        d' \<leftarrow> insertionSort_inner S d a i;
        insertionSort_outer S d' a b (i + 1)
      } else Some d)"
  by pat_completeness auto
termination
  by (relation "measure (\<lambda>(S, d, a, b, i). b - i)") auto

definition insertionSort ::
  "('d, 'x) lessSwap_scheme \<Rightarrow> 'd \<Rightarrow> nat \<Rightarrow> nat \<Rightarrow> 'd option" where
  "insertionSort S d a b = insertionSort_outer S d a b (a + 1)"

section \<open>Heap sort\<close>

function siftDown ::
  "('d, 'x) lessSwap_scheme \<Rightarrow> 'd \<Rightarrow> nat \<Rightarrow> nat \<Rightarrow> nat \<Rightarrow> 'd option" where
  "siftDown S d root hi first =
     (let child = 2 * root + 1 in
      if child \<ge> hi then Some d
      else do {
        right \<leftarrow> (if child + 1 < hi then Less S d (first + child) (first + child + 1)
                 else Some False);
        let child = (if right then child + 1 else child);
        l \<leftarrow> Less S d (first + root) (first + child);
        (if \<not> l then Some d
         else do {
           d' \<leftarrow> Swap S d (first + root) (first + child);
           siftDown S d' child hi first
         })
      })"
  by pat_completeness auto
termination
  by (relation "measure (\<lambda>(S, d, root, hi, first). hi - root)") auto

text \<open>\<open>heapSort_build n\<close> runs the loop body for \<open>i = n-1, \<dots>, 0\<close>; likewise \<open>heapSort_pop\<close>.\<close>

primrec heapSort_build ::
  "nat \<Rightarrow> ('d, 'x) lessSwap_scheme \<Rightarrow> 'd \<Rightarrow> nat \<Rightarrow> nat \<Rightarrow> 'd option" where
  "heapSort_build 0 S d hi first = Some d"
| "heapSort_build (Suc i) S d hi first = do {
     d' \<leftarrow> siftDown S d i hi first;
     heapSort_build i S d' hi first
   }"

primrec heapSort_pop ::
  "nat \<Rightarrow> ('d, 'x) lessSwap_scheme \<Rightarrow> 'd \<Rightarrow> nat \<Rightarrow> 'd option" where
  "heapSort_pop 0 S d first = Some d"
| "heapSort_pop (Suc i) S d first = do {
     d' \<leftarrow> Swap S d first (first + i);
     d'' \<leftarrow> siftDown S d' 0 i first;
     heapSort_pop i S d'' first
   }"

definition heapSort ::
  "('d, 'x) lessSwap_scheme \<Rightarrow> 'd \<Rightarrow> nat \<Rightarrow> nat \<Rightarrow> 'd option" where
  "heapSort S d a b = (let first = a; hi = b - a in do {
     d' \<leftarrow> heapSort_build ((hi - 1) div 2 + 1) S d hi first;
     heapSort_pop hi S d' first
   })"

section \<open>Quicksort\<close>

definition medianOfThree ::
  "('d, 'x) lessSwap_scheme \<Rightarrow> 'd \<Rightarrow> nat \<Rightarrow> nat \<Rightarrow> nat \<Rightarrow> 'd option" where
  "medianOfThree S d m1 m0 m2 = do {
     l \<leftarrow> Less S d m1 m0;
     d \<leftarrow> (if l then Swap S d m1 m0 else Some d);
     l \<leftarrow> Less S d m2 m1;
     (if l then do {
        d \<leftarrow> Swap S d m2 m1;
        l \<leftarrow> Less S d m1 m0;
        (if l then Swap S d m1 m0 else Some d)
      } else Some d)
   }"

fun swapRange ::
  "('d, 'x) lessSwap_scheme \<Rightarrow> 'd \<Rightarrow> nat \<Rightarrow> nat \<Rightarrow> nat \<Rightarrow> 'd option" where
  "swapRange S d a b 0 = Some d"
| "swapRange S d a b (Suc n) = do {
     d' \<leftarrow> Swap S d a b;
     swapRange S d' (a + 1) (b + 1) n
   }"

text \<open>\<open>for ; a < c && data.Less(a, pivot); a++\<close>\<close>

function scan_less ::
  "('d, 'x) lessSwap_scheme \<Rightarrow> 'd \<Rightarrow> nat \<Rightarrow> nat \<Rightarrow> nat \<Rightarrow> nat option" where
  "scan_less S d pivot a c =
     (if a < c then do {
        l \<leftarrow> Less S d a pivot;
        (if l then scan_less S d pivot (a + 1) c else Some a)
      } else Some a)"
  by pat_completeness auto
termination
  by (relation "measure (\<lambda>(S, d, pivot, a, c). c - a)") auto

text \<open>\<open>for ; b < c && !data.Less(pivot, b); b++\<close>\<close>

function scan_not_greater ::
  "('d, 'x) lessSwap_scheme \<Rightarrow> 'd \<Rightarrow> nat \<Rightarrow> nat \<Rightarrow> nat \<Rightarrow> nat option" where
  "scan_not_greater S d pivot b c =
     (if b < c then do {
        l \<leftarrow> Less S d pivot b;
        (if \<not> l then scan_not_greater S d pivot (b + 1) c else Some b)
      } else Some b)"
  by pat_completeness auto
termination
  by (relation "measure (\<lambda>(S, d, pivot, b, c). c - b)") auto

text \<open>\<open>for ; b < c && data.Less(pivot, c-1); c--\<close>\<close>

function scan_greater_down ::
  "('d, 'x) lessSwap_scheme \<Rightarrow> 'd \<Rightarrow> nat \<Rightarrow> nat \<Rightarrow> nat \<Rightarrow> nat option" where
  "scan_greater_down S d pivot b c =
     (if b < c then do {
        l \<leftarrow> Less S d pivot (c - 1);
        (if l then scan_greater_down S d pivot b (c - 1) else Some c)
      } else Some c)"
  by pat_completeness auto
termination
  by (relation "measure (\<lambda>(S, d, pivot, b, c). c)") auto

text \<open>\<open>for ; a < b && !data.Less(b-1, pivot); b--\<close>\<close>

function scan_not_less_down ::
  "('d, 'x) lessSwap_scheme \<Rightarrow> 'd \<Rightarrow> nat \<Rightarrow> nat \<Rightarrow> nat \<Rightarrow> nat option" where
  "scan_not_less_down S d pivot a b =
     (if a < b then do {
        l \<leftarrow> Less S d (b - 1) pivot;
        (if \<not> l then scan_not_less_down S d pivot a (b - 1) else Some b)
      } else Some b)"
  by pat_completeness auto
termination
  by (relation "measure (\<lambda>(S, d, pivot, a, b). b)") auto

text \<open>
  The two partitioning loops of \<open>doPivot\<close>. Their scans only move the bounds towards each other,
  but that the loops end is shown with the correctness lemmas; \<open>None\<close> would stand for a loop
  that does not end.
\<close>

partial_function (option) partition_loop ::
  "('d, 'x) lessSwap_scheme \<Rightarrow> 'd \<Rightarrow> nat \<Rightarrow> nat \<Rightarrow> nat \<Rightarrow> ('d \<times> nat \<times> nat) option" where
  "partition_loop S d pivot b c = do {
     b \<leftarrow> scan_not_greater S d pivot b c;
     c \<leftarrow> scan_greater_down S d pivot b c;
     (if b \<ge> c then Some (d, b, c)
      else do {
        d \<leftarrow> Swap S d b (c - 1);
        partition_loop S d pivot (b + 1) (c - 1)
      })
   }"

partial_function (option) protect_loop ::
  "('d, 'x) lessSwap_scheme \<Rightarrow> 'd \<Rightarrow> nat \<Rightarrow> nat \<Rightarrow> nat \<Rightarrow> ('d \<times> nat) option" where
  "protect_loop S d pivot a b = do {
     b \<leftarrow> scan_not_less_down S d pivot a b;
     a \<leftarrow> scan_less S d pivot a b;
     (if a \<ge> b then Some (d, b)
      else do {
        d \<leftarrow> Swap S d a (b - 1);
        protect_loop S d pivot (a + 1) (b - 1)
      })
   }"

text \<open>The test of three points for equality to the pivot: returns \<open>(data, b, c, dups)\<close>.\<close>

definition test_dups ::
  "('d, 'x) lessSwap_scheme \<Rightarrow> 'd \<Rightarrow> nat \<Rightarrow> nat \<Rightarrow> nat \<Rightarrow> nat \<Rightarrow> nat \<Rightarrow> ('d \<times> nat \<times> nat \<times> nat) option" where
  "test_dups S d pivot m hi b c = do {
     l \<leftarrow> Less S d pivot (hi - 1);
     (d, c, dups) \<leftarrow> (if \<not> l then do { d \<leftarrow> Swap S d c (hi - 1); Some (d, c + 1, 1) }
                     else Some (d, c, 0::nat));
     l \<leftarrow> Less S d (b - 1) pivot;
     let (b, dups) = (if \<not> l then (b - 1, dups + 1) else (b, dups));
     l \<leftarrow> Less S d m pivot;
     (if \<not> l then do { d \<leftarrow> Swap S d m (b - 1); Some (d, b - 1, c, dups + 1) }
      else Some (d, b, c, dups))
   }"

definition choose_pivot ::
  "('d, 'x) lessSwap_scheme \<Rightarrow> 'd \<Rightarrow> nat \<Rightarrow> nat \<Rightarrow> 'd option" where
  "choose_pivot S d lo hi = (let m = lo + (hi - lo) div 2 in do {
     d \<leftarrow> (if hi - lo > 40 then (let s = (hi - lo) div 8 in do {
            d \<leftarrow> medianOfThree S d lo (lo + s) (lo + 2 * s);
            d \<leftarrow> medianOfThree S d m (m - s) (m + s);
            medianOfThree S d (hi - 1) (hi - 1 - s) (hi - 1 - 2 * s)
          }) else Some d);
     medianOfThree S d lo m (hi - 1)
   })"

definition doPivot ::
  "('d, 'x) lessSwap_scheme \<Rightarrow> 'd \<Rightarrow> nat \<Rightarrow> nat \<Rightarrow> ('d \<times> nat \<times> nat) option" where
  "doPivot S d lo hi = (let m = lo + (hi - lo) div 2; pivot = lo in do {
     d \<leftarrow> choose_pivot S d lo hi;
     a \<leftarrow> scan_less S d pivot (lo + 1) (hi - 1);
     (d, b, c) \<leftarrow> partition_loop S d pivot a (hi - 1);
     (d, b, c, protect) \<leftarrow>
       (if \<not> hi - c < 5 \<and> hi - c < (hi - lo) div 4 then do {
          (d, b, c, dups) \<leftarrow> test_dups S d pivot m hi b c;
          Some (d, b, c, dups > 1)
        } else Some (d, b, c, hi - c < 5));
     (d, b) \<leftarrow> (if protect then protect_loop S d pivot a b else Some (d, b));
     d \<leftarrow> Swap S d pivot (b - 1);
     Some (d, b - 1, c)
   })"

function shell_pass ::
  "('d, 'x) lessSwap_scheme \<Rightarrow> 'd \<Rightarrow> nat \<Rightarrow> nat \<Rightarrow> 'd option" where
  "shell_pass S d b i =
     (if i < b then do {
        l \<leftarrow> Less S d i (i - 6);
        d' \<leftarrow> (if l then Swap S d i (i - 6) else Some d);
        shell_pass S d' b (i + 1)
      } else Some d)"
  by pat_completeness auto
termination
  by (relation "measure (\<lambda>(S, d, b, i). b - i)") auto

text \<open>
  Each turn of the \<open>for\<close> loop of \<open>quickSort\<close> decrements \<open>maxDepth\<close>; the assignment
  \<open>a = mhi\<close> (or \<open>b = mlo\<close>) followed by the next turn is the second recursive call.
\<close>

function quickSort ::
  "('d, 'x) lessSwap_scheme \<Rightarrow> 'd \<Rightarrow> nat \<Rightarrow> nat \<Rightarrow> nat \<Rightarrow> 'd option" where
  "quickSort S d a b maxDepth =
     (if b - a > 12 then
        (if maxDepth = 0 then heapSort S d a b
         else do {
           (d, mlo, mhi) \<leftarrow> doPivot S d a b;
           (if mlo - a < b - mhi then do {
              d \<leftarrow> quickSort S d a mlo (maxDepth - 1);
              quickSort S d mhi b (maxDepth - 1)
            } else do {
              d \<leftarrow> quickSort S d mhi b (maxDepth - 1);
              quickSort S d a mlo (maxDepth - 1)
            })
         })
      else if b - a > 1 then do {
        d \<leftarrow> shell_pass S d b (a + 6);
        insertionSort S d a b
      } else Some d)"
  by pat_completeness auto
termination
  by (relation "measure (\<lambda>(S, d, a, b, maxDepth). maxDepth)") auto

fun maxDepth_loop :: "nat \<Rightarrow> nat \<Rightarrow> nat" where
  "maxDepth_loop i depth = (if i > 0 then maxDepth_loop (i div 2) (depth + 1) else depth)"

definition maxDepth :: "nat \<Rightarrow> nat" where
  "maxDepth n = maxDepth_loop n 0 * 2"

fun Sort :: "'d sortable \<Rightarrow> 'd \<Rightarrow> 'd option" where
  "Sort (Funcs fs) d = (let n = funcs_length fs in quickSort_func (funcs_lessSwap fs) d 0 n (maxDepth n))"
| "Sort (Iface I) d = (let n = Len I d in quickSort I d 0 n (maxDepth n))"

definition With ::
  "nat \<Rightarrow> ('d \<Rightarrow> nat \<Rightarrow> nat \<Rightarrow> 'd option) \<Rightarrow> ('d \<Rightarrow> nat \<Rightarrow> nat \<Rightarrow> bool option) \<Rightarrow> 'd \<Rightarrow> 'd option" where
  "With len sw ls d = quickSort_func \<lparr>Less = ls, Swap = sw\<rparr> d 0 len (maxDepth len)"

definition Reverse :: "('d, 'x) lessSwap_scheme \<Rightarrow> ('d, 'x) lessSwap_scheme" where
  "Reverse S = S\<lparr>Less := (\<lambda>d i j. Less S d j i)\<rparr>"

primrec IsSorted_loop :: "nat \<Rightarrow> ('d, 'x) lessSwap_scheme \<Rightarrow> 'd \<Rightarrow> bool option" where
  "IsSorted_loop 0 S d = Some True"
| "IsSorted_loop (Suc i) S d =
     (if i = 0 then Some True
      else do {
        l \<leftarrow> Less S d i (i - 1);
        (if l then Some False else IsSorted_loop i S d)
      })"

definition IsSorted :: "'d Interface \<Rightarrow> 'd \<Rightarrow> bool option" where
  "IsSorted I d = IsSorted_loop (Len I d) I d"

section \<open>Stable sorting\<close>

text \<open>The first binary search of \<open>symMerge\<close>: lowest \<open>i\<close> in \<open>[m, b)\<close> with \<open>data[i] >= data[a]\<close>.\<close>

function search_ge ::
  "('d, 'x) lessSwap_scheme \<Rightarrow> 'd \<Rightarrow> nat \<Rightarrow> nat \<Rightarrow> nat \<Rightarrow> nat option" where
  "search_ge S d a i j =
     (if i < j then (let h = i + (j - i) div 2 in do {
        l \<leftarrow> Less S d h a;
        (if l then search_ge S d a (h + 1) j else search_ge S d a i h)
      }) else Some i)"
  by pat_completeness auto
termination
  by (relation "measure (\<lambda>(S, d, a, i, j). j - i)") auto

text \<open>The second one: lowest \<open>i\<close> in \<open>[a, m)\<close> with \<open>data[i] > data[m]\<close>.\<close>

function search_gt ::
  "('d, 'x) lessSwap_scheme \<Rightarrow> 'd \<Rightarrow> nat \<Rightarrow> nat \<Rightarrow> nat \<Rightarrow> nat option" where
  "search_gt S d m i j =
     (if i < j then (let h = i + (j - i) div 2 in do {
        l \<leftarrow> Less S d m h;
        (if \<not> l then search_gt S d m (h + 1) j else search_gt S d m i h)
      }) else Some i)"
  by pat_completeness auto
termination
  by (relation "measure (\<lambda>(S, d, m, i, j). j - i)") auto

text \<open>The symmetric search: lowest \<open>c\<close> in \<open>[start, r)\<close> with \<open>data[p-c] < data[c]\<close>.\<close>

function search_sym ::
  "('d, 'x) lessSwap_scheme \<Rightarrow> 'd \<Rightarrow> nat \<Rightarrow> nat \<Rightarrow> nat \<Rightarrow> nat option" where
  "search_sym S d p start r =
     (if start < r then (let c = start + (r - start) div 2 in do {
        l \<leftarrow> Less S d (p - c) c;
        (if \<not> l then search_sym S d p (c + 1) r else search_sym S d p start c)
      }) else Some start)"
  by pat_completeness auto
termination
  by (relation "measure (\<lambda>(S, d, p, start, r). r - start)") auto

text \<open>\<open>for k := a; k < i-1; k++ { data.Swap(k, k+1) }\<close>\<close>

function bubble_up ::
  "('d, 'x) lessSwap_scheme \<Rightarrow> 'd \<Rightarrow> nat \<Rightarrow> nat \<Rightarrow> 'd option" where
  "bubble_up S d k i =
     (if k < i - 1 then do { d' \<leftarrow> Swap S d k (k + 1); bubble_up S d' (k + 1) i } else Some d)"
  by pat_completeness auto
termination
  by (relation "measure (\<lambda>(S, d, k, i). i - k)") auto

text \<open>\<open>for k := m; k > i; k-- { data.Swap(k, k-1) }\<close>\<close>

function bubble_down ::
  "('d, 'x) lessSwap_scheme \<Rightarrow> 'd \<Rightarrow> nat \<Rightarrow> nat \<Rightarrow> 'd option" where
  "bubble_down S d k i =
     (if k > i then do { d' \<leftarrow> Swap S d k (k - 1); bubble_down S d' (k - 1) i } else Some d)"
  by pat_completeness auto
termination
  by (relation "measure (\<lambda>(S, d, k, i). k)") auto

text \<open>
  The loop of \<open>rotate\<close> does not end on degenerate arguments (\<open>j = 0 < i\<close> keeps subtracting
  \<open>0\<close>), which is why the code requires \<open>a < m && m < b\<close>.
\<close>

partial_function (option) rotate_loop ::
  "('d, 'x) lessSwap_scheme \<Rightarrow> 'd \<Rightarrow> nat \<Rightarrow> nat \<Rightarrow> nat \<Rightarrow> 'd option" where
  "rotate_loop S d m i j =
     (if i \<noteq> j then
        (if i > j then do {
           d' \<leftarrow> swapRange S d (m - i) m j;
           rotate_loop S d' m (i - j) j
         } else do {
           d' \<leftarrow> swapRange S d (m - i) (m + j - i) i;
           rotate_loop S d' m i (j - i)
         })
      else swapRange S d (m - i) m i)"

definition rotate_data ::
  "('d, 'x) lessSwap_scheme \<Rightarrow> 'd \<Rightarrow> nat \<Rightarrow> nat \<Rightarrow> nat \<Rightarrow> 'd option" where
  "rotate_data S d a m b = rotate_loop S d m (m - a) (b - m)"

function symMerge ::
  "('d, 'x) lessSwap_scheme \<Rightarrow> 'd \<Rightarrow> nat \<Rightarrow> nat \<Rightarrow> nat \<Rightarrow> 'd option" where
  "symMerge S d a m b =
     (if m - a = 1 then do {
        i \<leftarrow> search_ge S d a m b;
        bubble_up S d a i
      }
      else if b - m = 1 then do {
        i \<leftarrow> search_gt S d m a m;
        bubble_down S d m i
      }
      else (let mid = a + (b - a) div 2; n = mid + m;
                start = (if m > mid then n - b else a);
                r = (if m > mid then mid else m);
                p = n - 1 in do {
        start \<leftarrow> search_sym S d p start r;
        let end = n - start;
        d \<leftarrow> (if start < m \<and> m < end then rotate_data S d start m end else Some d);
        d \<leftarrow> (if a < start \<and> start < mid then symMerge S d a start mid else Some d);
        (if mid < end \<and> end < b then symMerge S d mid end b else Some d)
      }))"
  by pat_completeness auto
termination
  by (relation "measure (\<lambda>(S, d, a, m, b). b - a)", simp, unfold in_measure prod.case,
      erule (1) halves_smaller(1), erule (1) halves_smaller(2))

partial_function (option) stable_blocks ::
  "('d, 'x) lessSwap_scheme \<Rightarrow> 'd \<Rightarrow> nat \<Rightarrow> nat \<Rightarrow> nat \<Rightarrow> nat \<Rightarrow> 'd option" where
  "stable_blocks S d blockSize n a b =
     (if b \<le> n then do {
        d' \<leftarrow> insertionSort S d a b;
        stable_blocks S d' blockSize n b (b + blockSize)
      } else insertionSort S d a n)"

partial_function (option) merge_pass ::
  "('d, 'x) lessSwap_scheme \<Rightarrow> 'd \<Rightarrow> nat \<Rightarrow> nat \<Rightarrow> nat \<Rightarrow> nat \<Rightarrow> 'd option" where
  "merge_pass S d blockSize n a b =
     (if b \<le> n then do {
        d' \<leftarrow> symMerge S d a (a + blockSize) b;
        merge_pass S d' blockSize n b (b + 2 * blockSize)
      } else (let m = a + blockSize in if m < n then symMerge S d a m n else Some d))"

partial_function (option) merge_levels ::
  "('d, 'x) lessSwap_scheme \<Rightarrow> 'd \<Rightarrow> nat \<Rightarrow> nat \<Rightarrow> 'd option" where
  "merge_levels S d blockSize n =
     (if blockSize < n then do {
        d' \<leftarrow> merge_pass S d blockSize n 0 (2 * blockSize);
        merge_levels S d' (blockSize * 2) n
      } else Some d)"

definition stable :: "('d, 'x) lessSwap_scheme \<Rightarrow> 'd \<Rightarrow> nat \<Rightarrow> 'd option" where
  "stable S d n = (let blockSize = 20 in do {
     d \<leftarrow> stable_blocks S d blockSize n 0 blockSize;
     merge_levels S d blockSize n
   })"

fun Stable :: "'d sortable \<Rightarrow> 'd \<Rightarrow> 'd option" where
  "Stable (Funcs fs) d = stable_func (funcs_lessSwap fs) d (funcs_length fs)"
| "Stable (Iface I) d = stable I d (Len I d)"

section \<open>Slices\<close>

text \<open>
  The methods of \<open>IntSlice\<close>, \<open>Float64Slice\<close>, \<open>StringSlice\<close> and of the swapper made by
  \<open>reflectutil.Swapper\<close>: indexing out of range panics.
\<close>

definition slice_Less :: "('a \<Rightarrow> 'a \<Rightarrow> bool) \<Rightarrow> 'a list \<Rightarrow> nat \<Rightarrow> nat \<Rightarrow> bool option" where
  "slice_Less lt p i j =
     (if i < length p \<and> j < length p then Some (lt (p ! i) (p ! j)) else None)"

definition slice_Swap :: "'a list \<Rightarrow> nat \<Rightarrow> nat \<Rightarrow> 'a list option" where
  "slice_Swap p i j =
     (if i < length p \<and> j < length p then Some (p[i := p ! j, j := p ! i]) else None)"

definition slice_Interface :: "('a \<Rightarrow> 'a \<Rightarrow> bool) \<Rightarrow> 'a list Interface" where
  "slice_Interface lt = \<lparr>Less = slice_Less lt, Swap = slice_Swap, Len = length\<rparr>"

definition IntSlice :: "int list Interface" where
  "IntSlice = slice_Interface (\<lambda>x y. x < y)"

text \<open>
  Go strings are byte sequences compared lexicographically. Of an IEEE 754 value the code only
  uses \<open><\<close> and \<open>!=\<close>: \<open>float64\<close> keeps what these observe (both zeros compare equal, a NaN is
  unordered and different from itself). Every finite value is an integral multiple of the
  smallest subnormal \<open>2^-1074\<close>: \<open>Finite k\<close> is \<open>k * 2^-1074\<close>, and \<open>NegZero\<close> is the negative zero.
\<close>

fun string_less :: "bytes \<Rightarrow> bytes \<Rightarrow> bool" where
  "string_less xs [] = False"
| "string_less [] (y # ys) = True"
| "string_less (x # xs) (y # ys) = (x < y \<or> x = y \<and> string_less xs ys)"

datatype float64 = NaN | NegInf | NegZero | Finite int | PosInf

fun float_less :: "float64 \<Rightarrow> float64 \<Rightarrow> bool" where
  "float_less NaN y = False"
| "float_less x NaN = False"
| "float_less NegInf y = (y \<noteq> NegInf)"
| "float_less PosInf y = False"
| "float_less x NegInf = False"
| "float_less x PosInf = True"
| "float_less NegZero NegZero = False"
| "float_less NegZero (Finite y) = (0 < y)"
| "float_less (Finite x) NegZero = (x < 0)"
| "float_less (Finite x) (Finite y) = (x < y)"

fun float_neq :: "float64 \<Rightarrow> float64 \<Rightarrow> bool" where
  "float_neq NaN y = True"
| "float_neq x NaN = True"
| "float_neq x y = (float_less x y \<or> float_less y x)"

definition isNaN :: "float64 \<Rightarrow> bool" where
  "isNaN f = float_neq f f"

definition Float64_Less :: "float64 \<Rightarrow> float64 \<Rightarrow> bool" where
  "Float64_Less x y = (float_less x y \<or> isNaN x \<and> \<not> isNaN y)"

definition Float64Slice :: "float64 list Interface" where
  "Float64Slice = slice_Interface Float64_Less"

definition StringSlice :: "bytes list Interface" where
  "StringSlice = slice_Interface string_less"

definition Ints :: "int list \<Rightarrow> int list option" where
  "Ints a = Sort (Iface IntSlice) a"

definition Float64s :: "float64 list \<Rightarrow> float64 list option" where
  "Float64s a = Sort (Iface Float64Slice) a"

definition Strings :: "bytes list \<Rightarrow> bytes list option" where
  "Strings a = Sort (Iface StringSlice) a"

text \<open>
  \<open>SliceSorter\<close> and \<open>Slice\<close>: the length is read once from the slice value; the caller's \<open>less\<close>
  closure indexes the slice being sorted.
\<close>

definition SliceSorter :: "'a list \<Rightarrow> ('a list \<Rightarrow> nat \<Rightarrow> nat \<Rightarrow> bool option) \<Rightarrow> 'a list sortable" where
  "SliceSorter sl ls = MakeInterface (length sl) slice_Swap ls"

definition Slice :: "'a list \<Rightarrow> ('a list \<Rightarrow> nat \<Rightarrow> nat \<Rightarrow> bool option) \<Rightarrow> 'a list option" where
  "Slice sl ls = Sort (SliceSorter sl ls) sl"

definition IntsAreSorted :: "int list \<Rightarrow> bool option" where
  "IntsAreSorted a = IsSorted IntSlice a"

definition Float64sAreSorted :: "float64 list \<Rightarrow> bool option" where
  "Float64sAreSorted a = IsSorted Float64Slice a"

definition StringsAreSorted :: "bytes list \<Rightarrow> bool option" where
  "StringsAreSorted a = IsSorted StringSlice a"

section \<open>Binary search\<close>

function Search_loop :: "(nat \<Rightarrow> bool option) \<Rightarrow> nat \<Rightarrow> nat \<Rightarrow> nat option" where
  "Search_loop f i j =
     (if i < j then (let h = i + (j - i) div 2 in do {
        t \<leftarrow> f h;
        (if \<not> t then Search_loop f (h + 1) j else Search_loop f i h)
      }) else Some i)"
  by pat_completeness auto
termination
  by (relation "measure (\<lambda>(f, i, j). j - i)") auto

definition Search :: "nat \<Rightarrow> (nat \<Rightarrow> bool option) \<Rightarrow> nat option" where
  "Search n f = Search_loop f 0 n"

definition index :: "'a list \<Rightarrow> nat \<Rightarrow> 'a option" where
  "index a i = (if i < length a then Some (a ! i) else None)"

definition SearchInts :: "int list \<Rightarrow> int \<Rightarrow> nat option" where
  "SearchInts a x = Search (length a) (\<lambda>i. do { v \<leftarrow> index a i; Some (v \<ge> x) })"

definition SearchFloat64s :: "float64 list \<Rightarrow> float64 \<Rightarrow> nat option" where
  "SearchFloat64s a x =
     Search (length a) (\<lambda>i. do { v \<leftarrow> index a i; Some (float_less x v \<or> \<not> float_neq v x) })"

definition SearchStrings :: "bytes list \<Rightarrow> bytes \<Rightarrow> nat option" where
  "SearchStrings a x = Search (length a) (\<lambda>i. do { v \<leftarrow> index a i; Some (\<not> string_less v x) })"

declare insertionSort_inner.simps [simp del] insertionSort_outer.simps [simp del]
  siftDown.simps [simp del] scan_less.simps [simp del] scan_not_greater.simps [simp del]
  scan_greater_down.simps [simp del] scan_not_less_down.simps [simp del]
  shell_pass.simps [simp del] quickSort.simps [simp del] maxDepth_loop.simps [simp del]
  search_ge.simps [simp del] search_gt.simps [simp del] search_sym.simps [simp del]
  bubble_up.simps [simp del] bubble_down.simps [simp del] symMerge.simps [simp del]
  Search_loop.simps [simp del]

end
