(* ===== verification/Sort_Interface.thy ===== *)
theory Sort_Interface
  imports Sort_Model
begin

text \<open>
  The contract between the sorting routines and an implementation of Go's \<open>sort.Interface\<close>.

  \<^item> \<open>strict_weak_order\<close>: what \<open>Less\<close> must be on the elements for the order to make sense.
  \<^item> \<open>sort_data\<close>: \<open>Less\<close> and \<open>Swap\<close> act on an underlying sequence \<open>contents d\<close>; the laws are
    promised for indices in range only, so whatever is proved in this locale holds for
    implementations that panic outside it.
  \<^item> \<open>sort_interface\<close>: in addition \<open>Len\<close> is the length of that sequence.

  Sortedness, rearrangement and stability are stated on index ranges.
\<close>

definition equiv_of :: "('a \<Rightarrow> 'a \<Rightarrow> bool) \<Rightarrow> 'a \<Rightarrow> 'a \<Rightarrow> bool" where
  "equiv_of lt x y \<longleftrightarrow> \<not> lt x y \<and> \<not> lt y x"

definition sorted_seg :: "('a \<Rightarrow> 'a \<Rightarrow> bool) \<Rightarrow> nat \<Rightarrow> nat \<Rightarrow> 'a list \<Rightarrow> bool" where
  "sorted_seg lt a b xs \<longleftrightarrow> (\<forall>i j. a \<le> i \<and> i < j \<and> j < b \<longrightarrow> \<not> lt (xs ! j) (xs ! i))"

text \<open>Sorted for \<open>lt\<close>: no later element is less than an earlier one.\<close>

definition in_order :: "('a \<Rightarrow> 'a \<Rightarrow> bool) \<Rightarrow> 'a list \<Rightarrow> bool" where
  "in_order lt xs \<longleftrightarrow> sorted_wrt (\<lambda>x y. \<not> lt y x) xs"

text \<open>Stability: the elements equivalent to any given one keep their order.\<close>

definition same_classes :: "('a \<Rightarrow> 'a \<Rightarrow> bool) \<Rightarrow> 'a list \<Rightarrow> 'a list \<Rightarrow> bool" where
  "same_classes lt xs ys \<longleftrightarrow> (\<forall>x. filter (equiv_of lt x) ys = filter (equiv_of lt x) xs)"

definition stable_seg :: "('a \<Rightarrow> 'a \<Rightarrow> bool) \<Rightarrow> nat \<Rightarrow> nat \<Rightarrow> 'a list \<Rightarrow> 'a list \<Rightarrow> bool" where
  "stable_seg lt a b xs ys \<longleftrightarrow> seg_perm a b xs ys \<and> same_classes lt xs ys"

section \<open>Ranges\<close>

lemma sorted_segD: "sorted_seg lt a b xs \<Longrightarrow> a \<le> i \<Longrightarrow> i < j \<Longrightarrow> j < b \<Longrightarrow> \<not> lt (xs ! j) (xs ! i)"
  by (simp add: sorted_seg_def)

lemma sorted_segI:
  "(\<And>i j. a \<le> i \<Longrightarrow> i < j \<Longrightarrow> j < b \<Longrightarrow> \<not> lt (xs ! j) (xs ! i)) \<Longrightarrow> sorted_seg lt a b xs"
  by (simp add: sorted_seg_def)

lemma sorted_seg_trivial [simp]: "b \<le> a + 1 \<Longrightarrow> sorted_seg lt a b xs"
  by (auto simp: sorted_seg_def)

lemma sorted_seg_sub: "sorted_seg lt a b xs \<Longrightarrow> a \<le> a' \<Longrightarrow> b' \<le> b \<Longrightarrow> sorted_seg lt a' b' xs"
  by (simp add: sorted_seg_def)

lemma sorted_seg_cong:
  "(\<And>k. a \<le> k \<Longrightarrow> k < b \<Longrightarrow> ys ! k = xs ! k) \<Longrightarrow> sorted_seg lt a b xs \<Longrightarrow> sorted_seg lt a b ys"
  by (simp add: sorted_seg_def)

lemma sorted_seg_join:
  assumes "sorted_seg lt a m xs" "sorted_seg lt m b xs"
    and "\<And>i j. a \<le> i \<Longrightarrow> i < m \<Longrightarrow> m \<le> j \<Longrightarrow> j < b \<Longrightarrow> \<not> lt (xs ! j) (xs ! i)"
  shows "sorted_seg lt a b xs"
proof (rule sorted_segI)
  fix i j assume ij: "a \<le> i" "i < j" "j < b"
  consider "j < m" | "m \<le> i" | "i < m" "m \<le> j" by linarith
  then show "\<not> lt (xs ! j) (xs ! i)"
    using ij assms by cases (auto dest: sorted_segD)
qed

lemma in_order_seg: "in_order lt xs \<longleftrightarrow> sorted_seg lt 0 (length xs) xs"
  by (auto simp: in_order_def sorted_seg_def sorted_wrt_iff_nth_less)

lemma stable_seg_perm: "stable_seg lt a b xs ys \<Longrightarrow> seg_perm a b xs ys"
  by (simp add: stable_seg_def)

lemma stable_seg_refl [simp]: "stable_seg lt a b xs xs"
  by (simp add: stable_seg_def same_classes_def)

lemma stable_seg_trans [trans]:
  "stable_seg lt a b xs ys \<Longrightarrow> stable_seg lt a b ys zs \<Longrightarrow> stable_seg lt a b xs zs"
  by (auto simp: stable_seg_def same_classes_def intro: seg_perm_trans)

lemma stable_seg_mono:
  "stable_seg lt a b xs ys \<Longrightarrow> a' \<le> a \<Longrightarrow> b \<le> b' \<Longrightarrow> stable_seg lt a' b' xs ys"
  by (auto simp: stable_seg_def intro: seg_perm_mono)

lemma swap_adjacent_append:
  "swap (length ps) (Suc (length ps)) (ps @ x # y # qs) = ps @ y # x # qs"
  by (simp add: swap_def nth_append list_update_append)

lemma adjacent_decomp:
  "k + 1 < length xs \<Longrightarrow> take k xs @ xs ! k # xs ! (k + 1) # drop (k + 2) xs = xs"
  by (simp add: Cons_nth_drop_Suc flip: id_take_nth_drop)

section \<open>Orders\<close>

locale strict_weak_order =
  fixes lt :: "'a \<Rightarrow> 'a \<Rightarrow> bool"
  assumes asym: "lt x y \<Longrightarrow> \<not> lt y x"
    and neg_trans: "\<not> lt x y \<Longrightarrow> \<not> lt y z \<Longrightarrow> \<not> lt x z"
begin

lemma irrefl [simp]: "\<not> lt x x"
  using asym by blast

lemma lt_trans: "lt x y \<Longrightarrow> lt y z \<Longrightarrow> lt x z"
  using asym neg_trans by blast

lemma le_lt_trans: "\<not> lt y x \<Longrightarrow> lt y z \<Longrightarrow> lt x z"
  using neg_trans by blast

lemma lt_le_trans: "lt x y \<Longrightarrow> \<not> lt z y \<Longrightarrow> lt x z"
  using neg_trans by blast

lemma equiv_disjoint: "lt y x \<Longrightarrow> equiv_of lt z x \<Longrightarrow> \<not> equiv_of lt z y"
  unfolding equiv_of_def using neg_trans by blast

lemma sorted_seg_le:
  "sorted_seg lt a b xs \<Longrightarrow> a \<le> i \<Longrightarrow> i \<le> j \<Longrightarrow> j < b \<Longrightarrow> \<not> lt (xs ! j) (xs ! i)"
  by (cases "i = j") (simp_all add: sorted_segD)

lemma adjacent_in_order:
  assumes "\<And>i. a \<le> i \<Longrightarrow> i + 1 < b \<Longrightarrow> \<not> lt (xs ! (i + 1)) (xs ! i)"
  shows "sorted_seg lt a b xs"
proof (rule sorted_segI)
  fix i j assume "a \<le> i" "i < j" "j < b"
  from this(2,1,3) show "\<not> lt (xs ! j) (xs ! i)"
  proof (induction j rule: less_Suc_induct)
    case (1 i)
    then show ?case using assms by simp
  next
    case (2 i j k)
    then show ?case using neg_trans by (meson le_trans less_imp_le less_trans)
  qed
qed

text \<open>Moving a strictly smaller element before its left neighbour keeps every class in order.\<close>

lemma swap_adjacent_stable:
  assumes "k + 1 < length xs" and "lt (xs ! (k + 1)) (xs ! k)"
  shows "same_classes lt xs (swap k (k + 1) xs)"
proof -
  define ps qs where "ps = take k xs" and "qs = drop (k + 2) xs"
  have xs: "xs = ps @ xs ! k # xs ! (k + 1) # qs" and k: "length ps = k"
    using assms(1) unfolding ps_def qs_def by (simp_all only: adjacent_decomp) simp
  have "swap k (k + 1) xs = ps @ xs ! (k + 1) # xs ! k # qs"
    using swap_adjacent_append [of ps "xs ! k" "xs ! (k + 1)" qs] xs k by simp
  moreover have "equiv_of lt x (xs ! k) \<Longrightarrow> \<not> equiv_of lt x (xs ! (k + 1))" for x
    using assms(2) by (rule equiv_disjoint)
  ultimately show ?thesis
    unfolding same_classes_def by (subst (2) xs) auto
qed

lemma swap_adjacent_stable_seg:
  assumes "lt (xs ! (k + 1)) (xs ! k)" "a \<le> k" "k + 1 < b" "b \<le> length xs"
  shows "stable_seg lt a b xs (swap k (k + 1) xs)"
  using assms swap_adjacent_stable [of k xs] by (auto simp: stable_seg_def intro: seg_perm_swap)

text \<open>Exchanging two neighbouring blocks, the second strictly below the first, likewise.\<close>

lemma exchange_blocks_stable:
  assumes "\<And>x y. x \<in> set us \<Longrightarrow> y \<in> set vs \<Longrightarrow> lt y x"
  shows "same_classes lt (ps @ us @ vs @ qs) (ps @ vs @ us @ qs)"
proof -
  have "filter (equiv_of lt z) us = [] \<or> filter (equiv_of lt z) vs = []" for z
    using assms equiv_disjoint by (metis filter_empty_conv)
  then have "filter (equiv_of lt z) vs @ filter (equiv_of lt z) us =
             filter (equiv_of lt z) us @ filter (equiv_of lt z) vs" for z
    by (metis append_Nil append_Nil2)
  then show ?thesis
    by (simp add: same_classes_def)
qed

end

section \<open>Data\<close>

locale sort_data = strict_weak_order lt
  for lt :: "'a \<Rightarrow> 'a \<Rightarrow> bool" +
  fixes S :: "('d, 'x) lessSwap_scheme" and contents :: "'d \<Rightarrow> 'a list"
  assumes Less_in_range:
      "i < length (contents d) \<Longrightarrow> j < length (contents d) \<Longrightarrow>
         Less S d i j = Some (lt (contents d ! i) (contents d ! j))"
    and Swap_in_range:
      "i < length (contents d) \<Longrightarrow> j < length (contents d) \<Longrightarrow>
         \<exists>d'. Swap S d i j = Some d' \<and> contents d' = swap i j (contents d)"
begin

lemma succeeds_Swap:
  assumes "i < length (contents d)" "j < length (contents d)"
    and "\<And>d'. contents d' = swap i j (contents d) \<Longrightarrow> Q d'"
  shows "succeeds (Swap S d i j) Q"
  using Swap_in_range [OF assms(1,2)] assms(3) by (auto simp: succeeds_def)

end

locale sort_interface = sort_data lt S contents
  for lt :: "'a \<Rightarrow> 'a \<Rightarrow> bool" and S :: "('d, 'x) Interface_scheme" and contents :: "'d \<Rightarrow> 'a list" +
  assumes Len_contents: "Len S d = length (contents d)"

section \<open>Implementations\<close>

text \<open>A slice whose elements are compared by an order is a \<open>sort.Interface\<close>.\<close>

sublocale strict_weak_order \<subseteq> slice: sort_interface lt "slice_Interface lt" "\<lambda>p. p"
  by unfold_locales
     (auto simp: slice_Interface_def slice_Less_def slice_Swap_def swap_def)

text \<open>\<open>Reverse\<close> keeps the contract and turns the order round.\<close>

context sort_data
begin

lemma reverse_data: "sort_data (\<lambda>x y. lt y x) (Reverse S) contents"
proof
  show "lt y x \<Longrightarrow> \<not> lt x y" for x y by (rule asym)
  show "\<not> lt y x \<Longrightarrow> \<not> lt z y \<Longrightarrow> \<not> lt z x" for x y z by (rule neg_trans)
qed (simp_all add: Reverse_def Less_in_range Swap_in_range)

end

context sort_interface
begin

lemma reverse_interface: "sort_interface (\<lambda>x y. lt y x) (Reverse S) contents"
  by (intro sort_interface.intro reverse_data sort_interface_axioms.intro)
     (simp add: Reverse_def Len_contents)

end

end
