(* ===== verification/Sort_Insertion.thy ===== *)
theory Sort_Insertion
  imports Sort_Interface
begin

text \<open>
  Correctness of \<open>insertionSort\<close> (used by \<open>quickSort\<close> on short ranges and by \<open>stable\<close> on its
  first blocks) and of the Shell pass: neither panics, both only rearrange their range, and
  insertion sort sorts it stably.
\<close>

context sort_data
begin

lemma lowest_in_place:
  assumes "\<And>p q. a \<le> p \<Longrightarrow> p < q \<Longrightarrow> q \<le> i \<Longrightarrow> p \<noteq> a \<Longrightarrow> q \<noteq> a \<Longrightarrow> \<not> lt (xs ! q) (xs ! p)"
    and "\<And>q. a < q \<Longrightarrow> q \<le> i \<Longrightarrow> \<not> lt (xs ! q) (xs ! a)"
  shows "sorted_seg lt a (i + 1) xs"
proof (rule sorted_segI)
  fix p q assume "a \<le> p" "p < q" "q < i + 1"
  then show "\<not> lt (xs ! q) (xs ! p)"
    using assms by (cases "p = a") auto
qed

text \<open>
  While the inner loop moves one element down, the range is in order but for that element, and
  everything it has passed is not less than it.
\<close>

lemma insertionSort_inner_correct:
  assumes "a \<le> j" "j \<le> i" "i < length (contents d)"
    and "\<And>p q. a \<le> p \<Longrightarrow> p < q \<Longrightarrow> q \<le> i \<Longrightarrow> p \<noteq> j \<Longrightarrow> q \<noteq> j \<Longrightarrow> \<not> lt (contents d ! q) (contents d ! p)"
    and "\<And>q. j < q \<Longrightarrow> q \<le> i \<Longrightarrow> \<not> lt (contents d ! q) (contents d ! j)"
  shows "succeeds (insertionSort_inner S d a j)
    (\<lambda>d'. stable_seg lt a (i + 1) (contents d) (contents d') \<and> sorted_seg lt a (i + 1) (contents d'))"
  using assms
proof (induction j arbitrary: d)
  case 0
  have "sorted_seg lt a (i + 1) (contents d)"
    using 0 by (intro lowest_in_place) auto
  then show ?case
    using 0 by (subst insertionSort_inner.simps) simp
next
  case (Suc j)
  let ?xs = "contents d"
  show ?case
  proof (cases "Suc j > a \<and> lt (?xs ! Suc j) (?xs ! j)")
    case False
    have sorted: "sorted_seg lt a (i + 1) ?xs"
    proof (cases "Suc j = a")
      case True
      then show ?thesis
        using Suc.prems(4,5) by (intro lowest_in_place) auto
    next
      case False
      with \<open>\<not> (Suc j > a \<and> lt (?xs ! Suc j) (?xs ! j))\<close> Suc.prems(1)
      have le: "a \<le> j" "\<not> lt (?xs ! Suc j) (?xs ! j)"
        by auto
      show ?thesis
      proof (rule sorted_segI)
        fix p q assume pq: "a \<le> p" "p < q" "q < i + 1"
        consider "q = Suc j" "p = j" | "q = Suc j" "p < j" | "p = Suc j" | "p \<noteq> Suc j" "q \<noteq> Suc j"
          using pq by linarith
        then show "\<not> lt (?xs ! q) (?xs ! p)"
        proof cases
          case 2
          with Suc.prems(2,4) pq have "\<not> lt (?xs ! j) (?xs ! p)" by simp
          with 2 le(2) show ?thesis using neg_trans by blast
        qed (use le pq Suc.prems in auto)
      qed
    qed
    with False Suc.prems show ?thesis
      by (subst insertionSort_inner.simps) (auto simp: Less_in_range)
  next
    case True
    then have aj: "a \<le> j" and l: "lt (?xs ! Suc j) (?xs ! j)" by auto
    have "succeeds (insertionSort_inner S d' a j)
      (\<lambda>d''. stable_seg lt a (i + 1) ?xs (contents d'') \<and> sorted_seg lt a (i + 1) (contents d''))"
      if d': "contents d' = swap (Suc j) j ?xs" for d'
    proof -
      have st: "stable_seg lt a (i + 1) ?xs (contents d')"
        using swap_adjacent_stable_seg [of ?xs j a "i + 1"] l aj Suc.prems(2,3)
        by (simp add: d' swap_commute [of "Suc j"])
      have nth: "contents d' ! k = (if k = Suc j then ?xs ! j else if k = j then ?xs ! Suc j else ?xs ! k)"
        if "k \<le> i" for k
        using that Suc.prems(2,3) by (auto simp: d' nth_swap)
      have "succeeds (insertionSort_inner S d' a j)
        (\<lambda>d''. stable_seg lt a (i + 1) (contents d') (contents d'') \<and> sorted_seg lt a (i + 1) (contents d''))"
      proof (rule Suc.IH)
        fix p q assume pq: "a \<le> p" "p < q" "q \<le> i" "p \<noteq> j" "q \<noteq> j"
        then show "\<not> lt (contents d' ! q) (contents d' ! p)"
          using Suc.prems(2,4) aj by (cases "p = Suc j"; cases "q = Suc j") (simp_all add: nth)
      next
        fix q assume "j < q" "q \<le> i"
        then show "\<not> lt (contents d' ! q) (contents d' ! j)"
          using Suc.prems(2,5) l by (cases "q = Suc j") (simp_all add: nth asym)
      qed (use aj Suc.prems in \<open>auto simp: d'\<close>)
      then show ?thesis
        by (rule succeeds_mono) (blast intro: stable_seg_trans [OF st])
    qed
    with aj l Suc.prems show ?thesis
      by (subst insertionSort_inner.simps) (auto simp: Less_in_range intro!: succeeds_Swap)
  qed
qed

lemma insertionSort_outer_correct:
  assumes "a < i" "i \<le> b" "b \<le> length (contents d)" "sorted_seg lt a i (contents d)"
  shows "succeeds (insertionSort_outer S d a b i)
    (\<lambda>d'. stable_seg lt a b (contents d) (contents d') \<and> sorted_seg lt a b (contents d'))"
  using assms
proof (induction "b - i" arbitrary: d i)
  case 0
  then show ?case by (subst insertionSort_outer.simps) auto
next
  case (Suc n)
  then have "i < b" by simp
  have "succeeds (insertionSort_inner S d a i)
      (\<lambda>d'. stable_seg lt a (i + 1) (contents d) (contents d') \<and> sorted_seg lt a (i + 1) (contents d'))"
    using Suc.prems \<open>i < b\<close>
    by (intro insertionSort_inner_correct) (auto dest: sorted_segD)
  then have "succeeds (insertionSort_inner S d a i) (\<lambda>d'. succeeds (insertionSort_outer S d' a b (i + 1))
      (\<lambda>d''. stable_seg lt a b (contents d) (contents d'') \<and> sorted_seg lt a b (contents d'')))"
  proof (rule succeeds_mono, elim conjE)
    fix d' assume st: "stable_seg lt a (i + 1) (contents d) (contents d')"
      and so: "sorted_seg lt a (i + 1) (contents d')"
    have "length (contents d') = length (contents d)"
      using st by (auto dest: stable_seg_perm seg_perm_length)
    then have "succeeds (insertionSort_outer S d' a b (i + 1))
      (\<lambda>d''. stable_seg lt a b (contents d') (contents d'') \<and> sorted_seg lt a b (contents d''))"
      using Suc.hyps(2) Suc.prems so \<open>i < b\<close> by (intro Suc.hyps(1)) auto
    then show "succeeds (insertionSort_outer S d' a b (i + 1))
      (\<lambda>d''. stable_seg lt a b (contents d) (contents d'') \<and> sorted_seg lt a b (contents d''))"
      using stable_seg_mono [OF st order_refl, of b] \<open>i < b\<close>
      by (elim succeeds_mono) (auto intro: stable_seg_trans)
  qed
  then show ?case
    using \<open>i < b\<close> by (subst insertionSort_outer.simps) simp
qed

lemma insertionSort_correct:
  assumes "b \<le> length (contents d)"
  shows "succeeds (insertionSort S d a b)
    (\<lambda>d'. stable_seg lt a b (contents d) (contents d') \<and> sorted_seg lt a b (contents d'))"
proof (cases "a < b")
  case True
  with assms show ?thesis
    unfolding insertionSort_def by (intro insertionSort_outer_correct) auto
next
  case False
  then show ?thesis
    by (simp add: insertionSort_def insertionSort_outer.simps)
qed

lemma shell_pass_correct:
  assumes "a + 6 \<le> i" "b \<le> length (contents d)"
  shows "succeeds (shell_pass S d b i) (\<lambda>d'. seg_perm a b (contents d) (contents d'))"
  using assms
proof (induction "b - i" arbitrary: d i)
  case 0
  then show ?case by (subst shell_pass.simps) auto
next
  case (Suc n)
  then have ib: "i < b" by simp
  have rest: "succeeds (shell_pass S d' b (i + 1)) (\<lambda>d''. seg_perm a b (contents d) (contents d''))"
    if "seg_perm a b (contents d) (contents d')" for d'
  proof -
    have "succeeds (shell_pass S d' b (i + 1)) (\<lambda>d''. seg_perm a b (contents d') (contents d''))"
      using Suc.hyps(2) Suc.prems seg_perm_length [OF that] ib by (intro Suc.hyps(1)) auto
    then show ?thesis
      using that by (elim succeeds_mono) (auto intro: seg_perm_trans)
  qed
  have "succeeds (Swap S d i (i - 6)) (\<lambda>d'. succeeds (shell_pass S d' b (i + 1))
      (\<lambda>d''. seg_perm a b (contents d) (contents d'')))"
    using Suc.prems ib by (intro succeeds_Swap rest) (auto intro: seg_perm_swap)
  then show ?case
    using Suc.prems ib rest [of d] by (subst shell_pass.simps) (simp add: Less_in_range)
qed

end

end
