(* ===== verification/Sort_Heap.thy ===== *)
theory Sort_Heap
  imports Sort_Interface
begin

text \<open>
  Correctness of \<open>siftDown\<close> and \<open>heapSort\<close>, the fallback of \<open>quickSort\<close> once its recursion is
  too deep. A range is a heap from \<open>lo\<close> on when no node at or after \<open>lo\<close> is less than one of
  its children; \<open>siftDown\<close> restores that at its root.
\<close>

definition is_child :: "nat \<Rightarrow> nat \<Rightarrow> bool" where
  "is_child i c \<longleftrightarrow> c = 2 * i + 1 \<or> c = 2 * i + 2"

definition heap_from :: "('a \<Rightarrow> 'a \<Rightarrow> bool) \<Rightarrow> nat \<Rightarrow> nat \<Rightarrow> nat \<Rightarrow> 'a list \<Rightarrow> bool" where
  "heap_from lt first lo hi xs \<longleftrightarrow>
     (\<forall>i c. lo \<le> i \<and> is_child i c \<and> c < hi \<longrightarrow> \<not> lt (xs ! (first + i)) (xs ! (first + c)))"

text \<open>The same with one node excepted, whose children are in order with its parent.\<close>

definition heap_except :: "('a \<Rightarrow> 'a \<Rightarrow> bool) \<Rightarrow> nat \<Rightarrow> nat \<Rightarrow> nat \<Rightarrow> nat \<Rightarrow> 'a list \<Rightarrow> bool" where
  "heap_except lt first lo rt hi xs \<longleftrightarrow>
     (\<forall>i c. lo \<le> i \<and> i \<noteq> rt \<and> is_child i c \<and> c < hi \<longrightarrow> \<not> lt (xs ! (first + i)) (xs ! (first + c))) \<and>
     (\<forall>p c. lo \<le> p \<and> is_child p rt \<and> is_child rt c \<and> c < hi \<longrightarrow>
        \<not> lt (xs ! (first + p)) (xs ! (first + c)))"

lemma is_child_less: "is_child i c \<Longrightarrow> i < c"
  by (auto simp: is_child_def)

lemma is_child_unique: "is_child i c \<Longrightarrow> is_child j c \<Longrightarrow> i = j"
  by (auto simp: is_child_def)

lemma heap_fromD:
  "heap_from lt first lo hi xs \<Longrightarrow> lo \<le> i \<Longrightarrow> is_child i c \<Longrightarrow> c < hi \<Longrightarrow>
     \<not> lt (xs ! (first + i)) (xs ! (first + c))"
  by (simp add: heap_from_def)

lemma heap_except_start: "heap_from lt first (Suc lo) hi xs \<Longrightarrow> heap_except lt first lo lo hi xs"
  by (auto simp: heap_except_def heap_from_def dest: is_child_less)

lemma heap_from_leaves: "(hi - 1) div 2 < lo \<Longrightarrow> heap_from lt first lo hi xs"
  by (auto simp: heap_from_def is_child_def)

context sort_data
begin

lemma heap_max:
  assumes "heap_from lt first 0 hi xs" "k < hi"
  shows "\<not> lt (xs ! first) (xs ! (first + k))"
  using assms(2)
proof (induction k rule: less_induct)
  case (less k)
  show ?case
  proof (cases "k = 0")
    case False
    then have c: "is_child ((k - 1) div 2) k"
      unfolding is_child_def by presburger
    then have "\<not> lt (xs ! first) (xs ! (first + (k - 1) div 2))"
      using less.IH less.prems is_child_less by (meson less_trans)
    moreover have "\<not> lt (xs ! (first + (k - 1) div 2)) (xs ! (first + k))"
      using assms(1) c less.prems by (auto dest: heap_fromD)
    ultimately show ?thesis using neg_trans by blast
  qed simp
qed

lemma heap_except_done:
  assumes "heap_except lt first lo rt hi xs"
    and "\<And>c. is_child rt c \<Longrightarrow> c < hi \<Longrightarrow> \<not> lt (xs ! (first + rt)) (xs ! (first + c))"
  shows "heap_from lt first lo hi xs"
  using assms by (auto simp: heap_from_def heap_except_def)

text \<open>One turn of \<open>siftDown\<close>: the larger child comes up and the exception moves down.\<close>

lemma heap_except_step:
  assumes inv: "heap_except lt first lo rt hi xs" and lo: "lo \<le> rt"
    and c: "is_child rt c" "c < hi" and len: "first + hi \<le> length xs"
    and big: "\<And>k. is_child rt k \<Longrightarrow> k < hi \<Longrightarrow> \<not> lt (xs ! (first + c)) (xs ! (first + k))"
    and l: "lt (xs ! (first + rt)) (xs ! (first + c))"
  shows "heap_except lt first lo c hi (swap (first + rt) (first + c) xs)" (is "heap_except lt first lo c hi ?ys")
proof -
  have rc: "rt < c" using c(1) by (rule is_child_less)
  have nth: "?ys ! (first + k) =
      (if k = rt then xs ! (first + c) else if k = c then xs ! (first + rt) else xs ! (first + k))"
    if "k < hi" for k
    using that rc c(2) len by (subst nth_swap) auto
  have "\<not> lt (?ys ! (first + i)) (?ys ! (first + k))"
    if i: "lo \<le> i" "i \<noteq> c" "is_child i k" "k < hi" for i k
  proof -
    have ik: "i < k" using i(3) by (rule is_child_less)
    consider "i = rt" "k = c" | "i = rt" "k \<noteq> c" | "i \<noteq> rt" "k = rt" | "i \<noteq> rt" "k \<noteq> rt"
      by blast
    then show ?thesis
    proof cases
      case 3
      then have "\<not> lt (xs ! (first + i)) (xs ! (first + c))"
        using inv i c unfolding heap_except_def by blast
      with 3 i ik show ?thesis by (simp add: nth)
    next
      case 4
      then have "k \<noteq> c" using i(3) c(1) is_child_unique by blast
      with 4 inv i ik show ?thesis by (simp add: nth heap_except_def)
    qed (use i ik l big asym c in \<open>auto simp: nth\<close>)
  qed
  moreover have "\<not> lt (?ys ! (first + p)) (?ys ! (first + k))"
    if "lo \<le> p" "is_child p c" "is_child c k" "k < hi" for p k
  proof -
    have "p = rt" using that(2) c(1) by (rule is_child_unique)
    moreover have "c < k" using that(3) by (rule is_child_less)
    moreover have "\<not> lt (xs ! (first + c)) (xs ! (first + k))"
      using inv that lo rc unfolding heap_except_def by (metis le_trans less_imp_le less_irrefl)
    ultimately show ?thesis
      using that(4) rc by (simp add: nth)
  qed
  ultimately show ?thesis
    unfolding heap_except_def by blast
qed

text \<open>The body of the loop selects a child that is not less than the other one.\<close>

lemma siftDown_unfold:
  assumes "2 * rt + 1 < hi" "first + hi \<le> length (contents d)"
  obtains c where "is_child rt c" "c < hi"
    "\<And>k. is_child rt k \<Longrightarrow> k < hi \<Longrightarrow> \<not> lt (contents d ! (first + c)) (contents d ! (first + k))"
    "siftDown S d rt hi first =
       (if lt (contents d ! (first + rt)) (contents d ! (first + c))
        then Swap S d (first + rt) (first + c) \<bind> (\<lambda>d'. siftDown S d' c hi first) else Some d)"
proof -
  let ?xs = "contents d" and ?c0 = "2 * rt + 1"
  let ?right = "?c0 + 1 < hi \<and> lt (?xs ! (first + ?c0)) (?xs ! (first + ?c0 + 1))"
  define c where "c = (if ?right then ?c0 + 1 else ?c0)"
  show thesis
  proof (rule that)
    show "is_child rt c" "c < hi"
      using assms(1) by (auto simp: is_child_def c_def)
    show "\<not> lt (?xs ! (first + c)) (?xs ! (first + k))" if "is_child rt k" "k < hi" for k
      using that asym by (auto simp: is_child_def c_def)
    show "siftDown S d rt hi first =
       (if lt (?xs ! (first + rt)) (?xs ! (first + c))
        then Swap S d (first + rt) (first + c) \<bind> (\<lambda>d'. siftDown S d' c hi first) else Some d)"
      using assms unfolding c_def by (subst siftDown.simps) (simp add: Let_def Less_in_range)
  qed
qed

lemma siftDown_correct:
  assumes "heap_except lt first lo rt hi (contents d)" "lo \<le> rt" "first + hi \<le> length (contents d)"
  shows "succeeds (siftDown S d rt hi first)
    (\<lambda>d'. seg_perm first (first + hi) (contents d) (contents d') \<and> heap_from lt first lo hi (contents d'))"
  using assms
proof (induction "hi - rt" arbitrary: d rt rule: less_induct)
  case less
  let ?xs = "contents d"
  let ?Q = "\<lambda>d'. seg_perm first (first + hi) ?xs (contents d') \<and> heap_from lt first lo hi (contents d')"
  show ?case
  proof (cases "2 * rt + 1 < hi")
    case False
    then have "heap_from lt first lo hi ?xs"
      using less.prems(1) by (intro heap_except_done) (auto simp: is_child_def)
    with False show ?thesis by (subst siftDown.simps) simp
  next
    case True
    from True less.prems(3) obtain c where c: "is_child rt c" "c < hi"
      and big: "\<And>k. is_child rt k \<Longrightarrow> k < hi \<Longrightarrow> \<not> lt (?xs ! (first + c)) (?xs ! (first + k))"
      and unfolded: "siftDown S d rt hi first =
        (if lt (?xs ! (first + rt)) (?xs ! (first + c))
         then Swap S d (first + rt) (first + c) \<bind> (\<lambda>d'. siftDown S d' c hi first) else Some d)"
      by (rule siftDown_unfold) blast
    have rc: "rt < c" using c(1) by (rule is_child_less)
    show ?thesis
    proof (cases "lt (?xs ! (first + rt)) (?xs ! (first + c))")
      case True
      have "succeeds (siftDown S d' c hi first) ?Q"
        if d': "contents d' = swap (first + rt) (first + c) ?xs" for d'
      proof -
        have sp: "seg_perm first (first + hi) ?xs (contents d')"
          unfolding d' using rc c less.prems(3) by (intro seg_perm_swap) auto
        have "heap_except lt first lo c hi (contents d')"
          unfolding d' by (rule heap_except_step [OF less.prems(1,2) c less.prems(3) big True])
        then have "succeeds (siftDown S d' c hi first)
          (\<lambda>d''. seg_perm first (first + hi) (contents d') (contents d'') \<and> heap_from lt first lo hi (contents d''))"
          using rc c less.prems(2,3) seg_perm_length [OF sp] by (intro less.hyps) auto
        then show ?thesis
          by (rule succeeds_mono) (blast intro: seg_perm_trans [OF sp])
      qed
      with True rc c less.prems(3) show ?thesis
        unfolding unfolded by (simp add: succeeds_Swap)
    next
      case False
      then have "\<not> lt (?xs ! (first + rt)) (?xs ! (first + k))" if "is_child rt k" "k < hi" for k
        using big [OF that] neg_trans by blast
      then have "heap_from lt first lo hi ?xs"
        using less.prems(1) by (intro heap_except_done)
      with False show ?thesis
        unfolding unfolded by simp
    qed
  qed
qed

lemma heapSort_build_correct:
  assumes "heap_from lt first n hi (contents d)" "first + hi \<le> length (contents d)"
  shows "succeeds (heapSort_build n S d hi first)
    (\<lambda>d'. seg_perm first (first + hi) (contents d) (contents d') \<and> heap_from lt first 0 hi (contents d'))"
  using assms
proof (induction n arbitrary: d)
  case (Suc n)
  have "succeeds (siftDown S d n hi first)
    (\<lambda>d'. seg_perm first (first + hi) (contents d) (contents d') \<and> heap_from lt first n hi (contents d'))"
    using Suc.prems by (intro siftDown_correct heap_except_start) auto
  then have "succeeds (siftDown S d n hi first) (\<lambda>d'. succeeds (heapSort_build n S d' hi first)
    (\<lambda>d''. seg_perm first (first + hi) (contents d) (contents d'') \<and> heap_from lt first 0 hi (contents d'')))"
  proof (rule succeeds_mono, elim conjE)
    fix d' assume p: "seg_perm first (first + hi) (contents d) (contents d')"
      and h: "heap_from lt first n hi (contents d')"
    show "succeeds (heapSort_build n S d' hi first)
      (\<lambda>d''. seg_perm first (first + hi) (contents d) (contents d'') \<and> heap_from lt first 0 hi (contents d''))"
      using Suc.IH [OF h] Suc.prems(2) seg_perm_length [OF p]
      by (auto elim!: succeeds_mono intro: seg_perm_trans [OF p])
  qed
  then show ?case by simp
qed simp

text \<open>What holds between the pops: a heap below, and the largest elements in order above it.\<close>

definition popped :: "nat \<Rightarrow> nat \<Rightarrow> nat \<Rightarrow> 'a list \<Rightarrow> bool" where
  "popped first n hi xs \<longleftrightarrow>
     heap_from lt first 0 n xs \<and> sorted_seg lt (first + n) (first + hi) xs \<and>
     (\<forall>k m. k < n \<and> n \<le> m \<and> m < hi \<longrightarrow> \<not> lt (xs ! (first + m)) (xs ! (first + k)))"

lemma popped_swap:
  assumes "popped first (Suc i) hi xs" "Suc i \<le> hi" "first + hi \<le> length xs"
    and ys: "ys = swap first (first + i) xs"
  shows "heap_except lt first 0 0 i ys" "sorted_seg lt (first + i) (first + hi) ys"
    and "k < i \<Longrightarrow> i \<le> m \<Longrightarrow> m < hi \<Longrightarrow> \<not> lt (ys ! (first + m)) (ys ! (first + k))"
proof -
  have nth: "ys ! (first + k) =
      (if k = 0 then xs ! (first + i) else if k = i then xs ! first else xs ! (first + k))"
    if "k < hi" for k
    using that assms(2,3) unfolding ys by (subst nth_swap) auto
  have heap: "heap_from lt first 0 (Suc i) xs"
    and above: "\<And>k m. k < Suc i \<Longrightarrow> Suc i \<le> m \<Longrightarrow> m < hi \<Longrightarrow> \<not> lt (xs ! (first + m)) (xs ! (first + k))"
    and sorted: "sorted_seg lt (first + Suc i) (first + hi) xs"
    using assms(1) by (auto simp: popped_def)
  have root_max: "\<not> lt (xs ! first) (xs ! (first + k))" if "k \<le> i" for k
    using heap that by (intro heap_max) auto
  show "heap_except lt first 0 0 i ys"
    unfolding heap_except_def
  proof (intro conjI allI impI)
    fix j c assume j: "0 \<le> j \<and> j \<noteq> 0 \<and> is_child j c \<and> c < i"
    then have "j < c" by (auto dest: is_child_less)
    moreover have "\<not> lt (xs ! (first + j)) (xs ! (first + c))"
      using j by (intro heap_fromD [OF heap]) auto
    ultimately show "\<not> lt (ys ! (first + j)) (ys ! (first + c))"
      using j assms(2) by (simp add: nth)
  qed (auto simp: is_child_def)
  show "sorted_seg lt (first + i) (first + hi) ys"
  proof (rule sorted_segI)
    fix p q assume pq: "first + i \<le> p" "p < q" "q < first + hi"
    define p' q' where "p' = p - first" and "q' = q - first"
    with pq have p': "p = first + p'" "q = first + q'" "i \<le> p'" "p' < q'" "q' < hi"
      by auto
    have "ys ! p = xs ! first" if "p' = i"
      using that p' nth [of p'] by auto
    moreover have "\<not> lt (xs ! (first + q')) (xs ! first)"
      using above [of 0 q'] p' by simp
    moreover have "\<not> lt (xs ! (first + q')) (xs ! (first + p'))" if "p' \<noteq> i"
      using sorted that p' by (intro sorted_segD [of lt "first + Suc i" "first + hi"]) auto
    ultimately show "\<not> lt (ys ! q) (ys ! p)"
      using p' by (cases "p' = i") (auto simp: nth)
  qed
  show "\<not> lt (ys ! (first + m)) (ys ! (first + k))" if km: "k < i" "i \<le> m" "m < hi"
  proof (cases "m = i")
    case True
    then show ?thesis
      using km root_max assms(2) by (auto simp: nth)
  next
    case False
    then show ?thesis
      using km above [of k m] above [of i m] by (auto simp: nth)
  qed
qed

lemma heapSort_pop_correct:
  assumes "popped first n hi (contents d)" "n \<le> hi" "first + hi \<le> length (contents d)"
  shows "succeeds (heapSort_pop n S d first)
    (\<lambda>d'. seg_perm first (first + hi) (contents d) (contents d') \<and>
          sorted_seg lt first (first + hi) (contents d'))"
  using assms
proof (induction n arbitrary: d)
  case 0
  then show ?case by (simp add: popped_def)
next
  case (Suc i)
  let ?Q = "\<lambda>d'. seg_perm first (first + hi) (contents d) (contents d') \<and>
          sorted_seg lt first (first + hi) (contents d')"
  have "succeeds (siftDown S d' 0 i first) (\<lambda>d''. succeeds (heapSort_pop i S d'' first) ?Q)"
    if d': "contents d' = swap first (first + i) (contents d)" for d'
  proof -
    note sw = popped_swap [OF Suc.prems(1,2,3) d']
    have p1: "seg_perm first (first + hi) (contents d) (contents d')"
      unfolding d' using Suc.prems by (intro seg_perm_swap) auto
    have "succeeds (siftDown S d' 0 i first)
      (\<lambda>d''. seg_perm first (first + i) (contents d') (contents d'') \<and> heap_from lt first 0 i (contents d''))"
      using sw(1) Suc.prems seg_perm_length [OF p1] by (intro siftDown_correct) auto
    then show ?thesis
    proof (rule succeeds_mono, elim conjE)
      fix d'' assume p2: "seg_perm first (first + i) (contents d') (contents d'')"
        and heap: "heap_from lt first 0 i (contents d'')"
      have len: "length (contents d') = length (contents d)" "length (contents d'') = length (contents d')"
        using p1 p2 by (simp_all add: seg_perm_length)
      have same: "contents d'' ! (first + m) = contents d' ! (first + m)" if "i \<le> m" "m < hi" for m
        using p2 that Suc.prems(3) len by (intro seg_perm_outside) auto
      have "sorted_seg lt (first + i) (first + hi) (contents d'')"
      proof (rule sorted_seg_cong [OF _ sw(2)])
        fix k assume "first + i \<le> k" "k < first + hi"
        then show "contents d'' ! k = contents d' ! k"
          using same [of "k - first"] by auto
      qed
      moreover have "\<not> lt (contents d'' ! (first + m)) (contents d'' ! (first + k))"
        if km: "k < i" "i \<le> m" "m < hi" for k m
      proof -
        have "\<not> lt (contents d' ! (first + m)) (contents d'' ! (first + k))"
        proof (rule seg_perm_all [OF p2])
          fix k' assume "first \<le> k'" "k' < first + i"
          then show "\<not> lt (contents d' ! (first + m)) (contents d' ! k')"
            using sw(3) [of "k' - first" m] km by auto
        qed (use km Suc.prems len in auto)
        with same km show ?thesis by simp
      qed
      ultimately have "popped first i hi (contents d'')"
        using heap by (simp add: popped_def)
      then have "succeeds (heapSort_pop i S d'' first)
        (\<lambda>d'''. seg_perm first (first + hi) (contents d'') (contents d''') \<and>
          sorted_seg lt first (first + hi) (contents d'''))"
        using Suc.prems len by (intro Suc.IH) auto
      moreover have "seg_perm first (first + hi) (contents d) (contents d'')"
        using p1 seg_perm_mono [OF p2, of first "first + hi"] Suc.prems(2)
        by (auto intro: seg_perm_trans)
      ultimately show "succeeds (heapSort_pop i S d'' first) ?Q"
        by (auto elim!: succeeds_mono intro: seg_perm_trans)
    qed
  qed
  then show ?case
    using Suc.prems by (auto intro!: succeeds_Swap)
qed

lemma heapSort_correct:
  assumes "a \<le> b" "b \<le> length (contents d)"
  shows "succeeds (heapSort S d a b)
    (\<lambda>d'. seg_perm a b (contents d) (contents d') \<and> sorted_seg lt a b (contents d'))"
proof -
  let ?hi = "b - a"
  have hi: "a + ?hi = b" using assms(1) by simp
  have "succeeds (heapSort_build ((?hi - 1) div 2 + 1) S d ?hi a)
    (\<lambda>d'. seg_perm a (a + ?hi) (contents d) (contents d') \<and> heap_from lt a 0 ?hi (contents d'))"
    using assms by (intro heapSort_build_correct heap_from_leaves) auto
  then have "succeeds (heapSort_build ((?hi - 1) div 2 + 1) S d ?hi a)
    (\<lambda>d'. succeeds (heapSort_pop ?hi S d' a)
      (\<lambda>d''. seg_perm a b (contents d) (contents d'') \<and> sorted_seg lt a b (contents d'')))"
  proof (rule succeeds_mono, elim conjE)
    fix d' assume p: "seg_perm a (a + ?hi) (contents d) (contents d')"
      and h: "heap_from lt a 0 ?hi (contents d')"
    have "popped a ?hi ?hi (contents d')"
      using h by (auto simp: popped_def)
    then have "succeeds (heapSort_pop ?hi S d' a)
      (\<lambda>d''. seg_perm a (a + ?hi) (contents d') (contents d'') \<and> sorted_seg lt a (a + ?hi) (contents d''))"
      using assms seg_perm_length [OF p] by (intro heapSort_pop_correct) auto
    then show "succeeds (heapSort_pop ?hi S d' a)
      (\<lambda>d''. seg_perm a b (contents d) (contents d'') \<and> sorted_seg lt a b (contents d''))"
      using p unfolding hi by (auto elim!: succeeds_mono intro: seg_perm_trans)
  qed
  then show ?thesis
    unfolding heapSort_def Let_def by simp
qed

end

end
