(* ===== verification/Sort_Pivot.thy ===== *)
theory Sort_Pivot
  imports Sort_Interface
begin

text \<open>
  The pieces of \<open>doPivot\<close>: \<open>medianOfThree\<close> orders its three elements, \<open>choose_pivot\<close> puts a
  pivot at \<open>lo\<close> that is not greater than the last element, and the four scanning loops stop at
  the first element that fails their test.
\<close>

context sort_data
begin

section \<open>Choosing the pivot\<close>

lemma medianOfThree_correct:
  assumes "lo \<le> m0" "lo \<le> m1" "lo \<le> m2" "m0 < hi" "m1 < hi" "m2 < hi"
    and "m0 \<noteq> m1" "m1 \<noteq> m2" "m0 \<noteq> m2" "hi \<le> length (contents d)"
  shows "succeeds (medianOfThree S d m1 m0 m2)
    (\<lambda>d'. seg_perm lo hi (contents d) (contents d') \<and>
          \<not> lt (contents d' ! m1) (contents d' ! m0) \<and> \<not> lt (contents d' ! m2) (contents d' ! m1))"
proof -
  let ?Q = "\<lambda>d'. seg_perm lo hi (contents d) (contents d') \<and>
          \<not> lt (contents d' ! m1) (contents d' ! m0) \<and> \<not> lt (contents d' ! m2) (contents d' ! m1)"
  have first: "succeeds (if lt (contents d ! m1) (contents d ! m0) then Swap S d m1 m0 else Some d)
    (\<lambda>d'. seg_perm lo hi (contents d) (contents d') \<and> \<not> lt (contents d' ! m1) (contents d' ! m0))"
    using assms asym by (auto intro!: succeeds_Swap simp: nth_swap seg_perm_swap)
  have third: "succeeds (if lt (contents d' ! m1) (contents d' ! m0) then Swap S d' m1 m0 else Some d') ?Q"
    if p: "seg_perm lo hi (contents d) (contents d')"
      and o: "\<not> lt (contents d' ! m2) (contents d' ! m1)" "\<not> lt (contents d' ! m2) (contents d' ! m0)"
    for d'
    using assms that asym seg_perm_length [OF p]
    by (auto intro!: succeeds_Swap simp: nth_swap seg_perm_swap_trans [OF p])
  have second: "succeeds (if lt (contents d' ! m2) (contents d' ! m1)
       then Swap S d' m2 m1 \<bind> (\<lambda>d. Less S d m1 m0 \<bind> (\<lambda>l. if l then Swap S d m1 m0 else Some d))
       else Some d') ?Q"
    if p: "seg_perm lo hi (contents d) (contents d')" and o: "\<not> lt (contents d' ! m1) (contents d' ! m0)"
    for d'
  proof (cases "lt (contents d' ! m2) (contents d' ! m1)")
    case True
    have "succeeds (Less S e m1 m0 \<bind> (\<lambda>l. if l then Swap S e m1 m0 else Some e)) ?Q"
      if e: "contents e = swap m2 m1 (contents d')" for e
    proof -
      have len: "length (contents e) = length (contents d)"
        using seg_perm_length [OF p] e by simp
      have "seg_perm lo hi (contents d) (contents e)"
        using assms unfolding e by (intro seg_perm_swap_trans [OF p]) auto
      moreover have "\<not> lt (contents e ! m2) (contents e ! m1)" "\<not> lt (contents e ! m2) (contents e ! m0)"
        using assms asym [OF True] o seg_perm_length [OF p] unfolding e by (simp_all add: nth_swap)
      ultimately have "succeeds (if lt (contents e ! m1) (contents e ! m0) then Swap S e m1 m0 else Some e) ?Q"
        by (rule third)
      then show ?thesis
        using assms len by (simp add: Less_in_range)
    qed
    then have "succeeds (Swap S d' m2 m1)
        (\<lambda>e. succeeds (Less S e m1 m0 \<bind> (\<lambda>l. if l then Swap S e m1 m0 else Some e)) ?Q)"
      using assms seg_perm_length [OF p] by (intro succeeds_Swap) simp_all
    then show ?thesis
      using True by (simp only: if_True succeeds_bind)
  next
    case False
    with that show ?thesis by simp
  qed
  have range: "Less S e i j = Some (lt (contents e ! i) (contents e ! j))"
    if "seg_perm lo hi (contents d) (contents e)" "i < hi" "j < hi" for e i j
    using that assms(10) seg_perm_length [OF that(1)] by (intro Less_in_range) auto
  from first have "succeeds (if lt (contents d ! m1) (contents d ! m0) then Swap S d m1 m0 else Some d)
    (\<lambda>d'. succeeds (Less S d' m2 m1 \<bind> (\<lambda>l. if l
       then Swap S d' m2 m1 \<bind> (\<lambda>d. Less S d m1 m0 \<bind> (\<lambda>l. if l then Swap S d m1 m0 else Some d))
       else Some d')) ?Q)"
  proof (rule succeeds_mono, elim conjE)
    fix d' assume p: "seg_perm lo hi (contents d) (contents d')"
      and o: "\<not> lt (contents d' ! m1) (contents d' ! m0)"
    show "succeeds (Less S d' m2 m1 \<bind> (\<lambda>l. if l
       then Swap S d' m2 m1 \<bind> (\<lambda>d. Less S d m1 m0 \<bind> (\<lambda>l. if l then Swap S d m1 m0 else Some d))
       else Some d')) ?Q"
      using second [OF p o] by (simp only: range [OF p assms(6,5)] Option.bind.bind_lunit)
  qed
  then show ?thesis
    by (simp only: medianOfThree_def range [OF seg_perm_refl assms(5,4)] Option.bind.bind_lunit succeeds_bind)
qed

lemma choose_pivot_correct:
  assumes "12 < hi - lo" "hi \<le> length (contents d)"
  shows "succeeds (choose_pivot S d lo hi)
    (\<lambda>d'. seg_perm lo hi (contents d) (contents d') \<and> \<not> lt (contents d' ! (hi - 1)) (contents d' ! lo))"
proof -
  let ?m = "lo + (hi - lo) div 2" and ?s = "(hi - lo) div 8"
  have ninther: "succeeds (medianOfThree S e m1 m0 m2) (\<lambda>e'. seg_perm lo hi (contents d) (contents e'))"
    if "seg_perm lo hi (contents d) (contents e)"
      "lo \<le> m0" "lo \<le> m1" "lo \<le> m2" "m0 < hi" "m1 < hi" "m2 < hi" "m0 \<noteq> m1" "m1 \<noteq> m2" "m0 \<noteq> m2"
    for e m0 m1 m2
    using medianOfThree_correct [of lo m0 m1 m2 hi e] that assms(2) seg_perm_length [OF that(1)]
    by (auto elim!: succeeds_mono intro: seg_perm_trans)
  have last: "succeeds (medianOfThree S e lo ?m (hi - 1))
    (\<lambda>d'. seg_perm lo hi (contents d) (contents d') \<and> \<not> lt (contents d' ! (hi - 1)) (contents d' ! lo))"
    if "seg_perm lo hi (contents d) (contents e)" for e
  proof -
    have "lo \<le> hi - 1" "?m < hi" "hi - 1 < hi" "lo \<noteq> hi - 1" "?m \<noteq> hi - 1" "?m \<noteq> lo" "lo \<le> ?m"
      using assms(1) by linarith+
    then show ?thesis
      using medianOfThree_correct [of lo ?m lo "hi - 1" hi e] that assms seg_perm_length [OF that]
      by (auto elim!: succeeds_mono intro: seg_perm_trans)
  qed
  have "succeeds (if hi - lo > 40 then do {
            d \<leftarrow> medianOfThree S d lo (lo + ?s) (lo + 2 * ?s);
            d \<leftarrow> medianOfThree S d ?m (?m - ?s) (?m + ?s);
            medianOfThree S d (hi - 1) (hi - 1 - ?s) (hi - 1 - 2 * ?s)
          } else Some d) (\<lambda>e. seg_perm lo hi (contents d) (contents e))"
  proof (cases "hi - lo > 40")
    case True
    define s m where "s = ?s" and "m = ?m"
    have ar: "s > 0" "lo + 2 * s < hi" "lo + s < m" "m + s < hi" "lo + 2 * s < hi - 1" "hi - 1 < hi"
      using True unfolding s_def m_def by linarith+
    have "succeeds (medianOfThree S d lo (lo + s) (lo + 2 * s))
        (\<lambda>d1. seg_perm lo hi (contents d) (contents d1))"
      using ar by (intro ninther) auto
    then have "succeeds (medianOfThree S d lo (lo + s) (lo + 2 * s))
      (\<lambda>d1. succeeds (medianOfThree S d1 m (m - s) (m + s))
        (\<lambda>d2. succeeds (medianOfThree S d2 (hi - 1) (hi - 1 - s) (hi - 1 - 2 * s))
          (\<lambda>e. seg_perm lo hi (contents d) (contents e))))"
    proof (rule succeeds_mono)
      fix d1 assume p1: "seg_perm lo hi (contents d) (contents d1)"
      have "succeeds (medianOfThree S d1 m (m - s) (m + s)) (\<lambda>d2. seg_perm lo hi (contents d) (contents d2))"
        using ar by (intro ninther [OF p1]) auto
      then show "succeeds (medianOfThree S d1 m (m - s) (m + s))
        (\<lambda>d2. succeeds (medianOfThree S d2 (hi - 1) (hi - 1 - s) (hi - 1 - 2 * s))
          (\<lambda>e. seg_perm lo hi (contents d) (contents e)))"
      proof (rule succeeds_mono)
        fix d2 assume p2: "seg_perm lo hi (contents d) (contents d2)"
        show "succeeds (medianOfThree S d2 (hi - 1) (hi - 1 - s) (hi - 1 - 2 * s))
          (\<lambda>e. seg_perm lo hi (contents d) (contents e))"
          using ar by (intro ninther [OF p2]) linarith+
      qed
    qed
    with True show ?thesis by (simp add: s_def m_def)
  qed simp
  then show ?thesis
    unfolding choose_pivot_def Let_def succeeds_bind by (rule succeeds_mono) (rule last)
qed

section \<open>Scans\<close>

lemma scan_less_correct:
  assumes "a \<le> c" "c \<le> length (contents d)" "pv < length (contents d)"
  shows "succeeds (scan_less S d pv a c) (\<lambda>a'. a \<le> a' \<and> a' \<le> c \<and>
    (\<forall>k. a \<le> k \<and> k < a' \<longrightarrow> lt (contents d ! k) (contents d ! pv)) \<and>
    (a' < c \<longrightarrow> \<not> lt (contents d ! a') (contents d ! pv)))"
  using assms(1)
proof (induction "c - a" arbitrary: a)
  case 0
  then show ?case by (subst scan_less.simps) auto
next
  case (Suc n)
  then have ac: "a < c" by simp
  show ?case
  proof (cases "lt (contents d ! a) (contents d ! pv)")
    case True
    from Suc.hyps(2) ac have "succeeds (scan_less S d pv (a + 1) c) (\<lambda>a'. a + 1 \<le> a' \<and> a' \<le> c \<and>
      (\<forall>k. a + 1 \<le> k \<and> k < a' \<longrightarrow> lt (contents d ! k) (contents d ! pv)) \<and>
      (a' < c \<longrightarrow> \<not> lt (contents d ! a') (contents d ! pv)))"
      by (intro Suc.hyps(1)) auto
    then show ?thesis
      using ac True assms(2,3)
      by (subst scan_less.simps)
         (auto simp: Less_in_range elim!: succeeds_mono; metis Suc_leI le_neq_implies_less)
  next
    case False
    with ac assms(2,3) show ?thesis
      by (subst scan_less.simps) (auto simp: Less_in_range)
  qed
qed

lemma scan_not_greater_correct:
  assumes "b \<le> c" "c \<le> length (contents d)" "pv < length (contents d)"
  shows "succeeds (scan_not_greater S d pv b c) (\<lambda>b'. b \<le> b' \<and> b' \<le> c \<and>
    (\<forall>k. b \<le> k \<and> k < b' \<longrightarrow> \<not> lt (contents d ! pv) (contents d ! k)) \<and>
    (b' < c \<longrightarrow> lt (contents d ! pv) (contents d ! b')))"
  using assms(1)
proof (induction "c - b" arbitrary: b)
  case 0
  then show ?case by (subst scan_not_greater.simps) auto
next
  case (Suc n)
  then have bc: "b < c" by simp
  show ?case
  proof (cases "lt (contents d ! pv) (contents d ! b)")
    case False
    from Suc.hyps(2) bc have "succeeds (scan_not_greater S d pv (b + 1) c) (\<lambda>b'. b + 1 \<le> b' \<and> b' \<le> c \<and>
      (\<forall>k. b + 1 \<le> k \<and> k < b' \<longrightarrow> \<not> lt (contents d ! pv) (contents d ! k)) \<and>
      (b' < c \<longrightarrow> lt (contents d ! pv) (contents d ! b')))"
      by (intro Suc.hyps(1)) auto
    then show ?thesis
      using bc False assms(2,3)
      by (subst scan_not_greater.simps)
         (auto simp: Less_in_range elim!: succeeds_mono; metis Suc_leI le_neq_implies_less)
  next
    case True
    with bc assms(2,3) show ?thesis
      by (subst scan_not_greater.simps) (auto simp: Less_in_range)
  qed
qed

lemma scan_greater_down_correct:
  assumes "b \<le> c" "c \<le> length (contents d)" "pv < length (contents d)"
  shows "succeeds (scan_greater_down S d pv b c) (\<lambda>c'. b \<le> c' \<and> c' \<le> c \<and>
    (\<forall>k. c' \<le> k \<and> k < c \<longrightarrow> lt (contents d ! pv) (contents d ! k)) \<and>
    (b < c' \<longrightarrow> \<not> lt (contents d ! pv) (contents d ! (c' - 1))))"
  using assms(1,2)
proof (induction c)
  case 0
  then show ?case by (subst scan_greater_down.simps) auto
next
  case (Suc c)
  show ?case
  proof (cases "b < Suc c \<and> lt (contents d ! pv) (contents d ! c)")
    case True
    then have "succeeds (scan_greater_down S d pv b c) (\<lambda>c'. b \<le> c' \<and> c' \<le> c \<and>
      (\<forall>k. c' \<le> k \<and> k < c \<longrightarrow> lt (contents d ! pv) (contents d ! k)) \<and>
      (b < c' \<longrightarrow> \<not> lt (contents d ! pv) (contents d ! (c' - 1))))"
      using Suc.prems by (intro Suc.IH) auto
    then show ?thesis
      using True Suc.prems assms(3)
      by (subst scan_greater_down.simps) (auto simp: Less_in_range less_Suc_eq elim!: succeeds_mono)
  next
    case False
    with Suc.prems assms(3) show ?thesis
      by (subst scan_greater_down.simps) (auto simp: Less_in_range)
  qed
qed

lemma scan_not_less_down_correct:
  assumes "a \<le> b" "b \<le> length (contents d)" "pv < length (contents d)"
  shows "succeeds (scan_not_less_down S d pv a b) (\<lambda>b'. a \<le> b' \<and> b' \<le> b \<and>
    (\<forall>k. b' \<le> k \<and> k < b \<longrightarrow> \<not> lt (contents d ! k) (contents d ! pv)) \<and>
    (a < b' \<longrightarrow> lt (contents d ! (b' - 1)) (contents d ! pv)))"
  using assms(1,2)
proof (induction b)
  case 0
  then show ?case by (subst scan_not_less_down.simps) auto
next
  case (Suc b)
  show ?case
  proof (cases "a < Suc b \<and> \<not> lt (contents d ! b) (contents d ! pv)")
    case True
    then have "succeeds (scan_not_less_down S d pv a b) (\<lambda>b'. a \<le> b' \<and> b' \<le> b \<and>
      (\<forall>k. b' \<le> k \<and> k < b \<longrightarrow> \<not> lt (contents d ! k) (contents d ! pv)) \<and>
      (a < b' \<longrightarrow> lt (contents d ! (b' - 1)) (contents d ! pv)))"
      using Suc.prems by (intro Suc.IH) auto
    then show ?thesis
      using True Suc.prems assms(3)
      by (subst scan_not_less_down.simps) (auto simp: Less_in_range less_Suc_eq elim!: succeeds_mono)
  next
    case False
    with Suc.prems assms(3) show ?thesis
      by (subst scan_not_less_down.simps) (auto simp: Less_in_range)
  qed
qed

end

end
