(* ===== verification/Sort_Quick.thy ===== *)
theory Sort_Quick
  imports Sort_Insertion Sort_Heap Sort_Pivot
begin

text \<open>
  Correctness of \<open>doPivot\<close> and \<open>quickSort\<close>: the invariant the code states in its comments is
  \<open>pivot_inv\<close>, its outcome \<open>pivot_post\<close>. Every loop ends, no index leaves the range, and the
  range comes out sorted whatever the depth limit.
\<close>

text \<open>
  \<open>data[lo]\<close> is the pivot; \<open>(lo, a)\<close> is less than it, \<open>(lo, b)\<close> not greater, \<open>[b, c)\<close>
  equivalent and \<open>[c, hi)\<close> not less.
\<close>

definition pivot_inv :: "('a \<Rightarrow> 'a \<Rightarrow> bool) \<Rightarrow> nat \<Rightarrow> nat \<Rightarrow> nat \<Rightarrow> nat \<Rightarrow> nat \<Rightarrow> 'a list \<Rightarrow> bool" where
  "pivot_inv lt lo a b c hi xs \<longleftrightarrow>
     lo < a \<and> a \<le> b \<and> b \<le> c \<and> c \<le> hi \<and>
     (\<forall>k. lo < k \<and> k < b \<longrightarrow> \<not> lt (xs ! lo) (xs ! k)) \<and>
     (\<forall>k. lo < k \<and> k < a \<longrightarrow> lt (xs ! k) (xs ! lo)) \<and>
     (\<forall>k. b \<le> k \<and> k < c \<longrightarrow> equiv_of lt (xs ! lo) (xs ! k)) \<and>
     (\<forall>k. c \<le> k \<and> k < hi \<longrightarrow> \<not> lt (xs ! k) (xs ! lo))"

definition pivot_post :: "('a \<Rightarrow> 'a \<Rightarrow> bool) \<Rightarrow> nat \<Rightarrow> nat \<Rightarrow> nat \<Rightarrow> nat \<Rightarrow> 'a list \<Rightarrow> bool" where
  "pivot_post lt lo hi mlo mhi xs \<longleftrightarrow>
     lo \<le> mlo \<and> mlo < mhi \<and> mhi \<le> hi \<and>
     (\<forall>k. lo \<le> k \<and> k < mhi \<longrightarrow> \<not> lt (xs ! mlo) (xs ! k)) \<and>
     (\<forall>k. mlo \<le> k \<and> k < hi \<longrightarrow> \<not> lt (xs ! k) (xs ! mlo))"

context sort_data
begin

section \<open>Partitioning\<close>

lemma partition_loop_correct:
  assumes "pv < b" "b \<le> c" "c \<le> length (contents d)"
  shows "succeeds (partition_loop S d pv b c) (\<lambda>(d', b', c'). b' = c' \<and>
    seg_perm b c (contents d) (contents d') \<and>
    split_by (\<lambda>x. \<not> lt (contents d ! pv) x) b b' c (contents d'))"
    (is "succeeds _ (?Q b c d)")
  using assms
proof (induction "c - b" arbitrary: b c d rule: less_induct)
  case less
  let ?xs = "contents d"
  have pv: "pv < length ?xs" using less.prems by simp
  have turn: "succeeds (if c1 \<le> b1 then Some (d, b1, c1) else Swap S d b1 (c1 - 1) \<bind>
        (\<lambda>d. partition_loop S d pv (b1 + 1) (c1 - 1))) (?Q b c d)"
    if b1: "b \<le> b1" "b1 \<le> c" "\<forall>k. b \<le> k \<and> k < b1 \<longrightarrow> \<not> lt (?xs ! pv) (?xs ! k)"
        "b1 < c \<longrightarrow> lt (?xs ! pv) (?xs ! b1)"
      and c1: "b1 \<le> c1" "c1 \<le> c" "\<forall>k. c1 \<le> k \<and> k < c \<longrightarrow> lt (?xs ! pv) (?xs ! k)"
        "b1 < c1 \<longrightarrow> \<not> lt (?xs ! pv) (?xs ! (c1 - 1))"
    for b1 c1
  proof (cases "c1 \<le> b1")
    case True
    with b1 c1 show ?thesis by (simp add: split_by_def)
  next
    case False
    then have bc: "b1 + 1 < c1"
      using b1(4) c1(2,4) by (cases "c1 = b1 + 1") auto
    have "succeeds (partition_loop S d1 pv (b1 + 1) (c1 - 1)) (?Q b c d)"
      if d1: "contents d1 = swap b1 (c1 - 1) ?xs" for d1
    proof -
      have "contents d1 ! pv = ?xs ! pv"
        using b1 c1 bc less.prems unfolding d1 by (subst nth_swap) auto
      moreover have "succeeds (partition_loop S d1 pv (b1 + 1) (c1 - 1)) (?Q (b1 + 1) (c1 - 1) d1)"
        using b1 c1 bc less.prems by (intro less.hyps) (auto simp: d1)
      ultimately show ?thesis
        using split_by_exchange [of b b1 c1 c ?xs "\<lambda>x. \<not> lt (?xs ! pv) x"] b1 c1 bc less.prems(3)
        by (auto elim!: succeeds_mono simp: d1)
    qed
    with False b1 c1 bc less.prems(3) show ?thesis
      by (simp add: succeeds_Swap)
  qed
  have "succeeds (scan_not_greater S d pv b c) (\<lambda>b1. succeeds (scan_greater_down S d pv b1 c)
    (\<lambda>c1. succeeds (if c1 \<le> b1 then Some (d, b1, c1) else Swap S d b1 (c1 - 1) \<bind>
        (\<lambda>d. partition_loop S d pv (b1 + 1) (c1 - 1))) (?Q b c d)))"
    by (rule succeeds_mono [OF scan_not_greater_correct [OF less.prems(2,3) pv]],
        rule succeeds_mono [OF scan_greater_down_correct [OF _ less.prems(3) pv]], blast, rule turn; blast)
  then show ?case
    by (subst partition_loop.simps) simp
qed

lemma protect_loop_correct:
  assumes "pv < a" "a \<le> b" "b \<le> length (contents d)"
  shows "succeeds (protect_loop S d pv a b) (\<lambda>(d', b').
    seg_perm a b (contents d) (contents d') \<and> split_by (\<lambda>x. lt x (contents d ! pv)) a b' b (contents d'))"
    (is "succeeds _ (?Q a b d)")
  using assms
proof (induction "b - a" arbitrary: a b d rule: less_induct)
  case less
  let ?xs = "contents d"
  have pv: "pv < length ?xs" using less.prems by simp
  have turn: "succeeds (if b1 \<le> a1 then Some (d, b1) else Swap S d a1 (b1 - 1) \<bind>
        (\<lambda>d. protect_loop S d pv (a1 + 1) (b1 - 1))) (?Q a b d)"
    if b1: "a \<le> b1" "b1 \<le> b" "\<forall>k. b1 \<le> k \<and> k < b \<longrightarrow> \<not> lt (?xs ! k) (?xs ! pv)"
        "a < b1 \<longrightarrow> lt (?xs ! (b1 - 1)) (?xs ! pv)"
      and a1: "a \<le> a1" "a1 \<le> b1" "\<forall>k. a \<le> k \<and> k < a1 \<longrightarrow> lt (?xs ! k) (?xs ! pv)"
        "a1 < b1 \<longrightarrow> \<not> lt (?xs ! a1) (?xs ! pv)"
    for a1 b1
  proof (cases "b1 \<le> a1")
    case True
    with b1 a1 show ?thesis by (simp add: split_by_def)
  next
    case False
    then have ab: "a1 + 1 < b1"
      using b1(4) a1(1,4) by (cases "b1 = a1 + 1") auto
    have "succeeds (protect_loop S d1 pv (a1 + 1) (b1 - 1)) (?Q a b d)"
      if d1: "contents d1 = swap a1 (b1 - 1) ?xs" for d1
    proof -
      have "contents d1 ! pv = ?xs ! pv"
        using b1 a1 ab less.prems unfolding d1 by (subst nth_swap) auto
      moreover have "succeeds (protect_loop S d1 pv (a1 + 1) (b1 - 1)) (?Q (a1 + 1) (b1 - 1) d1)"
        using b1 a1 ab less.prems by (intro less.hyps) (auto simp: d1)
      ultimately show ?thesis
        using split_by_exchange [of a a1 b1 b ?xs "\<lambda>x. lt x (?xs ! pv)"] b1 a1 ab less.prems(3)
        by (auto elim!: succeeds_mono simp: d1)
    qed
    with False b1 a1 ab less.prems(3) show ?thesis
      by (simp add: succeeds_Swap)
  qed
  have "succeeds (scan_not_less_down S d pv a b) (\<lambda>b1. succeeds (scan_less S d pv a b1)
    (\<lambda>a1. succeeds (if b1 \<le> a1 then Some (d, b1) else Swap S d a1 (b1 - 1) \<bind>
        (\<lambda>d. protect_loop S d pv (a1 + 1) (b1 - 1))) (?Q a b d)))"
    by (rule succeeds_mono [OF scan_not_less_down_correct [OF less.prems(2,3) pv]],
        rule succeeds_mono [OF scan_less_correct [OF _ order_trans [OF _ less.prems(3)] pv]], blast, blast,
        rule turn; blast)
  then show ?case
    by (subst protect_loop.simps) simp
qed

lemma pivot_invD:
  assumes "pivot_inv lt lo a b c hi xs"
  shows "lo < a" "a \<le> b" "b \<le> c" "c \<le> hi"
    and "lo < k \<Longrightarrow> k < b \<Longrightarrow> \<not> lt (xs ! lo) (xs ! k)"
    and "lo < k \<Longrightarrow> k < a \<Longrightarrow> lt (xs ! k) (xs ! lo)"
    and "b \<le> k \<Longrightarrow> k < c \<Longrightarrow> \<not> lt (xs ! lo) (xs ! k) \<and> \<not> lt (xs ! k) (xs ! lo)"
    and "c \<le> k \<Longrightarrow> k < hi \<Longrightarrow> \<not> lt (xs ! k) (xs ! lo)"
  using assms by (auto simp: pivot_inv_def equiv_of_def)

lemma pivot_invI:
  assumes "lo < a" "a \<le> b" "b \<le> c" "c \<le> hi"
    and "\<And>k. lo < k \<Longrightarrow> k < b \<Longrightarrow> \<not> lt (xs ! lo) (xs ! k)"
    and "\<And>k. lo < k \<Longrightarrow> k < a \<Longrightarrow> lt (xs ! k) (xs ! lo)"
    and "\<And>k. b \<le> k \<Longrightarrow> k < c \<Longrightarrow> \<not> lt (xs ! lo) (xs ! k) \<and> \<not> lt (xs ! k) (xs ! lo)"
    and "\<And>k. c \<le> k \<Longrightarrow> k < hi \<Longrightarrow> \<not> lt (xs ! k) (xs ! lo)"
  shows "pivot_inv lt lo a b c hi xs"
  using assms by (auto simp: pivot_inv_def equiv_of_def)

text \<open>The three ways in which \<open>test_dups\<close> widens the middle.\<close>

lemma pivot_inv_widen_right:
  assumes inv: "pivot_inv lt lo a b c hi xs" and c: "c < hi" and len: "hi \<le> length xs"
    and e: "\<not> lt (xs ! lo) (xs ! (hi - 1))" and ys: "ys = swap c (hi - 1) xs"
  shows "pivot_inv lt lo a b (c + 1) hi ys"
proof -
  note I = pivot_invD [OF inv]
  have nth: "ys ! k = (if k = c then xs ! (hi - 1) else if k = hi - 1 then xs ! c else xs ! k)"
    if "k < hi" for k
    unfolding ys using that c len by (intro nth_swap) auto
  have low: "ys ! k = xs ! k" if "k < c" for k
    using nth [of k] that c by auto
  have lo: "ys ! lo = xs ! lo"
    using I(1-3) by (intro low) simp
  have high: "\<not> lt (ys ! k) (xs ! lo)" if "c \<le> k" "k < hi" for k
    using nth [of k] that c I(8) [of c] I(8) [of "hi - 1"] I(8) [of k] by (auto split: if_splits)
  have "ys ! c = xs ! (hi - 1)"
    using nth [of c] c by simp
  then have mid: "\<not> lt (xs ! lo) (ys ! k) \<and> \<not> lt (ys ! k) (xs ! lo)" if "b \<le> k" "k < c + 1" for k
    using that e high [of c] c I(7) [of k] low [of k] by (cases "k = c") auto
  show ?thesis
    using I(1-6) c mid high by (intro pivot_invI) (auto simp: lo low)
qed

lemma pivot_inv_widen_left:
  assumes inv: "pivot_inv lt lo a b c hi xs" and b: "lo + 1 < b" and e: "\<not> lt (xs ! (b - 1)) (xs ! lo)"
  shows "pivot_inv lt lo a (b - 1) c hi xs"
proof -
  note I = pivot_invD [OF inv]
  have "a \<le> b - 1"
    using I(6) [of "b - 1"] b e by (cases "a \<le> b - 1") auto
  moreover have "\<not> lt (xs ! lo) (xs ! (b - 1))"
    using b by (intro I(5)) auto
  moreover have "k = b - 1 \<or> b \<le> k" if "b - 1 \<le> k" for k
    using that by linarith
  ultimately show ?thesis
    using I(1-4) b e unfolding pivot_inv_def equiv_of_def
    by (intro conjI allI impI) (auto dest: I(5-8))
qed

lemma pivot_inv_widen_mid:
  assumes inv: "pivot_inv lt lo a b c hi xs" and m: "lo < m" "m < b" and len: "hi \<le> length xs"
    and e: "\<not> lt (xs ! m) (xs ! lo)" and ys: "ys = swap m (b - 1) xs"
  shows "pivot_inv lt lo a (b - 1) c hi ys"
proof -
  note I = pivot_invD [OF inv]
  have am: "a \<le> m"
    using I(6) [of m] m e by (cases "a \<le> m") auto
  have nth: "ys ! k = (if k = m then xs ! (b - 1) else if k = b - 1 then xs ! m else xs ! k)"
    if "k < hi" for k
    unfolding ys using that m I(3,4) len by (intro nth_swap) auto
  have lo: "ys ! lo = xs ! lo"
    using nth [of lo] I(1-4) m am by auto
  have low: "\<not> lt (xs ! lo) (ys ! k)" if "lo < k" "k < b" for k
    using nth [of k] that m I(3,4) I(5) [of k] I(5) [of "b - 1"] I(5) [of m] by (auto split: if_splits)
  have same: "ys ! k = xs ! k" if "b \<le> k \<or> k < a" "k < hi" for k
    using nth [of k] that m am by (auto split: if_splits)
  have "ys ! (b - 1) = xs ! m"
    using nth [of "b - 1"] m I(3,4) by (auto split: if_splits)
  then have mid: "\<not> lt (xs ! lo) (ys ! k) \<and> \<not> lt (ys ! k) (xs ! lo)" if k: "b - 1 \<le> k" "k < c" for k
  proof (cases "k = b - 1")
    case False
    then have "b \<le> k" using k(1) by linarith
    with k(2) show ?thesis using I(4) I(7) [of k] same [of k] by simp
  qed (use e low [of m] I(5) [of m] m in simp)
  show ?thesis
    using I(1-4) I(6,8) m am mid low by (intro pivot_invI) (auto simp: lo same)
qed

lemma test_dups_correct:
  assumes inv: "pivot_inv lt lo a b c hi (contents d)" and m: "lo < m" "m + 1 < b" and c: "c < hi"
    and len: "hi \<le> length (contents d)"
  shows "succeeds (test_dups S d lo m hi b c) (\<lambda>(d', b', c', dups).
    seg_perm lo hi (contents d) (contents d') \<and> pivot_inv lt lo a b' c' hi (contents d'))"
proof -
  let ?Q = "\<lambda>(d', b', c', dups::nat).
    seg_perm lo hi (contents d) (contents d') \<and> pivot_inv lt lo a b' c' hi (contents d')"
  have lohi: "lo < hi" using m pivot_invD(3) [OF inv] c by linarith
  have third: "succeeds (if \<not> lt (contents d2 ! m) (contents d2 ! lo)
      then Swap S d2 m (b2 - 1) \<bind> (\<lambda>d. Some (d, b2 - 1, c2, dups + 1)) else Some (d2, b2, c2, dups)) ?Q"
    if p: "seg_perm lo hi (contents d) (contents d2)" and i2: "pivot_inv lt lo a b2 c2 hi (contents d2)"
      and b2: "m < b2" for d2 b2 c2 dups
  proof -
    have l2: "hi \<le> length (contents d2)" "b2 \<le> hi"
      using len seg_perm_length [OF p] pivot_invD(3,4) [OF i2] by simp_all
    have "succeeds (Swap S d2 m (b2 - 1)) (\<lambda>d. ?Q (d, b2 - 1, c2, dups + 1))"
      if "\<not> lt (contents d2 ! m) (contents d2 ! lo)"
      using m b2 l2 len that pivot_inv_widen_mid [OF i2 m(1) b2 l2(1) that]
      by (intro succeeds_Swap) (auto intro: seg_perm_swap_trans [OF p])
    with p i2 show ?thesis by simp
  qed
  have second: "succeeds (Less S d1 (b - 1) lo \<bind> (\<lambda>l. let (b', dups') = if \<not> l then (b - 1, dups + 1) else (b, dups) in
      Less S d1 m lo \<bind> (\<lambda>l. if \<not> l then Swap S d1 m (b' - 1) \<bind> (\<lambda>d. Some (d, b' - 1, c1, dups' + 1))
        else Some (d1, b', c1, dups')))) ?Q"
    if p: "seg_perm lo hi (contents d) (contents d1)" and i1: "pivot_inv lt lo a b c1 hi (contents d1)" for d1 c1 dups
  proof -
    have l1: "hi \<le> length (contents d1)" "b \<le> hi"
      using len seg_perm_length [OF p] pivot_invD(3,4) [OF i1] by simp_all
    have range: "Less S d1 i lo = Some (lt (contents d1 ! i) (contents d1 ! lo))" if "i < hi" for i
      using that l1 lohi by (intro Less_in_range) auto
    have mb: "m < b - 1" "b - 1 < hi" "m < b" "m < hi"
      using m l1 by linarith+
    show ?thesis
    proof (cases "lt (contents d1 ! (b - 1)) (contents d1 ! lo)")
      case True
      then show ?thesis
        using third [OF p i1 mb(3), of dups]
        by (simp only: range [OF mb(2)] range [OF mb(4)] Option.bind.bind_lunit Let_def prod.case simp_thms if_False if_True)
    next
      case False
      then have i2: "pivot_inv lt lo a (b - 1) c1 hi (contents d1)"
        using m by (intro pivot_inv_widen_left [OF i1]) auto
      then show ?thesis
        using False third [OF p i2 mb(1), of "dups + 1"]
        by (simp only: range [OF mb(2)] range [OF mb(4)] Option.bind.bind_lunit Let_def prod.case simp_thms if_False if_True)
    qed
  qed
  have less: "Less S d lo (hi - 1) = Some (lt (contents d ! lo) (contents d ! (hi - 1)))"
    using lohi len by (intro Less_in_range) auto
  have "succeeds (Swap S d c (hi - 1)) (\<lambda>d1. seg_perm lo hi (contents d) (contents d1) \<and>
      pivot_inv lt lo a b (c + 1) hi (contents d1))" if "\<not> lt (contents d ! lo) (contents d ! (hi - 1))"
    using c len pivot_invD(1-3) [OF inv] pivot_inv_widen_right [OF inv c len that]
    by (intro succeeds_Swap conjI) (auto intro: seg_perm_swap)
  with inv have first: "succeeds (if \<not> lt (contents d ! lo) (contents d ! (hi - 1))
      then Swap S d c (hi - 1) \<bind> (\<lambda>d. Some (d, c + 1, 1)) else Some (d, c, 0::nat))
    (\<lambda>(d1, c1, dups). seg_perm lo hi (contents d) (contents d1) \<and> pivot_inv lt lo a b c1 hi (contents d1))"
    by simp
  show ?thesis
    unfolding test_dups_def less Option.bind.bind_lunit
    by (subst succeeds_bind, rule succeeds_mono [OF first], simp only: split_paired_all prod.case, rule second; blast)
qed

text \<open>The first two loops establish the invariant.\<close>

lemma partition_establishes:
  assumes "lo + 12 < hi" "hi \<le> length (contents d)" "\<not> lt (contents d ! (hi - 1)) (contents d ! lo)"
  shows "succeeds (scan_less S d lo (lo + 1) (hi - 1)) (\<lambda>a. succeeds (partition_loop S d lo a (hi - 1))
    (\<lambda>(d', b, c). b = c \<and> c < hi \<and> seg_perm lo hi (contents d) (contents d') \<and>
       pivot_inv lt lo a b c hi (contents d')))"
proof -
  have ar: "lo + 1 \<le> hi - 1" "hi - 1 \<le> length (contents d)" "lo < length (contents d)"
    using assms(1,2) by linarith+
  show ?thesis
  proof (rule succeeds_mono [OF scan_less_correct [OF ar]], elim conjE)
    fix a assume a: "lo + 1 \<le> a" "a \<le> hi - 1"
      and less: "\<forall>k. lo + 1 \<le> k \<and> k < a \<longrightarrow> lt (contents d ! k) (contents d ! lo)"
    have "lo < a" using a by simp
    from partition_loop_correct [OF this a(2) ar(2)]
    show "succeeds (partition_loop S d lo a (hi - 1)) (\<lambda>(d', b, c). b = c \<and> c < hi \<and>
       seg_perm lo hi (contents d) (contents d') \<and> pivot_inv lt lo a b c hi (contents d'))"
    proof (rule succeeds_mono, clarify)
      fix d' c assume p: "seg_perm a (hi - 1) (contents d) (contents d')"
        and s: "split_by (\<lambda>x. \<not> lt (contents d ! lo) x) a c (hi - 1) (contents d')"
      have c: "a \<le> c" "c \<le> hi - 1" using s by (auto simp: split_by_def)
      have out: "contents d' ! k = contents d ! k" if "k < a \<or> k = hi - 1" for k
        using that a assms(1,2) by (intro seg_perm_outside [OF p]) auto
      have "\<not> lt (contents d ! lo) (contents d' ! k)" if "lo < k" "k < c" for k
        using that less s asym out [of k] by (cases "k < a") (auto simp: split_by_def)
      moreover have "\<not> lt (contents d' ! k) (contents d ! lo)" if "c \<le> k" "k < hi" for k
        using that s asym out [of k] assms(3) by (cases "k = hi - 1") (auto simp: split_by_def)
      moreover have "seg_perm lo hi (contents d) (contents d')"
        using a by (intro seg_perm_mono [OF p]) auto
      ultimately show "c = c \<and> c < hi \<and> seg_perm lo hi (contents d) (contents d') \<and>
          pivot_inv lt lo a c c hi (contents d')"
        using c a assms(1) less out by (auto simp: pivot_inv_def)
    qed
  qed
qed

lemma pivot_inv_protect:
  assumes inv: "pivot_inv lt lo a b c hi xs" and len: "hi \<le> length xs"
    and p: "seg_perm a b xs ys" and s: "split_by (\<lambda>x. lt x (xs ! lo)) a b' b ys"
  shows "pivot_inv lt lo a b' c hi ys"
proof -
  note I = pivot_invD [OF inv]
  have b': "a \<le> b'" "b' \<le> b" using s by (auto simp: split_by_def)
  have out: "ys ! k = xs ! k" if "k < a \<or> b \<le> k" "k < hi" for k
    using that len by (intro seg_perm_outside [OF p]) auto
  have le: "\<not> lt (xs ! lo) (ys ! k)" if "a \<le> k" "k < b" for k
    using I(1-5) len that by (intro seg_perm_all [OF p, where P = "\<lambda>x. \<not> lt (xs ! lo) x"]) auto
  have lo: "ys ! lo = xs ! lo" using I(1-4) by (intro out) auto
  have mid: "\<not> lt (xs ! lo) (ys ! k) \<and> \<not> lt (ys ! k) (xs ! lo)" if "b' \<le> k" "k < c" for k
    using that b' I(4) I(7) [of k] le [of k] s out [of k] by (cases "k < b") (auto simp: split_by_def)
  have "\<not> lt (xs ! lo) (ys ! k)" if "lo < k" "k < b'" for k
    using that b' I(2-4) I(5) [of k] le [of k] out [of k] by (cases "k < a") auto
  with mid show ?thesis
    using I(1-4) I(6,8) b' by (intro pivot_invI) (auto simp: lo out)
qed

lemma pivot_inv_final:
  assumes inv: "pivot_inv lt lo a b c hi xs" and len: "hi \<le> length xs" and ys: "ys = swap lo (b - 1) xs"
  shows "pivot_post lt lo hi (b - 1) c ys" "seg_perm lo hi xs ys"
proof -
  note I = pivot_invD [OF inv]
  have nth: "ys ! k = (if k = lo then xs ! (b - 1) else if k = b - 1 then xs ! lo else xs ! k)"
    if "k < hi" for k
    unfolding ys using that I(1-4) len by (intro nth_swap) auto
  have pv: "ys ! (b - 1) = xs ! lo"
    using nth [of "b - 1"] I(1-4) by (auto split: if_splits)
  have "\<not> lt (xs ! lo) (ys ! k)" if "lo \<le> k" "k < c" for k
    using nth [of k] that I(1-4) I(5) [of k] I(5) [of "b - 1"] I(7) [of k]
    by (cases "k < b"; cases "b - 1 = lo") (auto split: if_splits)
  moreover have "\<not> lt (ys ! k) (xs ! lo)" if "b - 1 \<le> k" "k < hi" for k
  proof (cases "k = b - 1")
    case False
    then have "b \<le> k" "lo < k" using that(1) I(1,2) by linarith+
    then show ?thesis using nth [of k] that I(7,8) [of k] by (cases "k < c") auto
  qed (use pv in simp)
  ultimately show "pivot_post lt lo hi (b - 1) c ys"
    using I(1-4) by (auto simp: pivot_post_def pv [simplified])
  show "seg_perm lo hi xs ys"
    unfolding ys using I(1-4) len by (intro seg_perm_swap) auto
qed

lemma doPivot_correct:
  assumes hi: "lo + 12 < hi" "hi \<le> length (contents d)"
  shows "succeeds (doPivot S d lo hi) (\<lambda>(d', mlo, mhi).
    seg_perm lo hi (contents d) (contents d') \<and> pivot_post lt lo hi mlo mhi (contents d'))"
proof -
  let ?m = "lo + (hi - lo) div 2"
  let ?Q = "\<lambda>(d', mlo, mhi). seg_perm lo hi (contents d) (contents d') \<and> pivot_post lt lo hi mlo mhi (contents d')"
  let ?P = "\<lambda>a d' b c. seg_perm lo hi (contents d) (contents d') \<and> pivot_inv lt lo a b c hi (contents d')"
  let ?dups = "\<lambda>d b c. if \<not> hi - c < 5 \<and> hi - c < (hi - lo) div 4
       then test_dups S d lo ?m hi b c \<bind> (\<lambda>(d, b, c, dups). Some (d, b, c, dups > 1))
       else Some (d, b, c, hi - c < 5)"
  let ?last = "\<lambda>c (d, b). Swap S d lo (b - 1) \<bind> (\<lambda>d. Some (d, b - 1, c))"
  let ?protect = "\<lambda>a (d, b, c, protect). (if protect then protect_loop S d lo a b else Some (d, b)) \<bind> ?last c"
  have last: "succeeds (?last c (d', b)) ?Q" if "?P a d' b c" for a d' b c
    using that hi pivot_inv_final [of lo a b c hi "contents d'"] pivot_invD(1-4) [of lo a b c hi "contents d'"]
      seg_perm_length [of lo hi "contents d" "contents d'"]
    by (auto intro!: succeeds_Swap intro: seg_perm_trans)
  have protect: "succeeds (?protect a (d', b, c, pr)) ?Q" if P: "?P a d' b c" for a d' b c pr
  proof -
    have I: "lo < a" "a \<le> b" "b \<le> c" "c \<le> hi" and len: "hi \<le> length (contents d')"
      using P hi pivot_invD(1-4) seg_perm_length [of lo hi "contents d" "contents d'"] by auto
    have bl: "b \<le> length (contents d')" using I(3,4) len by linarith
    have "succeeds (protect_loop S d' lo a b) (\<lambda>(d'', b'). ?P a d'' b' c)"
    proof (rule succeeds_mono [OF protect_loop_correct [OF I(1,2) bl]], clarify)
      fix d'' b' assume p: "seg_perm a b (contents d') (contents d'')"
        and s: "split_by (\<lambda>x. lt x (contents d' ! lo)) a b' b (contents d'')"
      show "?P a d'' b' c"
        using pivot_inv_protect [OF _ len p s] P I seg_perm_mono [OF p, of lo hi]
        by (auto intro: seg_perm_trans)
    qed
    then have "succeeds (if pr then protect_loop S d' lo a b else Some (d', b)) (\<lambda>(d'', b'). ?P a d'' b' c)"
      using P by simp
    then show ?thesis
      by (simp only: prod.case succeeds_bind, elim succeeds_mono)
         (simp only: split_paired_all prod.case, rule last [unfolded prod.case])
  qed
  have dups: "succeeds (?dups d' b c) (\<lambda>(d'', b', c', pr). ?P a d'' b' c')"
    if P: "?P a d' b c" and c: "b = c" "c < hi" for a d' b c
  proof (cases "\<not> hi - c < 5 \<and> hi - c < (hi - lo) div 4")
    case True
    have "lo < ?m" "?m + 1 < b" using True hi c by linarith+
    then have "succeeds (test_dups S d' lo ?m hi b c) (\<lambda>(d'', b', c', dups). ?P a d'' b' c')"
      using P c hi seg_perm_length [of lo hi "contents d" "contents d'"]
      by (intro succeeds_mono [OF test_dups_correct [of lo a b c hi d']]) (auto intro: seg_perm_trans)
    then have "succeeds (test_dups S d' lo ?m hi b c \<bind> (\<lambda>(d, b, c, dups). Some (d, b, c, dups > 1)))
        (\<lambda>(d'', b', c', pr). ?P a d'' b' c')"
      by (simp only: succeeds_bind, elim succeeds_mono) auto
    then show ?thesis
      by (simp only: True simp_thms if_True)
  qed (use P in auto)
  have "succeeds (choose_pivot S d lo hi) (\<lambda>d1. succeeds (scan_less S d1 lo (lo + 1) (hi - 1))
    (\<lambda>a. succeeds (partition_loop S d1 lo a (hi - 1)) (\<lambda>(d2, b, c). succeeds (?dups d2 b c)
      (\<lambda>x. succeeds (?protect a x) ?Q))))"
  proof (rule succeeds_mono [OF choose_pivot_correct], goal_cases)
    case (3 d1)
    then have len: "hi \<le> length (contents d1)"
      using hi seg_perm_length [of lo hi "contents d" "contents d1"] by simp
    show ?case
    proof (rule succeeds_mono [OF partition_establishes [OF hi(1) len]], goal_cases)
      case (2 a)
      then show ?case
      proof (rule succeeds_mono, clarify)
        fix d2 c assume "seg_perm lo hi (contents d1) (contents d2)" and c: "c < hi"
          and "pivot_inv lt lo a c c hi (contents d2)"
        with 3 have "?P a d2 c c" by (auto intro: seg_perm_trans)
        from dups [OF this refl c]
        show "succeeds (?dups d2 c c) (\<lambda>x. succeeds (?protect a x) ?Q)"
          by (rule succeeds_mono) (simp only: split_paired_all prod.case, rule protect [unfolded prod.case])
      qed
    qed (use 3 in simp)
  qed (use hi in auto)
  then show ?thesis
    unfolding doPivot_def Let_def by (simp add: case_prod_unfold)
qed

section \<open>Quicksort\<close>

text \<open>
  Sorting the two sides of a partitioned range sorts it. \<open>sides\<close> says what the recursive calls
  leave: each side rearranged and sorted, the middle untouched.
\<close>

definition sides :: "nat \<Rightarrow> nat \<Rightarrow> nat \<Rightarrow> nat \<Rightarrow> 'a list \<Rightarrow> 'a list \<Rightarrow> bool" where
  "sides lo hi mlo mhi xs zs \<longleftrightarrow>
     (\<exists>ys. seg_perm lo mlo xs ys \<and> seg_perm mhi hi ys zs \<or> seg_perm mhi hi xs ys \<and> seg_perm lo mlo ys zs) \<and>
     sorted_seg lt lo mlo zs \<and> sorted_seg lt mhi hi zs"

lemma two_sides_source:
  assumes p: "seg_perm a b xs ys" "seg_perm c e ys zs" and dis: "b \<le> c \<or> e \<le> a"
    and len: "b \<le> length xs" "e \<le> length xs" and k: "k < length xs"
  shows "\<exists>k'. zs ! k = xs ! k' \<and>
    (a \<le> k \<and> k < b \<and> a \<le> k' \<and> k' < b \<or> c \<le> k \<and> k < e \<and> c \<le> k' \<and> k' < e \<or> k' = k)"
proof -
  have ly: "length ys = length xs" using p(1) by (rule seg_perm_length)
  consider "c \<le> k" "k < e" | "a \<le> k" "k < b" "\<not> (c \<le> k \<and> k < e)" | "\<not> (a \<le> k \<and> k < b)" "\<not> (c \<le> k \<and> k < e)"
    by blast
  then show ?thesis
  proof cases
    case 1
    then obtain k' where "c \<le> k'" "k' < e" "zs ! k = ys ! k'"
      using p(2) len ly by (metis seg_perm_source)
    moreover have "ys ! k' = xs ! k'"
      using calculation dis len by (intro seg_perm_outside [OF p(1)]) auto
    ultimately show ?thesis using 1 by metis
  next
    case 2
    then obtain k' where "a \<le> k'" "k' < b" "ys ! k = xs ! k'"
      using p(1) len by (metis seg_perm_source)
    moreover have "zs ! k = ys ! k"
      using 2 k ly by (intro seg_perm_outside [OF p(2)]) auto
    ultimately show ?thesis using 2 by metis
  next
    case 3
    then have "zs ! k = xs ! k"
      using seg_perm_outside [OF p(1), of k] seg_perm_outside [OF p(2), of k] k ly by auto
    then show ?thesis by metis
  qed
qed

lemma sides_sorted:
  assumes post: "pivot_post lt lo hi mlo mhi xs" and len: "hi \<le> length xs" and s: "sides lo hi mlo mhi xs zs"
  shows "seg_perm lo hi xs zs" "sorted_seg lt lo hi zs"
proof -
  have I: "lo \<le> mlo" "mlo < mhi" "mhi \<le> hi" using post by (auto simp: pivot_post_def)
  obtain ys where ys: "seg_perm lo mlo xs ys \<and> seg_perm mhi hi ys zs \<or>
      seg_perm mhi hi xs ys \<and> seg_perm lo mlo ys zs"
    using s by (auto simp: sides_def)
  have wide: "seg_perm lo mlo us vs \<Longrightarrow> seg_perm lo hi us vs" "seg_perm mhi hi us vs \<Longrightarrow> seg_perm lo hi us vs"
    for us vs :: "'a list"
    using I by (auto elim: seg_perm_mono)
  show "seg_perm lo hi xs zs"
    using ys by (auto dest!: wide intro: seg_perm_trans)
  have src: "\<exists>k'. zs ! k = xs ! k' \<and> (k < mlo \<and> k' < mlo \<and> lo \<le> k' \<or> mhi \<le> k \<and> mhi \<le> k' \<and> k' < hi \<or> k' = k)"
    if k: "lo \<le> k" "k < hi" for k
    using ys
  proof (elim disjE conjE)
    assume p: "seg_perm lo mlo xs ys" "seg_perm mhi hi ys zs"
    show ?thesis using two_sides_source [OF p, of k] I len k by auto
  next
    assume p: "seg_perm mhi hi xs ys" "seg_perm lo mlo ys zs"
    show ?thesis using two_sides_source [OF p, of k] I len k by auto
  qed
  have below: "\<not> lt (xs ! mlo) (zs ! k)" if "lo \<le> k" "k < mhi" for k
    using src [of k] that post I by (auto simp: pivot_post_def)
  have above: "\<not> lt (zs ! k) (xs ! mlo)" if "mlo \<le> k" "k < hi" for k
    using src [of k] that post I by (auto simp: pivot_post_def)
  show "sorted_seg lt lo hi zs"
  proof (rule sorted_segI)
    fix i j assume ij: "lo \<le> i" "i < j" "j < hi"
    consider "j < mlo" | "mhi \<le> i" | "i < mhi" "mlo \<le> j" by linarith
    then show "\<not> lt (zs ! j) (zs ! i)"
    proof cases
      case 3
      with ij show ?thesis using below [of i] above [of j] neg_trans by blast
    qed (use s ij in \<open>auto simp: sides_def dest: sorted_segD\<close>)
  qed
qed

lemma quickSort_short:
  assumes "b \<le> length (contents d)" "\<not> b - a > 12"
  shows "succeeds (quickSort S d a b depth)
    (\<lambda>d'. seg_perm a b (contents d) (contents d') \<and> sorted_seg lt a b (contents d'))"
proof (cases "b - a > 1")
  case True
  have "succeeds (shell_pass S d b (a + 6)) (\<lambda>d1. succeeds (insertionSort S d1 a b)
    (\<lambda>d'. seg_perm a b (contents d) (contents d') \<and> sorted_seg lt a b (contents d')))"
  proof (rule succeeds_mono [OF shell_pass_correct [OF order_refl assms(1)]])
    fix d1 assume p: "seg_perm a b (contents d) (contents d1)"
    then have "b \<le> length (contents d1)" using assms(1) by (simp add: seg_perm_length)
    from insertionSort_correct [OF this, of a]
    show "succeeds (insertionSort S d1 a b)
      (\<lambda>d'. seg_perm a b (contents d) (contents d') \<and> sorted_seg lt a b (contents d'))"
      by (rule succeeds_mono) (blast intro: seg_perm_trans [OF p] stable_seg_perm)
  qed
  with True assms(2) show ?thesis by (subst quickSort.simps) simp
next
  case False
  with assms show ?thesis by (subst quickSort.simps) auto
qed

text \<open>The two recursive calls, in either order.\<close>

lemma quickSort_sides:
  assumes IH: "\<And>a b d. b \<le> length (contents d) \<Longrightarrow> succeeds (quickSort S d a b depth)
      (\<lambda>d'. seg_perm a b (contents d) (contents d') \<and> sorted_seg lt a b (contents d'))"
    and len: "b \<le> length (contents d)" and m: "a \<le> mlo" "mlo < mhi" "mhi \<le> b"
  shows "succeeds (quickSort S d a mlo depth \<bind> (\<lambda>d. quickSort S d mhi b depth))
      (\<lambda>d'. sides a b mlo mhi (contents d) (contents d'))"
    and "succeeds (quickSort S d mhi b depth \<bind> (\<lambda>d. quickSort S d a mlo depth))
      (\<lambda>d'. sides a b mlo mhi (contents d) (contents d'))"
proof -
  have keep: "sorted_seg lt i j zs"
    if "sorted_seg lt i j ys" "seg_perm k l ys zs" "j \<le> k \<or> l \<le> i" "j \<le> length ys" for i j k l and ys zs :: "'a list"
    using that by (elim sorted_seg_cong [rotated]) (auto intro: seg_perm_outside)
  have l: "mlo \<le> length (contents d)" using m len by linarith
  show "succeeds (quickSort S d a mlo depth \<bind> (\<lambda>d. quickSort S d mhi b depth))
      (\<lambda>d'. sides a b mlo mhi (contents d) (contents d'))"
    unfolding succeeds_bind
  proof (rule succeeds_mono [OF IH [OF l]], elim conjE)
    fix d1 assume 1: "seg_perm a mlo (contents d) (contents d1)" "sorted_seg lt a mlo (contents d1)"
    then have "b \<le> length (contents d1)" using len by (simp add: seg_perm_length)
    from IH [OF this, of mhi] show "succeeds (quickSort S d1 mhi b depth)
        (\<lambda>d'. sides a b mlo mhi (contents d) (contents d'))"
      by (rule succeeds_mono) (use 1 m l in \<open>auto simp: sides_def seg_perm_length elim!: keep\<close>)
  qed
  show "succeeds (quickSort S d mhi b depth \<bind> (\<lambda>d. quickSort S d a mlo depth))
      (\<lambda>d'. sides a b mlo mhi (contents d) (contents d'))"
    unfolding succeeds_bind
  proof (rule succeeds_mono [OF IH [OF len]], elim conjE)
    fix d1 assume 1: "seg_perm mhi b (contents d) (contents d1)" "sorted_seg lt mhi b (contents d1)"
    then have "mlo \<le> length (contents d1)" using l by (simp add: seg_perm_length)
    from IH [OF this, of a] show "succeeds (quickSort S d1 a mlo depth)
        (\<lambda>d'. sides a b mlo mhi (contents d) (contents d'))"
      by (rule succeeds_mono) (use 1 m len in \<open>auto simp: sides_def seg_perm_length elim!: keep\<close>)
  qed
qed

lemma quickSort_correct:
  assumes "b \<le> length (contents d)"
  shows "succeeds (quickSort S d a b depth)
    (\<lambda>d'. seg_perm a b (contents d) (contents d') \<and> sorted_seg lt a b (contents d'))"
  using assms
proof (induction depth arbitrary: a b d)
  case 0
  show ?case
  proof (cases "b - a > 12")
    case True
    then show ?thesis
      using heapSort_correct [of a b d] 0 by (subst quickSort.simps) simp
  qed (use 0 quickSort_short in blast)
next
  case (Suc depth)
  let ?Q = "\<lambda>d'. seg_perm a b (contents d) (contents d') \<and> sorted_seg lt a b (contents d')"
  show ?case
  proof (cases "b - a > 12")
    case True
    then have "a + 12 < b" by simp
    from doPivot_correct [OF this Suc.prems]
    have "succeeds (doPivot S d a b) (\<lambda>(d1, mlo, mhi). succeeds
      (if mlo - a < b - mhi then quickSort S d1 a mlo depth \<bind> (\<lambda>d. quickSort S d mhi b depth)
       else quickSort S d1 mhi b depth \<bind> (\<lambda>d. quickSort S d a mlo depth)) ?Q)"
    proof (rule succeeds_mono, clarify)
      fix d1 mlo mhi assume p: "seg_perm a b (contents d) (contents d1)"
        and post: "pivot_post lt a b mlo mhi (contents d1)"
      have len: "b \<le> length (contents d1)" using p Suc.prems by (simp add: seg_perm_length)
      have m: "a \<le> mlo" "mlo < mhi" "mhi \<le> b" using post by (auto simp: pivot_post_def)
      have "succeeds (if mlo - a < b - mhi then quickSort S d1 a mlo depth \<bind> (\<lambda>d. quickSort S d mhi b depth)
         else quickSort S d1 mhi b depth \<bind> (\<lambda>d. quickSort S d a mlo depth))
         (\<lambda>d'. sides a b mlo mhi (contents d1) (contents d'))"
        using quickSort_sides [OF Suc.IH len m] by simp
      then show "succeeds (if mlo - a < b - mhi then quickSort S d1 a mlo depth \<bind> (\<lambda>d. quickSort S d mhi b depth)
         else quickSort S d1 mhi b depth \<bind> (\<lambda>d. quickSort S d a mlo depth)) ?Q"
        by (rule succeeds_mono) (blast intro: seg_perm_trans [OF p] sides_sorted [OF post len])
    qed
    with True show ?thesis
      by (subst quickSort.simps) (auto simp: case_prod_unfold elim!: succeeds_mono split: if_splits)
  qed (use Suc.prems quickSort_short in blast)
qed

end

end
