(* ===== verification/Sort_Search.thy ===== *)
theory Sort_Search
  imports Sort_Interface
begin

text \<open>
  Binary search. \<open>Search\<close> returns the boundary of its predicate without calling it outside
  \<open>[0, n)\<close>; the three searches inside \<open>symMerge\<close> are instances of the same loop.
\<close>

text \<open>
  Whatever the predicate, the loop returns an index where it turns from false to true; if the
  predicate is monotone on the range this is the only one.
\<close>

lemma Search_loop_boundary:
  assumes "i \<le> j" and "\<And>k. i \<le> k \<Longrightarrow> k < j \<Longrightarrow> f k = Some (P k)"
  shows "succeeds (Search_loop f i j)
    (\<lambda>r. i \<le> r \<and> r \<le> j \<and> (i < r \<longrightarrow> \<not> P (r - 1)) \<and> (r < j \<longrightarrow> P r))"
  using assms
proof (induction "j - i" arbitrary: i j rule: less_induct)
  case less
  show ?case
  proof (cases "i < j")
    case True
    define h where "h = i + (j - i) div 2"
    have h: "i \<le> h" "h < j" using True unfolding h_def by linarith+
    have unfolded: "Search_loop f i j = (if P h then Search_loop f i h else Search_loop f (h + 1) j)"
      using True h less.prems(2) [of h]
      by (subst Search_loop.simps) (simp add: Let_def flip: h_def)
    show ?thesis
    proof (cases "P h")
      case True
      have "succeeds (Search_loop f i h)
        (\<lambda>r. i \<le> r \<and> r \<le> h \<and> (i < r \<longrightarrow> \<not> P (r - 1)) \<and> (r < h \<longrightarrow> P r))"
        using h less.prems by (intro less.hyps) auto
      with True h show ?thesis
        by (auto simp: unfolded elim!: succeeds_mono)
    next
      case False
      have "succeeds (Search_loop f (h + 1) j)
        (\<lambda>r. h + 1 \<le> r \<and> r \<le> j \<and> (h + 1 < r \<longrightarrow> \<not> P (r - 1)) \<and> (r < j \<longrightarrow> P r))"
        using h less.prems by (intro less.hyps) auto
      with False h show ?thesis
        by (auto simp: unfolded elim!: succeeds_mono)
    qed
  next
    case False
    with less.prems show ?thesis by (subst Search_loop.simps) auto
  qed
qed

lemma Search_loop_monotone:
  assumes "i \<le> j" and "\<And>k. i \<le> k \<Longrightarrow> k < j \<Longrightarrow> f k = Some (P k)"
    and mono: "\<And>k k'. i \<le> k \<Longrightarrow> k \<le> k' \<Longrightarrow> k' < j \<Longrightarrow> P k \<Longrightarrow> P k'"
  shows "succeeds (Search_loop f i j)
    (\<lambda>r. i \<le> r \<and> r \<le> j \<and> (\<forall>k. i \<le> k \<and> k < r \<longrightarrow> \<not> P k) \<and> (\<forall>k. r \<le> k \<and> k < j \<longrightarrow> P k))"
proof (rule succeeds_mono [OF Search_loop_boundary [OF assms(1,2)]])
  fix r assume r: "i \<le> r \<and> r \<le> j \<and> (i < r \<longrightarrow> \<not> P (r - 1)) \<and> (r < j \<longrightarrow> P r)"
  have "\<not> P k" if "i \<le> k" "k < r" for k
  proof -
    have "k \<le> r - 1" "r - 1 < j" using r that by linarith+
    with mono [of k "r - 1"] r that show ?thesis by linarith
  qed
  moreover have "P k" if "r \<le> k" "k < j" for k
    using mono [of r k] r that by auto
  ultimately show "i \<le> r \<and> r \<le> j \<and> (\<forall>k. i \<le> k \<and> k < r \<longrightarrow> \<not> P k) \<and> (\<forall>k. r \<le> k \<and> k < j \<longrightarrow> P k)"
    using r by blast
qed auto

lemma search_ge_Search: "search_ge S d a i j = Search_loop (\<lambda>h. map_option Not (Less S d h a)) i j"
proof (induction S d a i j rule: search_ge.induct)
  case (1 S d a i j)
  then show ?case
    by (subst search_ge.simps, subst Search_loop.simps) (auto simp: Let_def split: option.splits bind_splits)
qed

lemma search_gt_Search: "search_gt S d m i j = Search_loop (\<lambda>h. Less S d m h) i j"
proof (induction S d m i j rule: search_gt.induct)
  case (1 S d m i j)
  then show ?case
    by (subst search_gt.simps, subst Search_loop.simps) (auto simp: Let_def split: bind_splits)
qed

lemma search_sym_Search: "search_sym S d p i j = Search_loop (\<lambda>c. Less S d (p - c) c) i j"
proof (induction S d p i j rule: search_sym.induct)
  case (1 S d p i j)
  then show ?case
    by (subst search_sym.simps, subst Search_loop.simps) (auto simp: Let_def split: bind_splits)
qed

lemma Search_correct:
  assumes "\<And>k. k < n \<Longrightarrow> f k = Some (P k)" and "\<And>k k'. k \<le> k' \<Longrightarrow> k' < n \<Longrightarrow> P k \<Longrightarrow> P k'"
  shows "succeeds (Search n f) (\<lambda>r. r \<le> n \<and> (\<forall>k < r. \<not> P k) \<and> (\<forall>k. r \<le> k \<and> k < n \<longrightarrow> P k))"
  using Search_loop_monotone [of 0 n f P] assms unfolding Search_def by simp

end
