(* ===== verification/Sort_Stable.thy ===== *)
theory Sort_Stable
  imports Sort_Insertion Sort_Search
begin

text \<open>
  Correctness of the stable sort: block exchange (\<open>swapRange\<close>, \<open>rotate_data\<close>), \<open>symMerge\<close> and
  the bottom-up merge loop of \<open>stable\<close>. Every step only moves strictly smaller elements before
  larger ones, so equivalent elements keep their order.
\<close>

section \<open>Exchanging blocks\<close>

lemma swap_append:
  "swap (length ps) (length ps + Suc (length us)) (ps @ x # us @ y # qs) = ps @ y # us @ x # qs"
  by (simp add: swap_def nth_append list_update_append)

text \<open>\<open>xs\<close> with the blocks \<open>[a, m)\<close> and \<open>[m, b)\<close> exchanged.\<close>

definition exchange :: "nat \<Rightarrow> nat \<Rightarrow> nat \<Rightarrow> 'a list \<Rightarrow> 'a list" where
  "exchange a m b xs = seg 0 a xs @ seg m b xs @ seg a m xs @ seg b (length xs) xs"

lemma length_exchange [simp]:
  "a \<le> m \<Longrightarrow> m \<le> b \<Longrightarrow> b \<le> length xs \<Longrightarrow> length (exchange a m b xs) = length xs"
  by (simp add: exchange_def)

lemma nth_exchange:
  assumes "a \<le> m" "m \<le> b" "b \<le> length xs" "k < length xs"
  shows "exchange a m b xs ! k =
    (if k < a \<or> b \<le> k then xs ! k else if k < a + (b - m) then xs ! (m + (k - a)) else xs ! (k - (b - m)))"
  using assms by (auto simp: exchange_def nth_append nth_seg)

lemma exchange_trivial:
  "a \<le> m \<Longrightarrow> m \<le> b \<Longrightarrow> b \<le> length xs \<Longrightarrow> a = m \<or> m = b \<Longrightarrow> exchange a m b xs = xs"
  by (rule nth_equalityI) (auto simp: nth_exchange)

lemma seg_split4:
  assumes "a \<le> m" "m \<le> b" "b \<le> length xs"
  shows "xs = seg 0 a xs @ seg a m xs @ seg m b xs @ seg b (length xs) xs"
proof -
  have "seg a m xs @ seg m b xs @ seg b (length xs) xs = seg a b xs @ seg b (length xs) xs"
    using seg_append [OF assms(1,2), of xs] by simp
  moreover have "a \<le> b" using assms by simp
  ultimately show ?thesis using assms(3) by (simp only: seg_split3 [symmetric])
qed

lemma exchange_seg_perm:
  assumes "a \<le> m" "m \<le> b" "b \<le> length xs"
  shows "seg_perm a b xs (exchange a m b xs)"
proof -
  have "mset (exchange a m b xs) = mset (seg 0 a xs @ seg a m xs @ seg m b xs @ seg b (length xs) xs)"
    unfolding exchange_def by (simp add: union_ac)
  then have "mset (exchange a m b xs) = mset xs"
    using seg_split4 [OF assms] by simp
  then show ?thesis
    using assms by (auto simp: seg_perm_def nth_exchange)
qed

context sort_data
begin

lemma exchange_stable:
  assumes "a \<le> m" "m \<le> b" "b \<le> length xs"
    and "\<And>i j. a \<le> i \<Longrightarrow> i < m \<Longrightarrow> m \<le> j \<Longrightarrow> j < b \<Longrightarrow> lt (xs ! j) (xs ! i)"
  shows "stable_seg lt a b xs (exchange a m b xs)"
proof -
  have "xs = seg 0 a xs @ seg a m xs @ seg m b xs @ seg b (length xs) xs"
    using assms(1-3) by (rule seg_split4)
  moreover have "same_classes lt (seg 0 a xs @ seg a m xs @ seg m b xs @ seg b (length xs) xs) (exchange a m b xs)"
    unfolding exchange_def using assms by (intro exchange_blocks_stable) (auto simp: set_seg)
  ultimately show ?thesis
    using exchange_seg_perm [OF assms(1-3)] by (simp add: stable_seg_def)
qed

lemma swapRange_correct:
  assumes "contents d = ps @ us @ ws @ vs @ qs" "length us = n" "length vs = n"
    and "a = length ps" "b = length ps + n + length ws"
  shows "succeeds (swapRange S d a b n) (\<lambda>d'. contents d' = ps @ vs @ ws @ us @ qs)"
  using assms
proof (induction n arbitrary: d ps us ws vs a b)
  case 0
  then show ?case by simp
next
  case (Suc n)
  from Suc.prems(2,3) obtain x us' y vs' where uv: "us = x # us'" "vs = y # vs'"
    and len: "length us' = n" "length vs' = n"
    by (auto simp: length_Suc_conv)
  have "succeeds (Swap S d a b) (\<lambda>d'. contents d' = ps @ y # (us' @ ws) @ x # (vs' @ qs))"
  proof (rule succeeds_Swap)
    fix d' assume "contents d' = swap a b (contents d)"
    moreover have "contents d = ps @ x # (us' @ ws) @ y # (vs' @ qs)" "b = a + Suc (length (us' @ ws))"
      using Suc.prems uv len by simp_all
    ultimately show "contents d' = ps @ y # (us' @ ws) @ x # (vs' @ qs)"
      using Suc.prems(4) by (simp only: swap_append)
  qed (use Suc.prems uv in auto)
  then have "succeeds (Swap S d a b) (\<lambda>d1. succeeds (swapRange S d1 (a + 1) (b + 1) n)
      (\<lambda>d'. contents d' = ps @ vs @ ws @ us @ qs))"
  proof (rule succeeds_mono)
    fix d1 assume "contents d1 = ps @ y # (us' @ ws) @ x # (vs' @ qs)"
    then have "succeeds (swapRange S d1 (a + 1) (b + 1) n)
        (\<lambda>d'. contents d' = (ps @ [y]) @ vs' @ (ws @ [x]) @ us' @ qs)"
      using Suc.prems(4,5) len by (intro Suc.IH) auto
    then show "succeeds (swapRange S d1 (a + 1) (b + 1) n) (\<lambda>d'. contents d' = ps @ vs @ ws @ us @ qs)"
      by (simp add: uv)
  qed
  then show ?case by simp
qed

lemma rotate_loop_correct:
  assumes "contents d = ps @ us @ vs @ qs" "length us = i" "length vs = j" "m = length ps + i" "0 < i" "0 < j"
  shows "succeeds (rotate_loop S d m i j) (\<lambda>d'. contents d' = ps @ vs @ us @ qs)"
  using assms
proof (induction "i + j" arbitrary: d ps us vs qs i j rule: less_induct)
  case less
  consider "i = j" | "i > j" | "i < j" by linarith
  then show ?case
  proof cases
    case 1
    then show ?thesis
      using less.prems swapRange_correct [of d ps us "[]" vs qs i "m - i" m]
      by (subst rotate_loop.simps) simp
  next
    case 2
    define u1 u2 where "u1 = take j us" and "u2 = drop j us"
    have u: "us = u1 @ u2" "length u1 = j" "length u2 = i - j"
      using 2 less.prems(2) by (simp_all add: u1_def u2_def)
    have "succeeds (swapRange S d (m - i) m j) (\<lambda>d'. contents d' = ps @ vs @ u2 @ u1 @ qs)"
      using 2 less.prems u by (intro swapRange_correct) auto
    then have "succeeds (swapRange S d (m - i) m j) (\<lambda>d1. succeeds (rotate_loop S d1 m (i - j) j)
        (\<lambda>d'. contents d' = ps @ vs @ us @ qs))"
    proof (rule succeeds_mono)
      fix d1 assume "contents d1 = ps @ vs @ u2 @ u1 @ qs"
      then have "succeeds (rotate_loop S d1 m (i - j) j) (\<lambda>d'. contents d' = (ps @ vs) @ u1 @ u2 @ qs)"
        using 2 less.prems u by (intro less.hyps) auto
      then show "succeeds (rotate_loop S d1 m (i - j) j) (\<lambda>d'. contents d' = ps @ vs @ us @ qs)"
        by (simp add: u)
    qed
    with 2 show ?thesis by (subst rotate_loop.simps) simp
  next
    case 3
    define v1 v2 where "v1 = take (j - i) vs" and "v2 = drop (j - i) vs"
    have v: "vs = v1 @ v2" "length v1 = j - i" "length v2 = i"
      using 3 less.prems(3) by (simp_all add: v1_def v2_def)
    have "succeeds (swapRange S d (m - i) (m + j - i) i) (\<lambda>d'. contents d' = ps @ v2 @ v1 @ us @ qs)"
      using 3 less.prems v by (intro swapRange_correct) auto
    then have "succeeds (swapRange S d (m - i) (m + j - i) i) (\<lambda>d1. succeeds (rotate_loop S d1 m i (j - i))
        (\<lambda>d'. contents d' = ps @ vs @ us @ qs))"
    proof (rule succeeds_mono)
      fix d1 assume "contents d1 = ps @ v2 @ v1 @ us @ qs"
      then have "succeeds (rotate_loop S d1 m i (j - i)) (\<lambda>d'. contents d' = ps @ v1 @ v2 @ (us @ qs))"
        using 3 less.prems v by (intro less.hyps) auto
      then show "succeeds (rotate_loop S d1 m i (j - i)) (\<lambda>d'. contents d' = ps @ vs @ us @ qs)"
        by (simp add: v)
    qed
    with 3 show ?thesis by (subst rotate_loop.simps) simp
  qed
qed

lemma rotate_data_correct:
  assumes "a < m" "m < b" "b \<le> length (contents d)"
  shows "succeeds (rotate_data S d a m b) (\<lambda>d'. contents d' = exchange a m b (contents d))"
proof -
  let ?xs = "contents d"
  have "?xs = seg 0 a ?xs @ seg a m ?xs @ seg m b ?xs @ seg b (length ?xs) ?xs"
    using assms by (intro seg_split4) auto
  then show ?thesis
    unfolding rotate_data_def exchange_def using assms by (intro rotate_loop_correct) auto
qed

end

end
