(* ===== verification/Sort_Merge.thy ===== *)
theory Sort_Merge
  imports Sort_Stable
begin

text \<open>
  Correctness of \<open>symMerge\<close>. The three searches only look inside the range; each element moves
  past strictly larger ones only, so the merge of two sorted runs is stable.
\<close>

section \<open>Merging a single element\<close>

context sort_data
begin

lemma bubble_up_blocks:
  assumes "contents d = ps @ x # us @ qs" "k = length ps" "i = k + 1 + length us"
  shows "succeeds (bubble_up S d k i) (\<lambda>d'. contents d' = ps @ us @ x # qs)"
  using assms
proof (induction us arbitrary: d ps k)
  case Nil
  then show ?case by (subst bubble_up.simps) simp
next
  case (Cons u us)
  have "succeeds (Swap S d k (k + 1)) (\<lambda>d'. contents d' = (ps @ [u]) @ x # us @ qs)"
    by (rule succeeds_Swap) (use Cons.prems swap_adjacent_append [of ps x u "us @ qs"] in auto)
  then have "succeeds (Swap S d k (k + 1))
      (\<lambda>d1. succeeds (bubble_up S d1 (k + 1) i) (\<lambda>d'. contents d' = (ps @ [u]) @ us @ x # qs))"
    by (rule succeeds_mono) (rule Cons.IH, use Cons.prems in auto)
  with Cons.prems show ?case by (subst bubble_up.simps) simp
qed

lemma bubble_down_blocks:
  assumes "contents d = ps @ us @ x # qs" "i = length ps" "k = i + length us"
  shows "succeeds (bubble_down S d k i) (\<lambda>d'. contents d' = ps @ x # us @ qs)"
  using assms
proof (induction us arbitrary: d qs k rule: rev_induct)
  case Nil
  then show ?case by (subst bubble_down.simps) simp
next
  case (snoc u us)
  have "succeeds (Swap S d k (k - 1)) (\<lambda>d'. contents d' = ps @ us @ x # u # qs)"
    by (rule succeeds_Swap)
       (use snoc.prems swap_adjacent_append [of "ps @ us" u x qs] in
         \<open>auto simp: swap_commute [of "Suc (length ps + length us)"]\<close>)
  then have "succeeds (Swap S d k (k - 1))
      (\<lambda>d1. succeeds (bubble_down S d1 (k - 1) i) (\<lambda>d'. contents d' = ps @ x # us @ u # qs))"
    by (rule succeeds_mono) (rule snoc.IH, use snoc.prems in auto)
  with snoc.prems show ?case by (subst bubble_down.simps) simp
qed

lemma seg_single: "a < length xs \<Longrightarrow> seg a (Suc a) xs = [xs ! a]"
  by (simp add: seg_def take_Suc_conv_app_nth)

lemma bubble_up_correct:
  assumes "a < i" "i \<le> length (contents d)"
  shows "succeeds (bubble_up S d a i) (\<lambda>d'. contents d' = exchange a (a + 1) i (contents d))"
proof -
  let ?xs = "contents d"
  have "succeeds (bubble_up S d a i)
      (\<lambda>d'. contents d' = seg 0 a ?xs @ seg (a + 1) i ?xs @ ?xs ! a # seg i (length ?xs) ?xs)"
    using assms seg_split4 [of a "a + 1" i ?xs]
    by (intro bubble_up_blocks) (simp_all add: seg_single)
  with assms show ?thesis by (simp add: exchange_def seg_single)
qed

lemma bubble_down_correct:
  assumes "i \<le> m" "m < length (contents d)"
  shows "succeeds (bubble_down S d m i) (\<lambda>d'. contents d' = exchange i m (m + 1) (contents d))"
proof -
  let ?xs = "contents d"
  have "succeeds (bubble_down S d m i)
      (\<lambda>d'. contents d' = seg 0 i ?xs @ ?xs ! m # seg i m ?xs @ seg (m + 1) (length ?xs) ?xs)"
    using assms seg_split4 [of i m "m + 1" ?xs]
    by (intro bubble_down_blocks) (simp_all add: seg_single)
  with assms show ?thesis by (simp add: exchange_def seg_single)
qed

text \<open>A run of one element on the left.\<close>

lemma symMerge_left:
  assumes "m = a + 1" "m < b" "b \<le> length (contents d)"
    and runs: "sorted_seg lt m b (contents d)"
  shows "succeeds (symMerge S d a m b)
    (\<lambda>d'. stable_seg lt a b (contents d) (contents d') \<and> sorted_seg lt a b (contents d'))"
proof -
  let ?xs = "contents d"
  let ?P = "\<lambda>h. \<not> lt (?xs ! h) (?xs ! a)"
  have "succeeds (search_ge S d a m b)
      (\<lambda>i. m \<le> i \<and> i \<le> b \<and> (\<forall>k. m \<le> k \<and> k < i \<longrightarrow> \<not> ?P k) \<and> (\<forall>k. i \<le> k \<and> k < b \<longrightarrow> ?P k))"
    unfolding search_ge_Search
  proof (rule Search_loop_monotone)
    fix k k' assume "m \<le> k" "k \<le> k'" "k' < b" "?P k"
    then show "?P k'" using neg_trans sorted_seg_le [OF runs, of k k'] by blast
  qed (use assms in \<open>auto simp: Less_in_range\<close>)
  then have "succeeds (search_ge S d a m b) (\<lambda>i. succeeds (bubble_up S d a i)
      (\<lambda>d'. stable_seg lt a b ?xs (contents d') \<and> sorted_seg lt a b (contents d')))"
  proof (rule succeeds_mono, elim conjE)
    fix i assume i: "m \<le> i" "i \<le> b" and below: "\<forall>k. m \<le> k \<and> k < i \<longrightarrow> \<not> ?P k"
      and above: "\<forall>k. i \<le> k \<and> k < b \<longrightarrow> ?P k"
    define ys where "ys = exchange a (a + 1) i ?xs"
    have nth: "ys ! k =
        (if k < a \<or> i \<le> k then ?xs ! k else if k < i - 1 then ?xs ! (k + 1) else ?xs ! a)" if "k < b" for k
    proof (cases "k = i - 1")
      case True
      with i assms(1) have "k - (i - (a + 1)) = a" "\<not> k < a + (i - (a + 1))" "\<not> i \<le> k" "\<not> k < a" by linarith+
      with that i assms True show ?thesis by (simp add: ys_def nth_exchange)
    next
      case False
      with that i assms show ?thesis by (auto simp: ys_def nth_exchange)
    qed
    have "stable_seg lt a i ?xs (ys)"
      using i assms below unfolding ys_def by (intro exchange_stable) (auto simp: le_less_Suc_eq)
    then have "stable_seg lt a b ?xs (ys)"
      using i by (auto intro: stable_seg_mono)
    moreover have "sorted_seg lt a b (ys)"
    proof (rule adjacent_in_order)
      fix k assume k: "a \<le> k" "k + 1 < b"
      consider "k + 1 < i - 1" | "k + 1 = i - 1" | "k + 1 = i" | "i \<le> k" using i by linarith
      then show "\<not> lt (ys ! (k + 1)) (ys ! k)"
        using k i assms(1) below above asym [of "?xs ! (k + 1)" "?xs ! a"]
          sorted_segD [OF runs, of "k + 1" "k + 2"]
          sorted_segD [OF runs, of k "k + 1"]
        by cases (auto simp: nth)
    qed
    moreover have "succeeds (bubble_up S d a i) (\<lambda>d'. contents d' = ys)"
      using i assms unfolding ys_def by (intro bubble_up_correct) auto
    ultimately show "succeeds (bubble_up S d a i)
        (\<lambda>d'. stable_seg lt a b ?xs (contents d') \<and> sorted_seg lt a b (contents d'))"
      by (auto elim: succeeds_mono)
  qed
  with assms(1) show ?thesis by (subst symMerge.simps) simp
qed

text \<open>A run of one element on the right.\<close>

lemma symMerge_right:
  assumes "a < m" "m - a \<noteq> 1" "b = m + 1" "b \<le> length (contents d)"
    and runs: "sorted_seg lt a m (contents d)"
  shows "succeeds (symMerge S d a m b)
    (\<lambda>d'. stable_seg lt a b (contents d) (contents d') \<and> sorted_seg lt a b (contents d'))"
proof -
  let ?xs = "contents d"
  let ?P = "\<lambda>h. lt (?xs ! m) (?xs ! h)"
  have "succeeds (search_gt S d m a m)
      (\<lambda>i. a \<le> i \<and> i \<le> m \<and> (\<forall>k. a \<le> k \<and> k < i \<longrightarrow> \<not> ?P k) \<and> (\<forall>k. i \<le> k \<and> k < m \<longrightarrow> ?P k))"
    unfolding search_gt_Search
  proof (rule Search_loop_monotone)
    fix k k' assume "a \<le> k" "k \<le> k'" "k' < m" "?P k"
    then show "?P k'" using lt_le_trans sorted_seg_le [OF runs, of k k'] by blast
  qed (use assms in \<open>auto simp: Less_in_range\<close>)
  then have "succeeds (search_gt S d m a m) (\<lambda>i. succeeds (bubble_down S d m i)
      (\<lambda>d'. stable_seg lt a b ?xs (contents d') \<and> sorted_seg lt a b (contents d')))"
  proof (rule succeeds_mono, elim conjE)
    fix i assume i: "a \<le> i" "i \<le> m" and below: "\<forall>k. a \<le> k \<and> k < i \<longrightarrow> \<not> ?P k"
      and above: "\<forall>k. i \<le> k \<and> k < m \<longrightarrow> ?P k"
    define ys where "ys = exchange i m (m + 1) ?xs"
    have nth: "ys ! k =
        (if k < i then ?xs ! k else if k = i then ?xs ! m else ?xs ! (k - 1))" if "k < b" for k
      using that i assms by (auto simp: ys_def nth_exchange)
    have "stable_seg lt i b ?xs (ys)"
      using i assms above unfolding ys_def \<open>b = m + 1\<close> by (intro exchange_stable) (auto simp: le_less_Suc_eq)
    then have "stable_seg lt a b ?xs (ys)"
      using i by (auto intro: stable_seg_mono)
    moreover have "sorted_seg lt a b (ys)"
    proof (rule adjacent_in_order)
      fix k assume k: "a \<le> k" "k + 1 < b"
      consider "k + 1 < i" | "k + 1 = i" | "k = i" | "i < k" by linarith
      then show "\<not> lt (ys ! (k + 1)) (ys ! k)"
        using k i assms(3) below above asym [of "?xs ! m" "?xs ! k"] sorted_segD [OF runs, of "k - 1" k]
          sorted_segD [OF runs, of k "k + 1"]
        by cases (auto simp: nth)
    qed
    moreover have "succeeds (bubble_down S d m i) (\<lambda>d'. contents d' = ys)"
      using i assms unfolding ys_def by (intro bubble_down_correct) auto
    ultimately show "succeeds (bubble_down S d m i)
        (\<lambda>d'. stable_seg lt a b ?xs (contents d') \<and> sorted_seg lt a b (contents d'))"
      by (auto elim: succeeds_mono)
  qed
  with assms(2,3) show ?thesis by (subst symMerge.simps) simp
qed

end

section \<open>The symmetric cut\<close>

text \<open>
  \<open>merge_cut lt a m b s xs\<close>: \<open>s\<close> and \<open>e = mid + m - s\<close> lie symmetrically around the middle,
  every element of \<open>[m, e)\<close> is less than every element of \<open>[s, m)\<close>, and none of \<open>[e, b)\<close> is
  less than one of \<open>[a, s)\<close>.
\<close>

definition merge_cut :: "('a \<Rightarrow> 'a \<Rightarrow> bool) \<Rightarrow> nat \<Rightarrow> nat \<Rightarrow> nat \<Rightarrow> nat \<Rightarrow> nat \<Rightarrow> nat \<Rightarrow> 'a list \<Rightarrow> bool" where
  "merge_cut lt a m b mid s e xs \<longleftrightarrow>
     a \<le> s \<and> s \<le> m \<and> s \<le> mid \<and> m \<le> e \<and> mid \<le> e \<and> e \<le> b \<and> s + (e - m) = mid \<and>
     (\<forall>i j. s \<le> i \<and> i < m \<and> m \<le> j \<and> j < e \<longrightarrow> lt (xs ! j) (xs ! i)) \<and>
     (\<forall>i j. a \<le> i \<and> i < s \<and> e \<le> j \<and> j < b \<longrightarrow> \<not> lt (xs ! j) (xs ! i))"

lemma merge_cut_bounds:
  assumes "merge_cut lt a m b mid s e xs"
  shows "a \<le> s" "s \<le> m" "s \<le> mid" "m \<le> e" "mid \<le> e" "e \<le> b" "s + (e - m) = mid"
  using assms by (simp_all add: merge_cut_def)

context sort_data
begin

lemma search_sym_correct:
  assumes ab: "a < m" "m < b" "b \<le> length (contents d)"
    and runs: "sorted_seg lt a m (contents d)" "sorted_seg lt m b (contents d)"
    and mid: "mid = a + (b - a) div 2"
    and lo: "lo = (if m > mid then mid + m - b else a)" and hi: "hi = (if m > mid then mid else m)"
  shows "succeeds (search_sym S d (mid + m - 1) lo hi)
    (\<lambda>s. merge_cut lt a m b mid s (mid + m - s) (contents d))"
proof -
  let ?xs = "contents d" and ?p = "mid + m - 1"
  let ?P = "\<lambda>c. lt (?xs ! (?p - c)) (?xs ! c)"
  have bounds: "a \<le> lo" "lo \<le> hi" "hi \<le> m" "hi \<le> mid" "mid < b" "mid + m - lo \<le> b"
    "lo = a \<or> mid + m - lo = b" "hi = m \<or> hi = mid"
    using ab unfolding lo hi mid by (auto split: if_splits; linarith)+
  have "succeeds (search_sym S d ?p lo hi) (\<lambda>s. lo \<le> s \<and> s \<le> hi \<and>
      (\<forall>k. lo \<le> k \<and> k < s \<longrightarrow> \<not> ?P k) \<and> (\<forall>k. s \<le> k \<and> k < hi \<longrightarrow> ?P k))"
    unfolding search_sym_Search
  proof (rule Search_loop_monotone)
    fix k assume "lo \<le> k" "k < hi"
    then show "Less S d (?p - k) k = Some (?P k)"
      using bounds ab by (intro Less_in_range) linarith+
  next
    fix k k' assume k: "lo \<le> k" "k \<le> k'" "k' < hi" "?P k"
    then have "\<not> lt (?xs ! k') (?xs ! k)" "\<not> lt (?xs ! (?p - k)) (?xs ! (?p - k'))"
      using bounds by (intro sorted_seg_le [OF runs(1)] sorted_seg_le [OF runs(2)]; linarith)+
    with k(4) show "?P k'" by (blast intro: le_lt_trans lt_le_trans)
  qed (use bounds in auto)
  then show ?thesis
  proof (rule succeeds_mono, elim conjE)
    fix s assume s: "lo \<le> s" "s \<le> hi" and below: "\<forall>k. lo \<le> k \<and> k < s \<longrightarrow> \<not> ?P k"
      and above: "\<forall>k. s \<le> k \<and> k < hi \<longrightarrow> ?P k"
    let ?e = "mid + m - s"
    have e: "a \<le> s \<and> s \<le> m \<and> s \<le> mid \<and> m \<le> ?e \<and> mid \<le> ?e \<and> ?e \<le> b \<and> s + (?e - m) = mid"
      using s bounds by (intro conjI; linarith)
    have c1: "lt (?xs ! j) (?xs ! i)" if ij: "s \<le> i" "i < m" "m \<le> j" "j < ?e" for i j
    proof -
      have "s < hi" "?p - s = ?e - 1" using ij bounds by linarith+
      then have "lt (?xs ! (?e - 1)) (?xs ! s)" using above by auto
      moreover have "\<not> lt (?xs ! i) (?xs ! s)"
        using ij e by (intro sorted_seg_le [OF runs(1)]) simp_all
      moreover have "\<not> lt (?xs ! (?e - 1)) (?xs ! j)"
        using ij e by (intro sorted_seg_le [OF runs(2)]) linarith+
      ultimately show ?thesis by (blast intro: le_lt_trans lt_le_trans)
    qed
    have c2: "\<not> lt (?xs ! j) (?xs ! i)" if ij: "a \<le> i" "i < s" "?e \<le> j" "j < b" for i j
    proof -
      have "lo \<le> s - 1" "s - 1 < s" "?p - (s - 1) = ?e" using ij s bounds by linarith+
      then have "\<not> lt (?xs ! ?e) (?xs ! (s - 1))" using below by metis
      moreover have "\<not> lt (?xs ! (s - 1)) (?xs ! i)"
        using ij e by (intro sorted_seg_le [OF runs(1)]) linarith+
      moreover have "\<not> lt (?xs ! j) (?xs ! ?e)"
        using ij e by (intro sorted_seg_le [OF runs(2)]) simp_all
      ultimately show ?thesis using neg_trans by blast
    qed
    have "\<forall>i j. s \<le> i \<and> i < m \<and> m \<le> j \<and> j < ?e \<longrightarrow> lt (?xs ! j) (?xs ! i)"
      "\<forall>i j. a \<le> i \<and> i < s \<and> ?e \<le> j \<and> j < b \<longrightarrow> \<not> lt (?xs ! j) (?xs ! i)"
      by (intro allI impI, elim conjE, erule (3) c1) (intro allI impI, elim conjE, erule (3) c2)
    with e show "merge_cut lt a m b mid s ?e ?xs"
      unfolding merge_cut_def by (elim conjE) (intro conjI; assumption)
  qed
qed

text \<open>After the exchange each half consists of two runs and the halves are in order.\<close>

lemma exchange_halves:
  assumes cut: "merge_cut lt a m b mid s e xs" and b: "b \<le> length xs"
    and runs: "sorted_seg lt a m xs" "sorted_seg lt m b xs"
  defines "ys \<equiv> exchange s m e xs"
  shows "stable_seg lt a b xs ys"
    and "sorted_seg lt a s ys" "sorted_seg lt s mid ys" "sorted_seg lt mid e ys" "sorted_seg lt e b ys"
    and "\<And>i j. a \<le> i \<Longrightarrow> i < mid \<Longrightarrow> mid \<le> j \<Longrightarrow> j < b \<Longrightarrow> \<not> lt (ys ! j) (ys ! i)"
proof -
  note e = merge_cut_bounds [OF cut]
  have below: "lt (xs ! j) (xs ! i)" if "s \<le> i" "i < m" "m \<le> j" "j < e" for i j
    using cut that by (simp add: merge_cut_def)
  have above: "\<not> lt (xs ! j) (xs ! i)" if "a \<le> i" "i < s" "e \<le> j" "j < b" for i j
    using cut that by (simp add: merge_cut_def)
  have "stable_seg lt s e xs ys"
    unfolding ys_def using e b below by (intro exchange_stable) auto
  then show "stable_seg lt a b xs ys"
    using e by (auto intro: stable_seg_mono)
  have out: "ys ! k = xs ! k" if "k < s \<or> e \<le> k" "k < b" for k
    using that e b unfolding ys_def by (simp add: nth_exchange)
  have lo: "ys ! k = xs ! (m + (k - s))" "m \<le> m + (k - s)" "m + (k - s) < e" if "s \<le> k" "k < mid" for k
    using that e b unfolding ys_def by (auto simp: nth_exchange)
  have hi: "ys ! k = xs ! (k - (e - m))" "s \<le> k - (e - m)" "k - (e - m) < m" if "mid \<le> k" "k < e" for k
    using that e b unfolding ys_def by (auto simp: nth_exchange)
  show "sorted_seg lt a s ys"
    using e by (intro sorted_seg_cong [OF out sorted_seg_sub [OF runs(1)]]) auto
  show "sorted_seg lt e b ys"
    using e by (intro sorted_seg_cong [OF out sorted_seg_sub [OF runs(2)]]) auto
  show "sorted_seg lt s mid ys"
  proof (rule sorted_segI)
    fix i j assume "s \<le> i" "i < j" "j < mid"
    then show "\<not> lt (ys ! j) (ys ! i)"
      using lo [of i] lo [of j] e sorted_segD [OF runs(2), of "m + (i - s)" "m + (j - s)"] by simp
  qed
  show "sorted_seg lt mid e ys"
  proof (rule sorted_segI)
    fix i j assume "mid \<le> i" "i < j" "j < e"
    then show "\<not> lt (ys ! j) (ys ! i)"
      using hi [of i] hi [of j] e sorted_segD [OF runs(1), of "i - (e - m)" "j - (e - m)"] by simp
  qed
  fix i j assume ij: "a \<le> i" "i < mid" "mid \<le> j" "j < b"
  show "\<not> lt (ys ! j) (ys ! i)"
  proof (cases "i < s"; cases "j < e")
    assume "i < s" "j < e"
    then show ?thesis
      using ij e out [of i] hi [of j] sorted_segD [OF runs(1), of i "j - (e - m)"] by simp
  next
    assume "i < s" "\<not> j < e"
    then show ?thesis using ij e out [of i] out [of j] above [of i j] by simp
  next
    assume "\<not> i < s" "j < e"
    then have "lt (ys ! i) (ys ! j)" using ij e lo [of i] hi [of j] below by simp
    then show ?thesis by (rule asym)
  next
    assume "\<not> i < s" "\<not> j < e"
    then show ?thesis
      using ij e lo [of i] out [of j] sorted_segD [OF runs(2), of "m + (i - s)" j] by simp
  qed
qed

text \<open>Sorting the two halves of such a list one after the other sorts it.\<close>

lemma stable_halves:
  assumes "stable_seg lt a mid ys zs" "sorted_seg lt a mid zs"
    and "stable_seg lt mid b zs ws" "sorted_seg lt mid b ws"
    and ab: "a \<le> mid" "mid \<le> b" "b \<le> length ys"
    and cross: "\<And>i j. a \<le> i \<Longrightarrow> i < mid \<Longrightarrow> mid \<le> j \<Longrightarrow> j < b \<Longrightarrow> \<not> lt (ys ! j) (ys ! i)"
  shows "stable_seg lt a b ys ws" "sorted_seg lt a b ws"
proof -
  have len: "length zs = length ys" using assms(1) by (auto simp: stable_seg_def dest: seg_perm_length)
  show "stable_seg lt a b ys ws"
    using ab assms(1,3) by (meson order_refl stable_seg_mono stable_seg_trans)
  have zs: "zs ! k = ys ! k" if "mid \<le> k" "k < b" for k
    using assms(1) that ab by (auto simp: stable_seg_def seg_perm_outside)
  have ws: "ws ! k = zs ! k" if "k < mid" for k
    using assms(3) that ab len by (auto simp: stable_seg_def seg_perm_outside)
  show "sorted_seg lt a b ws"
  proof (rule sorted_seg_join)
    show "sorted_seg lt a mid ws" using assms(2) ws by (auto intro: sorted_seg_cong)
    show "sorted_seg lt mid b ws" by fact
    fix i j assume ij: "a \<le> i" "i < mid" "mid \<le> j" "j < b"
    have "\<not> lt (zs ! k) (zs ! i)" if k: "mid \<le> k" "k < b" for k
      using seg_perm_all [of a mid ys zs "\<lambda>x. \<not> lt (ys ! k) x" i] assms(1) cross ab ij k zs
      by (simp add: stable_seg_def)
    then show "\<not> lt (ws ! j) (ws ! i)"
      using seg_perm_all [of mid b zs ws "\<lambda>x. \<not> lt x (zs ! i)" j] assms(3) len ab ij ws
      by (simp add: stable_seg_def)
  qed
qed

abbreviation merged :: "nat \<Rightarrow> nat \<Rightarrow> 'd \<Rightarrow> 'd \<Rightarrow> bool" where
  "merged a b d d' \<equiv> stable_seg lt a b (contents d) (contents d') \<and> sorted_seg lt a b (contents d')"

lemma rotate_or_skip:
  assumes "a \<le> m" "m \<le> b" "b \<le> length (contents d)"
  shows "succeeds (if a < m \<and> m < b then rotate_data S d a m b else Some d)
    (\<lambda>d'. contents d' = exchange a m b (contents d))"
  using assms rotate_data_correct [of a m b d] by (auto simp: exchange_trivial)

theorem symMerge_correct:
  assumes "a < m" "m < b" "b \<le> length (contents d)"
    and "sorted_seg lt a m (contents d)" "sorted_seg lt m b (contents d)"
  shows "succeeds (symMerge S d a m b) (merged a b d)"
  using assms
proof (induction "b - a" arbitrary: a m b d rule: less_induct)
  case less
  show ?case
  proof (cases "m - a = 1 \<or> b - m = 1")
    case True
    then consider "m = a + 1" | "m - a \<noteq> 1" "b = m + 1" using less.prems(1,2) by linarith
    then show ?thesis
      using less.prems by cases (blast intro: symMerge_left, blast intro: symMerge_right)
  next
    case False
    define mid where "mid = a + (b - a) div 2"
    have mid: "a \<le> mid" "mid \<le> b" "mid - a < b - a" "b - mid < b - a"
      using less.prems(1,2) False unfolding mid_def by linarith+
    let ?lo = "if m > mid then mid + m - b else a" and ?hi = "if m > mid then mid else m"
    have half: "succeeds (if a' < s \<and> s < b' then symMerge S d1 a' s b' else Some d1) (merged a' b' d1)"
      if "a' \<le> s" "s \<le> b'" "b' - a' < b - a" "b' \<le> length (contents d1)"
        "sorted_seg lt a' s (contents d1)" "sorted_seg lt s b' (contents d1)" for a' s b' d1
      using that less.hyps [of b' a' s d1] by (cases "a' = s \<or> s = b'") auto
    have "succeeds (search_sym S d (mid + m - 1) ?lo ?hi) (\<lambda>s. let e = mid + m - s in
       succeeds (if s < m \<and> m < e then rotate_data S d s m e else Some d) (\<lambda>d1.
       succeeds (if a < s \<and> s < mid then symMerge S d1 a s mid else Some d1) (\<lambda>d2.
       succeeds (if mid < e \<and> e < b then symMerge S d2 mid e b else Some d2) (merged a b d))))"
      unfolding Let_def
    proof (rule succeeds_mono [OF search_sym_correct [OF less.prems mid_def refl refl]])
      fix s let ?e = "mid + m - s" and ?ys = "exchange s m (mid + m - s) (contents d)"
      assume cut: "merge_cut lt a m b mid s ?e (contents d)"
      note e = merge_cut_bounds [OF cut] and ex = exchange_halves [OF cut less.prems(3-5)]
      have ys: "length ?ys = length (contents d)" using e less.prems(3) by (intro length_exchange) auto
      show "succeeds (if s < m \<and> m < ?e then rotate_data S d s m ?e else Some d) (\<lambda>d1.
          succeeds (if a < s \<and> s < mid then symMerge S d1 a s mid else Some d1) (\<lambda>d2.
          succeeds (if mid < ?e \<and> ?e < b then symMerge S d2 mid ?e b else Some d2) (merged a b d)))"
      proof (rule succeeds_mono [OF rotate_or_skip])
        fix d1 assume d1: "contents d1 = ?ys"
        show "succeeds (if a < s \<and> s < mid then symMerge S d1 a s mid else Some d1) (\<lambda>d2.
          succeeds (if mid < ?e \<and> ?e < b then symMerge S d2 mid ?e b else Some d2) (merged a b d))"
        proof (rule succeeds_mono [OF half], goal_cases)
          case (7 d2)
          then have len: "length (contents d2) = length (contents d)"
            and same: "\<And>k. mid \<le> k \<Longrightarrow> k < b \<Longrightarrow> contents d2 ! k = ?ys ! k"
            using ys less.prems(3) d1 by (auto simp: stable_seg_def seg_perm_outside dest: seg_perm_length)
          show ?case
          proof (rule succeeds_mono [OF half], goal_cases)
            case (7 d3)
            then show ?case
              using stable_halves [of a mid ?ys "contents d2" b "contents d3"] \<open>merged a mid d1 d2\<close>
                ex(1,6) mid d1 ys less.prems(3) by (auto intro: stable_seg_trans)
          qed (use e mid len less.prems(3) same ex in \<open>auto intro: sorted_seg_cong\<close>)
        qed (use e mid d1 ys less.prems(3) ex in auto)
      qed (use e less.prems(3) in auto)
    qed
    with False show ?thesis
      by (subst symMerge.simps) (simp add: Let_def flip: mid_def)
  qed
qed

end

end
