(* ===== verification/Sort_Func_Correct.thy ===== *)
theory Sort_Func_Correct
  imports Sort_Model
begin

text \<open>
  The variants of \<open>zfuncversion.go\<close> compute what the routines of \<open>sort.go\<close> compute with the same two functions, panics and
  loops that do not end included.
\<close>

text \<open>The two functions of an \<open>Interface\<close>.\<close>

definition less_swap :: "('d, 'x) lessSwap_scheme \<Rightarrow> 'd lessSwap" where
  "less_swap T = \<lparr>Less = Less T, Swap = Swap T\<rparr>"

lemma less_swap_simps [simp]: "Less (less_swap T) = Less T" "Swap (less_swap T) = Swap T"
  by (simp_all add: less_swap_def)

lemma less_swap_self [simp]: "less_swap S = (S :: 'd lessSwap)"
  by (simp add: less_swap_def)

section \<open>Loops with a measure\<close>

lemma insertionSort_inner_func_eq: "insertionSort_inner_func (less_swap T) d a j = insertionSort_inner T d a j"
proof (induction T d a j rule: insertionSort_inner.induct)
  case (1 T d a j)
  show ?case unfolding insertionSort_inner_func.simps [of "less_swap T" d a j] insertionSort_inner.simps [of T d a j] Let_def less_swap_simps
    by (intro if_cong Option.bind_cong refl; rule 1, (assumption | rule refl)+)
qed

lemma insertionSort_outer_func_eq: "insertionSort_outer_func (less_swap T) d a b i = insertionSort_outer T d a b i"
proof (induction T d a b i rule: insertionSort_outer.induct)
  case (1 T d a b i)
  show ?case unfolding insertionSort_outer_func.simps [of "less_swap T" d a b i] insertionSort_outer.simps [of T d a b i] Let_def less_swap_simps insertionSort_inner_func_eq
    by (intro if_cong Option.bind_cong refl; rule 1, (assumption | rule refl)+)
qed

lemma insertionSort_func_eq: "insertionSort_func (less_swap T) d a b = insertionSort T d a b"
  by (simp add: insertionSort_func_def insertionSort_def insertionSort_outer_func_eq)

lemma siftDown_func_eq: "siftDown_func (less_swap T) d root hi first = siftDown T d root hi first"
proof (induction T d root hi first rule: siftDown.induct)
  case (1 T d root hi first)
  show ?case unfolding siftDown_func.simps [of "less_swap T" d root hi first] siftDown.simps [of T d root hi first] Let_def less_swap_simps
    by (intro if_cong Option.bind_cong refl) (rule 1 [OF refl _ _ refl], assumption+)
qed

lemma heapSort_func_eq: "heapSort_func (less_swap T) d a b = heapSort T d a b"
proof -
  have "heapSort_build_func n (less_swap T) d hi first = heapSort_build n T d hi first" for n d hi first
    by (induction n arbitrary: d) (simp_all add: siftDown_func_eq)
  moreover have "heapSort_pop_func n (less_swap T) d first = heapSort_pop n T d first" for n d first
    by (induction n arbitrary: d) (simp_all add: siftDown_func_eq)
  ultimately show ?thesis by (simp add: heapSort_func_def heapSort_def)
qed

lemma medianOfThree_func_eq: "medianOfThree_func (less_swap T) d m1 m0 m2 = medianOfThree T d m1 m0 m2"
  unfolding medianOfThree_func_def medianOfThree_def less_swap_simps ..

lemma swapRange_func_eq: "swapRange_func (less_swap T) d a b n = swapRange T d a b n"
  by (induction n arbitrary: d a b) simp_all

lemma scan_less_func_eq: "scan_less_func (less_swap T) d pivot a c = scan_less T d pivot a c"
proof (induction T d pivot a c rule: scan_less.induct)
  case (1 T d pivot a c)
  show ?case unfolding scan_less_func.simps [of "less_swap T" d pivot a c] scan_less.simps [of T d pivot a c] Let_def less_swap_simps
    by (intro if_cong Option.bind_cong refl; rule 1, (assumption | rule refl)+)
qed

lemma scan_not_greater_func_eq: "scan_not_greater_func (less_swap T) d pivot b c = scan_not_greater T d pivot b c"
proof (induction T d pivot b c rule: scan_not_greater.induct)
  case (1 T d pivot b c)
  show ?case unfolding scan_not_greater_func.simps [of "less_swap T" d pivot b c] scan_not_greater.simps [of T d pivot b c] Let_def less_swap_simps
    by (intro if_cong Option.bind_cong refl; rule 1, (assumption | rule refl)+)
qed

lemma scan_greater_down_func_eq: "scan_greater_down_func (less_swap T) d pivot b c = scan_greater_down T d pivot b c"
proof (induction T d pivot b c rule: scan_greater_down.induct)
  case (1 T d pivot b c)
  show ?case unfolding scan_greater_down_func.simps [of "less_swap T" d pivot b c] scan_greater_down.simps [of T d pivot b c] Let_def less_swap_simps
    by (intro if_cong Option.bind_cong refl; rule 1, (assumption | rule refl)+)
qed

lemma scan_not_less_down_func_eq: "scan_not_less_down_func (less_swap T) d pivot a b = scan_not_less_down T d pivot a b"
proof (induction T d pivot a b rule: scan_not_less_down.induct)
  case (1 T d pivot a b)
  show ?case unfolding scan_not_less_down_func.simps [of "less_swap T" d pivot a b] scan_not_less_down.simps [of T d pivot a b] Let_def less_swap_simps
    by (intro if_cong Option.bind_cong refl; rule 1, (assumption | rule refl)+)
qed

lemma shell_pass_func_eq: "shell_pass_func (less_swap T) d b i = shell_pass T d b i"
proof (induction T d b i rule: shell_pass.induct)
  case (1 T d b i)
  show ?case unfolding shell_pass_func.simps [of "less_swap T" d b i] shell_pass.simps [of T d b i] Let_def less_swap_simps
    by (intro if_cong Option.bind_cong refl; rule 1, (assumption | rule refl)+)
qed

lemma search_ge_func_eq: "search_ge_func (less_swap T) d a i j = search_ge T d a i j"
proof (induction T d a i j rule: search_ge.induct)
  case (1 T d a i j)
  show ?case unfolding search_ge_func.simps [of "less_swap T" d a i j] search_ge.simps [of T d a i j] Let_def less_swap_simps
    by (intro if_cong Option.bind_cong refl; rule 1, (assumption | rule refl)+)
qed

lemma search_gt_func_eq: "search_gt_func (less_swap T) d m i j = search_gt T d m i j"
proof (induction T d m i j rule: search_gt.induct)
  case (1 T d m i j)
  show ?case unfolding search_gt_func.simps [of "less_swap T" d m i j] search_gt.simps [of T d m i j] Let_def less_swap_simps
    by (intro if_cong Option.bind_cong refl; rule 1, (assumption | rule refl)+)
qed

lemma search_sym_func_eq: "search_sym_func (less_swap T) d p start r = search_sym T d p start r"
proof (induction T d p start r rule: search_sym.induct)
  case (1 T d p start r)
  show ?case unfolding search_sym_func.simps [of "less_swap T" d p start r] search_sym.simps [of T d p start r] Let_def less_swap_simps
    by (intro if_cong Option.bind_cong refl; rule 1, (assumption | rule refl)+)
qed

lemma bubble_up_func_eq: "bubble_up_func (less_swap T) d k i = bubble_up T d k i"
proof (induction T d k i rule: bubble_up.induct)
  case (1 T d k i)
  show ?case unfolding bubble_up_func.simps [of "less_swap T" d k i] bubble_up.simps [of T d k i] Let_def less_swap_simps
    by (intro if_cong Option.bind_cong refl; rule 1, (assumption | rule refl)+)
qed

lemma bubble_down_func_eq: "bubble_down_func (less_swap T) d k i = bubble_down T d k i"
proof (induction T d k i rule: bubble_down.induct)
  case (1 T d k i)
  show ?case unfolding bubble_down_func.simps [of "less_swap T" d k i] bubble_down.simps [of T d k i] Let_def less_swap_simps
    by (intro if_cong Option.bind_cong refl; rule 1, (assumption | rule refl)+)
qed

lemmas loops_func_eq =
  insertionSort_func_eq heapSort_func_eq medianOfThree_func_eq swapRange_func_eq scan_less_func_eq scan_not_greater_func_eq
  scan_greater_down_func_eq scan_not_less_down_func_eq shell_pass_func_eq search_ge_func_eq search_gt_func_eq search_sym_func_eq
  bubble_up_func_eq bubble_down_func_eq

section \<open>Loops as partial functions\<close>

lemma option_eq_by_Some: "(\<And>y. x = Some y \<Longrightarrow> x' = Some y) \<Longrightarrow> (\<And>y. x' = Some y \<Longrightarrow> x = Some y) \<Longrightarrow> x = x'"
  by (cases x) (auto, metis not_None_eq)

lemma partition_loop_func_eq: "partition_loop_func (less_swap T) d pivot b c = partition_loop T d pivot b c"
proof (rule option_eq_by_Some)
  fix y
  assume f: "partition_loop_func (less_swap T) d pivot b c = Some y"
  have "\<forall>T. S = less_swap T \<longrightarrow> partition_loop T d pivot b c = Some y" if "partition_loop_func S d pivot b c = Some y" for S
    by (rule partition_loop_func.raw_induct [OF _ that, where P = "\<lambda>S d pivot b c y. \<forall>T. S = less_swap T \<longrightarrow> partition_loop T d pivot b c = Some y"])
      (intro allI impI, subst partition_loop.simps, auto simp: loops_func_eq bind_eq_Some_conv Let_def split: if_splits)
  with f show "partition_loop T d pivot b c = Some y" by blast
next
  fix y
  assume f: "partition_loop T d pivot b c = Some y"
  show "partition_loop_func (less_swap T) d pivot b c = Some y"
    by (rule partition_loop.raw_induct [OF _ f, where P = "\<lambda>T d pivot b c y. partition_loop_func (less_swap T) d pivot b c = Some y"])
      (subst partition_loop_func.simps, auto simp: loops_func_eq bind_eq_Some_conv Let_def split: if_splits)
qed

lemma protect_loop_func_eq: "protect_loop_func (less_swap T) d pivot a b = protect_loop T d pivot a b"
proof (rule option_eq_by_Some)
  fix y
  assume f: "protect_loop_func (less_swap T) d pivot a b = Some y"
  have "\<forall>T. S = less_swap T \<longrightarrow> protect_loop T d pivot a b = Some y" if "protect_loop_func S d pivot a b = Some y" for S
    by (rule protect_loop_func.raw_induct [OF _ that, where P = "\<lambda>S d pivot a b y. \<forall>T. S = less_swap T \<longrightarrow> protect_loop T d pivot a b = Some y"])
      (intro allI impI, subst protect_loop.simps, auto simp: loops_func_eq bind_eq_Some_conv Let_def split: if_splits)
  with f show "protect_loop T d pivot a b = Some y" by blast
next
  fix y
  assume f: "protect_loop T d pivot a b = Some y"
  show "protect_loop_func (less_swap T) d pivot a b = Some y"
    by (rule protect_loop.raw_induct [OF _ f, where P = "\<lambda>T d pivot a b y. protect_loop_func (less_swap T) d pivot a b = Some y"])
      (subst protect_loop_func.simps, auto simp: loops_func_eq bind_eq_Some_conv Let_def split: if_splits)
qed

lemma doPivot_func_eq: "doPivot_func (less_swap T) d lo hi = doPivot T d lo hi"
  unfolding doPivot_func_def doPivot_def choose_pivot_func_def choose_pivot_def test_dups_func_def test_dups_def
    loops_func_eq partition_loop_func_eq protect_loop_func_eq less_swap_simps ..

lemma quickSort_func_eq: "quickSort_func (less_swap T) d a b k = quickSort T d a b k"
proof (induction T d a b k rule: quickSort.induct)
  case (1 T d a b k)
  show ?case unfolding quickSort_func.simps [of "less_swap T" d a b k] quickSort.simps [of T d a b k] loops_func_eq doPivot_func_eq
    by (intro if_cong Option.bind_cong refl; clarsimp split del: if_split; intro if_cong Option.bind_cong refl; (rule 1)?) auto
qed

lemma rotate_loop_func_eq: "rotate_loop_func (less_swap T) d m i j = rotate_loop T d m i j"
proof (rule option_eq_by_Some)
  fix y
  assume f: "rotate_loop_func (less_swap T) d m i j = Some y"
  have "\<forall>T. S = less_swap T \<longrightarrow> rotate_loop T d m i j = Some y" if "rotate_loop_func S d m i j = Some y" for S
    by (rule rotate_loop_func.raw_induct [OF _ that, where P = "\<lambda>S d m i j y. \<forall>T. S = less_swap T \<longrightarrow> rotate_loop T d m i j = Some y"])
      (intro allI impI, subst rotate_loop.simps, auto simp: loops_func_eq bind_eq_Some_conv Let_def split: if_splits)
  with f show "rotate_loop T d m i j = Some y" by blast
next
  fix y
  assume f: "rotate_loop T d m i j = Some y"
  show "rotate_loop_func (less_swap T) d m i j = Some y"
    by (rule rotate_loop.raw_induct [OF _ f, where P = "\<lambda>T d m i j y. rotate_loop_func (less_swap T) d m i j = Some y"])
      (subst rotate_loop_func.simps, auto simp: loops_func_eq bind_eq_Some_conv Let_def split: if_splits)
qed

lemma rotate_func_eq: "rotate_func (less_swap T) d a m b = rotate_data T d a m b"
  by (simp add: rotate_func_def rotate_data_def rotate_loop_func_eq)

lemma symMerge_func_eq: "symMerge_func (less_swap T) d a m b = symMerge T d a m b"
proof (induction T d a m b rule: symMerge.induct)
  case (1 T d a m b)
  show ?case unfolding symMerge_func.simps [of "less_swap T" d a m b] symMerge.simps [of T d a m b] Let_def loops_func_eq rotate_func_eq
    by (intro if_cong Option.bind_cong refl)
      (rule 1(1) [OF _ _ refl refl refl refl refl _ refl], assumption+, rule 1(2) [OF _ _ refl refl refl refl refl _ refl], assumption+)
qed

lemma stable_blocks_func_eq: "stable_blocks_func (less_swap T) d blockSize n a b = stable_blocks T d blockSize n a b"
proof (rule option_eq_by_Some)
  fix y
  assume f: "stable_blocks_func (less_swap T) d blockSize n a b = Some y"
  have "\<forall>T. S = less_swap T \<longrightarrow> stable_blocks T d blockSize n a b = Some y" if "stable_blocks_func S d blockSize n a b = Some y" for S
    by (rule stable_blocks_func.raw_induct [OF _ that, where P = "\<lambda>S d blockSize n a b y. \<forall>T. S = less_swap T \<longrightarrow> stable_blocks T d blockSize n a b = Some y"])
      (intro allI impI, subst stable_blocks.simps, auto simp: loops_func_eq bind_eq_Some_conv Let_def split: if_splits)
  with f show "stable_blocks T d blockSize n a b = Some y" by blast
next
  fix y
  assume f: "stable_blocks T d blockSize n a b = Some y"
  show "stable_blocks_func (less_swap T) d blockSize n a b = Some y"
    by (rule stable_blocks.raw_induct [OF _ f, where P = "\<lambda>T d blockSize n a b y. stable_blocks_func (less_swap T) d blockSize n a b = Some y"])
      (subst stable_blocks_func.simps, auto simp: loops_func_eq bind_eq_Some_conv Let_def split: if_splits)
qed

lemma merge_pass_func_eq: "merge_pass_func (less_swap T) d blockSize n a b = merge_pass T d blockSize n a b"
proof (rule option_eq_by_Some)
  fix y
  assume f: "merge_pass_func (less_swap T) d blockSize n a b = Some y"
  have "\<forall>T. S = less_swap T \<longrightarrow> merge_pass T d blockSize n a b = Some y" if "merge_pass_func S d blockSize n a b = Some y" for S
    by (rule merge_pass_func.raw_induct [OF _ that, where P = "\<lambda>S d blockSize n a b y. \<forall>T. S = less_swap T \<longrightarrow> merge_pass T d blockSize n a b = Some y"])
      (intro allI impI, subst merge_pass.simps, auto simp: symMerge_func_eq bind_eq_Some_conv Let_def split: if_splits)
  with f show "merge_pass T d blockSize n a b = Some y" by blast
next
  fix y
  assume f: "merge_pass T d blockSize n a b = Some y"
  show "merge_pass_func (less_swap T) d blockSize n a b = Some y"
    by (rule merge_pass.raw_induct [OF _ f, where P = "\<lambda>T d blockSize n a b y. merge_pass_func (less_swap T) d blockSize n a b = Some y"])
      (subst merge_pass_func.simps, auto simp: symMerge_func_eq bind_eq_Some_conv Let_def split: if_splits)
qed

lemma merge_levels_func_eq: "merge_levels_func (less_swap T) d blockSize n = merge_levels T d blockSize n"
proof (rule option_eq_by_Some)
  fix y
  assume f: "merge_levels_func (less_swap T) d blockSize n = Some y"
  have "\<forall>T. S = less_swap T \<longrightarrow> merge_levels T d blockSize n = Some y" if "merge_levels_func S d blockSize n = Some y" for S
    by (rule merge_levels_func.raw_induct [OF _ that, where P = "\<lambda>S d blockSize n y. \<forall>T. S = less_swap T \<longrightarrow> merge_levels T d blockSize n = Some y"])
      (intro allI impI, subst merge_levels.simps, auto simp: merge_pass_func_eq bind_eq_Some_conv Let_def split: if_splits)
  with f show "merge_levels T d blockSize n = Some y" by blast
next
  fix y
  assume f: "merge_levels T d blockSize n = Some y"
  show "merge_levels_func (less_swap T) d blockSize n = Some y"
    by (rule merge_levels.raw_induct [OF _ f, where P = "\<lambda>T d blockSize n y. merge_levels_func (less_swap T) d blockSize n = Some y"])
      (subst merge_levels_func.simps, auto simp: merge_pass_func_eq bind_eq_Some_conv Let_def split: if_splits)
qed

lemma stable_func_eq: "stable_func (less_swap T) d n = stable T d n"
  by (simp add: stable_func_def stable_def stable_blocks_func_eq merge_levels_func_eq)

lemmas func_eq_self = quickSort_func_eq [of "S :: 'd lessSwap" for S, unfolded less_swap_self] stable_func_eq [of "S :: 'd lessSwap" for S, unfolded less_swap_self]

section \<open>The property\<close>

text \<open>
  C11: The generated routines are those of \<open>sort.go\<close>: given the functions \<open>Less\<close> and \<open>Swap\<close> of an \<open>Interface\<close>, which may panic
  and need be no order, \<open>quickSort_func\<close>, \<open>heapSort_func\<close>, \<open>insertionSort_func\<close>, \<open>symMerge_func\<close> and \<open>stable_func\<close> return and leave behind
  exactly what the originals do for the \<open>Interface\<close>, or like them do not return.
\<close>

theorem zfunc_equivalent:
  fixes I :: "'d Interface"
  shows "quickSort_func (less_swap I) d a b depth = quickSort I d a b depth \<and> heapSort_func (less_swap I) d a b = heapSort I d a b \<and>
    insertionSort_func (less_swap I) d a b = insertionSort I d a b \<and> symMerge_func (less_swap I) d a m b = symMerge I d a m b \<and>
    stable_func (less_swap I) d n = stable I d n"
  by (simp add: quickSort_func_eq loops_func_eq symMerge_func_eq stable_func_eq)

end
