(* ===== verification/Sort_Correct.thy ===== *)
theory Sort_Correct
  imports Sort_Quick Sort_Merge Sort_Func_Correct
begin

text \<open>
  The exported functions of the package \<open>sort\<close>: \<open>Sort\<close>, \<open>Stable\<close>, \<open>IsSorted\<close>, the binary
  searches and their instances at the slice types. The interfaces of \<open>Sort_Interface\<close> are
  interpreted on the three orders of the code and on the reversed order.
\<close>

section \<open>The merge loop of Stable\<close>

text \<open>\<open>[a, n)\<close> consists of sorted blocks of size \<open>bs\<close>, the last one possibly shorter.\<close>

definition runs :: "('a \<Rightarrow> 'a \<Rightarrow> bool) \<Rightarrow> nat \<Rightarrow> nat \<Rightarrow> nat \<Rightarrow> 'a list \<Rightarrow> bool" where
  "runs lt bs a n xs \<longleftrightarrow>
     (\<forall>k. a + k * bs < n \<longrightarrow> sorted_seg lt (a + k * bs) (min (a + k * bs + bs) n) xs)"

lemma runs_step:
  "runs lt bs a n xs \<longleftrightarrow>
     (a < n \<longrightarrow> sorted_seg lt a (min (a + bs) n) xs \<and> runs lt bs (a + bs) n xs)"
proof -
  have all: "(\<forall>k. P k) \<longleftrightarrow> P 0 \<and> (\<forall>k. P (Suc k))" for P :: "nat \<Rightarrow> bool"
    by (metis not0_implies_Suc)
  show ?thesis
    unfolding runs_def by (subst all) (auto simp: algebra_simps)
qed

lemma runs_empty: "n \<le> a \<Longrightarrow> runs lt bs a n xs"
  by (simp add: runs_def)

lemma runs_single: "n \<le> a + bs \<Longrightarrow> sorted_seg lt a n xs \<Longrightarrow> runs lt bs a n xs"
  by (subst runs_step) (auto simp: runs_empty min_def)

lemma runs_cong:
  "(\<And>k. a \<le> k \<Longrightarrow> k < n \<Longrightarrow> ys ! k = xs ! k) \<Longrightarrow> runs lt bs a n xs \<Longrightarrow> runs lt bs a n ys"
  unfolding runs_def by (auto intro!: sorted_seg_cong [of _ _ ys xs])

lemma stable_seg_keeps:
  "stable_seg lt a b xs ys \<Longrightarrow> k < length xs \<Longrightarrow> k < a \<or> b \<le> k \<Longrightarrow> ys ! k = xs ! k"
  by (auto simp: stable_seg_def seg_perm_outside)

lemma stable_seg_length: "stable_seg lt a b xs ys \<Longrightarrow> length ys = length xs"
  by (auto simp: stable_seg_def dest: seg_perm_length)

lemma stable_seg_sides:
  "stable_seg lt a m xs ys \<Longrightarrow> stable_seg lt m b ys zs \<Longrightarrow> a \<le> m \<Longrightarrow> m \<le> b \<Longrightarrow> stable_seg lt a b xs zs"
  by (meson order_refl stable_seg_mono stable_seg_trans)

context sort_data
begin

lemma stable_blocks_correct:
  assumes "a \<le> n" "n \<le> length (contents d)" "0 < bs"
  shows "succeeds (stable_blocks S d bs n a (a + bs))
    (\<lambda>d'. stable_seg lt a n (contents d) (contents d') \<and> runs lt bs a n (contents d'))"
  using assms
proof (induction "n - a" arbitrary: a d rule: less_induct)
  case less
  show ?case
  proof (cases "a + bs \<le> n")
    case True
    have "succeeds (insertionSort S d a (a + bs)) (\<lambda>d1. succeeds (stable_blocks S d1 bs n (a + bs) (a + bs + bs))
      (\<lambda>d'. stable_seg lt a n (contents d) (contents d') \<and> runs lt bs a n (contents d')))"
    proof (rule succeeds_mono [OF insertionSort_correct], use True less.prems in simp, elim conjE)
      fix d1 assume d1: "stable_seg lt a (a + bs) (contents d) (contents d1)"
        and sorted: "sorted_seg lt a (a + bs) (contents d1)"
      have len: "length (contents d1) = length (contents d)" using d1 by (rule stable_seg_length)
      show "succeeds (stable_blocks S d1 bs n (a + bs) (a + bs + bs))
        (\<lambda>d'. stable_seg lt a n (contents d) (contents d') \<and> runs lt bs a n (contents d'))"
      proof (rule succeeds_mono [OF less.hyps], goal_cases)
        case (5 d')
        then have "sorted_seg lt a (a + bs) (contents d')"
          using sorted len less.prems True by (auto intro!: sorted_seg_cong [OF _ sorted] stable_seg_keeps)
        with 5 True d1 show ?case
          by (subst runs_step) (auto intro: stable_seg_sides)
      qed (use True less.prems len in auto)
    qed
    with True show ?thesis by (subst stable_blocks.simps) simp
  next
    case False
    then have "stable_blocks S d bs n a (a + bs) = insertionSort S d a n"
      by (subst stable_blocks.simps) simp
    with False less.prems show ?thesis
      by (auto intro: runs_single intro!: succeeds_mono [OF insertionSort_correct])
  qed
qed

lemma merge_pass_correct:
  assumes "a \<le> n" "n \<le> length (contents d)" "0 < bs" "runs lt bs a n (contents d)"
  shows "succeeds (merge_pass S d bs n a (a + 2 * bs))
    (\<lambda>d'. stable_seg lt a n (contents d) (contents d') \<and> runs lt (2 * bs) a n (contents d'))"
  using assms
proof (induction "n - a" arbitrary: a d rule: less_induct)
  case less
  let ?m = "a + bs" and ?b = "a + 2 * bs"
  let ?Q = "\<lambda>d'. stable_seg lt a n (contents d) (contents d') \<and> runs lt (2 * bs) a n (contents d')"
  have two: "a < n \<Longrightarrow> sorted_seg lt a (min ?m n) (contents d)"
    "?m < n \<Longrightarrow> sorted_seg lt ?m (min ?b n) (contents d)" "?b \<le> n \<Longrightarrow> runs lt bs ?b n (contents d)"
    using less.prems(3,4) runs_step [of lt bs a n "contents d"] runs_step [of lt bs ?m n "contents d"]
    by (auto simp: mult_2 add.assoc)
  consider (both) "?b \<le> n" | (tail) "n < ?b" "?m < n" | (single) "n \<le> ?m" using less.prems(3) by linarith
  then show ?case
  proof cases
    case both
    have "succeeds (symMerge S d a ?m ?b) (\<lambda>d1. succeeds (merge_pass S d1 bs n ?b (?b + 2 * bs)) ?Q)"
    proof (rule succeeds_mono [OF symMerge_correct], goal_cases)
      case (6 d1)
      then have d1: "stable_seg lt a ?b (contents d) (contents d1)" "sorted_seg lt a ?b (contents d1)" by auto
      have len: "length (contents d1) = length (contents d)" using d1(1) by (rule stable_seg_length)
      show ?case
      proof (rule succeeds_mono [OF less.hyps], goal_cases)
        case 5
        show ?case
          using both less.prems two(3) by (auto intro!: runs_cong [OF stable_seg_keeps [OF d1(1)]])
      next
        case (6 d')
        then have "sorted_seg lt a ?b (contents d')"
          using len less.prems both by (auto intro!: sorted_seg_cong [OF _ d1(2)] stable_seg_keeps)
        with 6 both d1 show ?case
          by (subst runs_step) (auto intro: stable_seg_sides)
      qed (use both less.prems len in auto)
    qed (use both less.prems two in auto)
    with both show ?thesis by (subst merge_pass.simps) simp
  next
    case tail
    then have "merge_pass S d bs n a ?b = symMerge S d a ?m n"
      by (subst merge_pass.simps) simp
    moreover have "succeeds (symMerge S d a ?m n) ?Q"
      by (rule succeeds_mono [OF symMerge_correct]) (use tail less.prems two in \<open>auto intro: runs_single\<close>)
    ultimately show ?thesis by simp
  next
    case single
    then have "merge_pass S d bs n a ?b = Some d"
      using less.prems(3) by (subst merge_pass.simps) simp
    moreover have "sorted_seg lt a n (contents d)"
      using two(1) single by (cases "a < n") (simp_all add: min_def split: if_splits)
    ultimately show ?thesis using single by (simp add: runs_single)
  qed
qed

lemma merge_levels_correct:
  assumes "n \<le> length (contents d)" "0 < bs" "runs lt bs 0 n (contents d)"
  shows "succeeds (merge_levels S d bs n) (merged 0 n d)"
  using assms
proof (induction "n - bs" arbitrary: bs d rule: less_induct)
  case less
  show ?case
  proof (cases "bs < n")
    case True
    have "succeeds (merge_pass S d bs n 0 (2 * bs)) (\<lambda>d1. succeeds (merge_levels S d1 (bs * 2) n) (merged 0 n d))"
    proof (rule succeeds_mono [OF merge_pass_correct [of 0 n d bs, simplified]], goal_cases)
      case (4 d1)
      then have "succeeds (merge_levels S d1 (bs * 2) n) (merged 0 n d1)"
        using True less.prems by (intro less.hyps) (auto simp: mult.commute dest: stable_seg_length)
      with 4 show ?case by (auto elim!: succeeds_mono intro: stable_seg_trans)
    qed (use less.prems in simp_all)
    with True show ?thesis by (subst merge_levels.simps) simp
  next
    case False
    then have "sorted_seg lt 0 n (contents d)"
      using less.prems(3) runs_step [of lt bs 0 n "contents d"] by (cases "n = 0") (simp_all add: min_def split: if_splits)
    with False show ?thesis by (subst merge_levels.simps) simp
  qed
qed

theorem stable_correct:
  assumes "n \<le> length (contents d)"
  shows "succeeds (stable S d n) (merged 0 n d)"
proof -
  have "succeeds (stable_blocks S d 20 n 0 (0 + 20)) (\<lambda>d1. succeeds (merge_levels S d1 20 n) (merged 0 n d))"
  proof (rule succeeds_mono [OF stable_blocks_correct], goal_cases)
    case (4 d1)
    then have "succeeds (merge_levels S d1 20 n) (merged 0 n d1)"
      using assms by (intro merge_levels_correct) (auto dest: stable_seg_length)
    with 4 show ?case by (auto elim!: succeeds_mono intro: stable_seg_trans)
  qed (use assms in auto)
  then show ?thesis by (simp add: stable_def)
qed

section \<open>The exported functions over the interface\<close>

lemma IsSorted_loop_correct:
  "n \<le> length (contents d) \<Longrightarrow> IsSorted_loop n S d = Some (sorted_seg lt 0 n (contents d))"
proof (induction n)
  case (Suc n)
  let ?xs = "contents d"
  have step: "sorted_seg lt 0 (Suc n) ?xs \<longleftrightarrow> \<not> lt (?xs ! n) (?xs ! (n - 1)) \<and> sorted_seg lt 0 n ?xs" if "n \<noteq> 0"
  proof
    assume "\<not> lt (?xs ! n) (?xs ! (n - 1)) \<and> sorted_seg lt 0 n ?xs"
    then have last: "\<not> lt (?xs ! n) (?xs ! (n - 1))" and init: "sorted_seg lt 0 n ?xs" by auto
    show "sorted_seg lt 0 (Suc n) ?xs"
    proof (rule adjacent_in_order)
      fix i assume "i + 1 < Suc n"
      then show "\<not> lt (?xs ! (i + 1)) (?xs ! i)"
        using last sorted_segD [OF init, of i "i + 1"] by (cases "i + 1 = n") auto
    qed
  qed (use that in \<open>auto simp: sorted_seg_def\<close>)
  with Suc show ?case by (cases "n = 0") (auto simp: Less_in_range)
qed simp

lemma quickSort_all:
  assumes "n = length (contents d)"
  shows "succeeds (quickSort S d 0 n depth)
    (\<lambda>d'. mset (contents d') = mset (contents d) \<and> in_order lt (contents d'))"
  using assms by (intro succeeds_mono [OF quickSort_correct])
    (auto simp: in_order_seg seg_perm_mset dest: seg_perm_length)

lemma stable_all:
  assumes "n = length (contents d)"
  shows "succeeds (stable S d n) (\<lambda>d'. mset (contents d') = mset (contents d) \<and>
    in_order lt (contents d') \<and> same_classes lt (contents d) (contents d'))"
  using assms by (intro succeeds_mono [OF stable_correct])
    (auto simp: in_order_seg stable_seg_def seg_perm_mset dest: seg_perm_length)

end

lemma Sort_Iface:
  "sort_interface lt I contents \<Longrightarrow>
     succeeds (Sort (Iface I) d) (\<lambda>d'. mset (contents d') = mset (contents d) \<and> in_order lt (contents d'))"
  unfolding sort_interface_def sort_interface_axioms_def
  using sort_data.quickSort_all [of lt I contents] by (simp add: Let_def)

lemma Sort_Funcs:
  "sort_data lt \<lparr>Less = ls, Swap = sw\<rparr> contents \<Longrightarrow> n = length (contents d) \<Longrightarrow>
     succeeds (Sort (MakeInterface n sw ls) d)
       (\<lambda>d'. mset (contents d') = mset (contents d) \<and> in_order lt (contents d'))"
  using sort_data.quickSort_all [of lt "\<lparr>Less = ls, Swap = sw\<rparr>" contents]
  by (simp add: MakeInterface_def func_eq_self Let_def)

lemma Stable_Iface:
  "sort_interface lt I contents \<Longrightarrow>
     succeeds (Stable (Iface I) d) (\<lambda>d'. mset (contents d') = mset (contents d) \<and>
       in_order lt (contents d') \<and> same_classes lt (contents d) (contents d'))"
  unfolding sort_interface_def sort_interface_axioms_def
  using sort_data.stable_all [of lt I contents] by (simp add: Let_def)

lemma Stable_Funcs:
  "sort_data lt \<lparr>Less = ls, Swap = sw\<rparr> contents \<Longrightarrow> n = length (contents d) \<Longrightarrow>
     succeeds (Stable (MakeInterface n sw ls) d) (\<lambda>d'. mset (contents d') = mset (contents d) \<and>
       in_order lt (contents d') \<and> same_classes lt (contents d) (contents d'))"
  using sort_data.stable_all [of lt "\<lparr>Less = ls, Swap = sw\<rparr>" contents]
  by (simp add: MakeInterface_def func_eq_self)

lemma IsSorted_Iface:
  "sort_interface lt I contents \<Longrightarrow> IsSorted I d = Some (in_order lt (contents d))"
  unfolding sort_interface_def sort_interface_axioms_def
  using sort_data.IsSorted_loop_correct [of lt I contents] by (simp add: IsSorted_def in_order_seg)

section \<open>The orders of the slice types\<close>

text \<open>The comparison of Go strings is the lexicographic order of their bytes.\<close>

lemma string_less_lexordp: "string_less xs ys \<longleftrightarrow> ord_class.lexordp xs ys"
  by (induction xs ys rule: string_less.induct) auto

lemma string_less_eq: "\<not> string_less ys xs \<longleftrightarrow> ord_class.lexordp_eq xs ys"
  unfolding string_less_lexordp by (metis lexordp_conv_lexordp_eq lexordp_eq_linear)

text \<open>A rank that orders the values as the numbers they stand for, the zeros together.\<close>

fun float_rank :: "float64 \<Rightarrow> nat \<times> int" where
  "float_rank NaN = (0, 0)"
| "float_rank NegInf = (1, 0)"
| "float_rank NegZero = (2, 0)"
| "float_rank (Finite k) = (2, k)"
| "float_rank PosInf = (3, 0)"

lemma isNaN_iff [simp]: "isNaN x \<longleftrightarrow> x = NaN"
  by (cases x) (simp_all add: isNaN_def)

lemma Float64_Less_rank:
  "Float64_Less x y \<longleftrightarrow> fst (float_rank x) < fst (float_rank y) \<or>
     fst (float_rank x) = fst (float_rank y) \<and> snd (float_rank x) < snd (float_rank y)"
  by (cases x; cases y) (simp_all add: Float64_Less_def)

interpretation int_order: strict_weak_order "(<) :: int \<Rightarrow> int \<Rightarrow> bool"
  by unfold_locales auto

interpretation string_order: strict_weak_order string_less
  by unfold_locales
     (auto simp: string_less_eq dest: lexordp_eq_trans,
      metis lexordp_conv_lexordp_eq string_less_lexordp)

interpretation float_order: strict_weak_order Float64_Less
  by unfold_locales (auto simp: Float64_Less_rank)

interpretation int_reverse: sort_interface "(>) :: int \<Rightarrow> int \<Rightarrow> bool" "Reverse IntSlice" "\<lambda>p. p"
  unfolding IntSlice_def by (rule int_order.slice.reverse_interface)

lemmas slice_contracts =
  int_order.slice.sort_interface_axioms string_order.slice.sort_interface_axioms
  float_order.slice.sort_interface_axioms

lemma slice_funcs:
  "strict_weak_order lt \<Longrightarrow> sort_data lt \<lparr>Less = slice_Less lt, Swap = slice_Swap\<rparr> (\<lambda>p. p)"
  unfolding sort_data_def sort_data_axioms_def
  by (auto simp: slice_Less_def slice_Swap_def swap_def)

section \<open>Properties\<close>

text \<open>
  C1: \<open>Sort\<close> on any \<open>Interface\<close> that keeps its contract (\<open>Less\<close> and \<open>Swap\<close> act on some
  sequence whose length is \<open>Len\<close>, and \<open>Less\<close> is a strict weak order) returns, without an index
  out of range, and leaves the same elements in ascending order.
\<close>

theorem Sort_sorts:
  assumes "sort_interface lt I contents"
  shows "\<exists>d'. Sort (Iface I) d = Some d' \<and> mset (contents d') = mset (contents d) \<and> in_order lt (contents d')"
  using Sort_Iface [OF assms, of d] by (auto simp: succeeds_def)

theorem Sort_sorts_witness:
  "\<exists>d'. Sort (Iface IntSlice) [3, 1, 2] = Some d' \<and> mset d' = mset [3, 1, 2] \<and> in_order (<) d'"
  using Sort_sorts [of "(<)" IntSlice "\<lambda>p. p" "[3, 1, 2]"] slice_contracts(1)
  unfolding IntSlice_def by blast

text \<open>
  C2: \<open>Stable\<close> on any \<open>Interface\<close> that keeps its contract returns the elements in ascending
  order, and for every \<open>x\<close> the elements equivalent to \<open>x\<close> appear in their original order.
\<close>

theorem Stable_sorts_stably:
  assumes "sort_interface lt I contents"
  shows "\<exists>d'. Stable (Iface I) d = Some d' \<and> mset (contents d') = mset (contents d) \<and>
    in_order lt (contents d') \<and>
    (\<forall>x. filter (equiv_of lt x) (contents d') = filter (equiv_of lt x) (contents d))"
  using Stable_Iface [OF assms, of d] by (auto simp: succeeds_def same_classes_def)

theorem Stable_sorts_stably_witness:
  "\<exists>d'. Stable (Iface Float64Slice) [Finite 0, NaN, NegZero] = Some d' \<and>
     mset d' = mset [Finite 0, NaN, NegZero] \<and> in_order Float64_Less d' \<and>
     (\<forall>x. filter (equiv_of Float64_Less x) d' =
          filter (equiv_of Float64_Less x) [Finite 0, NaN, NegZero])"
  using Stable_sorts_stably [of Float64_Less Float64Slice "\<lambda>p. p" "[Finite 0, NaN, NegZero]"]
    slice_contracts(3)
  unfolding Float64Slice_def by blast

text \<open>
  C10: \<open>With\<close>, \<open>Slice\<close>, and \<open>Stable\<close> over \<open>SliceSorter\<close>, given a \<open>less\<close> that compares the
  elements at two indices by a strict weak order: both sort, and \<open>Stable\<close> keeps the order of
  equivalent elements.
\<close>

theorem Slice_sorts:
  assumes "strict_weak_order lt"
  shows "\<exists>ys zs. Slice xs (slice_Less lt) = Some ys \<and> With (length xs) slice_Swap (slice_Less lt) xs = Some ys \<and>
    mset ys = mset xs \<and> in_order lt ys \<and>
    Stable (SliceSorter xs (slice_Less lt)) xs = Some zs \<and> mset zs = mset xs \<and> in_order lt zs \<and>
    (\<forall>x. filter (equiv_of lt x) zs = filter (equiv_of lt x) xs)"
proof -
  have "With (length xs) slice_Swap (slice_Less lt) xs = Slice xs (slice_Less lt)"
    by (simp add: With_def Slice_def SliceSorter_def MakeInterface_def Let_def)
  then show ?thesis
    using Sort_Funcs [OF slice_funcs [OF assms], of "length xs" xs]
      Stable_Funcs [OF slice_funcs [OF assms], of "length xs" xs]
    by (auto simp: succeeds_def Slice_def SliceSorter_def same_classes_def)
qed

theorem Slice_sorts_witness:
  "\<exists>ys zs. Slice [[2], [], [1, 1]] (slice_Less string_less) = Some ys \<and>
     With 3 slice_Swap (slice_Less string_less) [[2], [], [1, 1]] = Some ys \<and>
     mset ys = mset [[2], [], [1, 1]] \<and> in_order string_less ys \<and>
     Stable (SliceSorter [[2], [], [1, 1]] (slice_Less string_less)) [[2], [], [1, 1]] = Some zs \<and>
     mset zs = mset [[2], [], [1, 1]] \<and> in_order string_less zs \<and>
     (\<forall>x. filter (equiv_of string_less x) zs = filter (equiv_of string_less x) [[2], [], [1, 1]])"
proof -
  have "length [[2], [], [1, 1 :: byte]] = 3" by simp
  with Slice_sorts [OF string_order.strict_weak_order_axioms, of "[[2], [], [1, 1]]"]
  show ?thesis by (simp only:)
qed

text \<open>
  \<open>Float64s\<close> puts the NaN values before the others, and no value after a larger one.
\<close>

theorem Float64s_sorts:
  "\<exists>ys. Float64s xs = Some ys \<and> mset ys = mset xs \<and>
     ys = filter isNaN ys @ filter (\<lambda>x. \<not> isNaN x) ys \<and> sorted_wrt (\<lambda>x y. \<not> float_less y x) ys"
proof -
  have "in_order Float64_Less ys \<Longrightarrow> ys = filter isNaN ys @ filter (\<lambda>x. \<not> isNaN x) ys" for ys
  proof (induction ys)
    case (Cons y ys)
    show ?case
    proof (cases "y = NaN")
      case False
      with Cons.prems have "\<forall>x \<in> set ys. x \<noteq> NaN" by (auto simp: in_order_def Float64_Less_def)
      with False show ?thesis by simp
    next
      case True
      with Cons show ?thesis by (simp add: in_order_def)
    qed
  qed simp
  moreover have "in_order Float64_Less ys \<Longrightarrow> sorted_wrt (\<lambda>x y. \<not> float_less y x) ys" for ys
    unfolding in_order_def Float64_Less_def by (erule sorted_wrt_mono_rel [rotated]) simp
  ultimately show ?thesis
    using Sort_Iface [OF slice_contracts(3), of xs] by (auto simp: succeeds_def Float64s_def Float64Slice_def)
qed

text \<open>
  \<open>Strings\<close> and \<open>Ints\<close> sort by the lexicographic order of the bytes and by value.
\<close>

theorem Strings_Ints_sort:
  "(\<exists>ys. Strings xs = Some ys \<and> mset ys = mset xs \<and> sorted_wrt ord_class.lexordp_eq ys) \<and>
   Ints ns = Some (sort ns)"
proof
  show "\<exists>ys. Strings xs = Some ys \<and> mset ys = mset xs \<and> sorted_wrt ord_class.lexordp_eq ys"
    using Sort_Iface [OF slice_contracts(2), of xs]
    by (auto simp: succeeds_def Strings_def StringSlice_def in_order_def string_less_eq)
  show "Ints ns = Some (sort ns)"
    using Sort_Iface [OF slice_contracts(1), of ns]
    by (auto simp: succeeds_def Ints_def IntSlice_def in_order_def not_less properties_for_sort)
qed

text \<open>
  \<open>IsSorted\<close> answers whether the elements are in order, and after \<open>Sort\<close> of the same
  data it answers true.
\<close>

theorem IsSorted_decides:
  assumes "sort_interface lt I contents"
  shows "IsSorted I d = Some (in_order lt (contents d)) \<and> Sort (Iface I) d \<bind> IsSorted I = Some True"
  using Sort_Iface [OF assms, of d] by (auto simp: IsSorted_Iface [OF assms] succeeds_def)

theorem IsSorted_decides_witness:
  "IsSorted StringSlice [[1], [2]] = Some (in_order string_less [[1], [2]]) \<and>
   Sort (Iface StringSlice) [[1], [2]] \<bind> IsSorted StringSlice = Some True"
  using IsSorted_decides [of string_less StringSlice "\<lambda>p. p" "[[1], [2]]"] slice_contracts(2)
  unfolding StringSlice_def by blast

text \<open>
  Sorting through \<open>Reverse\<close> gives descending order.
\<close>

theorem Reverse_sorts_descending:
  "Sort (Iface (Reverse IntSlice)) ns = Some (rev (sort ns))"
proof -
  have "sorted (rev ys) \<Longrightarrow> mset ys = mset ns \<Longrightarrow> ys = rev (sort ns)" for ys
    using properties_for_sort [of "rev ys" ns] by (metis mset_rev rev_rev_ident)
  then show ?thesis
    using Sort_Iface [OF int_reverse.sort_interface_axioms, of ns]
    by (auto simp: succeeds_def in_order_def not_less sorted_wrt_rev)
qed

text \<open>
  C6: \<open>symMerge\<close> of two adjacent sorted runs of any contracted data returns them merged: only
  the range is rearranged, it is sorted, and the merge is stable. Every index it compares or swaps
  is in range.
\<close>

theorem symMerge_merges:
  assumes "sort_data lt S contents" and "a < m" "m < b" "b \<le> length (contents d)"
    and "sorted_seg lt a m (contents d)" "sorted_seg lt m b (contents d)"
  shows "\<exists>d'. symMerge S d a m b = Some d' \<and> seg_perm a b (contents d) (contents d') \<and>
    sorted_seg lt a b (contents d') \<and>
    (\<forall>x. filter (equiv_of lt x) (contents d') = filter (equiv_of lt x) (contents d))"
  using sort_data.symMerge_correct [OF assms] by (auto simp: succeeds_def stable_seg_def same_classes_def)

theorem symMerge_merges_witness:
  "\<exists>d'. symMerge IntSlice [9, 1, 4, 2, 3, 0] 1 3 5 = Some d' \<and> seg_perm 1 5 [9, 1, 4, 2, 3, 0] d' \<and>
     sorted_seg (<) 1 5 d' \<and>
     (\<forall>x. filter (equiv_of (<) x) d' = filter (equiv_of (<) x) [9, 1, 4, 2, 3, 0])"
proof -
  have "sorted_seg (<) 1 3 [9, 1, 4, 2, 3, 0 :: int]" "sorted_seg (<) 3 5 [9, 1, 4, 2, 3, 0 :: int]"
    by (auto simp: sorted_seg_def less_Suc_eq numeral_eq_Suc)
  then show ?thesis
    using symMerge_merges [OF int_order.slice.sort_data_axioms, of 1 3 5 "[9, 1, 4, 2, 3, 0]"]
    by (simp add: IntSlice_def)
qed

text \<open>
  C35: \<open>Search\<close> with a monotone predicate returns the smallest index in \<open>[0, n)\<close> where it
  holds, or \<open>n\<close>; it never calls the predicate outside \<open>[0, n)\<close> (where \<open>f\<close> may panic).
\<close>

theorem Search_smallest:
  assumes "\<And>k. k < n \<Longrightarrow> f k = Some (P k)" and "\<And>k k'. k \<le> k' \<Longrightarrow> k' < n \<Longrightarrow> P k \<Longrightarrow> P k'"
  shows "\<exists>r. Search n f = Some r \<and> r \<le> n \<and> (\<forall>k < r. \<not> P k) \<and> (r < n \<longrightarrow> P r)"
  using Search_correct [of n f P] assms by (auto simp: succeeds_def)

theorem Search_smallest_witness:
  "\<exists>r. Search 5 (\<lambda>k. if k < 5 then Some (10 \<le> k * k) else None) = Some r \<and> r \<le> 5 \<and>
     (\<forall>k < r. \<not> 10 \<le> k * k) \<and> (r < 5 \<longrightarrow> 10 \<le> r * r)"
  by (rule Search_smallest) (auto intro: order_trans mult_le_mono)

lemma Search_count:
  assumes swo: "strict_weak_order lt" and sorted: "in_order lt xs"
  shows "Search (length xs) (\<lambda>i. do { v \<leftarrow> index xs i; Some (\<not> lt v x) }) = Some (length (filter (\<lambda>y. lt y x) xs))"
proof -
  let ?P = "\<lambda>i. \<not> lt (xs ! i) x"
  have "succeeds (Search (length xs) (\<lambda>i. do { v \<leftarrow> index xs i; Some (\<not> lt v x) }))
    (\<lambda>r. r \<le> length xs \<and> (\<forall>k < r. \<not> ?P k) \<and> (\<forall>k. r \<le> k \<and> k < length xs \<longrightarrow> ?P k))"
  proof (rule Search_correct)
    fix k k' assume k: "k \<le> k'" "k' < length xs" "?P k"
    then have "\<not> lt (xs ! k') (xs ! k)"
      using sorted strict_weak_order.sorted_seg_le [OF swo, of 0 "length xs" xs k k'] by (simp add: in_order_seg)
    then show "?P k'" using k(3) strict_weak_order.neg_trans [OF swo] by blast
  qed (simp add: index_def)
  then obtain r where r: "Search (length xs) (\<lambda>i. do { v \<leftarrow> index xs i; Some (\<not> lt v x) }) = Some r"
    "r \<le> length xs" "\<forall>k < r. lt (xs ! k) x" "\<forall>k. r \<le> k \<and> k < length xs \<longrightarrow> \<not> lt (xs ! k) x"
    by (auto simp: succeeds_def)
  have "{k. k < length xs \<and> lt (xs ! k) x} = {..<r}"
    using r(2-4) by (auto simp: not_less)
  then show ?thesis by (simp add: r(1) length_filter_conv_card)
qed

text \<open>
  In a slice sorted as the package sorts it, \<open>SearchInts\<close>, \<open>SearchStrings\<close> and (for a value
  that is not a NaN) \<open>SearchFloat64s\<close> return the number of elements that are less, which is
  the index to insert the value at.
\<close>

theorem Search_slices:
  assumes "sorted ns" and "sorted_wrt ord_class.lexordp_eq ss" and "in_order Float64_Less fs" "\<not> isNaN f"
  shows "SearchInts ns n = Some (length (filter (\<lambda>y. y < n) ns)) \<and>
    SearchStrings ss s = Some (length (filter (\<lambda>y. ord_class.lexordp y s) ss)) \<and>
    SearchFloat64s fs f = Some (length (filter (\<lambda>y. Float64_Less y f) fs))"
proof (intro conjI)
  show "SearchInts ns n = Some (length (filter (\<lambda>y. y < n) ns))"
    using Search_count [OF int_order.strict_weak_order_axioms, of ns n] assms(1)
    by (simp add: SearchInts_def in_order_def not_less)
  show "SearchStrings ss s = Some (length (filter (\<lambda>y. ord_class.lexordp y s) ss))"
    using Search_count [OF string_order.strict_weak_order_axioms, of ss s] assms(2)
    by (simp add: SearchStrings_def in_order_def string_less_lexordp string_less_eq [unfolded string_less_lexordp])
  have "(float_less f v \<or> \<not> float_neq v f) = (\<not> Float64_Less v f)" for v
    using assms(4) by (cases v; cases f) (auto simp: Float64_Less_def)
  then show "SearchFloat64s fs f = Some (length (filter (\<lambda>y. Float64_Less y f) fs))"
    using Search_count [OF float_order.strict_weak_order_axioms assms(3)] by (simp add: SearchFloat64s_def)
qed

theorem Search_slices_witness:
  "SearchInts [1, 4, 6] 5 = Some 2 \<and> SearchStrings [[1], [2, 1], [3]] [2] = Some 1 \<and>
   SearchFloat64s [NaN, NegInf, Finite 2, Finite 7] (Finite 3) = Some 3"
proof -
  have "sorted_wrt ord_class.lexordp_eq [[1], [2, 1], [3 :: byte]]"
    by simp
  then show ?thesis
    using Search_slices [of "[1, 4, 6]" "[[1], [2, 1], [3]]" "[NaN, NegInf, Finite 2, Finite 7]" "Finite 3" 5 "[2]"]
    by (simp add: in_order_def Float64_Less_def)
qed

text \<open>
  The depth at which \<open>quickSort\<close> switches to heap sort is twice the number of bits of \<open>n\<close>
  (\<open>2*ceil(lg(n+1))\<close> in the comment).
\<close>

theorem maxDepth_bits: "maxDepth n = 2 * (LEAST k. n < 2 ^ k)"
proof -
  have "maxDepth_loop n d = d + (LEAST k. n < 2 ^ k)" for d
  proof (induction n d rule: maxDepth_loop.induct)
    case (1 i depth)
    show ?case
    proof (cases "i > 0")
      case True
      have "(LEAST k. i < 2 ^ k) = Suc (LEAST k. i < 2 ^ Suc k)"
        using True by (intro Least_Suc [where n = i]) (auto simp: less_exp)
      also have "(\<lambda>k. i < 2 ^ Suc k) = (\<lambda>k. i div 2 < 2 ^ k)"
        by (auto simp: fun_eq_iff less_mult_imp_div_less mult.commute div_less_iff_less_mult)
      finally show ?thesis using 1 [OF True] True by (subst maxDepth_loop.simps) simp
    next
      case False
      then show ?thesis by (subst maxDepth_loop.simps) (simp add: Least_equality)
    qed
  qed
  then show ?thesis by (simp add: maxDepth_def)
qed

end
