(* ===== verification/Rollsum.thy ===== *)
theory Rollsum
  imports Go4_Prelude
begin

text \<open>
  The rolling checksum (\<open>src/rollsum/rollsum.go\<close>). The sums are 32-bit words and wrap around;
  the window is the 64-byte ring buffer of the code. The main facts: both sums have a closed form
  over the last 64 bytes, so where a stream is split depends on nothing else.
\<close>

unbundle bit_operations_syntax

section \<open>Model\<close>

definition windowSize :: nat where "windowSize = 64"

definition charOffset :: "32 word" where "charOffset = 31"

definition blobBits :: nat where "blobBits = 13"

definition blobSize :: "32 word" where "blobSize = push_bit blobBits 1"

record RollSum =
  s1 :: "32 word"
  s2 :: "32 word"
  window :: bytes
  wofs :: nat

definition New :: RollSum where
  "New = \<lparr>s1 = of_nat windowSize * charOffset,
          s2 = of_nat windowSize * (of_nat windowSize - 1) * charOffset,
          window = replicate windowSize 0, wofs = 0\<rparr>"

definition rs_add :: "RollSum \<Rightarrow> 32 word \<Rightarrow> 32 word \<Rightarrow> RollSum" where
  "rs_add rs drp ad = (let s1' = s1 rs + ad - drp in
     rs\<lparr>s1 := s1', s2 := s2 rs + (s1' - of_nat windowSize * (drp + charOffset))\<rparr>)"

definition Roll :: "RollSum \<Rightarrow> byte \<Rightarrow> RollSum" where
  "Roll rs ch = (let wp = window rs ! wofs rs; rs = rs_add rs (ucast wp) (ucast ch) in
     rs\<lparr>window := (window rs)[wofs rs := ch], wofs := (wofs rs + 1) AND (windowSize - 1)\<rparr>)"

definition OnSplit :: "RollSum \<Rightarrow> bool" where
  "OnSplit rs \<longleftrightarrow> s2 rs AND (blobSize - 1) = NOT 0 AND (blobSize - 1)"

text \<open>A Go shift by 32 or more gives zero, as \<open>push_bit\<close> does on a 32-bit word.\<close>

definition OnSplitWithBits :: "RollSum \<Rightarrow> 32 word \<Rightarrow> bool" where
  "OnSplitWithBits rs n \<longleftrightarrow> (let mask = push_bit (unat n) 1 - 1 in s2 rs AND mask = NOT 0 AND mask)"

definition TrailingZeros32 :: "32 word \<Rightarrow> nat" where
  "TrailingZeros32 x = length (takeWhile (\<lambda>i. \<not> bit x i) [0..<32])"

definition Digest :: "RollSum \<Rightarrow> 32 word" where
  "Digest rs = push_bit 16 (s1 rs) OR (s2 rs AND 0xffff)"

definition Bits :: "RollSum \<Rightarrow> nat" where
  "Bits rs = (let rsum = drop_bit (blobBits + 1) (Digest rs) in blobBits + TrailingZeros32 (NOT rsum))"

section \<open>The sums over a window\<close>

definition sum1 :: "bytes \<Rightarrow> 32 word" where
  "sum1 ws = (\<Sum>w \<leftarrow> ws. ucast w + charOffset)"

text \<open>The oldest byte, first in the list, carries the largest weight.\<close>

primrec sum2 :: "bytes \<Rightarrow> 32 word" where
  "sum2 [] = 0"
| "sum2 (w # ws) = of_nat (Suc (length ws)) * (ucast w + charOffset) + sum2 ws"

lemma sum1_simps [simp]:
  "sum1 [] = 0" "sum1 (w # ws) = ucast w + charOffset + sum1 ws" "sum1 (us @ vs) = sum1 us + sum1 vs"
  by (simp_all add: sum1_def)

lemma sum2_snoc: "sum2 (ws @ [c]) = sum2 ws + sum1 (ws @ [c])"
  by (induction ws) (simp_all add: algebra_simps)

lemma sum_replicate_0:
  "sum1 (replicate n 0) = of_nat n * charOffset"
  "2 * sum2 (replicate n 0) = of_nat n * (of_nat n + 1) * charOffset"
  by (induction n) (simp_all add: algebra_simps)

text \<open>The bytes of the window, oldest first.\<close>

definition window_bytes :: "RollSum \<Rightarrow> bytes" where
  "window_bytes rs = drop (wofs rs) (window rs) @ take (wofs rs) (window rs)"

definition rs_inv :: "RollSum \<Rightarrow> bool" where
  "rs_inv rs \<longleftrightarrow> length (window rs) = windowSize \<and> wofs rs < windowSize \<and>
     s1 rs = sum1 (window_bytes rs) \<and> s2 rs = sum2 (window_bytes rs) + 1952 * charOffset"

lemma sum2_zeros_64: "sum2 (replicate 64 0) = 2080 * charOffset"
  by (simp add: numeral_eq_Suc charOffset_def) 

lemma New_inv: "rs_inv New" "window_bytes New = replicate windowSize 0"
  by (simp_all add: rs_inv_def New_def window_bytes_def windowSize_def sum_replicate_0 sum2_zeros_64 charOffset_def)

lemma length_window_bytes: "rs_inv rs \<Longrightarrow> length (window_bytes rs) = windowSize"
  by (simp add: rs_inv_def window_bytes_def)

lemma next_wofs: "(k + 1) AND (windowSize - 1) = (k + 1) mod windowSize"
proof -
  have "windowSize - 1 = mask 6" by (simp add: windowSize_def mask_eq_exp_minus_1)
  then have "(k + 1) AND (windowSize - 1) = take_bit 6 (k + 1)" by (simp only: take_bit_eq_mask)
  then show ?thesis by (simp add: take_bit_eq_mod windowSize_def)
qed

lemma ring_step:
  assumes "k < length ws"
  shows "drop ((k + 1) mod length ws) (ws[k := c]) @ take ((k + 1) mod length ws) (ws[k := c])
    = drop (k + 1) ws @ take k ws @ [c]"
proof (cases "k + 1 = length ws")
  case True
  with assms have "ws[k := c] = take k ws @ [c]" by (simp add: upd_conv_take_nth_drop)
  with True show ?thesis by simp
next
  case False
  with assms have "take (Suc k) (ws[k := c]) = take k ws @ [c]" "Suc k < length ws"
    by (simp_all add: take_Suc_conv_app_nth)
  then show ?thesis by simp
qed

lemma window_bytes_Roll:
  assumes "rs_inv rs"
  shows "window_bytes (Roll rs c) = tl (window_bytes rs) @ [c]"
    and "hd (window_bytes rs) = window rs ! wofs rs"
proof -
  let ?k = "wofs rs" and ?ws = "window rs"
  have k: "?k < length ?ws" "length ?ws = windowSize" using assms by (simp_all add: rs_inv_def)
  show "hd (window_bytes rs) = ?ws ! ?k"
    using k by (simp add: window_bytes_def hd_append hd_drop_conv_nth)
  have "window_bytes (Roll rs c) = drop (?k + 1) ?ws @ take ?k ?ws @ [c]"
    using k ring_step [OF k(1)] next_wofs [of ?k] by (simp add: window_bytes_def Roll_def rs_add_def Let_def)
  also have "\<dots> = tl (window_bytes rs) @ [c]"
    using k by (simp add: window_bytes_def tl_append2 tl_drop drop_Suc)
  finally show "window_bytes (Roll rs c) = tl (window_bytes rs) @ [c]" .
qed

lemma Roll_inv:
  assumes inv: "rs_inv rs"
  shows "rs_inv (Roll rs c)"
proof -
  let ?w = "window_bytes rs"
  obtain d ws where w: "?w = d # ws" and ws: "length ws = 63"
    using length_window_bytes [OF inv] by (cases ?w) (auto simp: windowSize_def)
  have d: "window rs ! wofs rs = d" and w': "window_bytes (Roll rs c) = ws @ [c]"
    using window_bytes_Roll [OF inv] by (simp_all add: w)
  have old: "s1 rs = sum1 (d # ws)" "s2 rs = sum2 (d # ws) + 1952 * charOffset"
    using inv by (simp_all add: rs_inv_def w)
  have "s1 (Roll rs c) = sum1 (ws @ [c])" "s2 (Roll rs c) = sum2 (ws @ [c]) + 1952 * charOffset"
    using old ws d unfolding sum2_snoc
    by (simp_all add: Roll_def rs_add_def Let_def windowSize_def algebra_simps)
  moreover have "(wofs rs + 1) AND (windowSize - 1) < windowSize"
    using inv next_wofs [of "wofs rs"] by (simp add: rs_inv_def windowSize_def)
  ultimately show ?thesis
    using inv unfolding rs_inv_def w' by (simp add: Roll_def rs_add_def Let_def)
qed

lemma drop_Suc_snoc: "n < length xs \<Longrightarrow> drop (Suc n) (xs @ [c]) = tl (drop n xs) @ [c]"
  by (simp add: drop_Suc tl_drop)

lemma foldl_Roll:
  "rs_inv (foldl Roll New bs)"
  "window_bytes (foldl Roll New bs) = drop (length bs) (replicate windowSize 0 @ bs)"
proof (induction bs rule: rev_induct)
  case (snoc c bs)
  {
    case 1
    show ?case using snoc(1) by (simp add: Roll_inv)
  next
    case 2
    have "drop (Suc (length bs)) (replicate windowSize 0 @ bs @ [c]) =
        tl (drop (length bs) (replicate windowSize 0 @ bs)) @ [c]"
      using drop_Suc_snoc [of "length bs" "replicate windowSize 0 @ bs" c] by (simp add: windowSize_def)
    then show ?case using snoc by (simp add: window_bytes_Roll(1))
  }
qed (simp_all add: New_inv)

section \<open>Properties\<close>

lemma rs_eq_window:
  assumes "rs_inv rs" "rs_inv rs'" "window_bytes rs = window_bytes rs'"
  shows "s1 rs = s1 rs'" "s2 rs = s2 rs'"
  using assms by (simp_all add: rs_inv_def)

text \<open>
  C15: after any bytes, the checksum has a closed form over the last 64 of them (missing ones count
  as zero): \<open>s1\<close> is the sum of the bytes with their offset and \<open>s2\<close> the sum weighted 64 for the
  oldest down to 1 for the newest, plus a constant, both modulo \<open>2^32\<close>.
\<close>

theorem rollsum_closed_form:
  "let rs = foldl Roll New bs; ws = drop (length bs) (replicate windowSize 0 @ bs) in
     s1 rs = (\<Sum>w \<leftarrow> ws. ucast w + 31) \<and>
     s2 rs = (\<Sum>k \<leftarrow> [0..<64]. of_nat (64 - k) * (ucast (ws ! k) + 31)) + 1952 * 31"
proof -
  let ?rs = "foldl Roll New bs" and ?ws = "drop (length bs) (replicate windowSize 0 @ bs)"
  have sum2_nth: "sum2 ws = (\<Sum>k \<leftarrow> [0..<length ws]. of_nat (length ws - k) * (ucast (ws ! k) + 31))" for ws
  proof (induction ws)
    case (Cons w ws)
    have "[0..<length (w # ws)] = 0 # map Suc [0..<length ws]"
      by (simp add: map_Suc_upt upt_conv_Cons del: upt_Suc)
    with Cons show ?case by (simp add: charOffset_def comp_def del: upt_Suc)
  qed simp
  have "length ?ws = 64" by (simp add: windowSize_def)
  then show ?thesis
    using foldl_Roll [of bs] sum2_nth [of ?ws]
    by (simp only: rs_inv_def Let_def sum1_def charOffset_def simp_thms)
qed

text \<open>
  Two streams that end in the same 64 bytes have the same digest and split in the same places,
  whatever came before: the property that makes the splitting content-defined.
\<close>

theorem rollsum_depends_on_window:
  assumes "windowSize \<le> length ws"
  shows "let r = foldl Roll New (us @ ws); r' = foldl Roll New (vs @ ws) in
    Digest r = Digest r' \<and> OnSplit r = OnSplit r' \<and> OnSplitWithBits r n = OnSplitWithBits r' n \<and> Bits r = Bits r'"
proof -
  have "window_bytes (foldl Roll New (xs @ ws)) = drop (length ws - windowSize) ws" for xs
    using assms by (simp add: foldl_Roll(2) del: foldl_append)
  then have "s1 (foldl Roll New (us @ ws)) = s1 (foldl Roll New (vs @ ws))"
    "s2 (foldl Roll New (us @ ws)) = s2 (foldl Roll New (vs @ ws))"
    using foldl_Roll(1) by (metis rs_eq_window)+
  then show ?thesis
    by (simp add: Let_def Digest_def OnSplit_def OnSplitWithBits_def Bits_def)
qed

theorem rollsum_depends_on_window_witness:
  "let r = foldl Roll New ([1, 2, 3] @ replicate 64 7); r' = foldl Roll New ([] @ replicate 64 7) in
    Digest r = Digest r' \<and> OnSplit r = OnSplit r' \<and> OnSplitWithBits r 5 = OnSplitWithBits r' 5 \<and> Bits r = Bits r'"
  by (rule rollsum_depends_on_window) (simp add: windowSize_def)

lemma mask_all_ones: "x AND mask n = NOT 0 AND mask n \<longleftrightarrow> (\<forall>i < n. i < 32 \<longrightarrow> bit x i)"
  for x :: "32 word"
  by (auto simp: bit_eq_iff bit_simps)

text \<open>
  \<open>OnSplitWithBits n\<close> holds when the low \<open>n\<close> bits of \<open>s2\<close> are all ones (all 32 of them when
  \<open>n\<close> exceeds the width), and \<open>OnSplit\<close> is the case \<open>n = 13\<close>. Bits that are all zeros, also \<open>set the
  same way\<close>, do not count.
\<close>

theorem OnSplit_all_ones:
  "(OnSplitWithBits rs n \<longleftrightarrow> (\<forall>i < unat n. i < 32 \<longrightarrow> bit (s2 rs) i)) \<and>
   (OnSplit rs \<longleftrightarrow> OnSplitWithBits rs 13)"
proof -
  have "OnSplitWithBits rs n \<longleftrightarrow> s2 rs AND mask (unat n) = NOT 0 AND mask (unat n)" for n
    by (simp add: OnSplitWithBits_def Let_def mask_eq_exp_minus_1 push_bit_eq_mult)
  moreover have "OnSplit rs \<longleftrightarrow> s2 rs AND mask 13 = NOT 0 AND mask 13"
    by (simp add: OnSplit_def blobSize_def blobBits_def mask_eq_exp_minus_1 push_bit_eq_mult)
  ultimately show ?thesis by (simp only: mask_all_ones) simp
qed

theorem OnSplit_all_ones_witness:
  "(OnSplitWithBits New 1 \<longleftrightarrow> (\<forall>i < unat (1 :: 32 word). i < 32 \<longrightarrow> bit (s2 New) i)) \<and>
   (OnSplit New \<longleftrightarrow> OnSplitWithBits New 13)"
  by (rule OnSplit_all_ones)

text \<open>
  \<open>Bits\<close> is 13 plus the number of consecutive ones of the digest from bit 14 on; it lies
  between 13 and 31.
\<close>

theorem Bits_counts_ones:
  "\<exists>k \<le> 18. Bits rs = 13 + k \<and> (\<forall>i < k. bit (Digest rs) (14 + i)) \<and> \<not> bit (drop_bit 14 (Digest rs)) k"
proof -
  define x where "x = NOT (drop_bit 14 (Digest rs))"
  define k where "k = TrailingZeros32 x"
  have top: "bit x 18" "bit x i \<longleftrightarrow> i < 32 \<and> \<not> bit (Digest rs) (14 + i)" for i
    by (auto simp: x_def bit_simps dest: bit_imp_le_length)
  have k_len: "k = length (takeWhile (\<lambda>i. \<not> bit x i) [0..<32])"
    by (simp add: k_def TrailingZeros32_def)
  have below: "\<not> bit x i" if "i < k" for i
  proof -
    have "[0..<32] ! i = i" "i < 32"
      using that length_takeWhile_le [of "\<lambda>i. \<not> bit x i" "[0..<32]"] by (simp_all add: k_len)
    then show ?thesis
      using that takeWhile_nth [of i "\<lambda>i. \<not> bit x i" "[0..<32]"] set_takeWhileD nth_mem unfolding k_len by metis
  qed
  then have k18: "k \<le> 18" using top(1) by (metis not_le)
  then have "bit x k"
    using nth_length_takeWhile [of "\<lambda>i. \<not> bit x i" "[0..<32]"] by (simp flip: k_len)
  then have "\<not> bit (drop_bit 14 (Digest rs)) k"
    by (simp add: x_def bit_simps)
  moreover have "bit (Digest rs) (14 + i)" if "i < k" for i
    using below [OF that] top(2) [of i] that k18 by simp
  ultimately show ?thesis
    using k18 by (auto simp: Bits_def k_def x_def blobBits_def Let_def)
qed

theorem Bits_counts_ones_witness:
  "\<exists>k \<le> 18. Bits New = 13 + k \<and> (\<forall>i < k. bit (Digest New) (14 + i)) \<and> \<not> bit (drop_bit 14 (Digest New)) k"
  by (rule Bits_counts_ones)

end
