(* ===== verification/Writerutil.thy ===== *)
theory Writerutil
  imports Go4_Prelude
begin

text \<open>
  \<open>PrefixSuffixSaver\<close> (\<open>src/writerutil/writerutil.go\<close>): a writer that keeps the first and the
  last \<open>N\<close> bytes written to it, the latter in a ring buffer.

  Lengths are naturals: \<open>N\<close> is the size limit a caller sets, and \<open>skipped\<close>, an \<open>int64\<close> in the code,
  cannot reach its bound by counting bytes. A slice that was never appended to is \<open>nil\<close> in Go; no
  statement makes one empty again, so \<open>suffix == nil\<close> is \<open>suffix = []\<close>.
\<close>

section \<open>Model\<close>

record PrefixSuffixSaver =
  N :: nat
  prefix :: bytes
  suffix :: bytes
  suffixOff :: nat
  skipped :: nat

definition minInt :: "nat \<Rightarrow> nat \<Rightarrow> nat" where
  "minInt a b = (if a < b then a else b)"

text \<open>\<open>fill\<close> returns the new value of the slice it appends to and the bytes that did not fit.\<close>

definition fill :: "PrefixSuffixSaver \<Rightarrow> bytes \<Rightarrow> bytes \<Rightarrow> bytes \<times> bytes" where
  "fill w dst p =
     (if N w > length dst then
        (let remain = N w - length dst; ad = minInt (length p) remain in
         (dst @ take ad p, drop ad p))
      else (dst, p))"

text \<open>
  The circular overwriting. Nothing in the loop itself makes it end (it does not when the buffer is
  full up to \<open>suffixOff\<close>), so this is a partial function.
\<close>

partial_function (option) overwrite_ring :: "PrefixSuffixSaver \<Rightarrow> bytes \<Rightarrow> PrefixSuffixSaver option" where
  "overwrite_ring w p =
     (if length p > 0 then
        (let off = suffixOff w; n = minInt (length (suffix w) - off) (length p) in
         overwrite_ring
           (w\<lparr>suffix := take off (suffix w) @ take n p @ drop (off + n) (suffix w),
              skipped := skipped w + n,
              suffixOff := (if off + n = N w then 0 else off + n)\<rparr>)
           (drop n p))
      else Some w)"

definition Write :: "PrefixSuffixSaver \<Rightarrow> bytes \<Rightarrow> (nat \<times> PrefixSuffixSaver) option" where
  "Write w p =
     (let lenp = length p;
          (pre, p) = fill w (prefix w) p;
          w = w\<lparr>prefix := pre\<rparr>;
          overage = length p - N w;
          (p, w) = (if overage > 0 then (drop overage p, w\<lparr>skipped := skipped w + overage\<rparr>) else (p, w));
          (suf, p) = fill w (suffix w) p;
          w = w\<lparr>suffix := suf\<rparr>
      in do {
        w \<leftarrow> overwrite_ring w p;
        Some (lenp, w)
      })"

definition Bytes :: "PrefixSuffixSaver \<Rightarrow> bytes" where
  "Bytes w =
     (if suffix w = [] then prefix w
      else if skipped w = 0 then prefix w @ suffix w
      else prefix w @ [10] @ ascii ''... omitting '' @ decimal (skipped w) @ ascii '' bytes ...'' @ [10] @
           drop (suffixOff w) (suffix w) @ take (suffixOff w) (suffix w))"

text \<open>A sequence of writes; the zero value of the struct with its limit set.\<close>

primrec Writes :: "PrefixSuffixSaver \<Rightarrow> bytes list \<Rightarrow> PrefixSuffixSaver option" where
  "Writes w [] = Some w"
| "Writes w (p # ps) = do { (n, w) \<leftarrow> Write w p; Writes w ps }"

definition saver :: "nat \<Rightarrow> PrefixSuffixSaver" where
  "saver n = \<lparr>N = n, prefix = [], suffix = [], suffixOff = 0, skipped = 0\<rparr>"

section \<open>The ring buffer\<close>

definition ring :: "PrefixSuffixSaver \<Rightarrow> bytes" where
  "ring w = drop (suffixOff w) (suffix w) @ take (suffixOff w) (suffix w)"

definition ring_ok :: "PrefixSuffixSaver \<Rightarrow> bool" where
  "ring_ok w \<longleftrightarrow> length (suffix w) \<le> N w \<and> (suffixOff w = 0 \<or> length (suffix w) = N w \<and> suffixOff w < N w)"

lemma length_ring [simp]: "length (ring w) = length (suffix w)"
  by (simp add: ring_def)

lemma overwrite_step:
  assumes "off < length s" "n \<le> length s - off" "n \<le> length p"
  defines "s' \<equiv> take off s @ take n p @ drop (off + n) s"
    and "off' \<equiv> (if off + n = length s then 0 else off + n)"
  shows "length s' = length s" "off' < length s"
    "drop off' s' @ take off' s' = suffix_of (length s) ((drop off s @ take off s) @ take n p)"
proof -
  show "length s' = length s" "off' < length s"
    using assms by (auto simp: s'_def off'_def)
  have "suffix_of (length s) ((drop off s @ take off s) @ take n p) = drop n ((drop off s @ take off s) @ take n p)"
    using assms(1-3) by (simp add: suffix_of_def)
  also have "\<dots> = drop (off + n) s @ take off s @ take n p"
    using assms(1-3) by (simp add: add.commute)
  also have "\<dots> = drop off' s' @ take off' s'"
    using assms(1-3) by (auto simp: s'_def off'_def)
  finally show "drop off' s' @ take off' s' = suffix_of (length s) ((drop off s @ take off s) @ take n p)" by simp
qed

lemma overwrite_ring_correct:
  assumes "length (suffix w) = N w" "suffixOff w < N w \<or> p = []" "ring_ok w"
  shows "\<exists>w'. overwrite_ring w p = Some w' \<and> ring_ok w' \<and> ring w' = suffix_of (N w) (ring w @ p) \<and>
    skipped w' = skipped w + length p \<and> prefix w' = prefix w \<and> N w' = N w \<and> length (suffix w') = N w"
  using assms
proof (induction "length p" arbitrary: w p rule: less_induct)
  case less
  show ?case
  proof (cases "p = []")
    case True
    then show ?thesis using less.prems by (subst overwrite_ring.simps) (simp add: suffix_of_all)
  next
    case False
    let ?off = "suffixOff w" and ?s = "suffix w"
    define n where "n = minInt (length ?s - ?off) (length p)"
    define w1 where "w1 = w\<lparr>suffix := take ?off ?s @ take n p @ drop (?off + n) ?s, skipped := skipped w + n,
      suffixOff := (if ?off + n = N w then 0 else ?off + n)\<rparr>"
    have n: "n \<le> length ?s - ?off" "n \<le> length p" "0 < n" and off: "?off < length ?s"
      using False less.prems by (auto simp: n_def minInt_def)
    note step = overwrite_step [OF off n(1,2)]
    have w1: "length (suffix w1) = N w1" "suffixOff w1 < N w1" "N w1 = N w" "prefix w1 = prefix w"
      "skipped w1 = skipped w + n" "ring w1 = suffix_of (N w) (ring w @ take n p)"
      using less.prems(1) step by (simp_all add: w1_def ring_def)
    have "\<exists>w'. overwrite_ring w1 (drop n p) = Some w' \<and> ring_ok w' \<and>
      ring w' = suffix_of (N w1) (ring w1 @ drop n p) \<and> skipped w' = skipped w1 + length (drop n p) \<and>
      prefix w' = prefix w1 \<and> N w' = N w1 \<and> length (suffix w') = N w1"
      using n w1 False by (intro less.hyps) (auto simp: ring_ok_def)
    moreover have "overwrite_ring w p = overwrite_ring w1 (drop n p)"
      using False by (subst overwrite_ring.simps) (simp add: Let_def w1_def flip: n_def)
    ultimately show ?thesis
      using n(2) by (auto simp: w1 suffix_of_suffix_append)
  qed
qed

text \<open>\<open>saved w data\<close>: \<open>w\<close> is the state after \<open>data\<close> was written.\<close>

definition saved :: "PrefixSuffixSaver \<Rightarrow> bytes \<Rightarrow> bool" where
  "saved w data \<longleftrightarrow> ring_ok w \<and> prefix w = take (N w) data \<and> ring w = suffix_of (N w) (drop (N w) data) \<and>
     skipped w = length data - 2 * N w \<and> (skipped w = 0 \<longrightarrow> suffixOff w = 0)"

lemma fill_fst_snd:
  "fst (fill w dst p) = dst @ take (N w - length dst) p" "snd (fill w dst p) = drop (N w - length dst) p"
  by (auto simp: fill_def minInt_def Let_def)

lemma suffix_of_trim: "suffix_of n (xs @ drop (length ys - n) ys) = suffix_of n (xs @ ys)"
  by (cases "length ys \<le> n") (simp_all add: suffix_of_def)

lemma overwrite_ring_fill:
  assumes "ring_ok w" "length p \<le> N w"
  defines "w1 \<equiv> w\<lparr>suffix := fst (fill w (suffix w) p)\<rparr>"
  shows "\<exists>w'. overwrite_ring w1 (snd (fill w (suffix w) p)) = Some w' \<and> ring_ok w' \<and>
    ring w' = suffix_of (N w) (ring w @ p) \<and> prefix w' = prefix w \<and> N w' = N w \<and>
    skipped w' = skipped w + (length (suffix w) + length p - N w) \<and>
    (length (suffix w) + length p \<le> N w \<longrightarrow> suffixOff w' = suffixOff w)"
proof (cases "length (suffix w) + length p \<le> N w")
  case True
  then have "snd (fill w (suffix w) p) = []" "w1 = w\<lparr>suffix := suffix w @ p\<rparr>"
    by (simp_all add: fill_fst_snd w1_def)
  moreover have "suffixOff w = 0 \<or> p = []" using assms(1) True by (auto simp: ring_ok_def)
  ultimately show ?thesis
    using True assms(1) by (subst overwrite_ring.simps) (auto simp: ring_ok_def ring_def suffix_of_all)
next
  case False
  let ?r = "N w - length (suffix w)"
  have full: "length (suffix w1) = N w1" and N1: "N w1 = N w" "prefix w1 = prefix w" "skipped w1 = skipped w"
    and off: "suffixOff w1 < N w1" and ring1: "ring w1 = ring w @ take ?r p"
    using False assms(1,2) by (auto simp: w1_def fill_fst_snd ring_ok_def ring_def)
  have "\<exists>w'. overwrite_ring w1 (drop ?r p) = Some w' \<and> ring_ok w' \<and> ring w' = suffix_of (N w1) (ring w1 @ drop ?r p) \<and>
    skipped w' = skipped w1 + length (drop ?r p) \<and> prefix w' = prefix w1 \<and> N w' = N w1 \<and> length (suffix w') = N w1"
    using full off by (intro overwrite_ring_correct) (auto simp: ring_ok_def)
  moreover have "length p - ?r = length (suffix w) + length p - N w"
    using assms(1) by (auto simp: ring_ok_def)
  ultimately show ?thesis using False by (auto simp: N1 ring1 fill_fst_snd)
qed

lemma Write_saved:
  assumes "saved w data"
  shows "\<exists>w'. Write w p = Some (length p, w') \<and> N w' = N w \<and> saved w' (data @ p)"
proof -
  let ?n = "N w"
  define p1 where "p1 = drop (?n - length data) p"
  define p2 where "p2 = drop (length p1 - ?n) p1"
  define w1 where "w1 = w\<lparr>prefix := take ?n (data @ p), skipped := skipped w + (length p1 - ?n)\<rparr>"
  have ok: "ring_ok w" and pre: "prefix w = take ?n data"
    and rng: "ring w = suffix_of ?n (drop ?n data)" and skp: "skipped w = length data - 2 * ?n"
    and off: "skipped w = 0 \<longrightarrow> suffixOff w1 = 0"
    using assms by (simp_all add: saved_def w1_def)
  have len: "length (suffix w) = min ?n (length data - ?n)"
    using rng length_ring [of w] by simp
  have w1: "ring_ok w1" "ring w1 = ring w" "N w1 = ?n" "suffix w1 = suffix w"
    using ok by (simp_all add: w1_def ring_ok_def ring_def)
  have "\<exists>w'. overwrite_ring (w1\<lparr>suffix := fst (fill w1 (suffix w1) p2)\<rparr>) (snd (fill w1 (suffix w1) p2)) = Some w' \<and>
     ring_ok w' \<and> ring w' = suffix_of ?n (ring w @ p2) \<and> prefix w' = prefix w1 \<and> N w' = ?n \<and>
     skipped w' = skipped w1 + (length (suffix w) + length p2 - ?n) \<and>
     (length (suffix w) + length p2 \<le> ?n \<longrightarrow> suffixOff w' = suffixOff w1)"
    using overwrite_ring_fill [of w1 p2] w1 by (simp add: p2_def)
  moreover have "Write w p = do { w' \<leftarrow> overwrite_ring (w1\<lparr>suffix := fst (fill w1 (suffix w1) p2)\<rparr>)
      (snd (fill w1 (suffix w1) p2)); Some (length p, w') }"
  proof -
    have "w\<lparr>prefix := fst (fill w (prefix w) p)\<rparr> = w\<lparr>prefix := take ?n (data @ p)\<rparr>"
      "snd (fill w (prefix w) p) = p1"
      using pre by (auto simp: fill_fst_snd p1_def min_def)
    then show ?thesis
      by (simp add: Write_def Let_def case_prod_unfold p2_def w1_def)
  qed
  moreover have "suffix_of ?n (ring w @ p2) = suffix_of ?n (drop ?n (data @ p))"
    unfolding p2_def suffix_of_trim rng by (simp add: suffix_of_suffix_append p1_def)
  moreover have "skipped w1 + (length (suffix w) + length p2 - ?n) = length (data @ p) - 2 * ?n"
  proof -
    have "length p1 = length p - (?n - length data)" "length p2 = min ?n (length p1)"
      by (simp_all add: p1_def p2_def)
    then show ?thesis
      unfolding w1_def using skp len by (simp add: min_def del: length_drop split: if_splits) linarith+
  qed
  moreover have "skipped w = 0" if "skipped w1 + (length (suffix w) + length p2 - ?n) = 0"
    using that by (simp add: w1_def)
  moreover have "prefix w1 = take ?n (data @ p)" by (simp add: w1_def)
  ultimately show ?thesis
    using off by (auto simp: saved_def)
qed

lemma Writes_saved:
  "saved w data \<Longrightarrow> \<exists>w'. Writes w ps = Some w' \<and> N w' = N w \<and> saved w' (data @ concat ps)"
proof (induction ps arbitrary: w data)
  case (Cons p ps)
  from Write_saved [OF Cons.prems, of p] obtain w1
    where "Write w p = Some (length p, w1)" "N w1 = N w" "saved w1 (data @ p)" by blast
  with Cons.IH [of w1 "data @ p"] show ?case by auto
qed simp

lemma saver_saved: "saved (saver n) []"
  by (simp add: saved_def saver_def ring_ok_def ring_def suffix_of_def)

section \<open>Properties\<close>

text \<open>
  C24: every \<open>Write\<close> returns (the ring loop ends) and reports all its bytes; afterwards the saver
  holds the first \<open>N\<close> bytes of everything written, the last \<open>N\<close> bytes of what follows them and the
  number of bytes dropped in between, whatever the sizes of the individual writes.
\<close>

theorem Write_keeps_ends:
  "\<exists>w w'. Writes (saver n) ps = Some w \<and> Write w p = Some (length p, w') \<and>
     (let data = concat ps @ p in
      prefix w' = take n data \<and>
      drop (suffixOff w') (suffix w') @ take (suffixOff w') (suffix w') = suffix_of n (drop n data) \<and>
      skipped w' = length data - 2 * n)"
proof -
  obtain w where w: "Writes (saver n) ps = Some w" "N w = n" "saved w (concat ps)"
    using Writes_saved [OF saver_saved, of n ps] by (auto simp: saver_def)
  from Write_saved [OF w(3), of p] w show ?thesis by (auto simp: saved_def ring_def Let_def)
qed

text \<open>
  With a positive limit, \<open>Bytes\<close> gives back everything written if at most \<open>2*N\<close> bytes were,
  and otherwise the first \<open>N\<close>, the message with the number of bytes left out, and the last \<open>N\<close>.
\<close>

theorem Bytes_of_writes:
  assumes "0 < n"
  shows "map_option Bytes (Writes (saver n) ps) =
    (let data = concat ps in
     Some (if length data \<le> 2 * n then data
           else take n data @ [10] @ ascii ''... omitting '' @ decimal (length data - 2 * n) @
                ascii '' bytes ...'' @ [10] @ suffix_of n data))"
proof -
  obtain w where w: "Writes (saver n) ps = Some w" "N w = n" "saved w (concat ps)"
    using Writes_saved [OF saver_saved, of n ps] by (auto simp: saver_def)
  let ?data = "concat ps"
  have ring: "ring w = suffix_of n (drop n ?data)" "prefix w = take n ?data" "skipped w = length ?data - 2 * n"
    using w(2,3) by (simp_all add: saved_def)
  have len: "length (suffix w) = min n (length ?data - n)"
    using ring(1) length_ring [of w] by simp
  show ?thesis
  proof (cases "length ?data \<le> 2 * n")
    case True
    then have "suffix_of n (drop n ?data) = drop n ?data" by (simp add: suffix_of_all)
    moreover have "suffixOff w = 0" using w(2,3) True by (simp add: saved_def)
    then have "ring w = suffix w" by (simp add: ring_def)
    ultimately show ?thesis
      using True ring len w(1) append_take_drop_id [of n ?data] by (auto simp: Bytes_def Let_def)
  next
    case False
    then have "suffix_of n (drop n ?data) = suffix_of n ?data" by (simp add: suffix_of_def)
    with False assms ring len w(1) show ?thesis
      by (auto simp: Bytes_def Let_def ring_def)
  qed
qed

theorem Bytes_of_writes_witness:
  "map_option Bytes (Writes (saver 2) [[1, 2, 3], [4], [5, 6, 7]]) =
     Some ([1, 2, 10] @ ascii ''... omitting '' @ [51] @ ascii '' bytes ...'' @ [10, 6, 7])"
  using Bytes_of_writes [of 2 "[[1, 2, 3], [4], [5, 6, 7]]"]
  by (simp add: decimal.simps suffix_of_def Let_def)

end
