(* ===== verification/Go_IO.thy ===== *)
theory Go_IO
  imports Go4_Prelude
begin

text \<open>
  What the packages use of Go's \<open>io\<close>: its errors, and input streams. A \<open>stream\<close> is the bytes still to
  come and the error reported after them; how a reader cuts them into single reads is not visible
  through \<open>io.ReadFull\<close>.
\<close>

datatype io_error = EOF | ErrUnexpectedEOF | IOError string

record stream =
  pending :: bytes
  after :: io_error

definition ReadFull :: "stream \<Rightarrow> nat \<Rightarrow> bytes \<times> io_error option \<times> stream" where
  "ReadFull s n =
     (if n \<le> length (pending s) then (take n (pending s), None, s\<lparr>pending := drop n (pending s)\<rparr>)
      else (pending s,
            Some (if after s = EOF \<and> pending s \<noteq> [] then ErrUnexpectedEOF else after s),
            s\<lparr>pending := []\<rparr>))"

lemma ReadFull_bytes [simp]: "fst (ReadFull s n) = take n (pending s)"
  by (simp add: ReadFull_def)

lemma ReadFull_rest: "snd (snd (ReadFull s n)) = s\<lparr>pending := drop n (pending s)\<rparr>"
  by (simp add: ReadFull_def)

lemma ReadFull_error: "fst (snd (ReadFull s n)) = None \<longleftrightarrow> n \<le> length (pending s)"
  by (simp add: ReadFull_def)

text \<open>
  \<open>ReadAt\<close> of the library's \<open>bytes.Reader\<close>, which is also how a file answers: a read at or past the
  end is \<open>EOF\<close>, and so is one that meets it.
\<close>

definition bytes_ReadAt :: "bytes \<Rightarrow> nat \<Rightarrow> int \<Rightarrow> bytes \<times> io_error option" where
  "bytes_ReadAt s n off =
     (if off < 0 then ([], Some (IOError ''bytes.Reader.ReadAt: negative offset''))
      else if off \<ge> int (length s) then ([], Some EOF)
      else (let b = take n (drop (nat off) s) in (b, if length b < n then Some EOF else None)))"

lemma bytes_ReadAt_inside:
  "off < length s \<Longrightarrow> off + n \<le> length s \<Longrightarrow> bytes_ReadAt s n (int off) = (take n (drop off s), None)"
  by (simp add: bytes_ReadAt_def Let_def)

end
