(* ===== verification/Readerutil.thy ===== *)
theory Readerutil
  imports Go_IO Sort_Search
begin

text \<open>
  The package \<open>readerutil\<close>: \<open>multiRA\<close> (a \<open>ReaderAt\<close> over several parts), \<open>bufReaderAt\<close>, \<open>fakeSeeker\<close>,
  \<open>Size\<close> and the counting readers. Offsets and sizes are \<open>int64\<close> in the code and integers here: they
  count bytes of real inputs, far from the bound. \<open>None\<close> is a panic or a loop that does not end.
\<close>

section \<open>MultiReaderAt\<close>

record SizeReaderAt =
  Size :: int
  ReadAt :: "nat \<Rightarrow> int \<Rightarrow> (bytes \<times> io_error option) option"

record offsetAndSource =
  part_off :: int
  source :: SizeReaderAt

record multiRA =
  parts :: "offsetAndSource list"
  multi_size :: int

text \<open>The loop of \<open>NewMultiReaderAt\<close>, which keeps the running offset.\<close>

primrec offsets_from :: "int \<Rightarrow> SizeReaderAt list \<Rightarrow> offsetAndSource list \<times> int" where
  "offsets_from off [] = ([], off)"
| "offsets_from off (p # ps) =
     (let (os, total) = offsets_from (off + Size p) ps in (\<lparr>part_off = off, source = p\<rparr> # os, total))"

definition NewMultiReaderAt :: "SizeReaderAt list \<Rightarrow> multiRA" where
  "NewMultiReaderAt ps = (let (os, total) = offsets_from 0 ps in \<lparr>parts = os, multi_size = total\<rparr>)"

text \<open>
  The loop of \<open>ReadAt\<close>: \<open>plen\<close> is the length of the buffer still to fill, \<open>acc\<close> the bytes already in
  place. \<open>readP[:partSize-needSkip]\<close> and \<open>p[pn:]\<close> panic out of range.
\<close>

partial_function (option) multi_loop ::
  "offsetAndSource list \<Rightarrow> nat \<Rightarrow> int \<Rightarrow> bytes \<Rightarrow> (bytes \<times> io_error option) option" where
  "multi_loop ps plen needSkip acc =
     (if length ps > 0 \<and> plen > 0 then
        (let partSize = Size (source (hd ps)) in do {
           readLen \<leftarrow> (if int plen > partSize - needSkip then
                        (if partSize - needSkip < 0 then None else Some (nat (partSize - needSkip)))
                      else Some plen);
           (bs, err0) \<leftarrow> ReadAt (source (hd ps)) readLen needSkip;
           (if err0 \<noteq> None then Some (acc, err0)
            else if length bs > plen then None
            else multi_loop (if int (length bs) + needSkip = partSize then tl ps else ps)
                   (plen - length bs) 0 (acc @ bs))
         })
      else Some (acc, None))"

definition multi_ReadAt :: "multiRA \<Rightarrow> nat \<Rightarrow> int \<Rightarrow> (bytes \<times> io_error option) option" where
  "multi_ReadAt m wantN off = do {
     skipParts \<leftarrow> Search (length (parts m)) (\<lambda>i. do {
       part \<leftarrow> index (parts m) i;
       Some (part_off part + Size (source part) > off)
     });
     let ps = drop skipParts (parts m);
     let needSkip = (if length ps > 0 then off - part_off (hd ps) else off);
     (acc, err) \<leftarrow> multi_loop ps wantN needSkip [];
     Some (acc, if err \<noteq> None then err else if length acc \<noteq> wantN then Some ErrUnexpectedEOF else None)
   }"

definition multi_reader :: "multiRA \<Rightarrow> SizeReaderAt" where
  "multi_reader m = \<lparr>Size = multi_size m, ReadAt = multi_ReadAt m\<rparr>"

definition ZeroSizeReaderAt :: "int \<Rightarrow> SizeReaderAt" where
  "ZeroSizeReaderAt n = \<lparr>Size = n, ReadAt = (\<lambda>plen off. Some (replicate plen 0, None))\<rparr>"

text \<open>The library's \<open>bytes.Reader\<close> as a part; it answers \<open>EOF\<close> past the end even when no byte is asked for.\<close>

definition bytes_Reader :: "bytes \<Rightarrow> SizeReaderAt" where
  "bytes_Reader s = \<lparr>Size = int (length s), ReadAt = (\<lambda>n off. Some (bytes_ReadAt s n off))\<rparr>"

text \<open>
  The contract of a part: inside its data it reads what was asked for without an error. (A reader
  may report \<open>EOF\<close> together with the last bytes; such a reader is outside this contract and
  \<open>multi_loop\<close> would drop those bytes.)
\<close>

locale size_reader_at =
  fixes r :: SizeReaderAt and data :: bytes
  assumes Size_data: "Size r = int (length data)"
    and ReadAt_inside:
      "off < length data \<Longrightarrow> off + n \<le> length data \<Longrightarrow> ReadAt r n (int off) = Some (take n (drop off data), None)"

interpretation bytes_part: size_reader_at "bytes_Reader s" s for s
  by unfold_locales (simp_all add: bytes_Reader_def bytes_ReadAt_inside)

interpretation zeros_part: size_reader_at "ZeroSizeReaderAt (int n)" "replicate n 0" for n
  by unfold_locales (simp_all add: ZeroSizeReaderAt_def min_def)

definition nonempty_part :: "SizeReaderAt \<Rightarrow> bytes \<Rightarrow> bool" where
  "nonempty_part r data \<longleftrightarrow> size_reader_at r data \<and> data \<noteq> []"

lemma multi_loop_correct:
  assumes "list_all2 nonempty_part (map source ps) ds" "ps = [] \<or> k < length (hd ds)"
  shows "multi_loop ps plen (int k) acc = Some (acc @ take plen (drop k (concat ds)), None)"
  using assms
proof (induction ps arbitrary: ds k plen acc)
  case Nil
  then show ?case by (subst multi_loop.simps) simp
next
  case (Cons p ps)
  then obtain d ds' where ds: "ds = d # ds'" and d: "nonempty_part (source p) d"
    and ds': "list_all2 nonempty_part (map source ps) ds'" by (auto simp: list_all2_Cons1)
  have k: "k < length d" using Cons.prems(2) ds by simp
  have size: "Size (source p) = int (length d)"
    and inside: "\<And>n. k + n \<le> length d \<Longrightarrow> ReadAt (source p) n (int k) = Some (take n (drop k d), None)"
    using d k by (auto simp: nonempty_part_def size_reader_at_def)
  show ?case
  proof (cases "plen < length d - k")
    case True
    then have "\<not> int plen > int (length d) - int k" "plen + k \<noteq> length d" by linarith+
    with True show ?thesis
      using k by (cases "plen = 0"; subst multi_loop.simps)
        (simp_all add: size inside Let_def ds multi_loop.simps [of _ 0])
  next
    case False
    have "ps = [] \<or> 0 < length (hd ds')"
      using ds' by (cases ps) (auto simp: list_all2_Cons1 nonempty_part_def)
    then have IH: "multi_loop ps (plen - (length d - k)) (int 0) (acc @ drop k d) =
        Some ((acc @ drop k d) @ take (plen - (length d - k)) (drop 0 (concat ds')), None)"
      using ds' by (intro Cons.IH)
    have "plen > 0" using False k by linarith
    moreover have "(if int plen > int (length d) - int k then
        (if int (length d) - int k < 0 then None else Some (nat (int (length d) - int k))) else Some plen)
        = Some (length d - k)"
      using False k by (auto simp: nat_diff_distrib)
    ultimately show ?thesis
      using k False IH inside [of "length d - k"]
      by (subst multi_loop.simps) (simp add: size Let_def ds)
  qed
qed

text \<open>Offsets are the lengths of what comes before.\<close>

lemma offsets_from_spec:
  "list_all2 nonempty_part ps ds \<Longrightarrow>
     length (fst (offsets_from off ps)) = length ds \<and> map source (fst (offsets_from off ps)) = ps \<and>
     snd (offsets_from off ps) = off + int (length (concat ds)) \<and>
     (\<forall>i < length ds. part_off (fst (offsets_from off ps) ! i) = off + int (length (concat (take i ds))))"
proof (induction ps arbitrary: off ds)
  case (Cons p ps)
  then obtain d ds' where ds: "ds = d # ds'" "nonempty_part p d" "list_all2 nonempty_part ps ds'"
    by (auto simp: list_all2_Cons1)
  have "Size p = int (length d)" using ds(2) by (simp add: nonempty_part_def size_reader_at_def)
  with Cons.IH [OF ds(3), of "off + Size p"] show ?case
    by (auto simp: ds(1) case_prod_unfold Let_def nth_Cons split: nat.split)
qed simp

lemma length_concat_take:
  "i < length ds \<Longrightarrow> length (concat (take (Suc i) ds)) = length (concat (take i ds)) + length (ds ! i)"
  by (simp add: take_Suc_conv_app_nth)

lemma length_concat_take_mono: "i \<le> j \<Longrightarrow> length (concat (take i ds)) \<le> length (concat (take j ds))"
  by (metis concat_append le_add1 length_append min.absorb2 take_add take_take le_Suc_ex)

lemma multi_ReadAt_correct:
  assumes ps: "list_all2 nonempty_part ps ds"
  shows "multi_ReadAt (NewMultiReaderAt ps) n (int off) =
    Some (take n (drop off (concat ds)), if off + n \<le> length (concat ds) \<or> n = 0 then None else Some ErrUnexpectedEOF)"
proof -
  let ?os = "fst (offsets_from 0 ps)" and ?len = "\<lambda>i. length (concat (take i ds))"
  have os: "length ?os = length ds" "map source ?os = ps" "\<And>i. i < length ds \<Longrightarrow> part_off (?os ! i) = int (?len i)"
    using offsets_from_spec [OF ps, of 0] by auto
  have lp: "length ps = length ds" using ps by (rule list_all2_lengthD)
  have end_off: "part_off (?os ! i) + Size (source (?os ! i)) = int (?len (Suc i))" if i: "i < length ds" for i
  proof -
    have "source (?os ! i) = ps ! i" using os(1,2) i by (metis nth_map)
    then have "Size (source (?os ! i)) = int (length (ds ! i))"
      using list_all2_nthD [OF ps] i lp by (auto simp: nonempty_part_def size_reader_at_def)
    then show ?thesis using os(3) [OF i] length_concat_take [OF i] by simp
  qed
  let ?f = "\<lambda>i. do { part \<leftarrow> index ?os i; Some (part_off part + Size (source part) > int off) }"
  have "succeeds (Search (length ?os) ?f) (\<lambda>r. r \<le> length ?os \<and>
      (\<forall>k < r. \<not> ?len (Suc k) > off) \<and> (\<forall>k. r \<le> k \<and> k < length ?os \<longrightarrow> ?len (Suc k) > off))"
  proof (rule Search_correct)
    show "?f k = Some (?len (Suc k) > off)" if "k < length ?os" for k
      using that os(1) end_off [of k] by (simp add: index_def)
    show "?len (Suc k') > off" if "k \<le> k'" "?len (Suc k) > off" for k k'
      using that length_concat_take_mono [of "Suc k" "Suc k'" ds] by simp
  qed
  then obtain r where r: "Search (length ?os) ?f = Some r" "r \<le> length ds"
    and below: "\<And>k. k < r \<Longrightarrow> \<not> ?len (Suc k) > off"
    and above: "\<And>k. r \<le> k \<Longrightarrow> k < length ds \<Longrightarrow> off < ?len (Suc k)"
    unfolding succeeds_def os(1) by blast
  have le: "?len r \<le> off" using below [of "r - 1"] by (cases r) auto
  have split: "concat ds = concat (take r ds) @ concat (drop r ds)" by (simp flip: concat_append)
  let ?k = "off - ?len r"
  have loop: "multi_loop (drop r ?os) n (int ?k) [] = Some (take n (drop ?k (concat (drop r ds))), None)"
    if "r < length ds"
  proof -
    have "list_all2 nonempty_part (map source (drop r ?os)) (drop r ds)"
      using list_all2_dropI [OF ps, of r] os(2) by (metis drop_map)
    moreover have "?k < length (hd (drop r ds))"
      using that above [OF order_refl that] le length_concat_take [OF that] by (simp add: hd_drop_conv_nth)
    ultimately show ?thesis using multi_loop_correct [of "drop r ?os" "drop r ds" ?k n "[]"] by simp
  qed
  have take_drop: "take n (drop ?k (concat (drop r ds))) = take n (drop off (concat ds))"
    using le by (simp add: split)
  have m: "parts (NewMultiReaderAt ps) = ?os" by (simp add: NewMultiReaderAt_def case_prod_unfold Let_def)
  show ?thesis
  proof (cases "r < length ds")
    case True
    then have "part_off (hd (drop r ?os)) = int (?len r)" using os by (simp add: hd_drop_conv_nth)
    then show ?thesis
      using True r(1) os(1) loop take_drop le
      by (auto simp: multi_ReadAt_def m Let_def of_nat_diff min_def)
  next
    case False
    then have "length (concat ds) \<le> off" using le r(2) by simp
    then show ?thesis
      using False r os(1) by (auto simp: multi_ReadAt_def m multi_loop.simps [of "[]"])
  qed
qed

section \<open>Buffering ReaderAt\<close>

record bufReaderAt =
  br_r :: stream
  br_buf :: bytes

definition NewBufferingReaderAt :: "stream \<Rightarrow> bufReaderAt" where
  "NewBufferingReaderAt s = \<lparr>br_r = s, br_buf = []\<rparr>"

text \<open>\<open>br.buf[off:]\<close> panics on a negative offset.\<close>

definition buf_ReadAt :: "bufReaderAt \<Rightarrow> nat \<Rightarrow> int \<Rightarrow> ((bytes \<times> io_error option) \<times> bufReaderAt) option" where
  "buf_ReadAt br plen off =
     (let endOff = off + int plen;
          need = endOff - int (length (br_buf br));
          (br, err) = (if need > 0 then
                         (let (bs, e, s) = ReadFull (br_r br) (nat need) in
                          (br\<lparr>br_r := s, br_buf := br_buf br @ bs\<rparr>, e))
                       else (br, None))
      in do {
        out \<leftarrow> (if int (length (br_buf br)) \<ge> off then
                  (if off < 0 then None else Some (take plen (drop (nat off) (br_buf br))))
                else Some []);
        Some ((out, if length out = plen then None else err), br)
      })"

primrec buf_reads :: "bufReaderAt \<Rightarrow> (nat \<times> nat) list \<Rightarrow> bufReaderAt option" where
  "buf_reads br [] = Some br"
| "buf_reads br (q # qs) = do { (res, br) \<leftarrow> buf_ReadAt br (fst q) (int (snd q)); buf_reads br qs }"

definition buf_of :: "bufReaderAt \<Rightarrow> stream \<Rightarrow> bool" where
  "buf_of br s \<longleftrightarrow> br_buf br @ pending (br_r br) = pending s \<and> after (br_r br) = after s"

lemma buf_ReadAt_correct:
  assumes "buf_of br s"
  shows "\<exists>br' err. buf_ReadAt br n (int off) = Some ((take n (drop off (pending s)), err), br') \<and> buf_of br' s \<and>
    (err = None \<longleftrightarrow> n = 0 \<or> off + n \<le> length (pending s)) \<and>
    (err \<noteq> None \<longrightarrow> err = Some (after s) \<or> err = Some ErrUnexpectedEOF)"
proof -
  let ?b = "br_buf br" and ?q = "pending (br_r br)"
  have data: "pending s = ?b @ ?q" and aft: "after (br_r br) = after s" using assms by (simp_all add: buf_of_def)
  show ?thesis
  proof (cases "off + n \<le> length ?b")
    case True
    then show ?thesis
      using data aft by (auto simp: buf_ReadAt_def Let_def buf_of_def)
  next
    case False
    define m where "m = off + n - length ?b"
    have need: "nat (int off + int n - int (length ?b)) = m" "int off + int n - int (length ?b) > 0"
      using False by (auto simp: m_def)
    define s' where "s' = (br_r br)\<lparr>pending := drop m ?q\<rparr>"
    define b where "b = ?b @ take m ?q"
    define e where "e = fst (snd (ReadFull (br_r br) m))"
    have rf: "ReadFull (br_r br) m = (take m ?q, e, s')"
      by (simp add: e_def s'_def ReadFull_rest prod_eq_iff)
    have out: "take n (drop off b) = take n (drop off (pending s))"
      using False by (simp add: data b_def m_def take_drop add.commute)
    have "(if int (length b) \<ge> int off then Some (take n (drop off b)) else Some []) = Some (take n (drop off b))"
      by simp
    then have eq: "buf_ReadAt br n (int off) = Some ((take n (drop off b), if length (take n (drop off b)) = n then None else e),
        br\<lparr>br_r := s', br_buf := b\<rparr>)"
      using need by (simp add: buf_ReadAt_def Let_def rf flip: b_def)
    have "length (take n (drop off b)) = n \<longleftrightarrow> n = 0 \<or> off + n \<le> length (pending s)"
      unfolding out by auto
    moreover have "e = None \<longleftrightarrow> off + n \<le> length (pending s)"
      unfolding e_def ReadFull_error using False by (auto simp: data m_def)
    moreover have "e \<noteq> None \<Longrightarrow> e = Some (after s) \<or> e = Some ErrUnexpectedEOF"
      unfolding e_def ReadFull_def aft by (auto split: if_splits)
    moreover have "buf_of (br\<lparr>br_r := s', br_buf := b\<rparr>) s"
      by (simp add: buf_of_def s'_def b_def data aft)
    ultimately show ?thesis
      unfolding eq out by auto
  qed
qed

lemma buf_reads_correct: "buf_of br s \<Longrightarrow> \<exists>br'. buf_reads br qs = Some br' \<and> buf_of br' s"
proof (induction qs arbitrary: br)
  case (Cons q qs)
  from buf_ReadAt_correct [OF Cons.prems, of "fst q" "snd q"] Cons.IH show ?case by fastforce
qed simp

section \<open>The fake seeker and Size\<close>

text \<open>\<open>rd\<close> is the \<open>Read\<close> method of the wrapped reader: the bytes read, the error, the new state.\<close>

type_synonym 'r read = "'r \<Rightarrow> nat \<Rightarrow> (bytes \<times> io_error option) \<times> 'r"
type_synonym 's seek = "'s \<Rightarrow> int \<Rightarrow> int \<Rightarrow> (int \<times> io_error option) \<times> 's"

record 'r fakeSeeker =
  fs_r :: 'r
  fs_size :: int
  fakePos :: int
  realPos :: int

definition NewFakeSeeker :: "'r \<Rightarrow> int \<Rightarrow> 'r fakeSeeker" where
  "NewFakeSeeker r sz = \<lparr>fs_r = r, fs_size = sz, fakePos = 0, realPos = 0\<rparr>"

definition fs_Seek :: "'r fakeSeeker seek" where
  "fs_Seek fs offset whence =
     (let newo = (if whence = 0 then Some offset
                  else if whence = 1 then Some (fakePos fs + offset)
                  else if whence = 2 then Some (fs_size fs + offset)
                  else None) in
      case newo of
        None \<Rightarrow> ((0, Some (IOError ''invalid whence'')), fs)
      | Some newo \<Rightarrow>
          if newo < 0 then ((0, Some (IOError ''negative seek'')), fs)
          else ((newo, None), fs\<lparr>fakePos := newo\<rparr>))"

definition fs_Read :: "'r read \<Rightarrow> 'r fakeSeeker read" where
  "fs_Read rd fs plen =
     (if fakePos fs \<noteq> realPos fs then (([], Some (IOError ''attempt to read from fake seek offset'')), fs)
      else (let ((bs, err), r) = rd (fs_r fs) plen in
            ((bs, err), fs\<lparr>fs_r := r, fakePos := fakePos fs + int (length bs),
                           realPos := realPos fs + int (length bs)\<rparr>)))"

text \<open>The dynamic types \<open>Size\<close> distinguishes; \<open>None\<close> as its result is the panic.\<close>

datatype 's reader = Bytes_Buffer bytes | Bytes_Reader bytes | Strings_Reader bytes | Seeker 's | Other_Reader

definition Size_reader :: "'s seek \<Rightarrow> 's reader \<Rightarrow> ((int \<times> bool) \<times> 's reader) option" where
  "Size_reader seek r = (case r of
     Bytes_Buffer b \<Rightarrow> Some ((int (length b), True), r)
   | Bytes_Reader b \<Rightarrow> Some ((int (length b), True), r)
   | Strings_Reader b \<Rightarrow> Some ((int (length b), True), r)
   | Seeker s \<Rightarrow>
       (let ((pos, err), s) = seek s 0 1 in
        if err \<noteq> None then Some ((0, False), Seeker s)
        else let ((end, err), s) = seek s 0 2 in
        if err \<noteq> None then Some ((0, False), Seeker s)
        else let ((pos1, err), s) = seek s pos 0 in
        if err \<noteq> None \<or> pos1 \<noteq> pos then None
        else Some ((end - pos, True), Seeker s))
   | Other_Reader \<Rightarrow> Some ((0, False), r))"

text \<open>What any reader promises: the bytes it returns are the next ones of its data.\<close>

locale reader =
  fixes rd :: "'r read" and rest :: "'r \<Rightarrow> bytes"
  assumes rd_next: "rd r n = ((bs, err), r') \<Longrightarrow> rest r = bs @ rest r' \<and> length bs \<le> n"

text \<open>The states a fake seeker goes through under any sequence of seeks and reads.\<close>

inductive fs_reach :: "'r read \<Rightarrow> 'r \<Rightarrow> int \<Rightarrow> 'r fakeSeeker \<Rightarrow> bool"
  for rd :: "'r read" and r0 :: 'r and sz :: int where
  fs_init: "fs_reach rd r0 sz (NewFakeSeeker r0 sz)"
| fs_seek: "fs_reach rd r0 sz fs \<Longrightarrow> fs_Seek fs off wh = (res, fs') \<Longrightarrow> fs_reach rd r0 sz fs'"
| fs_read: "fs_reach rd r0 sz fs \<Longrightarrow> fs_Read rd fs n = (res, fs') \<Longrightarrow> fs_reach rd r0 sz fs'"

context reader
begin

lemma fs_reach_inv:
  "fs_reach rd r0 sz fs \<Longrightarrow> 0 \<le> fakePos fs \<and> 0 \<le> realPos fs \<and> fs_size fs = sz \<and>
     rest (fs_r fs) = drop (nat (realPos fs)) (rest r0) \<and> realPos fs \<le> int (length (rest r0))"
proof (induction rule: fs_reach.induct)
  case fs_init
  then show ?case by (simp add: NewFakeSeeker_def)
next
  case (fs_seek fs off wh res fs')
  then show ?case by (auto simp: fs_Seek_def Let_def split: if_splits)
next
  case (fs_read fs n res fs')
  show ?case
  proof (cases "fakePos fs = realPos fs")
    case True
    obtain bs err r' where rd: "rd (fs_r fs) n = ((bs, err), r')" by (metis surj_pair)
    have bs: "drop (nat (realPos fs)) (rest r0) = bs @ rest r'" using rd_next [OF rd] fs_read.IH by simp
    then have "drop (nat (realPos fs + int (length bs))) (rest r0) = rest r'"
      using fs_read.IH by (metis add.commute append_eq_conv_conj drop_drop nat_add_distrib nat_int of_nat_0_le_iff)
    moreover have "length bs \<le> length (rest r0) - nat (realPos fs)"
      using arg_cong [OF bs, of length] by simp
    ultimately show ?thesis
      using True fs_read rd by (auto simp: fs_Read_def)
  qed (use fs_read in \<open>auto simp: fs_Read_def\<close>)
qed

lemma fs_Read_at_position:
  assumes "fs_reach rd r0 sz fs" "fs_Read rd fs n = ((bs, err), fs')"
  shows "fakePos fs \<noteq> realPos fs \<and> bs = [] \<and> err \<noteq> None \<and> fs' = fs \<or>
    bs = take (length bs) (drop (nat (fakePos fs)) (rest r0)) \<and> fakePos fs' = fakePos fs + int (length bs)"
proof (cases "fakePos fs = realPos fs")
  case True
  obtain cs e r' where rd: "rd (fs_r fs) n = ((cs, e), r')" by (metis surj_pair)
  have "cs = take (length cs) (drop (nat (realPos fs)) (rest r0))"
    using rd_next [OF rd] fs_reach_inv [OF assms(1)] by (metis append_eq_conv_conj)
  then show ?thesis using True rd assms(2) by (auto simp: fs_Read_def)
qed (use assms(2) in \<open>auto simp: fs_Read_def\<close>)

end

text \<open>The library's \<open>bytes.Reader\<close> as a sequential reader.\<close>

definition stream_Read :: "stream read" where
  "stream_Read s n = (if pending s = [] then (([], Some (after s)), s)
                      else ((take n (pending s), None), s\<lparr>pending := drop n (pending s)\<rparr>))"

interpretation stream_reader: reader stream_Read pending
  by unfold_locales (auto simp: stream_Read_def split: if_splits)

section \<open>Counting readers\<close>

record 'r CountingReader =
  cr_Reader :: 'r
  cr_N :: int

definition CountingReader_Read :: "'r read \<Rightarrow> 'r CountingReader read" where
  "CountingReader_Read rd cr plen =
     (let ((bs, err), r) = rd (cr_Reader cr) plen in
      ((bs, err), cr\<lparr>cr_Reader := r, cr_N := cr_N cr + int (length bs)\<rparr>))"

record 'r varStatReader =
  vs_Int :: int
  vs_r :: 'r

definition NewStatsReader :: "int \<Rightarrow> 'r \<Rightarrow> 'r varStatReader" where
  "NewStatsReader v r = \<lparr>vs_Int = v, vs_r = r\<rparr>"

definition varStatReader_Read :: "'r read \<Rightarrow> 'r varStatReader read" where
  "varStatReader_Read rd v plen =
     (let ((bs, err), r) = rd (vs_r v) plen in
      ((bs, err), v\<lparr>vs_r := r, vs_Int := vs_Int v + int (length bs)\<rparr>))"

definition varStatReadSeeker_Seek :: "'r seek \<Rightarrow> 'r varStatReader seek" where
  "varStatReadSeeker_Seek sk v offset whence =
     (let (res, r) = sk (vs_r v) offset whence in (res, v\<lparr>vs_r := r\<rparr>))"

text \<open>The bytes a sequence of reads returns, and the state after them.\<close>

primrec reads :: "'r read \<Rightarrow> 'r \<Rightarrow> nat list \<Rightarrow> bytes \<times> 'r" where
  "reads rd r [] = ([], r)"
| "reads rd r (n # ns) = (let ((bs, err), r) = rd r n; (cs, r) = reads rd r ns in (bs @ cs, r))"

lemma reads_CountingReader:
  "reads (CountingReader_Read rd) cr ns =
     (let (bs, r) = reads rd (cr_Reader cr) ns in (bs, cr\<lparr>cr_Reader := r, cr_N := cr_N cr + int (length bs)\<rparr>))"
  by (induction ns arbitrary: cr) (simp_all add: CountingReader_Read_def case_prod_unfold Let_def)

lemma reads_varStatReader:
  "reads (varStatReader_Read rd) v ns =
     (let (bs, r) = reads rd (vs_r v) ns in (bs, v\<lparr>vs_r := r, vs_Int := vs_Int v + int (length bs)\<rparr>))"
  by (induction ns arbitrary: v) (simp_all add: varStatReader_Read_def case_prod_unfold Let_def)

section \<open>Properties\<close>



text \<open>
  A multi-part reader keeps the contract of a part itself, so such readers nest.
\<close>

theorem multi_reader_is_part:
  assumes "list_all2 nonempty_part ps ds"
  shows "size_reader_at (multi_reader (NewMultiReaderAt ps)) (concat ds)"
  using multi_ReadAt_correct [OF assms] offsets_from_spec [OF assms, of 0]
  by unfold_locales (auto simp: multi_reader_def NewMultiReaderAt_def case_prod_unfold Let_def)

theorem multi_reader_is_part_witness:
  "size_reader_at (multi_reader (NewMultiReaderAt [bytes_Reader [1], bytes_Reader [2, 3]])) [1, 2, 3]"
  using multi_reader_is_part [of "[bytes_Reader [1], bytes_Reader [2, 3]]" "[[1], [2, 3]]"]
    bytes_part.size_reader_at_axioms by (simp add: nonempty_part_def)

text \<open>
  An empty part between two others cuts the reading short: the empty \<open>bytes.Reader\<close> answers the
  read of zero bytes with \<open>EOF\<close>, which \<open>ReadAt\<close> passes on although more data follows.
\<close>

theorem multi_ReadAt_empty_part:
  "multi_ReadAt (NewMultiReaderAt [bytes_Reader [1], bytes_Reader [], bytes_Reader [2]]) 2 0 =
     Some ([1], Some EOF)"
  by (simp add: multi_ReadAt_def NewMultiReaderAt_def Search_def Search_loop.simps index_def
      multi_loop.simps bytes_Reader_def bytes_ReadAt_def Let_def)

text \<open>
  Whatever was read before, \<open>ReadAt\<close> on a buffering reader returns the bytes of the stream at
  the offset, with no error exactly when it could fill the buffer.
\<close>

theorem buf_ReadAt_history:
  "\<exists>br br' err. buf_reads (NewBufferingReaderAt s) qs = Some br \<and>
     buf_ReadAt br n (int off) = Some ((take n (drop off (pending s)), err), br') \<and>
     (err = None \<longleftrightarrow> n = 0 \<or> off + n \<le> length (pending s))"
proof -
  have "buf_of (NewBufferingReaderAt s) s" by (simp add: buf_of_def NewBufferingReaderAt_def)
  from buf_reads_correct [OF this, of qs] buf_ReadAt_correct show ?thesis by metis
qed

text \<open>
  In every state a fake seeker reaches, a read either fails without reading (the seek position is
  not where the data is) or returns the bytes of the underlying data at the seek position.
\<close>

theorem fakeSeeker_reads_at_position:
  assumes "reader rd rest" "fs_reach rd r0 sz fs" "fs_Read rd fs n = ((bs, err), fs')"
  shows "fakePos fs \<noteq> realPos fs \<and> bs = [] \<and> err \<noteq> None \<and> fs' = fs \<or>
    bs = take (length bs) (drop (nat (fakePos fs)) (rest r0)) \<and> fakePos fs' = fakePos fs + int (length bs)"
  using assms by (rule reader.fs_Read_at_position)

theorem fakeSeeker_reads_at_position_witness:
  "let fs = NewFakeSeeker \<lparr>pending = [5, 6, 7], after = EOF\<rparr> 3 in
   fakePos fs \<noteq> realPos fs \<and> [5, 6] = [] \<and> None \<noteq> None \<and>
     fs\<lparr>fs_r := \<lparr>pending = [7 :: byte], after = EOF\<rparr>, fakePos := 2, realPos := 2\<rparr> = fs \<or>
   [5, 6] = take (length [5, 6 :: byte]) (drop (nat (fakePos fs)) [5, 6, 7]) \<and>
     fakePos (fs\<lparr>fs_r := \<lparr>pending = [7], after = EOF\<rparr>, fakePos := 2, realPos := 2\<rparr>) = fakePos fs + 2"
  using fakeSeeker_reads_at_position [OF stream_reader.reader_axioms
      fs_init [of stream_Read "\<lparr>pending = [5, 6, 7], after = EOF\<rparr>" 3], of 2 "[5, 6]" None
      "\<lparr>fs_r = \<lparr>pending = [7], after = EOF\<rparr>, fs_size = 3, fakePos = 2, realPos = 2\<rparr>"]
  by (simp add: fs_Read_def stream_Read_def NewFakeSeeker_def)

text \<open>
  \<open>Size\<close> of a fake seeker in any state it reaches is the declared size less the position, and
  asking for it does not change the seeker.
\<close>

theorem Size_fakeSeeker:
  assumes "reader rd rest" "fs_reach rd r0 sz fs" "0 \<le> sz"
  shows "Size_reader fs_Seek (Seeker fs) = Some ((sz - fakePos fs, True), Seeker fs)"
  using reader.fs_reach_inv [OF assms(1,2)] assms(3)
  by (simp add: Size_reader_def fs_Seek_def Let_def)

theorem Size_fakeSeeker_witness:
  "Size_reader fs_Seek (Seeker (NewFakeSeeker \<lparr>pending = [5, 6], after = EOF\<rparr> 2)) =
     Some ((2 - fakePos (NewFakeSeeker \<lparr>pending = [5 :: byte, 6], after = EOF\<rparr> 2), True),
           Seeker (NewFakeSeeker \<lparr>pending = [5, 6], after = EOF\<rparr> 2))"
  by (rule Size_fakeSeeker [OF stream_reader.reader_axioms fs_init]) simp

text \<open>
  The counting readers pass every read through unchanged and add up the bytes returned.
\<close>

theorem counting_readers_transparent:
  "fst (reads (CountingReader_Read rd) cr ns) = fst (reads rd (cr_Reader cr) ns) \<and>
   cr_N (snd (reads (CountingReader_Read rd) cr ns)) = cr_N cr + int (length (fst (reads rd (cr_Reader cr) ns))) \<and>
   fst (reads (varStatReader_Read rd) (NewStatsReader v r) ns) = fst (reads rd r ns) \<and>
   vs_Int (snd (reads (varStatReader_Read rd) (NewStatsReader v r) ns)) = v + int (length (fst (reads rd r ns)))"
  by (simp add: reads_CountingReader reads_varStatReader NewStatsReader_def case_prod_unfold Let_def)

end
