(* ===== verification/BMFF_Reader.thy ===== *)
theory BMFF_Reader
  imports Go_IO
begin

text \<open>
  The box reader of \<open>src/media/heif/bmff/bmff.go\<close>: big-endian numbers, the \<open>bufReader\<close> with its
  sticky error, \<open>Reader.ReadBox\<close> and \<open>parseAppendBoxes\<close>.

  A \<open>bufio.Reader\<close> is the \<open>stream\<close> of the bytes it has yet to deliver: \<open>Peek\<close> looks at its front
  (the parsers peek at no more than 20 bytes, below the smallest buffer of 64), and \<open>Discard\<close> drops
  it. The body of a box is the stream the code reads it from at that moment: the first bytes of the
  reader's input up to the box's end.
\<close>

section \<open>Errors and numbers\<close>

text \<open>\<open>Wrap s e\<close> is \<open>fmt.Errorf\<close> with the text of another error in it.\<close>

datatype berr = IOErr io_error | ErrUnknownBox | errShortDataBox | Errorf string | Wrap string berr

definition be_nat :: "bytes \<Rightarrow> nat" where
  "be_nat bs = foldl (\<lambda>n b. n * 256 + unat b) 0 bs"

primrec be_bytes :: "nat \<Rightarrow> nat \<Rightarrow> bytes" where
  "be_bytes 0 n = []"
| "be_bytes (Suc k) n = be_bytes k (n div 256) @ [of_nat n]"

definition Uint16 :: "bytes \<Rightarrow> 16 word" where "Uint16 buf = of_nat (be_nat (take 2 buf))"
definition Uint32 :: "bytes \<Rightarrow> 32 word" where "Uint32 buf = of_nat (be_nat (take 4 buf))"
definition Uint64 :: "bytes \<Rightarrow> 64 word" where "Uint64 buf = of_nat (be_nat (take 8 buf))"

definition AppendUint16 :: "bytes \<Rightarrow> 16 word \<Rightarrow> bytes" where "AppendUint16 b v = b @ be_bytes 2 (unat v)"
definition AppendUint32 :: "bytes \<Rightarrow> 32 word \<Rightarrow> bytes" where "AppendUint32 b v = b @ be_bytes 4 (unat v)"

lemma length_be_bytes [simp]: "length (be_bytes k n) = k"
  by (induction k arbitrary: n) auto

lemma be_nat_snoc: "be_nat (bs @ [b]) = be_nat bs * 256 + unat b"
  by (simp add: be_nat_def)

lemma be_nat_be_bytes: "be_nat (be_bytes k n) = n mod 256 ^ k"
proof (induction k arbitrary: n)
  case (Suc k)
  have "n mod 256 ^ Suc k = n div 256 mod 256 ^ k * 256 + n mod 256"
    by (simp add: mod_mult2_eq [of n 256] mult.commute)
  with Suc show ?case by (simp add: be_nat_snoc unat_of_nat)
qed (simp add: be_nat_def)

lemma be_nat_less: "be_nat bs < 256 ^ length bs"
proof (induction bs rule: rev_induct)
  case (snoc b bs)
  have "unat b < 2 ^ LENGTH(8)" by (rule unsigned_less)
  then have "unat b < 256" by simp
  with snoc show ?case by (simp add: be_nat_snoc)
qed (simp add: be_nat_def)

lemma Uint16_be [simp]: "n < 2 ^ 16 \<Longrightarrow> unat (Uint16 (be_bytes 2 n @ xs)) = n"
  by (simp add: Uint16_def be_nat_be_bytes unat_of_nat)

lemma Uint32_be [simp]: "n < 2 ^ 32 \<Longrightarrow> unat (Uint32 (be_bytes 4 n @ xs)) = n"
  by (simp add: Uint32_def be_nat_be_bytes unat_of_nat)

lemma Uint16_word [simp]: "Uint16 (be_bytes 2 (unat v) @ xs) = v"
proof -
  have "unat v < 2 ^ LENGTH(16)" by (rule unsigned_less)
  then show ?thesis by (simp add: word_unat_eq_iff)
qed

lemma Uint32_word [simp]: "Uint32 (be_bytes 4 (unat v) @ xs) = v"
proof -
  have "unat v < 2 ^ LENGTH(32)" by (rule unsigned_less)
  then show ?thesis by (simp add: word_unat_eq_iff)
qed

section \<open>bufReader\<close>

record bufReader =
  br_in :: stream
  br_err :: "berr option"

definition br_of :: "stream \<Rightarrow> bufReader" where
  "br_of s = \<lparr>br_in = s, br_err = None\<rparr>"

definition ok :: "bufReader \<Rightarrow> bool" where
  "ok br \<longleftrightarrow> br_err br = None"

definition Peek :: "bufReader \<Rightarrow> nat \<Rightarrow> berr + bytes" where
  "Peek br n = (if n \<le> length (pending (br_in br)) then Inr (take n (pending (br_in br)))
                else Inl (IOErr (after (br_in br))))"

definition Discard :: "nat \<Rightarrow> bufReader \<Rightarrow> bufReader" where
  "Discard n br = br\<lparr>br_in := (br_in br)\<lparr>pending := drop n (pending (br_in br))\<rparr>\<rparr>"

definition set_err :: "berr \<Rightarrow> bufReader \<Rightarrow> bufReader" where
  "set_err e br = br\<lparr>br_err := Some e\<rparr>"

definition anyRemain :: "bufReader \<Rightarrow> bool" where
  "anyRemain br = (if br_err br \<noteq> None then False else (case Peek br 1 of Inl _ \<Rightarrow> False | Inr _ \<Rightarrow> True))"

text \<open>
  The methods below return the value and the reader; the error they return as well is always the
  sticky one, \<open>br_err\<close> of the reader returned.
\<close>

definition readUintN :: "nat \<Rightarrow> bufReader \<Rightarrow> 64 word \<times> bufReader" where
  "readUintN bits br =
     (if br_err br \<noteq> None then (0, br)
      else if bits = 0 then (0, br)
      else let nbyte = bits div 8 in
        case Peek br nbyte of
          Inl e \<Rightarrow> (0, set_err e br)
        | Inr buf \<Rightarrow>
            (if bits = 8 \<or> bits = 16 \<or> bits = 32 \<or> bits = 64 then (of_nat (be_nat buf), Discard nbyte br)
             else (0, Discard nbyte (set_err (Errorf ''invalid uintn read size'') br))))"

definition readUint8 :: "bufReader \<Rightarrow> byte \<times> bufReader" where
  "readUint8 br =
     (if br_err br \<noteq> None then (0, br)
      else case Peek br 1 of
        Inl e \<Rightarrow> (0, set_err e br)
      | Inr buf \<Rightarrow> (hd buf, Discard 1 br))"

definition readUint16 :: "bufReader \<Rightarrow> 16 word \<times> bufReader" where
  "readUint16 br =
     (if br_err br \<noteq> None then (0, br)
      else case Peek br 2 of
        Inl e \<Rightarrow> (0, set_err e br)
      | Inr buf \<Rightarrow> (Uint16 buf, Discard 2 br))"

definition readUint32 :: "bufReader \<Rightarrow> 32 word \<times> bufReader" where
  "readUint32 br =
     (if br_err br \<noteq> None then (0, br)
      else case Peek br 4 of
        Inl e \<Rightarrow> (0, set_err e br)
      | Inr buf \<Rightarrow> (Uint32 buf, Discard 4 br))"

text \<open>\<open>bufio.Reader.ReadString(0)\<close>: up to and including the first NUL, or all of the rest and the error.\<close>

definition ReadString :: "bufReader \<Rightarrow> bytes \<times> berr option \<times> bufReader" where
  "ReadString br = (let p = pending (br_in br) in
     if 0 \<in> set p then (let s = takeWhile (\<lambda>b. b \<noteq> 0) p in (s @ [0], None, Discard (Suc (length s)) br))
     else (p, Some (IOErr (after (br_in br))), Discard (length p) br))"

definition TrimSuffix0 :: "bytes \<Rightarrow> bytes" where
  "TrimSuffix0 s = (if s \<noteq> [] \<and> last s = 0 then butlast s else s)"

definition readString :: "bufReader \<Rightarrow> bytes \<times> bufReader" where
  "readString br =
     (if br_err br \<noteq> None then ([], br)
      else let (s0, err, br) = ReadString br in
        case err of
          Some e \<Rightarrow> ([], set_err e br)
        | None \<Rightarrow>
            (let s = TrimSuffix0 s0 in
             if length s = length s0 then
               ([], set_err (Errorf ''unexpected non-null terminated string'') br)
             else (s, br)))"

section \<open>Boxes and the Reader\<close>

type_synonym BoxType = bytes

definition EqualString :: "BoxType \<Rightarrow> bytes \<Rightarrow> bool" where
  "EqualString t s \<longleftrightarrow> length s = 4 \<and> s ! 0 = t ! 0 \<and> s ! 1 = t ! 1 \<and> s ! 2 = t ! 2 \<and> s ! 3 = t ! 3"

record box =
  box_size :: int
  boxType :: BoxType
  offset :: int
  headerSize :: int
  body :: stream
  slurp :: "bytes option"

definition Body :: "box \<Rightarrow> stream" where
  "Body b = (case slurp b of Some bs \<Rightarrow> \<lparr>pending = bs, after = EOF\<rparr> | None \<Rightarrow> body b)"

text \<open>
  \<open>lastN\<close> is the field \<open>N\<close> of the last box's \<open>io.LimitedReader\<close>, what of its body is still unread;
  \<open>seekable\<close> says whether \<open>seeker\<close> is there and its seeks succeed.
\<close>

record Reader =
  rd_br :: stream
  seekable :: bool
  pos :: int
  lastN :: "nat option"
  noMoreBoxes :: bool

definition NewReader :: "stream \<Rightarrow> bool \<Rightarrow> Reader" where
  "NewReader s sk = \<lparr>rd_br = s, seekable = sk, pos = 0, lastN = None, noMoreBoxes = False\<rparr>"

definition io_ReadFull :: "Reader \<Rightarrow> nat \<Rightarrow> (berr + bytes) \<times> Reader" where
  "io_ReadFull r n = (let (bs, e, s) = ReadFull (rd_br r) n in
     (case e of None \<Rightarrow> Inr bs | Some e \<Rightarrow> Inl (IOErr e), r\<lparr>rd_br := s\<rparr>))"

text \<open>
  Seeking past the end of the input succeeds and leaves nothing to read; copying to \<open>io.Discard\<close>
  reports an error of the input other than its end.
\<close>

definition skipRest :: "Reader \<Rightarrow> nat \<Rightarrow> (berr option) \<times> Reader" where
  "skipRest r n =
     (let r' = r\<lparr>rd_br := (rd_br r)\<lparr>pending := drop n (pending (rd_br r))\<rparr>, lastN := Some 0\<rparr> in
      if seekable r \<or> n \<le> length (pending (rd_br r)) \<or> after (rd_br r) = EOF then (None, r')
      else (Some (IOErr (after (rd_br r))), r'\<lparr>lastN := Some (n - length (pending (rd_br r)))\<rparr>))"

definition limit_body :: "stream \<Rightarrow> nat \<Rightarrow> stream" where
  "limit_body s n = \<lparr>pending = take n (pending s), after = (if n \<le> length (pending s) then EOF else after s)\<rparr>"

definition read_header :: "Reader \<Rightarrow> (berr + box) \<times> Reader" where
  "read_header r =
     (case io_ReadFull r 4 of
       (Inl e, r) \<Rightarrow> (Inl e, r)
     | (Inr buf, r) \<Rightarrow>
         let sz = uint (Uint32 buf) in
         (case io_ReadFull r 4 of
           (Inl e, r) \<Rightarrow> (Inl e, r)
         | (Inr typ, r) \<Rightarrow>
             let b = \<lparr>box_size = sz, boxType = typ, offset = pos r, headerSize = 8, body = rd_br r, slurp = None\<rparr> in
             if sz = 1 then
               (case io_ReadFull r 8 of
                 (Inl e, r) \<Rightarrow> (Inl e, r)
               | (Inr buf, r) \<Rightarrow> (Inr (b\<lparr>box_size := sint (Uint64 buf), headerSize := 16, body := rd_br r\<rparr>), r))
             else (Inr b, r)))"

definition ReadBox :: "Reader \<Rightarrow> (berr + box) \<times> Reader" where
  "ReadBox r =
     (if noMoreBoxes r then (Inl (IOErr EOF), r)
      else (case (case lastN r of None \<Rightarrow> (None, r) | Some n \<Rightarrow> skipRest r n) of
        (Some e, r) \<Rightarrow> (Inl e, r)
      | (None, r) \<Rightarrow>
          (case read_header r of
            (Inl e, r) \<Rightarrow> (Inl e, r)
          | (Inr b, r) \<Rightarrow>
              if headerSize b = 16 \<and> box_size b < 0 then (Inl (Errorf ''unexpectedly large box''), r)
              else let remain = (if headerSize b = 8 \<and> box_size b = 0 then 0 else box_size b - headerSize b);
                       r = (if headerSize b = 8 \<and> box_size b = 0 then r\<lparr>noMoreBoxes := True\<rparr> else r) in
                if remain < 0 then (Inl (Errorf ''Box header suggests negative bytes remain''), r)
                else if box_size b > 0 then
                  (Inr (b\<lparr>body := limit_body (rd_br r) (nat remain)\<rparr>),
                   r\<lparr>pos := pos r + box_size b, lastN := Some (nat remain)\<rparr>)
                else (Inr b, r\<lparr>lastN := None\<rparr>))))"

text \<open>Reading \<open>k\<close> bytes of the last box's body, by parsing it or through \<open>Body\<close>.\<close>

definition consume :: "nat \<Rightarrow> Reader \<Rightarrow> Reader" where
  "consume k r = r\<lparr>rd_br := (rd_br r)\<lparr>pending := drop k (pending (rd_br r))\<rparr>, lastN := map_option (\<lambda>n. n - k) (lastN r)\<rparr>"

definition ReadAll :: "stream \<Rightarrow> bytes \<times> io_error option" where
  "ReadAll s = (pending s, if after s = EOF then None else Some (after s))"

definition readBody :: "box \<Rightarrow> bytes \<times> io_error option" where
  "readBody b =
     (let n = box_size b - headerSize b in
      if box_size b \<le> 0 \<or> n > 2 ^ 20 then ReadAll (Body b)
      else let (bs, err, s) = ReadFull (Body b) (nat n) in
        (bs, if err = Some EOF \<or> err = Some ErrUnexpectedEOF then None else err))"

section \<open>Progress\<close>

lemma io_ReadFull_Inr:
  "io_ReadFull r n = (Inr bs, r') \<Longrightarrow>
     pending (rd_br r) = bs @ pending (rd_br r') \<and> length bs = n \<and> after (rd_br r') = after (rd_br r) \<and>
     seekable r' = seekable r \<and> lastN r' = lastN r \<and> noMoreBoxes r' = noMoreBoxes r \<and> pos r' = pos r"
  by (auto simp: io_ReadFull_def ReadFull_def split: if_splits)

lemma io_ReadFull_append [simp]:
  assumes "pending (rd_br r) = xs @ ys" "length xs = n"
  shows "io_ReadFull r n = (Inr xs, r\<lparr>rd_br := (rd_br r)\<lparr>pending := ys\<rparr>\<rparr>)"
  using assms by (simp add: io_ReadFull_def ReadFull_def)

lemma read_header_Inr:
  assumes "read_header r = (Inr b, r')"
  shows "\<exists>hd. pending (rd_br r) = hd @ pending (rd_br r') \<and> int (length hd) = headerSize b \<and> headerSize b \<in> {8, 16} \<and>
    after (rd_br r') = after (rd_br r) \<and> body b = rd_br r' \<and> slurp b = None \<and> offset b = pos r \<and> pos r' = pos r \<and>
    seekable r' = seekable r \<and> noMoreBoxes r' = noMoreBoxes r"
proof -
  obtain buf r1 where 1: "io_ReadFull r 4 = (Inr buf, r1)"
    using assms by (cases "io_ReadFull r 4") (auto simp: read_header_def split: sum.splits)
  obtain ty r2 where 2: "io_ReadFull r1 4 = (Inr ty, r2)"
    using assms 1 by (cases "io_ReadFull r1 4") (auto simp: read_header_def Let_def split: sum.splits)
  note p = io_ReadFull_Inr [OF 1] io_ReadFull_Inr [OF 2]
  show ?thesis
  proof (cases "uint (Uint32 buf) = 1")
    case True
    obtain buf8 r3 where 3: "io_ReadFull r2 8 = (Inr buf8, r3)"
      using assms 1 2 True by (cases "io_ReadFull r2 8") (auto simp: read_header_def Let_def split: sum.splits)
    from True assms 1 2 3 p io_ReadFull_Inr [OF 3] show ?thesis
      by (intro exI [of _ "buf @ ty @ buf8"]) (auto simp: read_header_def Let_def)
  next
    case False
    with assms 1 2 p show ?thesis
      by (intro exI [of _ "buf @ ty"]) (auto simp: read_header_def Let_def)
  qed
qed

lemma skipRest_pending:
  "skipRest r n = (e, r') \<Longrightarrow> pending (rd_br r') = drop n (pending (rd_br r)) \<and> after (rd_br r') = after (rd_br r) \<and>
     seekable r' = seekable r \<and> noMoreBoxes r' = noMoreBoxes r \<and> pos r' = pos r"
  by (auto simp: skipRest_def Let_def split: if_splits)

text \<open>
  A box that is read lies inside the input: its header and body are consecutive pieces of it, and
  what the reader has left to deliver starts at the body.
\<close>

lemma ReadBox_Inr:
  assumes "ReadBox r = (Inr b, r')"
  shows "\<exists>skip hd. pending (rd_br r) = skip @ hd @ pending (rd_br r') \<and> int (length hd) = headerSize b \<and>
    headerSize b \<in> {8, 16} \<and> (\<exists>tl. pending (rd_br r') = pending (body b) @ tl) \<and> slurp b = None \<and>
    length (pending (rd_br r)) \<ge> 8 + length (pending (rd_br r'))"
proof -
  obtain r1 where r1: "read_header r1 = read_header r1" "pending (rd_br r1) = drop (case lastN r of None \<Rightarrow> 0 | Some n \<Rightarrow> n) (pending (rd_br r))"
    and case1: "(case lastN r of None \<Rightarrow> (None, r) | Some n \<Rightarrow> skipRest r n) = (None, r1)"
    using assms by (cases "lastN r") (auto simp: ReadBox_def split: if_splits option.splits prod.splits dest: skipRest_pending)
  obtain b0 r2 where h: "read_header r1 = (Inr b0, r2)"
    using assms case1 by (cases "read_header r1") (auto simp: ReadBox_def split: if_splits sum.splits)
  obtain hd where hd: "pending (rd_br r1) = hd @ pending (rd_br r2)" "int (length hd) = headerSize b0" "headerSize b0 \<in> {8, 16}"
    "body b0 = rd_br r2" "slurp b0 = None"
    using read_header_Inr [OF h] by blast
  have b: "headerSize b = headerSize b0" "slurp b = slurp b0" "rd_br r' = rd_br r2"
    "pending (body b) = pending (rd_br r2) \<or> (\<exists>n. pending (body b) = take n (pending (rd_br r2)))"
    using assms case1 h hd(4) by (auto simp: ReadBox_def Let_def limit_body_def split: if_splits)
  let ?skip = "take (case lastN r of None \<Rightarrow> 0 | Some n \<Rightarrow> n) (pending (rd_br r))"
  have p: "pending (rd_br r) = ?skip @ hd @ pending (rd_br r')"
    using r1(2) hd(1) b(3) by (metis append_take_drop_id)
  moreover have "\<exists>tl. pending (rd_br r') = pending (body b) @ tl"
    using b(3,4) by (metis append_Nil2 append_take_drop_id)
  moreover have "8 \<le> length hd" using hd(2,3) by auto
  then have "length (pending (rd_br r)) \<ge> 8 + length (pending (rd_br r'))"
    using arg_cong [OF p, of length] by simp
  ultimately show ?thesis using hd b by metis
qed

section \<open>Reading all boxes of a body\<close>

text \<open>
  The loop of \<open>parseAppendBoxes\<close>: each inner box is read, its body slurped and the box appended.
  The result is the error, if any, the boxes and the reader.
\<close>

function parse_boxes :: "Reader \<Rightarrow> box list \<Rightarrow> berr option \<times> box list \<times> Reader" where
  "parse_boxes boxr dst =
     (case ReadBox boxr of
       (Inl e, boxr) \<Rightarrow> (if e = IOErr EOF then (None, dst, boxr) else (Some e, dst, boxr))
     | (Inr inner, boxr') \<Rightarrow>
         (case readBody inner of
           (bs, Some e) \<Rightarrow> (Some (IOErr e), dst, boxr')
         | (bs, None) \<Rightarrow> parse_boxes (consume (length bs) boxr') (dst @ [inner\<lparr>slurp := Some bs\<rparr>])))"
  by pat_completeness auto
termination
  by (relation "measure (\<lambda>(r, dst). length (pending (rd_br r)))") (auto simp: consume_def dest!: ReadBox_Inr [OF sym])

definition parseAppendBoxes :: "bufReader \<Rightarrow> box list \<times> bufReader" where
  "parseAppendBoxes rd =
     (if br_err rd \<noteq> None then ([], rd)
      else let (e, dst, boxr) = parse_boxes (NewReader (br_in rd) False) [] in
        (dst, rd\<lparr>br_in := rd_br boxr, br_err := e\<rparr>))"

declare parse_boxes.simps [simp del]

end
