(* ===== verification/BMFF_Parse.thy ===== *)
theory BMFF_Parse
  imports BMFF_Reader
begin

text \<open>
  The box parsers of \<open>src/media/heif/bmff/bmff.go\<close> and \<open>src/media/heif/bmff/quicktime.go\<close>. A parser
  takes the box and a \<open>bufReader\<close> of its body. \<open>Parse\<close> looks the parser up by the box type; the
  parsers that parse their children take \<open>Parse\<close> as an argument, and the recursion ends because a
  child's body is at least eight bytes shorter than its parent's.

  \<open>box.Parse\<close> stores its result in the box; parsing a slurped box again gives the same, so the model
  has no such field.
\<close>

unbundle bit_operations_syntax

section \<open>The boxes\<close>

record FullBox =
  fb_box :: box
  Version :: byte
  Flags :: "32 word"

record FileTypeBox =
  ft_box :: box
  MajorBrand :: bytes
  MinorVersion :: bytes
  Compatible :: "bytes list"

record MetaBox =
  mb_fb :: FullBox
  QuickTime :: bool
  mb_Children :: "box list"

record ItemInfoEntry =
  ie_fb :: FullBox
  ie_ItemID :: "16 word"
  ProtectionIndex :: "16 word"
  ItemType :: bytes
  ie_Name :: bytes
  ContentType :: bytes
  ContentEncoding :: bytes
  ItemURIType :: bytes

record ItemInfoBox =
  ib_fb :: FullBox
  Count :: "16 word"
  ItemInfos :: "ItemInfoEntry list"

record ItemPropertyContainerBox =
  ipc_box :: box
  ipc_Properties :: "box list"

record ItemProperty =
  Essential :: bool
  Index :: "16 word"

record ItemPropertyAssociationItem =
  ipai_ItemID :: "32 word"
  AssociationsCount :: nat
  ipai_Associations :: "ItemProperty list"

record ItemPropertyAssociation =
  ipa_fb :: FullBox
  ipa_EntryCount :: "32 word"
  Entries :: "ItemPropertyAssociationItem list"

record ItemPropertiesBox =
  ip_box :: box
  PropertyContainer :: ItemPropertyContainerBox
  Associations :: "ItemPropertyAssociation list"

record ImageSpatialExtentsProperty =
  ispe_fb :: FullBox
  ImageWidth :: "32 word"
  ImageHeight :: "32 word"

record OffsetLength =
  Offset :: "64 word"
  Length :: "64 word"

record ItemLocationBoxEntry =
  ent_ItemID :: "32 word"
  ConstructionMethod :: byte
  DataReferenceIndex :: "16 word"
  BaseOffset :: "64 word"
  ExtentCount :: "16 word"
  Extents :: "OffsetLength list"

record ItemLocationBox =
  ilb_fb :: FullBox
  offsetSize :: byte
  lengthSize :: byte
  baseOffsetSize :: byte
  indexSize :: byte
  ItemCount :: "32 word"
  ilb_Items :: "ItemLocationBoxEntry list"

record HandlerBox =
  hb_fb :: FullBox
  HandlerType :: bytes
  hb_Name :: bytes

record DataInformationBox =
  dib_box :: box
  dib_Children :: "box list"

record DataReferenceBox =
  drb_fb :: FullBox
  drb_EntryCount :: "32 word"
  drb_Children :: "box list"

record PrimaryItemBox =
  pib_fb :: FullBox
  pib_ItemID :: "32 word"

record ItemReference =
  ref_Type :: BoxType
  FromItemID :: "32 word"
  ToItemIDs :: "32 word list"

record ItemReferenceBox =
  irb_fb :: FullBox
  References :: "ItemReference list"

record ImageRotation =
  irot_box :: box
  Angle :: byte

record MovieHeaderBox =
  mh_fb :: FullBox
  CreationTime :: "64 word"
  ModificationTime :: "64 word"
  TimeScale :: "32 word"
  Duration :: "64 word"

record MetadataKey =
  Namespace :: bytes
  key_Name :: bytes

record KeysBox =
  kb_fb :: FullBox
  Keys :: "MetadataKey list"

record DataBox =
  db_box :: box
  DataType :: "32 word"
  Locale :: "32 word"
  Value :: bytes

record MetadataItem =
  mi_box :: box
  KeyIndex :: "32 word"
  Data :: "DataBox list"

record ItemListBox =
  il_box :: box
  il_Items :: "MetadataItem list"

text \<open>The dynamic types behind the interface \<open>Box\<close>.\<close>

datatype Box =
    RawBox box | FileType_Box FileTypeBox | Meta_Box MetaBox | ItemInfoEntry_Box ItemInfoEntry
  | ItemInfo_Box ItemInfoBox | ItemPropertyContainer_Box ItemPropertyContainerBox
  | ItemProperties_Box ItemPropertiesBox | ItemPropertyAssociation_Box ItemPropertyAssociation
  | ImageSpatialExtents_Box ImageSpatialExtentsProperty | ItemLocation_Box ItemLocationBox
  | Handler_Box HandlerBox | DataInformation_Box DataInformationBox | DataReference_Box DataReferenceBox
  | PrimaryItem_Box PrimaryItemBox | ItemReference_Box ItemReferenceBox | ImageRotation_Box ImageRotation
  | MovieHeader_Box MovieHeaderBox | Keys_Box KeysBox | ItemList_Box ItemListBox | Data_Box DataBox

section \<open>Simple parsers\<close>

definition readFullBox :: "box \<Rightarrow> bufReader \<Rightarrow> berr + (FullBox \<times> bufReader)" where
  "readFullBox outer br = (case Peek br 4 of
     Inl e \<Rightarrow> Inl (Wrap ''failed to read 4 bytes of FullBox'' e)
   | Inr buf \<Rightarrow> Inr (\<lparr>fb_box = outer, Version = buf ! 0, Flags = Uint32 (buf[0 := 0])\<rparr>, Discard 4 br))"

function compatible_loop :: "bufReader \<Rightarrow> bytes list \<Rightarrow> berr + bytes list" where
  "compatible_loop br acc = (case Peek br 4 of
     Inl e \<Rightarrow> (if e = IOErr EOF then Inr acc else Inl e)
   | Inr buf \<Rightarrow> compatible_loop (Discard 4 br) (acc @ [buf]))"
  by pat_completeness auto
termination
  by (relation "measure (\<lambda>(br, acc). length (pending (br_in br)))") (auto simp: Peek_def Discard_def split: if_splits)

definition parseFileTypeBox :: "box \<Rightarrow> bufReader \<Rightarrow> berr + Box" where
  "parseFileTypeBox outer br = (case Peek br 8 of
     Inl e \<Rightarrow> Inl e
   | Inr buf \<Rightarrow> (case compatible_loop (Discard 8 br) [] of
       Inl e \<Rightarrow> Inl e
     | Inr cs \<Rightarrow> Inr (FileType_Box \<lparr>ft_box = outer, MajorBrand = take 4 buf, MinorVersion = drop 4 buf, Compatible = cs\<rparr>)))"

text \<open>A parser that ends in \<open>return v, br.parseAppendBoxes(&v.Children)\<close> fails if that call does.\<close>

definition with_children :: "bufReader \<Rightarrow> (box list \<Rightarrow> Box) \<Rightarrow> berr + Box" where
  "with_children br mk = (let (cs, br) = parseAppendBoxes br in
     case br_err br of None \<Rightarrow> Inr (mk cs) | Some e \<Rightarrow> Inl e)"

definition parseMetaBox :: "box \<Rightarrow> bufReader \<Rightarrow> berr + Box" where
  "parseMetaBox outer br =
     (if (case Peek br 8 of Inl _ \<Rightarrow> False | Inr buf \<Rightarrow> drop 4 buf = ascii ''hdlr'') then
        with_children br (\<lambda>cs. Meta_Box \<lparr>mb_fb = \<lparr>fb_box = outer, Version = 0, Flags = 0\<rparr>, QuickTime = True, mb_Children = cs\<rparr>)
      else (case readFullBox outer br of
        Inl e \<Rightarrow> Inl e
      | Inr (fb, br) \<Rightarrow> with_children br (\<lambda>cs. Meta_Box \<lparr>mb_fb = fb, QuickTime = False, mb_Children = cs\<rparr>)))"

definition finish :: "bufReader \<Rightarrow> Box \<Rightarrow> berr + Box" where
  "finish br v = (case br_err br of None \<Rightarrow> Inr v | Some e \<Rightarrow> Inl e)"

text \<open>The item type is peeked at and not discarded, so the name read next starts with it.\<close>

definition parseItemInfoEntry :: "box \<Rightarrow> bufReader \<Rightarrow> berr + Box" where
  "parseItemInfoEntry outer br = (case readFullBox outer br of
     Inl e \<Rightarrow> Inl e
   | Inr (fb, br) \<Rightarrow>
       if Version fb \<noteq> 2 then Inl (Errorf ''TODO: found version infe box. Only 2 is supported now.'')
       else let (itemID, br) = readUint16 br; (protection, br) = readUint16 br in
         case br_err br of Some e \<Rightarrow> Inl e | None \<Rightarrow>
           (case Peek br 4 of
              Inl e \<Rightarrow> Inl e
            | Inr typ \<Rightarrow>
                let (nam, br) = readString br;
                    (ct, ce, uri, br) =
                      (if typ = ascii ''mime'' then
                         (let (ct, br) = readString br;
                              (ce, br) = (if anyRemain br then readString br else ([], br)) in (ct, ce, [], br))
                       else if typ = ascii ''uri '' then (let (uri, br) = readString br in ([], [], uri, br))
                       else ([], [], [], br)) in
                finish br (ItemInfoEntry_Box
                  \<lparr>ie_fb = fb, ie_ItemID = itemID, ProtectionIndex = protection, ItemType = typ, ie_Name = nam,
                   ContentType = ct, ContentEncoding = ce, ItemURIType = uri\<rparr>)))"

definition parseItemPropertyContainerBox :: "box \<Rightarrow> bufReader \<Rightarrow> berr + Box" where
  "parseItemPropertyContainerBox outer br =
     with_children br (\<lambda>cs. ItemPropertyContainer_Box \<lparr>ipc_box = outer, ipc_Properties = cs\<rparr>)"

text \<open>The association loops; the first argument counts the turns left.\<close>

function ipma_props :: "nat \<Rightarrow> bool \<Rightarrow> bufReader \<Rightarrow> ItemProperty list \<Rightarrow> ItemProperty list \<times> bufReader" where
  "ipma_props n wide br acc =
     (if n > 0 \<and> ok br then
        (let (fst_byte, br) = readUint8 br;
             essential = (fst_byte AND 128 \<noteq> 0);
             fst_byte = fst_byte AND NOT 128;
             (idx, br) = (if wide then (let (second, br) = readUint8 br in
                            (push_bit 8 (ucast fst_byte) OR ucast second, br))
                          else (ucast fst_byte, br)) in
         ipma_props (n - 1) wide br (acc @ [\<lparr>Essential = essential, Index = idx\<rparr>]))
      else (acc, br))"
  by pat_completeness auto
termination
  by (relation "measure (\<lambda>(n, wide, br, acc). n)") auto

function ipma_entries ::
  "nat \<Rightarrow> FullBox \<Rightarrow> bufReader \<Rightarrow> ItemPropertyAssociationItem list \<Rightarrow> ItemPropertyAssociationItem list \<times> bufReader" where
  "ipma_entries n fb br acc =
     (if n > 0 \<and> ok br then
        (let (itemID, br) = (if Version fb < 1 then (let (v, br) = readUint16 br in (ucast v, br)) else readUint32 br);
             (assocCount, br) = readUint8 br;
             (asses, br) = ipma_props (unat assocCount) (Flags fb AND 1 \<noteq> 0) br [] in
         ipma_entries (n - 1) fb br
           (acc @ [\<lparr>ipai_ItemID = itemID, AssociationsCount = unat assocCount, ipai_Associations = asses\<rparr>]))
      else (acc, br))"
  by pat_completeness auto
termination
  by (relation "measure (\<lambda>(n, fb, br, acc). n)") auto

definition parseItemPropertyAssociation :: "box \<Rightarrow> bufReader \<Rightarrow> berr + Box" where
  "parseItemPropertyAssociation outer br = (case readFullBox outer br of
     Inl e \<Rightarrow> Inl e
   | Inr (fb, br) \<Rightarrow>
       let (count, br) = readUint32 br; (ents, br) = ipma_entries (unat count) fb br [] in
       finish br (ItemPropertyAssociation_Box \<lparr>ipa_fb = fb, ipa_EntryCount = count, Entries = ents\<rparr>))"

definition parseImageSpatialExtentsProperty :: "box \<Rightarrow> bufReader \<Rightarrow> berr + Box" where
  "parseImageSpatialExtentsProperty outer br = (case readFullBox outer br of
     Inl e \<Rightarrow> Inl e
   | Inr (fb, br) \<Rightarrow>
       let (w, br) = readUint32 br; (h, br) = readUint32 br in
       finish br (ImageSpatialExtents_Box \<lparr>ispe_fb = fb, ImageWidth = w, ImageHeight = h\<rparr>))"

function iloc_extents ::
  "nat \<Rightarrow> ItemLocationBox \<Rightarrow> bufReader \<Rightarrow> OffsetLength list \<Rightarrow> OffsetLength list \<times> bufReader" where
  "iloc_extents n ilb br acc =
     (if n > 0 \<and> ok br then
        (let br = (if Version (ilb_fb ilb) > 0 then snd (readUintN (unat (indexSize ilb) * 8) br) else br);
             (off, br) = readUintN (unat (offsetSize ilb) * 8) br;
             (len, br) = readUintN (unat (lengthSize ilb) * 8) br in
         if br_err br \<noteq> None then (acc, br)
         else iloc_extents (n - 1) ilb br (acc @ [\<lparr>Offset = off, Length = len\<rparr>]))
      else (acc, br))"
  by pat_completeness auto
termination
  by (relation "measure (\<lambda>(n, ilb, br, acc). n)") auto

function iloc_items ::
  "nat \<Rightarrow> ItemLocationBox \<Rightarrow> bufReader \<Rightarrow> ItemLocationBoxEntry list \<Rightarrow> ItemLocationBoxEntry list \<times> bufReader" where
  "iloc_items n ilb br acc =
     (if n > 0 \<and> ok br then
        (let ver = Version (ilb_fb ilb);
             (itemID, br) = (if ver < 2 then (let (v, br) = readUint16 br in (ucast v, br)) else readUint32 br);
             (cmeth, br) = (if ver > 0 then (let (v, br) = readUint16 br in (ucast (v AND 15), br)) else (0, br));
             (dri, br) = readUint16 br;
             (base, br) = readUintN (unat (baseOffsetSize ilb) * 8) br;
             (cnt, br) = readUint16 br;
             (exts, br) = iloc_extents (unat cnt) ilb br [] in
         iloc_items (n - 1) ilb br
           (acc @ [\<lparr>ent_ItemID = itemID, ConstructionMethod = cmeth, DataReferenceIndex = dri, BaseOffset = base,
                    ExtentCount = cnt, Extents = exts\<rparr>]))
      else (acc, br))"
  by pat_completeness auto
termination
  by (relation "measure (\<lambda>(n, ilb, br, acc). n)") auto

definition parseItemLocationBox :: "box \<Rightarrow> bufReader \<Rightarrow> berr + Box" where
  "parseItemLocationBox outer br = (case readFullBox outer br of
     Inl e \<Rightarrow> Inl e
   | Inr (fb, br) \<Rightarrow> (case Peek br 4 of
       Inl e \<Rightarrow> Inl e
     | Inr buf \<Rightarrow>
         let br = Discard 2 br;
             (cnt, br) = (if Version fb < 2 then (let (n, br) = readUint16 br in (ucast n, br)) else readUint32 br);
             ilb = \<lparr>ilb_fb = fb, offsetSize = drop_bit 4 (buf ! 0), lengthSize = buf ! 0 AND 15,
                    baseOffsetSize = drop_bit 4 (buf ! 1),
                    indexSize = (if Version fb > 0 then buf ! 1 AND 15 else 0),
                    ItemCount = cnt, ilb_Items = []\<rparr>;
             (items, br) = iloc_items (unat cnt) ilb br [] in
         finish br (ItemLocation_Box (ilb\<lparr>ilb_Items := items\<rparr>))))"

definition parseHandlerBox :: "box \<Rightarrow> bufReader \<Rightarrow> berr + Box" where
  "parseHandlerBox gen br = (case readFullBox gen br of
     Inl e \<Rightarrow> Inl e
   | Inr (fb, br) \<Rightarrow> (case Peek br 20 of
       Inl e \<Rightarrow> Inl e
     | Inr buf \<Rightarrow>
         let (nam, err, br) = ReadString (Discard 20 br) in
         if err \<noteq> None \<and> err \<noteq> Some (IOErr EOF) then Inl (the err)
         else Inr (Handler_Box \<lparr>hb_fb = fb, HandlerType = take 4 (drop 4 buf), hb_Name = TrimSuffix0 nam\<rparr>)))"

definition parseDataInformationBox :: "box \<Rightarrow> bufReader \<Rightarrow> berr + Box" where
  "parseDataInformationBox gen br =
     with_children br (\<lambda>cs. DataInformation_Box \<lparr>dib_box = gen, dib_Children = cs\<rparr>)"

definition parseDataReferenceBox :: "box \<Rightarrow> bufReader \<Rightarrow> berr + Box" where
  "parseDataReferenceBox gen br = (case readFullBox gen br of
     Inl e \<Rightarrow> Inl e
   | Inr (fb, br) \<Rightarrow> (let (cnt, br) = readUint32 br in
       with_children br (\<lambda>cs. DataReference_Box \<lparr>drb_fb = fb, drb_EntryCount = cnt, drb_Children = cs\<rparr>)))"

definition parsePrimaryItemBox :: "box \<Rightarrow> bufReader \<Rightarrow> berr + Box" where
  "parsePrimaryItemBox gen br = (case readFullBox gen br of
     Inl e \<Rightarrow> Inl e
   | Inr (fb, br) \<Rightarrow>
       let (itemID, br) = (if Version fb = 0 then (let (v, br) = readUint16 br in (ucast v, br)) else readUint32 br) in
       finish br (PrimaryItem_Box \<lparr>pib_fb = fb, pib_ItemID = itemID\<rparr>))"

definition iref_readID :: "FullBox \<Rightarrow> bufReader \<Rightarrow> 32 word \<times> bufReader" where
  "iref_readID fb rr = (if Version fb = 0 then (let (v, rr) = readUint16 rr in (ucast v, rr)) else readUint32 rr)"

function iref_ids :: "nat \<Rightarrow> FullBox \<Rightarrow> bufReader \<Rightarrow> 32 word list \<Rightarrow> 32 word list \<times> bufReader" where
  "iref_ids n fb rr acc =
     (if n > 0 \<and> ok rr then (let (v, rr) = iref_readID fb rr in iref_ids (n - 1) fb rr (acc @ [v])) else (acc, rr))"
  by pat_completeness auto
termination
  by (relation "measure (\<lambda>(n, fb, rr, acc). n)") auto

primrec iref_refs :: "FullBox \<Rightarrow> box list \<Rightarrow> ItemReference list \<Rightarrow> berr + ItemReference list" where
  "iref_refs fb [] acc = Inr acc"
| "iref_refs fb (rb # rbs) acc =
     (let rr = br_of (Body rb);
          (from_id, rr) = iref_readID fb rr;
          (n, rr) = readUint16 rr;
          (ids, rr) = iref_ids (unat n) fb rr [] in
      case br_err rr of
        Some e \<Rightarrow> Inl (Wrap ''error parsing item reference'' e)
      | None \<Rightarrow> iref_refs fb rbs (acc @ [\<lparr>ref_Type = boxType rb, FromItemID = from_id, ToItemIDs = ids\<rparr>]))"

definition parseItemReferenceBox :: "box \<Rightarrow> bufReader \<Rightarrow> berr + Box" where
  "parseItemReferenceBox gen br = (case readFullBox gen br of
     Inl e \<Rightarrow> Inl e
   | Inr (fb, br) \<Rightarrow> (let (refs, br) = parseAppendBoxes br in
       case br_err br of
         Some e \<Rightarrow> Inl e
       | None \<Rightarrow> (case iref_refs fb refs [] of
           Inl e \<Rightarrow> Inl e
         | Inr rs \<Rightarrow> Inr (ItemReference_Box \<lparr>irb_fb = fb, References = rs\<rparr>))))"

definition parseImageRotation :: "box \<Rightarrow> bufReader \<Rightarrow> berr + Box" where
  "parseImageRotation gen br = (let (v, br) = readUint8 br in
     finish br (ImageRotation_Box \<lparr>irot_box = gen, Angle = v AND 3\<rparr>))"

section \<open>QuickTime metadata\<close>

definition parseMovieHeaderBox :: "box \<Rightarrow> bufReader \<Rightarrow> berr + Box" where
  "parseMovieHeaderBox outer br = (case readFullBox outer br of
     Inl e \<Rightarrow> Inl e
   | Inr (fb, br) \<Rightarrow>
       if Version fb = 0 then
         (let (ct, br) = readUint32 br; (mt, br) = readUint32 br; (ts, br) = readUint32 br; (d, br) = readUint32 br in
          finish br (MovieHeader_Box \<lparr>mh_fb = fb, CreationTime = ucast ct, ModificationTime = ucast mt,
                                      TimeScale = ts, Duration = ucast d\<rparr>))
       else if Version fb = 1 then
         (let (ct, br) = readUintN 64 br; (mt, br) = readUintN 64 br; (ts, br) = readUint32 br; (d, br) = readUintN 64 br in
          finish br (MovieHeader_Box \<lparr>mh_fb = fb, CreationTime = ct, ModificationTime = mt, TimeScale = ts, Duration = d\<rparr>))
       else Inl (Errorf ''unsupported mvhd version''))"

text \<open>
  \<open>io.ReadFull(br, ns[:])\<close> and \<open>io.ReadAll(io.LimitReader(br, n))\<close> read past the sticky error, which
  is not set when they are called.
\<close>

function keys_loop :: "nat \<Rightarrow> bufReader \<Rightarrow> MetadataKey list \<Rightarrow> berr + (MetadataKey list \<times> bufReader)" where
  "keys_loop i br acc =
     (if i > 0 \<and> ok br then
        (let (sz, br) = readUint32 br in
         if \<not> ok br then Inr (acc, br)
         else if sz < 8 then Inl (Errorf ''invalid keys entry size'')
         else let (ns, err, s) = ReadFull (br_in br) 4 in
           case err of
             Some e \<Rightarrow> Inl (IOErr e)
           | None \<Rightarrow>
               let n = unat sz - 8; (nam, err) = ReadAll (limit_body s n) in
               case err of
                 Some e \<Rightarrow> Inl (IOErr e)
               | None \<Rightarrow>
                   if length nam \<noteq> n then Inl (IOErr ErrUnexpectedEOF)
                   else keys_loop (i - 1) (br\<lparr>br_in := s\<lparr>pending := drop n (pending s)\<rparr>\<rparr>)
                          (acc @ [\<lparr>Namespace = ns, key_Name = nam\<rparr>]))
      else Inr (acc, br))"
  by pat_completeness auto
termination
  by (relation "measure (\<lambda>(i, br, acc). i)") auto

definition parseKeysBox :: "box \<Rightarrow> bufReader \<Rightarrow> berr + Box" where
  "parseKeysBox outer br = (case readFullBox outer br of
     Inl e \<Rightarrow> Inl e
   | Inr (fb, br) \<Rightarrow> (let (count, br) = readUint32 br in
       case keys_loop (unat count) br [] of
         Inl e \<Rightarrow> Inl e
       | Inr (ks, br) \<Rightarrow> finish br (Keys_Box \<lparr>kb_fb = fb, Keys = ks\<rparr>)))"

definition parseDataBox :: "box \<Rightarrow> bufReader \<Rightarrow> berr + Box" where
  "parseDataBox outer br =
     (let (ty, br) = readUint32 br; (locl, br) = readUint32 br in
      if \<not> ok br then Inl errShortDataBox
      else let (val, err) = ReadAll (br_in br) in
        case err of
          Some e \<Rightarrow> Inl (IOErr e)
        | None \<Rightarrow> Inr (Data_Box \<lparr>db_box = outer, DataType = ty, Locale = locl, Value = val\<rparr>))"

text \<open>
  The loop over the boxes of one \<open>ilst\<close> item. Parsing a data box reads of its body, which does not
  change what \<open>ReadBox\<close> does next (\<open>ReadBox_consume\<close>), so the reader is passed on as it is.
\<close>

function ilst_data :: "(box \<Rightarrow> berr + Box) \<Rightarrow> Reader \<Rightarrow> DataBox list \<Rightarrow> berr + DataBox list" where
  "ilst_data parse r acc =
     (case ReadBox r of
       (Inl e, r) \<Rightarrow> (if e = IOErr EOF then Inr acc else Inl (Wrap ''reading ilst item'' e))
     | (Inr b, r') \<Rightarrow>
         if \<not> EqualString (boxType b) (ascii ''data'') then ilst_data parse r' acc
         else (case parse b of
           Inl e \<Rightarrow> Inl (Wrap ''parsing ilst item data'' e)
         | Inr (Data_Box d) \<Rightarrow> ilst_data parse r' (acc @ [d])
         | Inr _ \<Rightarrow> Inl (Errorf ''interface conversion panic'')))"
  by pat_completeness auto
termination
  by (relation "measure (\<lambda>(parse, r, acc). length (pending (rd_br r)))") (auto dest!: ReadBox_Inr [OF sym])

fun ilst_items :: "(box \<Rightarrow> berr + Box) \<Rightarrow> box list \<Rightarrow> MetadataItem list \<Rightarrow> berr + MetadataItem list" where
  "ilst_items parse [] acc = Inr acc"
| "ilst_items parse (cb # cbs) acc =
     (case ilst_data parse (NewReader (Body cb) True) [] of
       Inl e \<Rightarrow> Inl e
     | Inr ds \<Rightarrow> ilst_items parse cbs (acc @ [\<lparr>mi_box = cb, KeyIndex = Uint32 (boxType cb), Data = ds\<rparr>]))"

definition parseItemListBox :: "(box \<Rightarrow> berr + Box) \<Rightarrow> box \<Rightarrow> bufReader \<Rightarrow> berr + Box" where
  "parseItemListBox parse outer br = (let (cs, br) = parseAppendBoxes br in
     case br_err br of
       Some e \<Rightarrow> Inl e
     | None \<Rightarrow> (case ilst_items parse cs [] of
         Inl e \<Rightarrow> Inl e
       | Inr items \<Rightarrow> Inr (ItemList_Box \<lparr>il_box = outer, il_Items = items\<rparr>)))"

section \<open>Parsers that parse their children\<close>

fun iinf_entries :: "(box \<Rightarrow> berr + Box) \<Rightarrow> box list \<Rightarrow> ItemInfoEntry list \<Rightarrow> berr + ItemInfoEntry list" where
  "iinf_entries parse [] acc = Inr acc"
| "iinf_entries parse (b # bs) acc = (case parse b of
     Inl e \<Rightarrow> Inl (Wrap ''error parsing ItemInfoEntry in ItemInfoBox'' e)
   | Inr pb \<Rightarrow> iinf_entries parse bs (case pb of ItemInfoEntry_Box iie \<Rightarrow> acc @ [iie] | _ \<Rightarrow> acc))"

definition parseItemInfoBox :: "(box \<Rightarrow> berr + Box) \<Rightarrow> box \<Rightarrow> bufReader \<Rightarrow> berr + Box" where
  "parseItemInfoBox parse outer br = (case readFullBox outer br of
     Inl e \<Rightarrow> Inl e
   | Inr (fb, br) \<Rightarrow>
       let (cnt, br) = readUint16 br; (cs, br) = parseAppendBoxes br in
       case br_err br of
         Some e \<Rightarrow> Inl e
       | None \<Rightarrow> (case iinf_entries parse cs [] of
           Inl e \<Rightarrow> Inl e
         | Inr ies \<Rightarrow> Inr (ItemInfo_Box \<lparr>ib_fb = fb, Count = cnt, ItemInfos = ies\<rparr>)))"

fun iprp_associations ::
  "(box \<Rightarrow> berr + Box) \<Rightarrow> box list \<Rightarrow> ItemPropertyAssociation list \<Rightarrow> berr + ItemPropertyAssociation list" where
  "iprp_associations parse [] acc = Inr acc"
| "iprp_associations parse (b # bs) acc = (case parse b of
     Inl e \<Rightarrow> Inl (Wrap ''failed to parse association box'' e)
   | Inr (ItemPropertyAssociation_Box ipa) \<Rightarrow> iprp_associations parse bs (acc @ [ipa])
   | Inr _ \<Rightarrow> Inl (Errorf ''unexpected box instead of ItemPropertyAssociation''))"

definition parseItemPropertiesBox :: "(box \<Rightarrow> berr + Box) \<Rightarrow> box \<Rightarrow> bufReader \<Rightarrow> berr + Box" where
  "parseItemPropertiesBox parse outer br = (let (boxes, br) = parseAppendBoxes br in
     case br_err br of
       Some e \<Rightarrow> Inl e
     | None \<Rightarrow>
         if length boxes < 2 then Inl (Errorf ''expect at least 2 boxes in children; got 0'')
         else (case parse (boxes ! 0) of
           Inl e \<Rightarrow> Inl (Wrap ''failed to parse first box'' e)
         | Inr (ItemPropertyContainer_Box pc) \<Rightarrow>
             (case iprp_associations parse (tl boxes) [] of
               Inl e \<Rightarrow> Inl e
             | Inr asses \<Rightarrow> Inr (ItemProperties_Box \<lparr>ip_box = outer, PropertyContainer = pc, Associations = asses\<rparr>))
         | Inr _ \<Rightarrow> Inl (Errorf ''unexpected type for ItemPropertieBox.PropertyContainer'')))"

text \<open>The table \<open>parsers\<close>, a parser for each known box type.\<close>

definition parsers :: "(box \<Rightarrow> berr + Box) \<Rightarrow> BoxType \<Rightarrow> (box \<Rightarrow> bufReader \<Rightarrow> berr + Box) option" where
  "parsers parse = map_of
     [(ascii ''data'', parseDataBox), (ascii ''dinf'', parseDataInformationBox),
      (ascii ''dref'', parseDataReferenceBox), (ascii ''ftyp'', parseFileTypeBox),
      (ascii ''hdlr'', parseHandlerBox), (ascii ''iinf'', parseItemInfoBox parse),
      (ascii ''ilst'', parseItemListBox parse), (ascii ''infe'', parseItemInfoEntry),
      (ascii ''iloc'', parseItemLocationBox), (ascii ''ipco'', parseItemPropertyContainerBox),
      (ascii ''ipma'', parseItemPropertyAssociation), (ascii ''iprp'', parseItemPropertiesBox parse),
      (ascii ''iref'', parseItemReferenceBox), (ascii ''irot'', parseImageRotation),
      (ascii ''ispe'', parseImageSpatialExtentsProperty), (ascii ''keys'', parseKeysBox),
      (ascii ''meta'', parseMetaBox), (ascii ''mvhd'', parseMovieHeaderBox),
      (ascii ''pitm'', parsePrimaryItemBox)]"

definition parse_with :: "(box \<Rightarrow> berr + Box) \<Rightarrow> box \<Rightarrow> berr + Box" where
  "parse_with parse b = (case parsers parse (boxType b) of
     None \<Rightarrow> Inl ErrUnknownBox
   | Some parser \<Rightarrow> parser b (br_of (Body b)))"

section \<open>Children are smaller\<close>

definition box_bytes :: "box \<Rightarrow> bytes" where
  "box_bytes b = pending (Body b)"

abbreviation left :: "bufReader \<Rightarrow> nat" where
  "left br \<equiv> length (pending (br_in br))"

lemma readBody_length: "length (fst (readBody b)) \<le> length (box_bytes b)"
  by (auto simp: readBody_def box_bytes_def ReadAll_def ReadFull_def Let_def)

lemma parse_boxes_children:
  "c \<in> set (fst (snd (parse_boxes r dst))) \<Longrightarrow> c \<in> set dst \<or> length (box_bytes c) + 8 \<le> length (pending (rd_br r))"
proof (induction r dst rule: parse_boxes.induct)
  case (1 r dst)
  obtain res r1 where rb: "ReadBox r = (res, r1)" by (metis surj_pair)
  show ?case
  proof (cases res)
    case (Inl e)
    with 1(2) rb show ?thesis by (subst (asm) parse_boxes.simps) (auto split: if_splits)
  next
    case (Inr b)
    obtain bs err where body: "readBody b = (bs, err)" by (metis surj_pair)
    from ReadBox_Inr [of r b r1] rb Inr
    have r1: "length (pending (rd_br r)) \<ge> 8 + length (pending (rd_br r1))" "length (pending (body b)) \<le> length (pending (rd_br r1))"
      and sl: "slurp b = None" by auto
    have bs: "length bs \<le> length (pending (rd_br r1))"
      using readBody_length [of b] body r1(2) sl by (simp add: box_bytes_def Body_def)
    show ?thesis
    proof (cases err)
      case (Some e)
      with 1(2) rb Inr body show ?thesis by (subst (asm) parse_boxes.simps) simp
    next
      case None
      then have "c \<in> set (fst (snd (parse_boxes (consume (length bs) r1) (dst @ [b\<lparr>slurp := Some bs\<rparr>]))))"
        using 1(2) rb Inr body by (subst (asm) parse_boxes.simps) simp
      from 1(1) [OF rb [symmetric] Inr body [symmetric] None this] show ?thesis
        using r1(1) bs by (auto simp: consume_def box_bytes_def Body_def)
    qed
  qed
qed

lemma parseAppendBoxes_children:
  "c \<in> set (fst (parseAppendBoxes br)) \<Longrightarrow> length (box_bytes c) + 8 \<le> left br"
  using parse_boxes_children [of c "NewReader (br_in br) False" "[]"]
  by (auto simp: parseAppendBoxes_def NewReader_def case_prod_unfold Let_def split: if_splits)

lemma readFullBox_left: "readFullBox outer br = Inr (fb, br') \<Longrightarrow> left br' \<le> left br"
  by (auto simp: readFullBox_def Discard_def split: sum.splits)

lemma readUint16_left: "readUint16 br = (v, br') \<Longrightarrow> left br' \<le> left br"
  by (auto simp: readUint16_def Discard_def set_err_def split: sum.splits if_splits)

lemma iinf_entries_cong:
  "(\<And>b. b \<in> set bs \<Longrightarrow> parse b = parse' b) \<Longrightarrow> iinf_entries parse bs acc = iinf_entries parse' bs acc"
  by (induction bs arbitrary: acc) (auto split: sum.split)

lemma iprp_associations_cong:
  "(\<And>b. b \<in> set bs \<Longrightarrow> parse b = parse' b) \<Longrightarrow> iprp_associations parse bs acc = iprp_associations parse' bs acc"
  by (induction bs arbitrary: acc) (auto split: sum.split Box.split)

lemma ilst_data_cong:
  "(\<And>c. length (box_bytes c) < length (pending (rd_br r)) \<Longrightarrow> parse c = parse' c) \<Longrightarrow>
     ilst_data parse r acc = ilst_data parse' r acc"
proof (induction "length (pending (rd_br r))" arbitrary: r acc rule: less_induct)
  case less
  obtain res r1 where rb: "ReadBox r = (res, r1)" by (metis surj_pair)
  show ?case
  proof (cases res)
    case (Inl e)
    with rb show ?thesis by (simp add: ilst_data.simps [of _ r])
  next
    case (Inr b)
    with rb have r1: "length (pending (rd_br r)) \<ge> 8 + length (pending (rd_br r1))" "length (pending (body b)) \<le> length (pending (rd_br r1))"
      and sl: "slurp b = None" using ReadBox_Inr [of r b r1] by auto
    have "parse b = parse' b" using r1 sl by (intro less.prems) (simp add: box_bytes_def Body_def)
    moreover have "ilst_data parse r1 acc' = ilst_data parse' r1 acc'" for acc'
      using r1(1) less.prems by (intro less.hyps) auto
    ultimately show ?thesis
      using rb Inr by (simp add: ilst_data.simps [of _ r] split: sum.split Box.split)
  qed
qed

lemma ilst_items_cong:
  "(\<And>cb c. cb \<in> set cbs \<Longrightarrow> length (box_bytes c) < length (box_bytes cb) \<Longrightarrow> parse c = parse' c) \<Longrightarrow>
     ilst_items parse cbs acc = ilst_items parse' cbs acc"
proof (induction cbs arbitrary: acc)
  case (Cons cb cbs)
  have "ilst_data parse (NewReader (Body cb) True) [] = ilst_data parse' (NewReader (Body cb) True) []"
    by (rule ilst_data_cong) (use Cons.prems [of cb] in \<open>simp add: NewReader_def flip: box_bytes_def\<close>)
  moreover have "ilst_items parse cbs acc' = ilst_items parse' cbs acc'" for acc'
    by (rule Cons.IH) (use Cons.prems in auto)
  ultimately show ?case by (simp split: sum.split)
qed simp

lemma parseItemInfoBox_cong:
  assumes "\<And>c. length (box_bytes c) < left br \<Longrightarrow> parse c = parse' c"
  shows "parseItemInfoBox parse outer br = parseItemInfoBox parse' outer br"
proof (cases "readFullBox outer br")
  case (Inr p)
  obtain fb br1 where p: "p = (fb, br1)" by (metis surj_pair)
  obtain cnt br2 where c: "readUint16 br1 = (cnt, br2)" by (metis surj_pair)
  obtain cs br3 where a: "parseAppendBoxes br2 = (cs, br3)" by (metis surj_pair)
  have le: "left br2 \<le> left br" using readFullBox_left [of outer br fb br1] readUint16_left [OF c] Inr p by simp
  have "iinf_entries parse cs [] = iinf_entries parse' cs []"
  proof (rule iinf_entries_cong, rule assms)
    fix b assume "b \<in> set cs"
    then show "length (box_bytes b) < left br" using parseAppendBoxes_children [of b br2] a le by simp
  qed
  with Inr p c a show ?thesis by (simp add: parseItemInfoBox_def Let_def split: option.split)
qed (simp add: parseItemInfoBox_def)

lemma parseItemPropertiesBox_cong:
  assumes "\<And>c. length (box_bytes c) < left br \<Longrightarrow> parse c = parse' c"
  shows "parseItemPropertiesBox parse outer br = parseItemPropertiesBox parse' outer br"
proof -
  obtain cs br3 where a: "parseAppendBoxes br = (cs, br3)" by (metis surj_pair)
  have smaller: "parse b = parse' b" if "b \<in> set cs" for b
    using parseAppendBoxes_children [of b br] a that by (intro assms) simp
  have "iprp_associations parse (tl cs) [] = iprp_associations parse' (tl cs) []"
    by (rule iprp_associations_cong) (use smaller list.set_sel(2) in \<open>metis tl_Nil\<close>)
  moreover have "parse (cs ! 0) = parse' (cs ! 0)" if "\<not> length cs < 2"
    using that by (intro smaller nth_mem) (cases cs, auto)
  ultimately show ?thesis using a by (simp add: parseItemPropertiesBox_def split: option.split sum.split Box.split)
qed

lemma parseItemListBox_cong:
  assumes "\<And>c. length (box_bytes c) < left br \<Longrightarrow> parse c = parse' c"
  shows "parseItemListBox parse outer br = parseItemListBox parse' outer br"
proof -
  obtain cs br3 where a: "parseAppendBoxes br = (cs, br3)" by (metis surj_pair)
  have "ilst_items parse cs [] = ilst_items parse' cs []"
  proof (rule ilst_items_cong, rule assms)
    fix cb c assume "cb \<in> set cs" "length (box_bytes c) < length (box_bytes cb)"
    then show "length (box_bytes c) < left br" using parseAppendBoxes_children [of cb br] a by simp
  qed
  then show ?thesis using a by (simp add: parseItemListBox_def split: option.split)
qed

lemma parse_with_cong [fundef_cong]:
  assumes "b = b'" and "\<And>c. length (box_bytes c) < length (box_bytes b') \<Longrightarrow> parse c = parse' c"
  shows "parse_with parse b = parse_with parse' b'"
proof -
  let ?br = "br_of (Body b')"
  have "left ?br = length (box_bytes b')" by (simp add: br_of_def box_bytes_def)
  then have "parseItemInfoBox parse b' ?br = parseItemInfoBox parse' b' ?br"
    "parseItemPropertiesBox parse b' ?br = parseItemPropertiesBox parse' b' ?br"
    "parseItemListBox parse b' ?br = parseItemListBox parse' b' ?br"
    using assms(2) by (auto intro!: parseItemInfoBox_cong parseItemPropertiesBox_cong parseItemListBox_cong)
  then show ?thesis unfolding assms(1) parse_with_def parsers_def by simp
qed

section \<open>Parse\<close>

function Parse :: "box \<Rightarrow> berr + Box" where
  "Parse b = parse_with Parse b"
  by pat_completeness auto
termination
  by (relation "measure (\<lambda>b. length (box_bytes b))") auto

text \<open>The reader is passed on as it is: see \<open>ReadBox_consume\<close>.\<close>

definition ReadAndParseBox :: "Reader \<Rightarrow> BoxType \<Rightarrow> (berr + Box) \<times> Reader" where
  "ReadAndParseBox r ty = (case ReadBox r of
     (Inl e, r) \<Rightarrow> (Inl (Wrap ''error reading box'' e), r)
   | (Inr b, r) \<Rightarrow>
       (if boxType b \<noteq> ty then (Inl (Errorf ''error reading box: got another box type instead''), r)
        else (case Parse b of
          Inl e \<Rightarrow> (Inl (Wrap ''error parsing read box'' e), r)
        | Inr pb \<Rightarrow> (Inr pb, r))))"

declare Parse.simps [simp del] compatible_loop.simps [simp del] ipma_props.simps [simp del]
  ipma_entries.simps [simp del] iloc_extents.simps [simp del] iloc_items.simps [simp del]
  iref_ids.simps [simp del] keys_loop.simps [simp del] ilst_data.simps [simp del]

end
