(* ===== verification/Heif_Model.thy ===== *)
theory Heif_Model
  imports BMFF_Parse
begin

text \<open>
  The package \<open>heif\<close> (\<open>src/media/heif/heif.go\<close>). A file is its bytes, read through \<open>ReadAt\<close>; \<open>getMeta\<close>
  caches the metadata in the \<open>File\<close>, so operations return the file along with their result.
  Assertions on the dynamic type of a parsed box that would panic return \<open>panic\<close>.
\<close>

unbundle bit_operations_syntax

section \<open>Files and items\<close>

datatype herr = BErr berr | HIO io_error | ErrNoEXIF | ErrUnknownItem | HErrorf string

abbreviation panic :: herr where
  "panic \<equiv> HErrorf ''panic: interface conversion''"

record BoxMeta =
  FileType :: "FileTypeBox option"
  Handler :: "HandlerBox option"
  PrimaryItem_box :: "PrimaryItemBox option"
  ItemInfo :: "ItemInfoBox option"
  m_Properties :: "ItemPropertiesBox option"
  ItemLocation :: "ItemLocationBox option"
  m_ItemReference :: "ItemReferenceBox option"

record File =
  ra :: bytes
  metaErr :: "herr option"
  meta :: "BoxMeta option"

record Item =
  ID :: "32 word"
  Info :: ItemInfoEntry
  Location :: "ItemLocationBoxEntry option"
  Item_Properties :: "Box list"

definition Open :: "bytes \<Rightarrow> File" where
  "Open f = \<lparr>ra = f, metaErr = None, meta = None\<rparr>"

primrec first_exif :: "ItemInfoEntry list \<Rightarrow> 32 word" where
  "first_exif [] = 0"
| "first_exif (ife # ifes) = (if ItemType ife = ascii ''Exif'' then ucast (ie_ItemID ife) else first_exif ifes)"

definition EXIFItemID :: "BoxMeta \<Rightarrow> 32 word" where
  "EXIFItemID m = (case ItemInfo m of None \<Rightarrow> 0 | Some ii \<Rightarrow> first_exif (ItemInfos ii))"

fun first_extents :: "Box list \<Rightarrow> (int \<times> int \<times> bool)" where
  "first_extents [] = (0, 0, False)"
| "first_extents (ImageSpatialExtents_Box p # ps) = (uint (ImageWidth p), uint (ImageHeight p), True)"
| "first_extents (_ # ps) = first_extents ps"

definition Item_SpatialExtents :: "Item \<Rightarrow> int \<times> int \<times> bool" where
  "Item_SpatialExtents it = first_extents (Item_Properties it)"

fun first_rotation :: "Box list \<Rightarrow> nat" where
  "first_rotation [] = 0"
| "first_rotation (ImageRotation_Box p # ps) = unat (Angle p)"
| "first_rotation (_ # ps) = first_rotation ps"

definition Rotations :: "Item \<Rightarrow> nat" where
  "Rotations it = first_rotation (Item_Properties it)"

definition VisualDimensions :: "Item \<Rightarrow> int \<times> int \<times> bool" where
  "VisualDimensions it =
     (let (w, h, found) = Item_SpatialExtents it;
          (w, h) = ((\<lambda>(w, h). (h, w)) ^^ Rotations it) (w, h) in (w, h, found))"

section \<open>Metadata\<close>

text \<open>As the code has it: the error is stored only when one is stored already, that is never.\<close>

definition setMetaErr :: "File \<Rightarrow> herr \<Rightarrow> File" where
  "setMetaErr f err = (if metaErr f \<noteq> None then f\<lparr>metaErr := Some err\<rparr> else f)"

definition store_box :: "Box \<Rightarrow> BoxMeta \<Rightarrow> BoxMeta" where
  "store_box v m = (case v of
     Handler_Box v \<Rightarrow> m\<lparr>Handler := Some v\<rparr>
   | PrimaryItem_Box v \<Rightarrow> m\<lparr>PrimaryItem_box := Some v\<rparr>
   | ItemInfo_Box v \<Rightarrow> m\<lparr>ItemInfo := Some v\<rparr>
   | ItemProperties_Box v \<Rightarrow> m\<lparr>m_Properties := Some v\<rparr>
   | ItemLocation_Box v \<Rightarrow> m\<lparr>ItemLocation := Some v\<rparr>
   | ItemReference_Box v \<Rightarrow> m\<lparr>m_ItemReference := Some v\<rparr>
   | _ \<Rightarrow> m)"

primrec meta_children :: "box list \<Rightarrow> BoxMeta \<Rightarrow> berr + BoxMeta" where
  "meta_children [] m = Inr m"
| "meta_children (b # bs) m = (case Parse b of
     Inl e \<Rightarrow> (if e = ErrUnknownBox then meta_children bs m else Inl e)
   | Inr v \<Rightarrow> meta_children bs (store_box v m))"

definition empty_meta :: BoxMeta where
  "empty_meta = \<lparr>FileType = None, Handler = None, PrimaryItem_box = None, ItemInfo = None,
                 m_Properties = None, ItemLocation = None, m_ItemReference = None\<rparr>"

definition assumedMaxSize :: nat where "assumedMaxSize = 5 * 2 ^ 40"

definition read_meta :: "bytes \<Rightarrow> herr + BoxMeta" where
  "read_meta f =
     (let bmr = NewReader \<lparr>pending = take assumedMaxSize f, after = EOF\<rparr> True in
      case ReadAndParseBox bmr (ascii ''ftyp'') of
        (Inl e, bmr) \<Rightarrow> Inl (BErr e)
      | (Inr (FileType_Box ft), bmr) \<Rightarrow>
          (case ReadAndParseBox bmr (ascii ''meta'') of
            (Inl e, bmr) \<Rightarrow> Inl (BErr e)
          | (Inr (Meta_Box mb), bmr) \<Rightarrow>
              (case meta_children (mb_Children mb) (empty_meta\<lparr>FileType := Some ft\<rparr>) of
                Inl e \<Rightarrow> Inl (BErr e)
              | Inr m \<Rightarrow> Inr m)
          | (Inr _, bmr) \<Rightarrow> Inl panic)
      | (Inr _, bmr) \<Rightarrow> Inl panic)"

definition getMeta :: "File \<Rightarrow> (herr + BoxMeta) \<times> File" where
  "getMeta f = (case metaErr f of
     Some e \<Rightarrow> (Inl e, f)
   | None \<Rightarrow> (case meta f of
       Some m \<Rightarrow> (Inr m, f)
     | None \<Rightarrow> (case read_meta (ra f) of
         Inl e \<Rightarrow> (Inl e, setMetaErr f e)
       | Inr m \<Rightarrow> (Inr m, f\<lparr>meta := Some m\<rparr>))))"

section \<open>Items\<close>

definition last_match :: "('a \<Rightarrow> bool) \<Rightarrow> 'a list \<Rightarrow> 'a option" where
  "last_match P xs = foldl (\<lambda>acc x. if P x then Some x else acc) None xs"

text \<open>Once an association box gave something the following ones are ignored.\<close>

definition propertyAssociations :: "File \<Rightarrow> 32 word \<Rightarrow> ItemProperty list" where
  "propertyAssociations f item_id = (case meta f of
     None \<Rightarrow> []
   | Some m \<Rightarrow> (case m_Properties m of
       None \<Rightarrow> []
     | Some ps \<Rightarrow>
         let allProps = ipc_Properties (PropertyContainer ps) in
         foldl (\<lambda>asses ipa. if asses \<noteq> [] then asses
                else asses @ concat (map (\<lambda>ipai.
                  if ipai_ItemID ipai \<noteq> item_id then []
                  else filter (\<lambda>ass. Index ass \<noteq> 0 \<and> unat (Index ass) \<le> length allProps) (ipai_Associations ipai))
                  (Entries ipa)))
           [] (Associations ps)))"

definition parse_or_raw :: "box \<Rightarrow> Box" where
  "parse_or_raw b = (case Parse b of Inl _ \<Rightarrow> RawBox b | Inr pb \<Rightarrow> pb)"

definition all_properties :: "BoxMeta \<Rightarrow> box list" where
  "all_properties m = (case m_Properties m of None \<Rightarrow> [] | Some ps \<Rightarrow> ipc_Properties (PropertyContainer ps))"

definition ItemByID :: "File \<Rightarrow> 32 word \<Rightarrow> (herr + Item) \<times> File" where
  "ItemByID f item_id = (case getMeta f of
     (Inl e, f) \<Rightarrow> (Inl e, f)
   | (Inr m, f) \<Rightarrow>
       let loc = (case ItemLocation m of None \<Rightarrow> None | Some ilb \<Rightarrow> last_match (\<lambda>e. ent_ItemID e = item_id) (ilb_Items ilb));
           inf = (case ItemInfo m of None \<Rightarrow> None | Some ii \<Rightarrow> last_match (\<lambda>e. ucast (ie_ItemID e) = item_id) (ItemInfos ii)) in
       (case inf of
         None \<Rightarrow> (Inl ErrUnknownItem, f)
       | Some iie \<Rightarrow>
           (Inr \<lparr>ID = item_id, Info = iie, Location = loc,
                 Item_Properties = map (\<lambda>ass. parse_or_raw (all_properties m ! (unat (Index ass) - 1)))
                   (propertyAssociations f item_id)\<rparr>, f)))"

definition PrimaryItem :: "File \<Rightarrow> (herr + Item) \<times> File" where
  "PrimaryItem f = (case getMeta f of
     (Inl e, f) \<Rightarrow> (Inl e, f)
   | (Inr m, f) \<Rightarrow> (case PrimaryItem_box m of
       None \<Rightarrow> (Inl (HErrorf ''heif: HEIF file lacks primary item box''), f)
     | Some p \<Rightarrow> ItemByID f (pib_ItemID p)))"

definition exif_maxSize :: "64 word" where "exif_maxSize = push_bit 10 20"

text \<open>\<open>int64(it.Location.BaseOffset+offLen.Offset)+4\<close>: both additions wrap.\<close>

definition EXIF :: "File \<Rightarrow> (herr + bytes) \<times> File" where
  "EXIF f = (case getMeta f of
     (Inl e, f) \<Rightarrow> (Inl e, f)
   | (Inr m, f) \<Rightarrow>
       let exifID = EXIFItemID m in
       if exifID = 0 then (Inl ErrNoEXIF, f)
       else (case ItemByID f exifID of
         (Inl e, f) \<Rightarrow> (Inl e, f)
       | (Inr it, f) \<Rightarrow> (case Location it of
           None \<Rightarrow> (Inl (HErrorf ''heif: file said it contained EXIF, but did not say where''), f)
         | Some loc \<Rightarrow>
             if length (Extents loc) \<noteq> 1 then (Inl (HErrorf ''heif: expected 1 EXIF section''), f)
             else let offLen = Extents loc ! 0 in
               if Length offLen > exif_maxSize then (Inl (HErrorf ''heif: declared EXIF size exceeds threshold''), f)
               else if Length offLen < 4 then (Inl (HErrorf ''heif: declared EXIF size is too small''), f)
               else let (buf, err) = bytes_ReadAt (ra f) (unat (Length offLen - 4))
                                       (sint (BaseOffset loc + Offset offLen + 4)) in
                 (case err of Some e \<Rightarrow> Inl (HIO e) | None \<Rightarrow> Inr buf, f))))"

definition MaxItemDataSize :: "64 word" where "MaxItemDataSize = push_bit 20 64"

primrec extents_total :: "OffsetLength list \<Rightarrow> 64 word \<Rightarrow> herr + 64 word" where
  "extents_total [] tot = Inr tot"
| "extents_total (e # es) tot =
     (if Length e = 0 \<or> Length e > MaxItemDataSize - tot then Inl (HErrorf ''heif: item has unsupported extent length'')
      else extents_total es (tot + Length e))"

primrec read_extents :: "bytes \<Rightarrow> 64 word \<Rightarrow> OffsetLength list \<Rightarrow> bytes \<Rightarrow> herr + bytes" where
  "read_extents f base [] buf = Inr buf"
| "read_extents f base (e # es) buf =
     (let off = base + Offset e in
      if off < base \<or> off > 2 ^ 63 - 1 then Inl (HErrorf ''heif: item has invalid extent offset'')
      else let (part, err) = bytes_ReadAt f (unat (Length e)) (sint off) in
        (case err of
          Some e \<Rightarrow> Inl (HIO e)
        | None \<Rightarrow> read_extents f base es (buf @ part)))"

definition Item_Data :: "bytes \<Rightarrow> Item \<Rightarrow> herr + bytes" where
  "Item_Data f it = (case Location it of
     None \<Rightarrow> Inl (HErrorf ''heif: item has no location'')
   | Some loc \<Rightarrow>
       if ConstructionMethod loc \<noteq> 0 \<or> DataReferenceIndex loc \<noteq> 0 then
         Inl (HErrorf ''heif: item uses unsupported construction method or data reference'')
       else if length (Extents loc) = 0 then Inl (HErrorf ''heif: item has no extents'')
       else (case extents_total (Extents loc) 0 of
         Inl e \<Rightarrow> Inl e
       | Inr tot \<Rightarrow> read_extents f (BaseOffset loc) (Extents loc) []))"

primrec thumbnails_of :: "File \<Rightarrow> Item \<Rightarrow> ItemReference list \<Rightarrow> Item list \<Rightarrow> (herr + Item list) \<times> File" where
  "thumbnails_of f it [] acc = (Inr acc, f)"
| "thumbnails_of f it (ref # refs) acc =
     (if \<not> EqualString (ref_Type ref) (ascii ''thmb'') \<or> ID it \<notin> set (ToItemIDs ref) then thumbnails_of f it refs acc
      else (case ItemByID f (FromItemID ref) of
        (Inl e, f) \<Rightarrow> (Inl e, f)
      | (Inr thumb, f) \<Rightarrow> thumbnails_of f it refs (acc @ [thumb])))"

definition Thumbnails :: "File \<Rightarrow> Item \<Rightarrow> (herr + Item list) \<times> File" where
  "Thumbnails f it = (case getMeta f of
     (Inl e, f) \<Rightarrow> (Inl e, f)
   | (Inr m, f) \<Rightarrow> (case m_ItemReference m of
       None \<Rightarrow> (Inr [], f)
     | Some irb \<Rightarrow> thumbnails_of f it (References irb) []))"

section \<open>Writing files\<close>

definition appendBox :: "bytes \<Rightarrow> bytes \<Rightarrow> bytes \<Rightarrow> bytes" where
  "appendBox dst ty bdy = AppendUint32 dst (of_nat (8 + length bdy)) @ ty @ bdy"

record Property =
  prop_Box :: bytes
  prop_Essential :: bool

definition SpatialExtents :: "32 word \<Rightarrow> 32 word \<Rightarrow> Property" where
  "SpatialExtents width height =
     \<lparr>prop_Box = appendBox [] (ascii ''ispe'') (AppendUint32 (AppendUint32 (replicate 4 0) width) height),
      prop_Essential = False\<rparr>"

definition Rotation :: "int \<Rightarrow> Property" where
  "Rotation quarterTurns =
     \<lparr>prop_Box = appendBox [] (ascii ''irot'') [of_int (quarterTurns AND 3)], prop_Essential = True\<rparr>"

text \<open>The loop over the properties: the contents of \<open>ipco\<close> and the association bytes of \<open>ipma\<close>.\<close>

primrec encode_props :: "nat \<Rightarrow> Property list \<Rightarrow> bytes \<Rightarrow> bytes \<Rightarrow> herr + (bytes \<times> bytes)" where
  "encode_props i [] ipco ipma = Inr (ipco, ipma)"
| "encode_props i (p # ps) ipco ipma =
     (if length (prop_Box p) < 8 \<or> Uint32 (prop_Box p) \<noteq> of_nat (length (prop_Box p)) then
        Inl (HErrorf ''heif: item property is not a box'')
      else let v = of_nat (i + 1); v = (if prop_Essential p then v OR 128 else v) in
        encode_props (i + 1) ps (ipco @ prop_Box p) (ipma @ [v]))"

definition buildMeta :: "bytes \<Rightarrow> bytes \<Rightarrow> bytes \<Rightarrow> bytes \<Rightarrow> nat \<Rightarrow> 32 word \<Rightarrow> bytes" where
  "buildMeta hdlr pitm iinf iprp datalen off =
     (let iloc = [0, 0, 0, 0, 68, 0];
          iloc = AppendUint16 iloc 1;
          iloc = AppendUint16 iloc 1;
          iloc = AppendUint16 iloc 0;
          iloc = AppendUint16 iloc 1;
          iloc = AppendUint32 iloc off;
          iloc = AppendUint32 iloc (of_nat datalen);
          bdy = replicate 4 0;
          bdy = appendBox bdy (ascii ''hdlr'') hdlr;
          bdy = appendBox bdy (ascii ''pitm'') pitm;
          bdy = appendBox bdy (ascii ''iinf'') iinf;
          bdy = appendBox bdy (ascii ''iloc'') iloc;
          bdy = appendBox bdy (ascii ''iprp'') iprp
      in appendBox [] (ascii ''meta'') bdy)"

definition EncodeImage :: "bytes \<Rightarrow> bytes \<Rightarrow> Property list \<Rightarrow> bytes \<Rightarrow> herr + bytes" where
  "EncodeImage brand itemType props data =
     (if length brand \<noteq> 4 \<or> length itemType \<noteq> 4 then Inl (HErrorf ''heif: invalid brand or item type'')
      else if length props > 127 then Inl (HErrorf ''heif: too many item properties'')
      else (case encode_props 0 props [] [] of
        Inl e \<Rightarrow> Inl e
      | Inr (ipco, ipma) \<Rightarrow>
          let ftyp = brand @ [0, 0, 0, 0] @ ascii ''mif1'' @ brand;
              hdlr = replicate 8 0 @ ascii ''pict'' @ replicate 13 0;
              pitm = AppendUint16 (replicate 4 0) 1;
              infe = AppendUint16 (AppendUint16 [2, 0, 0, 0] 1) 0 @ itemType @ [0];
              iinf = appendBox (AppendUint16 (replicate 4 0) 1) (ascii ''infe'') infe;
              assoc = AppendUint16 (AppendUint32 (replicate 4 0) 1) 1 @ [of_nat (length ipma)] @ ipma;
              iprp = appendBox (appendBox [] (ascii ''ipco'') ipco) (ascii ''ipma'') assoc;
              out = appendBox [] (ascii ''ftyp'') ftyp;
              dataOff = length out + length (buildMeta hdlr pitm iinf iprp (length data) 0) + 8 in
          if dataOff + length data > 2 ^ 32 - 1 then Inl (HErrorf ''heif: image data is too large'')
          else Inr (appendBox (out @ buildMeta hdlr pitm iinf iprp (length data) (of_nat dataOff)) (ascii ''mdat'') data)))"

definition majorBrand :: "File \<Rightarrow> bytes" where
  "majorBrand f = (case meta f of
     None \<Rightarrow> ascii ''heic''
   | Some m \<Rightarrow> (case FileType m of
       None \<Rightarrow> ascii ''heic''
     | Some ft \<Rightarrow> if length (MajorBrand ft) = 4 then MajorBrand ft else ascii ''heic''))"

primrec standalone_props :: "box list \<Rightarrow> ItemProperty list \<Rightarrow> Property list \<Rightarrow> herr + Property list" where
  "standalone_props all [] acc = Inr acc"
| "standalone_props all (ass # asses) acc =
     (if Index ass = 0 \<or> unat (Index ass) > length all then standalone_props all asses acc
      else let p = all ! (unat (Index ass) - 1); (bdy, err) = ReadAll (Body p) in
        (case err of
          Some e \<Rightarrow> Inl (HIO e)
        | None \<Rightarrow> standalone_props all asses
            (acc @ [\<lparr>prop_Box = appendBox [] (boxType p) bdy, prop_Essential = Essential ass\<rparr>])))"

definition StandaloneHEIF :: "File \<Rightarrow> Item \<Rightarrow> (herr + bytes) \<times> File" where
  "StandaloneHEIF f it = (case getMeta f of
     (Inl e, f) \<Rightarrow> (Inl e, f)
   | (Inr m, f) \<Rightarrow>
       if ItemType (Info it) \<in> {ascii ''grid'', ascii ''iden'', ascii ''iovl'', ascii ''Exif'', ascii ''mime'', ascii ''uri ''}
       then (Inl (HErrorf ''heif: cannot make standalone HEIF of item''), f)
       else (case Item_Data (ra f) it of
         Inl e \<Rightarrow> (Inl e, f)
       | Inr data \<Rightarrow> (case standalone_props (all_properties m) (propertyAssociations f (ID it)) [] of
           Inl e \<Rightarrow> (Inl e, f)
         | Inr props \<Rightarrow> (EncodeImage (majorBrand f) (ItemType (Info it)) props data, f))))"

end
