(* ===== verification/BMFF_Correct.thy ===== *)
theory BMFF_Correct
  imports BMFF_Parse
begin

text \<open>
  Facts about reading boxes: \<open>ReadBox\<close> does not depend on how much of the previous box was read, a
  sequence of encoded boxes is read back, and the sticky error.
\<close>

section \<open>Skipping\<close>

lemma ReadBox_consume:
  assumes "lastN r = Some n" "k \<le> n" "k \<le> length (pending (rd_br r))" "\<not> noMoreBoxes r"
  shows "ReadBox (consume k r) = ReadBox r"
proof -
  have "skipRest (consume k r) (n - k) = skipRest r n"
    using assms(2,3) by (auto simp: skipRest_def consume_def Let_def)
  then show ?thesis
    using assms(1,4) by (simp add: ReadBox_def consume_def)
qed

section \<open>Reading what was written\<close>

definition enc_box :: "bytes \<Rightarrow> bytes \<Rightarrow> bytes" where
  "enc_box ty bdy = be_bytes 4 (8 + length bdy) @ ty @ bdy"

text \<open>A box of the given type and body as the reader returns it, its body in memory.\<close>

definition read_back :: "int \<Rightarrow> bytes \<Rightarrow> bytes \<Rightarrow> box" where
  "read_back off ty bdy =
     \<lparr>box_size = int (8 + length bdy), boxType = ty, offset = off, headerSize = 8,
      body = \<lparr>pending = bdy, after = EOF\<rparr>, slurp = Some bdy\<rparr>"

definition encodable :: "bytes \<times> bytes \<Rightarrow> bool" where
  "encodable b \<longleftrightarrow> length (fst b) = 4 \<and> 8 + length (snd b) < 2 ^ 32"

lemma length_enc_box [simp]: "length ty = 4 \<Longrightarrow> length (enc_box ty bdy) = 8 + length bdy"
  by (simp add: enc_box_def)

lemma Body_read_back [simp]: "Body (read_back off ty bdy) = \<lparr>pending = bdy, after = EOF\<rparr>"
  by (simp add: Body_def read_back_def)

lemma boxType_read_back [simp]: "boxType (read_back off ty bdy) = ty"
  by (simp add: read_back_def)

lemma read_header_enc:
  assumes "encodable (ty, bdy)" "pending (rd_br r) = enc_box ty bdy @ rest"
  defines "s \<equiv> (rd_br r)\<lparr>pending := bdy @ rest\<rparr>"
  shows "read_header r = (Inr \<lparr>box_size = int (8 + length bdy), boxType = ty, offset = pos r, headerSize = 8,
    body = s, slurp = None\<rparr>, r\<lparr>rd_br := s\<rparr>)"
proof -
  let ?r1 = "r\<lparr>rd_br := (rd_br r)\<lparr>pending := ty @ bdy @ rest\<rparr>\<rparr>"
  have ty: "length ty = 4" and len: "8 + length bdy < 2 ^ 32" using assms(1) by (simp_all add: encodable_def)
  have 1: "io_ReadFull r 4 = (Inr (be_bytes 4 (8 + length bdy)), ?r1)"
    using assms(2) by (intro io_ReadFull_append) (simp_all add: enc_box_def)
  have 2: "io_ReadFull ?r1 4 = (Inr ty, r\<lparr>rd_br := s\<rparr>)"
    using ty by (subst io_ReadFull_append [of _ ty "bdy @ rest"]) (simp_all add: s_def)
  have "uint (Uint32 (be_bytes 4 (8 + length bdy))) = int (8 + length bdy)"
    using Uint32_be [OF len, of "[]"] by (simp add: uint_nat)
  then show ?thesis by (simp add: read_header_def 1 2)
qed

lemma ReadBox_enc:
  assumes enc: "encodable (ty, bdy)" and "\<not> noMoreBoxes r"
    and pend: "pending (rd_br r) = skip @ enc_box ty bdy @ rest" and skip: "length skip = (case lastN r of None \<Rightarrow> 0 | Some n \<Rightarrow> n)"
  shows "ReadBox r = (Inr ((read_back (pos r) ty bdy)\<lparr>slurp := None\<rparr>),
    r\<lparr>rd_br := (rd_br r)\<lparr>pending := bdy @ rest\<rparr>, pos := pos r + int (8 + length bdy), lastN := Some (length bdy)\<rparr>)"
proof -
  define r1 where "r1 = r\<lparr>rd_br := (rd_br r)\<lparr>pending := enc_box ty bdy @ rest\<rparr>, lastN := (case lastN r of None \<Rightarrow> None | Some _ \<Rightarrow> Some 0)\<rparr>"
  have skipped: "(case lastN r of None \<Rightarrow> (None, r) | Some n \<Rightarrow> skipRest r n) = (None, r1)"
    using pend skip by (auto simp: r1_def skipRest_def Let_def split: option.splits)
  have r1: "pending (rd_br r1) = enc_box ty bdy @ rest" "pos r1 = pos r"
    by (simp_all add: r1_def)
  show ?thesis
    using assms(2) skipped read_header_enc [OF enc r1(1)]
    by (simp add: ReadBox_def Let_def limit_body_def read_back_def r1_def)
qed

lemma readBody_read_back: "readBody ((read_back off ty bdy)\<lparr>slurp := None\<rparr>) = (bdy, None)"
  by (simp add: readBody_def read_back_def ReadAll_def ReadFull_def Body_def Let_def)

lemma ReadBox_end:
  assumes "\<not> noMoreBoxes r" "pending (rd_br r) = []" "after (rd_br r) = EOF"
  shows "fst (ReadBox r) = Inl (IOErr EOF)"
  using assms by (cases "lastN r")
    (simp_all add: ReadBox_def skipRest_def Let_def read_header_def io_ReadFull_def ReadFull_def)

text \<open>The boxes of a body, with their offsets in it.\<close>

primrec children_at :: "int \<Rightarrow> (bytes \<times> bytes) list \<Rightarrow> box list" where
  "children_at off [] = []"
| "children_at off (b # bs) = read_back off (fst b) (snd b) # children_at (off + int (8 + length (snd b))) bs"

definition enc_boxes :: "(bytes \<times> bytes) list \<Rightarrow> bytes" where
  "enc_boxes bs = concat (map (\<lambda>(ty, bdy). enc_box ty bdy) bs)"

lemma enc_boxes_simps [simp]:
  "enc_boxes [] = []" "enc_boxes (b # bs) = enc_box (fst b) (snd b) @ enc_boxes bs"
  by (simp_all add: enc_boxes_def case_prod_unfold)

lemma parse_boxes_enc:
  assumes "list_all encodable bs" "\<not> noMoreBoxes r" "pending (rd_br r) = enc_boxes bs" "after (rd_br r) = EOF"
    "lastN r = None \<or> lastN r = Some 0"
  shows "\<exists>r'. parse_boxes r dst = (None, dst @ children_at (pos r) bs, r')"
  using assms
proof (induction bs arbitrary: r dst)
  case Nil
  obtain r' where "ReadBox r = (Inl (IOErr EOF), r')" using ReadBox_end [of r] Nil by (metis enc_boxes_simps(1) prod.collapse)
  then show ?case by (simp add: parse_boxes.simps)
next
  case (Cons b bs)
  obtain ty bdy where b: "b = (ty, bdy)" by (metis surj_pair)
  let ?r1 = "r\<lparr>rd_br := (rd_br r)\<lparr>pending := bdy @ enc_boxes bs\<rparr>, pos := pos r + int (8 + length bdy), lastN := Some (length bdy)\<rparr>"
  have rb: "ReadBox r = (Inr ((read_back (pos r) ty bdy)\<lparr>slurp := None\<rparr>), ?r1)"
    using Cons.prems b by (intro ReadBox_enc [of _ _ _ "[]"]) auto
  have "\<exists>r'. parse_boxes (consume (length bdy) ?r1) (dst @ [read_back (pos r) ty bdy]) =
      (None, (dst @ [read_back (pos r) ty bdy]) @ children_at (pos (consume (length bdy) ?r1)) bs, r')"
    using Cons.prems b by (intro Cons.IH) (auto simp: consume_def)
  moreover have "(read_back (pos r) ty bdy)\<lparr>slurp := Some bdy\<rparr> = read_back (pos r) ty bdy"
    by (simp add: read_back_def)
  ultimately show ?case
    using rb readBody_read_back [of "pos r" ty bdy]
    by (subst parse_boxes.simps) (simp add: b consume_def)
qed

lemma parseAppendBoxes_enc:
  assumes "list_all encodable bs" "pending (br_in br) = enc_boxes bs" "after (br_in br) = EOF" "br_err br = None"
  shows "\<exists>br'. parseAppendBoxes br = (children_at 0 bs, br') \<and> br_err br' = None"
  using parse_boxes_enc [of bs "NewReader (br_in br) False" "[]"] assms
  by (auto simp: parseAppendBoxes_def NewReader_def)

lemma with_children_enc:
  assumes "list_all encodable bs" "pending (br_in br) = enc_boxes bs" "after (br_in br) = EOF" "br_err br = None"
  shows "with_children br mk = Inr (mk (children_at 0 bs))"
  using parseAppendBoxes_enc [OF assms] by (auto simp: with_children_def)

section \<open>Reading numbers\<close>

lemma be_bytes_numeral: "be_bytes (numeral k) n = be_bytes (pred_numeral k) (n div 256) @ [of_nat n]"
  by (simp only: numeral_eq_Suc [of k] be_bytes.simps)

text \<open>A reader without an error in front of the bytes \<open>p\<close> that end its input.\<close>

definition at :: "bytes \<Rightarrow> bufReader" where
  "at p = \<lparr>br_in = \<lparr>pending = p, after = EOF\<rparr>, br_err = None\<rparr>"

lemma at_sel [simp]: "br_err (at p) = None" "br_in (at p) = \<lparr>pending = p, after = EOF\<rparr>" "ok (at p)"
  by (simp_all add: at_def ok_def)

lemma br_of_at: "br_of \<lparr>pending = p, after = EOF\<rparr> = at p"
  by (simp add: br_of_def at_def)

lemma Peek_at [simp]: "length p = n \<Longrightarrow> Peek (at (p @ q)) n = Inr p"
  by (simp add: Peek_def)

lemma Discard_at [simp]: "length p = n \<Longrightarrow> Discard n (at (p @ q)) = at q"
  by (simp add: Discard_def at_def)

lemma readUint16_at [simp]: "readUint16 (at (be_bytes 2 (unat v) @ q)) = (v, at q)"
  using Uint16_word [of v "[]"] by (simp add: readUint16_def)

lemma readUint32_at [simp]: "readUint32 (at (be_bytes 4 (unat v) @ q)) = (v, at q)"
  using Uint32_word [of v "[]"] by (simp add: readUint32_def)

lemma readUint16_nat [simp]: "n < 2 ^ 16 \<Longrightarrow> readUint16 (at (be_bytes 2 n @ q)) = (of_nat n, at q)"
  using readUint16_at [of "of_nat n" q] by (simp add: unat_of_nat_small del: readUint16_at)

lemma readUint32_nat [simp]: "n < 2 ^ 32 \<Longrightarrow> readUint32 (at (be_bytes 4 n @ q)) = (of_nat n, at q)"
  using readUint32_at [of "of_nat n" q] by (simp add: unat_of_nat_small del: readUint32_at)

lemma readUint8_at [simp]: "readUint8 (at (b # q)) = (b, at q)"
  using Peek_at [of "[b]" 1 q] Discard_at [of "[b]" 1 q] by (simp add: readUint8_def)

lemma readFullBox_at [simp]:
  "readFullBox b (at (v # 0 # 0 # 0 # q)) = Inr (\<lparr>fb_box = b, Version = v, Flags = 0\<rparr>, at q)"
proof -
  have "Peek (at ([v, 0, 0, 0] @ q)) 4 = Inr [v, 0, 0, 0]" "Discard 4 (at ([v, 0, 0, 0] @ q)) = at q"
    by (simp_all del: append_Cons)
  then show ?thesis by (simp add: readFullBox_def Uint32_def be_nat_def)
qed

lemma finish_at [simp]: "finish (at q) v = Inr v"
  by (simp add: finish_def)

end
