(* ===== verification/Heif_Correct.thy ===== *)
theory Heif_Correct
  imports Heif_Model BMFF_Correct
begin

text \<open>
  Correctness of \<open>heif\<close>: what \<open>EncodeImage\<close> writes is read back by \<open>PrimaryItem\<close> and \<open>Data\<close>, and
  \<open>StandaloneHEIF\<close> keeps an item's data, type and properties.
\<close>

unbundle bit_operations_syntax

section \<open>The written bytes\<close>

lemma be_bytes_be_nat: "be_bytes (length bs) (be_nat bs) = bs"
proof (induction bs rule: rev_induct)
  case (snoc b bs)
  have "unat b < 2 ^ LENGTH(8)" by (rule unsigned_less)
  then have "(be_nat bs * 256 + unat b) div 256 = be_nat bs" by simp
  moreover have "of_nat (be_nat bs * 256 + unat b) = (b :: byte)"
  proof -
    have "(of_nat 256 :: byte) = 0" by simp
    then have "of_nat (be_nat bs * 256 + unat b) = (of_nat (unat b) :: byte)"
      by (simp only: of_nat_add of_nat_mult mult_zero_right add_0)
    then show ?thesis by simp
  qed
  ultimately show ?case using snoc by (simp add: be_nat_snoc)
qed (simp add: be_nat_def)

lemma appendBox_enc: "8 + length bdy < 2 ^ 32 \<Longrightarrow> appendBox dst ty bdy = dst @ enc_box ty bdy"
  unfolding appendBox_def AppendUint32_def enc_box_def by (subst unat_of_nat_small) simp_all

lemma length_appendBox [simp]: "length (appendBox dst ty bdy) = length dst + 4 + length ty + length bdy"
  by (simp add: appendBox_def AppendUint32_def)

lemma ascii_length [simp]: "length (ascii s) = length s"
  by (simp add: ascii_def)

text \<open>A complete property box is the encoding of its type and body.\<close>

abbreviation prop_pair :: "Property \<Rightarrow> bytes \<times> bytes" where
  "prop_pair p \<equiv> (take 4 (drop 4 (prop_Box p)), drop 8 (prop_Box p))"

lemma prop_box_enc:
  assumes "8 \<le> length p" "length p < 2 ^ 32" "Uint32 p = of_nat (length p)"
  shows "enc_box (take 4 (drop 4 p)) (drop 8 p) = p"
proof -
  have "be_nat (take 4 p) < 2 ^ 32" using be_nat_less [of "take 4 p"] assms(1) by simp
  then have "be_nat (take 4 p) = unat (Uint32 p)"
    unfolding Uint32_def by (subst unat_of_nat_small) simp_all
  also have "\<dots> = length p"
    unfolding assms(3) using assms(2) by (subst unat_of_nat_small) simp_all
  finally have "be_nat (take 4 p) = length p" .
  then have "be_bytes 4 (length p) = take 4 p"
    using be_bytes_be_nat [of "take 4 p"] assms(1) by simp
  moreover have "p = take 4 p @ take 4 (drop 4 p) @ drop 8 p"
    by (metis append_take_drop_id drop_drop numeral_Bit0)
  ultimately show ?thesis using assms(1) by (simp add: enc_box_def)
qed

text \<open>The association byte of the property with index \<open>i\<close>.\<close>

definition assoc_byte :: "nat \<Rightarrow> Property \<Rightarrow> byte" where
  "assoc_byte i p = (if prop_Essential p then of_nat i OR 128 else of_nat i)"

lemma encode_props_Cons:
  "encode_props i (p # ps) ipco ipma =
     (if length (prop_Box p) < 8 \<or> Uint32 (prop_Box p) \<noteq> of_nat (length (prop_Box p)) then
        Inl (HErrorf ''heif: item property is not a box'')
      else encode_props (Suc i) ps (ipco @ prop_Box p) (ipma @ [assoc_byte (Suc i) p]))"
  by (simp add: assoc_byte_def Let_def)

lemma encode_props_Inr:
  "encode_props i ps ipco ipma = Inr (ipco', ipma') \<Longrightarrow>
     ipco' = ipco @ concat (map prop_Box ps) \<and>
     ipma' = ipma @ map2 assoc_byte [Suc i..<Suc i + length ps] ps \<and>
     (\<forall>p \<in> set ps. 8 \<le> length (prop_Box p) \<and> Uint32 (prop_Box p) = of_nat (length (prop_Box p)))"
proof (induction ps arbitrary: i ipco ipma)
  case (Cons p ps)
  have "[Suc i..<Suc i + length (p # ps)] = Suc i # [Suc (Suc i)..<Suc (Suc i) + length ps]"
    by (simp add: upt_conv_Cons del: upt_Suc)
  moreover have "\<not> length (prop_Box p) < 8" "Uint32 (prop_Box p) = of_nat (length (prop_Box p))"
    and "encode_props (Suc i) ps (ipco @ prop_Box p) (ipma @ [assoc_byte (Suc i) p]) = Inr (ipco', ipma')"
    using Cons.prems unfolding encode_props_Cons by (simp_all split: if_splits)
  ultimately show ?case using Cons.IH [of "Suc i" "ipco @ prop_Box p" "ipma @ [assoc_byte (Suc i) p]"]
    by (simp del: upt_Suc)
qed simp

lemma assoc_byte_parts:
  assumes "0 < i" "i \<le> 127"
  shows "assoc_byte i p AND 128 \<noteq> 0 \<longleftrightarrow> prop_Essential p" "unat (assoc_byte i p AND NOT 128) = i"
proof -
  have low: "(of_nat i :: byte) AND 128 = 0" "unat (of_nat i :: byte) = i"
  proof -
    have i: "i < 2 ^ 7" using assms by simp
    show "unat (of_nat i :: byte) = i" using i by (simp add: unsigned_of_nat take_bit_nat_eq_self_iff)
    have "\<not> bit i 7" using i by (simp add: bit_iff_odd)
    then have "\<not> bit (of_nat i :: byte) 7" by (simp add: bit_simps)
    then have "(of_nat i :: byte) AND 2 ^ 7 = 0" by (simp only: and_exp_eq_0_iff_not_bit not_False_eq_True)
    then show "(of_nat i :: byte) AND 128 = 0" by simp
  qed
  have and_or: "(of_nat i OR 128 :: byte) AND 128 = 128"
    by (rule bit_eqI) (auto simp: bit_simps)
  have "(of_nat i OR 128 :: byte) AND NOT 128 = of_nat i" "(of_nat i :: byte) AND NOT 128 = of_nat i"
    using low(1) by (auto simp: bit_eq_iff bit_simps)
  with low and_or show "assoc_byte i p AND 128 \<noteq> 0 \<longleftrightarrow> prop_Essential p" "unat (assoc_byte i p AND NOT 128) = i"
    by (auto simp: assoc_byte_def)
qed

section \<open>Parsing the written boxes\<close>

lemma parsers_lookup:
  "parsers parse (ascii ''ftyp'') = Some parseFileTypeBox" "parsers parse (ascii ''meta'') = Some parseMetaBox"
  "parsers parse (ascii ''hdlr'') = Some parseHandlerBox" "parsers parse (ascii ''pitm'') = Some parsePrimaryItemBox"
  "parsers parse (ascii ''iinf'') = Some (parseItemInfoBox parse)" "parsers parse (ascii ''infe'') = Some parseItemInfoEntry"
  "parsers parse (ascii ''iloc'') = Some parseItemLocationBox"
  "parsers parse (ascii ''iprp'') = Some (parseItemPropertiesBox parse)"
  "parsers parse (ascii ''ipco'') = Some parseItemPropertyContainerBox"
  "parsers parse (ascii ''ipma'') = Some parseItemPropertyAssociation"
  "parsers parse (ascii ''ispe'') = Some parseImageSpatialExtentsProperty"
  "parsers parse (ascii ''irot'') = Some parseImageRotation"
  by (simp_all add: parsers_def ascii_def)

lemma Parse_read_back:
  "parsers Parse ty = Some p \<Longrightarrow> Parse (read_back off ty bdy) = p (read_back off ty bdy) (at bdy)"
  by (subst Parse.simps) (simp add: parse_with_def br_of_at)

abbreviation zero_fb :: "box \<Rightarrow> FullBox" where
  "zero_fb b \<equiv> \<lparr>fb_box = b, Version = 0, Flags = 0\<rparr>"

lemma Parse_hdlr:
  "Parse (read_back off (ascii ''hdlr'') (replicate 8 0 @ ascii ''pict'' @ replicate 13 0)) =
     Inr (Handler_Box \<lparr>hb_fb = zero_fb (read_back off (ascii ''hdlr'') (replicate 8 0 @ ascii ''pict'' @ replicate 13 0)),
       HandlerType = ascii ''pict'', hb_Name = []\<rparr>)"
proof -
  let ?q = "replicate 4 0 @ ascii ''pict'' @ replicate 12 0 :: bytes"
  have b: "replicate 8 0 @ ascii ''pict'' @ replicate 13 0 = (0 # 0 # 0 # 0 # (?q @ [0]) :: bytes)"
    by (simp add: numeral_eq_Suc)
  have "Peek (at (?q @ [0])) 20 = Inr ?q" "Discard 20 (at (?q @ [0])) = at [0]"
    by (rule Peek_at, simp, rule Discard_at, simp)
  moreover have "ReadString (at [0]) = ([0], None, at [])"
    by (simp add: ReadString_def Discard_def at_def)
  ultimately show ?thesis
    by (subst Parse_read_back [OF parsers_lookup(3)]) (simp add: b parseHandlerBox_def TrimSuffix0_def)
qed

lemma replicate_4: "replicate 4 x = [x, x, x, x]"
  by (simp add: numeral_eq_Suc)

lemma Parse_pitm:
  "Parse (read_back off (ascii ''pitm'') (AppendUint16 (replicate 4 0) v)) =
     Inr (PrimaryItem_Box \<lparr>pib_fb = zero_fb (read_back off (ascii ''pitm'') (AppendUint16 (replicate 4 0) v)),
       pib_ItemID = ucast v\<rparr>)"
  using readUint16_at [of v "[]"]
  by (subst Parse_read_back [OF parsers_lookup(4)])
     (simp add: parsePrimaryItemBox_def AppendUint16_def replicate_4)

lemma readString_at:
  "readString (at (s @ [0])) = (takeWhile (\<lambda>b. b \<noteq> 0) s, at (drop (Suc (length (takeWhile (\<lambda>b. b \<noteq> 0) s))) (s @ [0])))"
proof -
  have "takeWhile (\<lambda>b. b \<noteq> 0) (s @ [0 :: byte]) = takeWhile (\<lambda>b. b \<noteq> 0) s"
    by (induction s) auto
  then show ?thesis by (simp add: readString_def ReadString_def TrimSuffix0_def Discard_def at_def Let_def)
qed

definition infe_body :: "bytes \<Rightarrow> bytes" where
  "infe_body itemType = AppendUint16 (AppendUint16 [2, 0, 0, 0] 1) 0 @ itemType @ [0]"

lemma Parse_infe:
  assumes "length itemType = 4" "itemType \<noteq> ascii ''mime''" "itemType \<noteq> ascii ''uri ''"
  shows "\<exists>ie. Parse (read_back off (ascii ''infe'') (infe_body itemType)) = Inr (ItemInfoEntry_Box ie) \<and>
    ie_ItemID ie = 1 \<and> ItemType ie = itemType"
proof -
  have b: "infe_body itemType = 2 # 0 # 0 # 0 # be_bytes 2 (unat (1 :: 16 word)) @ be_bytes 2 (unat (0 :: 16 word)) @ itemType @ [0]"
    by (simp add: infe_body_def AppendUint16_def)
  have "Peek (at (itemType @ [0])) 4 = Inr itemType" using assms(1) by simp
  then show ?thesis
    unfolding Parse_read_back [OF parsers_lookup(6)] unfolding b
    by (simp only: parseItemInfoEntry_def readFullBox_at sum.case prod.case readUint16_at Let_def at_sel option.case)
       (simp add: assms readString_at finish_def)
qed

definition iinf_body :: "bytes \<Rightarrow> bytes" where
  "iinf_body itemType = AppendUint16 (replicate 4 0) 1 @ enc_box (ascii ''infe'') (infe_body itemType)"

lemma Parse_iinf:
  assumes "length itemType = 4" "itemType \<noteq> ascii ''mime''" "itemType \<noteq> ascii ''uri ''"
  shows "\<exists>ib ie. Parse (read_back off (ascii ''iinf'') (iinf_body itemType)) = Inr (ItemInfo_Box ib) \<and>
    ItemInfos ib = [ie] \<and> ie_ItemID ie = 1 \<and> ItemType ie = itemType"
proof -
  let ?q = "enc_boxes [(ascii ''infe'', infe_body itemType)]"
  have b: "iinf_body itemType = 0 # 0 # 0 # 0 # be_bytes 2 (unat (1 :: 16 word)) @ ?q"
    by (simp add: iinf_body_def AppendUint16_def replicate_4)
  have "length (infe_body itemType) = 13" using assms(1) by (simp add: infe_body_def AppendUint16_def)
  then have "\<exists>br'. parseAppendBoxes (at ?q) = (children_at 0 [(ascii ''infe'', infe_body itemType)], br') \<and> br_err br' = None"
    by (intro parseAppendBoxes_enc) (simp_all add: encodable_def)
  then obtain br' where p: "parseAppendBoxes (at ?q) = ([read_back 0 (ascii ''infe'') (infe_body itemType)], br')" "br_err br' = None"
    by auto
  obtain ie where "Parse (read_back 0 (ascii ''infe'') (infe_body itemType)) = Inr (ItemInfoEntry_Box ie)"
    "ie_ItemID ie = 1" "ItemType ie = itemType" using Parse_infe [OF assms, of 0] by blast
  then show ?thesis
    unfolding Parse_read_back [OF parsers_lookup(5)] b
    by (simp add: parseItemInfoBox_def p del: enc_boxes_simps)
qed

lemma readUintN_0 [simp]: "readUintN 0 (at q) = (0, at q)"
  by (simp add: readUintN_def)

lemma readUintN_32 [simp]: "readUintN 32 (at (be_bytes 4 (unat (v :: 32 word)) @ q)) = (ucast v, at q)"
proof -
  have "unat v < 2 ^ LENGTH(32)" by (rule unsigned_less)
  then have "be_nat (be_bytes 4 (unat v)) = unat v" by (simp add: be_nat_be_bytes)
  then show ?thesis by (simp add: readUintN_def)
qed

definition iloc_body :: "32 word \<Rightarrow> 32 word \<Rightarrow> bytes" where
  "iloc_body off len = AppendUint32 (AppendUint32
     (AppendUint16 (AppendUint16 (AppendUint16 (AppendUint16 [0, 0, 0, 0, 68, 0] 1) 1) 0) 1) off) len"

lemma Parse_iloc:
  "\<exists>ilb. Parse (read_back o' (ascii ''iloc'') (iloc_body off len)) = Inr (ItemLocation_Box ilb) \<and>
     ilb_Items ilb = [\<lparr>ent_ItemID = 1, ConstructionMethod = 0, DataReferenceIndex = 0, BaseOffset = 0, ExtentCount = 1,
                       Extents = [\<lparr>Offset = ucast off, Length = ucast len\<rparr>]\<rparr>]"
proof -
  let ?n = "be_bytes 2"
  let ?q = "be_bytes 4 (unat off) @ be_bytes 4 (unat len) @ []"
  let ?rest = "?n (Suc 0) @ ?n 0 @ ?n (Suc 0) @ ?q"
  have b: "iloc_body off len = 0 # 0 # 0 # 0 # 68 # 0 # ?n (Suc 0) @ ?rest"
    by (simp add: iloc_body_def AppendUint16_def AppendUint32_def)
  have peek: "Peek (at (68 # 0 # ?n (Suc 0) @ ?rest)) 4 = Inr (68 # 0 # ?n (Suc 0))"
    using Peek_at [of "68 # 0 # ?n (Suc 0)" 4 ?rest] by simp
  have disc: "Discard 2 (at (68 # 0 # ?n (Suc 0) @ ?rest)) = at (?n (Suc 0) @ ?rest)"
    using Discard_at [of "[68, 0]" 2 "?n (Suc 0) @ ?rest"] by simp
  show ?thesis
    unfolding Parse_read_back [OF parsers_lookup(7)] b
    by (simp add: parseItemLocationBox_def peek disc iloc_items.simps iloc_extents.simps Let_def
        del: append_Nil2)
qed

definition written_assoc :: "nat \<Rightarrow> Property \<Rightarrow> ItemProperty" where
  "written_assoc i p = \<lparr>Essential = prop_Essential p, Index = of_nat i\<rparr>"

lemma ipma_props_at:
  assumes "0 < k" "k + length ps \<le> 128"
  shows "ipma_props (length ps) False (at (map2 assoc_byte [k..<k + length ps] ps @ q)) acc =
    (acc @ map2 written_assoc [k..<k + length ps] ps, at q)"
  using assms
proof (induction ps arbitrary: k acc)
  case Nil
  then show ?case by (simp add: ipma_props.simps)
next
  case (Cons p ps)
  have upt: "[k..<k + length (p # ps)] = k # [Suc k..<Suc k + length ps]" by (simp add: upt_conv_Cons del: upt_Suc)
  have k: "0 < k" "k \<le> 127" using Cons.prems by auto
  have "ucast (assoc_byte k p AND NOT 128) = (of_nat (unat (assoc_byte k p AND NOT 128)) :: 16 word)" by simp
  then have "ucast (assoc_byte k p AND NOT 128) = (of_nat k :: 16 word)" by (simp only: assoc_byte_parts(2) [OF k])
  then have step: "ipma_props (length (p # ps)) False (at (assoc_byte k p # q')) acc =
      ipma_props (length ps) False (at q') (acc @ [written_assoc k p])" for q'
    using assoc_byte_parts(1) [OF k, of p] by (subst ipma_props.simps) (simp add: written_assoc_def Let_def)
  show ?case
    using Cons.IH [of "Suc k" "acc @ [written_assoc k p]"] Cons.prems(2)
    by (simp add: upt step del: upt_Suc list.size(4)) (simp del: upt_Suc)
qed

definition ipma_body :: "Property list \<Rightarrow> bytes" where
  "ipma_body props = AppendUint16 (AppendUint32 (replicate 4 0) 1) 1 @ [of_nat (length props)] @
     map2 assoc_byte [1..<1 + length props] props"

lemma Parse_ipma:
  assumes "length props \<le> 127"
  shows "\<exists>ipa. Parse (read_back off (ascii ''ipma'') (ipma_body props)) = Inr (ItemPropertyAssociation_Box ipa) \<and>
    Entries ipa = [\<lparr>ipai_ItemID = 1, AssociationsCount = length props,
                    ipai_Associations = map2 written_assoc [1..<1 + length props] props\<rparr>]"
proof -
  let ?q = "of_nat (length props) # map2 assoc_byte [1..<1 + length props] props @ []"
  have b: "ipma_body props = 0 # 0 # 0 # 0 # be_bytes 4 (Suc 0) @ be_bytes 2 (Suc 0) @ ?q"
    by (simp add: ipma_body_def AppendUint16_def AppendUint32_def replicate_4)
  have n: "unat (of_nat (length props) :: byte) = length props"
    using assms by (intro unat_of_nat_small) simp
  have props: "ipma_props (length props) False (at (map2 assoc_byte [1..<1 + length props] props @ [])) [] =
      (map2 written_assoc [1..<1 + length props] props, at [])"
    using ipma_props_at [of 1 props "[]" "[]"] assms by simp
  show ?thesis
    unfolding Parse_read_back [OF parsers_lookup(10)] b
    using props
    by (simp add: parseItemPropertyAssociation_def ipma_entries.simps Let_def n del: append_Nil2 upt_Suc)
qed

definition ipco_body :: "Property list \<Rightarrow> bytes" where
  "ipco_body props = enc_boxes (map prop_pair props)"

definition iprp_body :: "Property list \<Rightarrow> bytes" where
  "iprp_body props = enc_boxes [(ascii ''ipco'', ipco_body props), (ascii ''ipma'', ipma_body props)]"

lemma encodable_concat:
  assumes "list_all (\<lambda>b. length (fst b) = 4) bs" "length (enc_boxes bs) < 2 ^ 32"
  shows "list_all encodable bs"
  using assms by (induction bs) (auto simp: encodable_def)

lemma Parse_iprp:
  assumes "length props \<le> 127" "list_all encodable (map prop_pair props)" "8 + length (ipco_body props) < 2 ^ 32"
  shows "\<exists>ip ipa. Parse (read_back off (ascii ''iprp'') (iprp_body props)) = Inr (ItemProperties_Box ip) \<and>
    ipc_Properties (PropertyContainer ip) = children_at 0 (map prop_pair props) \<and> Associations ip = [ipa] \<and>
    Entries ipa = [\<lparr>ipai_ItemID = 1, AssociationsCount = length props,
                    ipai_Associations = map2 written_assoc [1..<1 + length props] props\<rparr>]"
proof -
  let ?bs = "[(ascii ''ipco'', ipco_body props), (ascii ''ipma'', ipma_body props)]"
  have "length (ipma_body props) \<le> 200"
    using assms(1) by (simp add: ipma_body_def AppendUint16_def AppendUint32_def del: upt_Suc)
  then have "list_all encodable ?bs" using assms(3) by (simp add: encodable_def)
  then obtain br' where p: "parseAppendBoxes (at (iprp_body props)) = (children_at 0 ?bs, br')" "br_err br' = None"
    using parseAppendBoxes_enc [of ?bs "at (iprp_body props)"] by (auto simp: iprp_body_def simp del: enc_boxes_simps)
  have ipco: "Parse (read_back o' (ascii ''ipco'') (ipco_body props)) =
      Inr (ItemPropertyContainer_Box \<lparr>ipc_box = read_back o' (ascii ''ipco'') (ipco_body props),
        ipc_Properties = children_at 0 (map prop_pair props)\<rparr>)" for o'
    unfolding Parse_read_back [OF parsers_lookup(9)] parseItemPropertyContainerBox_def
    by (subst with_children_enc [OF assms(2)]) (simp_all add: ipco_body_def)
  define o' where "o' = 0 + int (8 + length (ipco_body props))"
  obtain ipa where ipa: "Parse (read_back o' (ascii ''ipma'') (ipma_body props)) = Inr (ItemPropertyAssociation_Box ipa)"
    "Entries ipa = [\<lparr>ipai_ItemID = 1, AssociationsCount = length props,
                    ipai_Associations = map2 written_assoc [1..<1 + length props] props\<rparr>]"
    using Parse_ipma [OF assms(1), of o'] by blast
  have cs: "children_at 0 ?bs = [read_back 0 (ascii ''ipco'') (ipco_body props), read_back o' (ascii ''ipma'') (ipma_body props)]"
    by (simp add: o'_def)
  show ?thesis
    unfolding Parse_read_back [OF parsers_lookup(8)]
    using p(2) ipa unfolding parseItemPropertiesBox_def p(1) cs by (simp add: ipco del: upt_Suc)
qed

lemma Parse_ftyp:
  assumes "length brand = 4"
  shows "\<exists>ft. Parse ((read_back off (ascii ''ftyp'') (brand @ [0, 0, 0, 0] @ ascii ''mif1'' @ brand))\<lparr>slurp := None\<rparr>) =
      Inr (FileType_Box ft) \<and> MajorBrand ft = brand"
proof -
  let ?q = "ascii ''mif1'' @ brand"
  have "compatible_loop (at ?q) [] = Inr [ascii ''mif1'', brand]"
    using assms Peek_at [of brand 4 "[]"] Discard_at [of brand 4 "[]"]
    by (simp add: compatible_loop.simps Peek_def [of "at []"])
  moreover have "Peek (at ((brand @ [0, 0, 0, 0]) @ ?q)) 8 = Inr (brand @ [0, 0, 0, 0])"
    "Discard 8 (at ((brand @ [0, 0, 0, 0]) @ ?q)) = at ?q"
    using assms by (simp_all del: append_assoc)
  moreover have "Body ((read_back off ty bdy)\<lparr>slurp := None\<rparr>) = \<lparr>pending = bdy, after = EOF\<rparr>" for ty bdy
    by (simp add: Body_def read_back_def)
  ultimately show ?thesis
    using assms by (subst Parse.simps) (simp add: parse_with_def parsers_lookup br_of_at parseFileTypeBox_def)
qed

section \<open>The written file\<close>

abbreviation hdlr_body :: bytes where
  "hdlr_body \<equiv> replicate 8 0 @ ascii ''pict'' @ replicate 13 0"

abbreviation pitm_body :: bytes where
  "pitm_body \<equiv> AppendUint16 (replicate 4 0) 1"

definition meta_boxes :: "bytes \<Rightarrow> Property list \<Rightarrow> 32 word \<Rightarrow> 32 word \<Rightarrow> (bytes \<times> bytes) list" where
  "meta_boxes itemType props off len =
     [(ascii ''hdlr'', hdlr_body), (ascii ''pitm'', pitm_body), (ascii ''iinf'', iinf_body itemType),
      (ascii ''iloc'', iloc_body off len), (ascii ''iprp'', iprp_body props)]"

definition meta_body :: "bytes \<Rightarrow> Property list \<Rightarrow> 32 word \<Rightarrow> 32 word \<Rightarrow> bytes" where
  "meta_body itemType props off len = replicate 4 0 @ enc_boxes (meta_boxes itemType props off len)"

definition ftyp_body :: "bytes \<Rightarrow> bytes" where
  "ftyp_body brand = brand @ [0, 0, 0, 0] @ ascii ''mif1'' @ brand"

lemma length_bodies [simp]:
  "length itemType = 4 \<Longrightarrow> length (infe_body itemType) = 13"
  "length itemType = 4 \<Longrightarrow> length (iinf_body itemType) = 27"
  "length (iloc_body off len) = 22" "length brand = 4 \<Longrightarrow> length (ftyp_body brand) = 16"
  "length (ipma_body props) = 11 + length props"
  "length (iprp_body props) = 27 + length (ipco_body props) + length props"
  "length (AppendUint16 dst v) = length dst + 2" "length (AppendUint32 dst w) = length dst + 4"
  by (simp_all add: infe_body_def iinf_body_def iloc_body_def ftyp_body_def ipma_body_def iprp_body_def
      AppendUint16_def AppendUint32_def del: upt_Suc)

lemma length_meta_body:
  "length itemType = 4 \<Longrightarrow> length (meta_body itemType props off len) = 151 + length (ipco_body props) + length props"
  by (simp add: meta_body_def meta_boxes_def)

lemma meta_boxes_encodable:
  "length itemType = 4 \<Longrightarrow> length (meta_body itemType props off len) < 2 ^ 32 \<Longrightarrow> list_all encodable (meta_boxes itemType props off len)"
  unfolding length_meta_body by (simp add: meta_boxes_def encodable_def)

lemma buildMeta_enc:
  assumes it: "length itemType = 4" and len: "8 + length (meta_body itemType props off (of_nat n)) < 2 ^ 32"
  shows "buildMeta hdlr_body pitm_body (iinf_body itemType) (iprp_body props) n off =
    enc_box (ascii ''meta'') (meta_body itemType props off (of_nat n))"
proof -
  have R: "35 + length (ipco_body props) + length props < 2 ^ 32"
    using len unfolding length_meta_body [OF it] by simp
  have "buildMeta hdlr_body pitm_body (iinf_body itemType) (iprp_body props) n off =
    appendBox [] (ascii ''meta'') (appendBox (appendBox (appendBox (appendBox (appendBox (replicate 4 0)
      (ascii ''hdlr'') hdlr_body) (ascii ''pitm'') pitm_body) (ascii ''iinf'') (iinf_body itemType))
      (ascii ''iloc'') (iloc_body off (of_nat n))) (ascii ''iprp'') (iprp_body props))"
    by (simp add: buildMeta_def Let_def iloc_body_def)
  also have "\<dots> = appendBox [] (ascii ''meta'') (meta_body itemType props off (of_nat n))"
    using it R by (simp add: appendBox_enc meta_body_def meta_boxes_def)
  also have "\<dots> = enc_box (ascii ''meta'') (meta_body itemType props off (of_nat n))"
    using len by (simp add: appendBox_enc)
  finally show ?thesis .
qed

text \<open>Every accepted property is an encoded box, so the container's body is a sequence of boxes.\<close>

lemma props_enc:
  assumes "\<forall>p \<in> set props. 8 \<le> length (prop_Box p) \<and> Uint32 (prop_Box p) = of_nat (length (prop_Box p))"
    and "length (concat (map prop_Box props)) < 2 ^ 32"
  shows "concat (map prop_Box props) = ipco_body props" "list_all encodable (map prop_pair props)"
    "\<forall>p \<in> set props. enc_box (fst (prop_pair p)) (snd (prop_pair p)) = prop_Box p"
proof -
  have "concat (map prop_Box props) = ipco_body props \<and> list_all encodable (map prop_pair props) \<and>
      (\<forall>p \<in> set props. enc_box (fst (prop_pair p)) (snd (prop_pair p)) = prop_Box p)"
    using assms
  proof (induction props)
    case (Cons p props)
    then have p: "8 \<le> length (prop_Box p)" "length (prop_Box p) < 2 ^ 32" "Uint32 (prop_Box p) = of_nat (length (prop_Box p))"
      by auto
    with Cons prop_box_enc [OF p] show ?case by (auto simp: ipco_body_def encodable_def)
  qed (simp add: ipco_body_def)
  then show "concat (map prop_Box props) = ipco_body props" "list_all encodable (map prop_pair props)"
    "\<forall>p \<in> set props. enc_box (fst (prop_pair p)) (snd (prop_pair p)) = prop_Box p" by auto
qed

text \<open>The shape of the file \<open>EncodeImage\<close> returns.\<close>

definition image_file :: "bytes \<Rightarrow> bytes \<Rightarrow> Property list \<Rightarrow> bytes \<Rightarrow> nat \<Rightarrow> bytes" where
  "image_file brand itemType props data off =
     enc_box (ascii ''ftyp'') (ftyp_body brand) @
     enc_box (ascii ''meta'') (meta_body itemType props (of_nat off) (of_nat (length data))) @
     enc_box (ascii ''mdat'') data"

lemma EncodeImage_Inr:
  assumes "EncodeImage brand itemType props data = Inr out"
  defines "off \<equiv> 191 + length (ipco_body props) + length props"
  shows "length brand = 4" "length itemType = 4" "length props \<le> 127" "list_all encodable (map prop_pair props)"
    "off + length data < 2 ^ 32" "out = image_file brand itemType props data off"
    "\<forall>p \<in> set props. enc_box (fst (prop_pair p)) (snd (prop_pair p)) = prop_Box p"
proof -
  obtain ipco ipma where 1: "encode_props 0 props [] [] = Inr (ipco, ipma)"
    and basic: "length brand = 4" "length itemType = 4" "length props \<le> 127"
    using assms by (auto simp: EncodeImage_def split: if_splits sum.splits)
  show "length brand = 4" "length itemType = 4" "length props \<le> 127" by fact+
  have ipco: "ipco = concat (map prop_Box props)" and ipma: "ipma = map2 assoc_byte [1..<1 + length props] props"
    and ok: "\<forall>p \<in> set props. 8 \<le> length (prop_Box p) \<and> Uint32 (prop_Box p) = of_nat (length (prop_Box p))"
    using encode_props_Inr [OF 1] by auto
  define assoc where "assoc = AppendUint16 (AppendUint32 (replicate 4 0) 1) 1 @ [of_nat (length ipma)] @ ipma"
  define iprp where "iprp = appendBox (appendBox [] (ascii ''ipco'') ipco) (ascii ''ipma'') assoc"
  define iinf where "iinf = appendBox (AppendUint16 (replicate 4 0) 1) (ascii ''infe'') (infe_body itemType)"
  define o1 where "o1 = appendBox [] (ascii ''ftyp'') (ftyp_body brand)"
  define dataOff where "dataOff = length o1 + length (buildMeta hdlr_body pitm_body iinf iprp (length data) 0) + 8"
  have eq: "EncodeImage brand itemType props data =
      (if dataOff + length data > 2 ^ 32 - 1 then Inl (HErrorf ''heif: image data is too large'')
       else Inr (appendBox (o1 @ buildMeta hdlr_body pitm_body iinf iprp (length data) (of_nat dataOff)) (ascii ''mdat'') data))"
    unfolding EncodeImage_def 1 dataOff_def o1_def iinf_def iprp_def assoc_def ftyp_body_def infe_body_def Let_def
    using basic by simp
  have bound: "dataOff + length data < 2 ^ 32"
    and out: "out = appendBox (o1 @ buildMeta hdlr_body pitm_body iinf iprp (length data) (of_nat dataOff)) (ascii ''mdat'') data"
    using assms(1) unfolding eq by (auto split: if_splits)
  have lma: "length ipma = length props" using ipma by (simp del: upt_Suc)
  have lens: "dataOff = 191 + length ipco + length props"
    using basic lma by (simp add: dataOff_def o1_def buildMeta_def Let_def iinf_def iprp_def assoc_def)
  have "length (concat (map prop_Box props)) < 2 ^ 32" using bound lens ipco by simp
  note enc = props_enc [OF ok this]
  show "list_all encodable (map prop_pair props)" by (fact enc(2))
  show "\<forall>p \<in> set props. enc_box (fst (prop_pair p)) (snd (prop_pair p)) = prop_Box p" by (fact enc(3))
  have off: "dataOff = off" using lens ipco enc(1) by (simp add: off_def)
  with bound show "off + length data < 2 ^ 32" by simp
  have "assoc = ipma_body props" using ipma by (simp add: assoc_def ipma_body_def del: upt_Suc)
  then have iprp: "iprp = iprp_body props"
    using bound lens ipco enc(1) by (simp add: iprp_def appendBox_enc iprp_body_def)
  have iinf: "iinf = iinf_body itemType"
    using basic by (simp add: iinf_def iinf_body_def appendBox_enc)
  have "8 + length (meta_body itemType props (of_nat off) (of_nat (length data))) < 2 ^ 32"
    using bound off basic(2) by (simp add: length_meta_body off_def)
  moreover have "8 + length data < 2 ^ 32" using bound off by (simp add: off_def)
  ultimately show "out = image_file brand itemType props data off"
    using buildMeta_enc [OF basic(2), of props "of_nat off" "length data"] out off basic by (simp add: image_file_def iprp iinf o1_def appendBox_enc)
qed

section \<open>Reading the written file\<close>

lemma Body_unslurped [simp]: "Body ((read_back off ty bdy)\<lparr>slurp := None\<rparr>) = \<lparr>pending = bdy, after = EOF\<rparr>"
  by (simp add: Body_def read_back_def)

lemma boxType_unslurped [simp]: "boxType ((read_back off ty bdy)\<lparr>slurp := None\<rparr>) = ty"
  by (simp add: read_back_def)

lemma Parse_meta:
  assumes "length itemType = 4" "length (meta_body itemType props off len) < 2 ^ 32"
  shows "\<exists>mb. Parse ((read_back o' (ascii ''meta'') (meta_body itemType props off len))\<lparr>slurp := None\<rparr>) = Inr (Meta_Box mb) \<and>
    mb_Children mb = children_at 0 (meta_boxes itemType props off len)"
proof -
  let ?q = "enc_boxes (meta_boxes itemType props off len)"
  have "take 4 ?q = be_bytes 4 33" by (simp add: meta_boxes_def enc_box_def)
  then have q: "?q = be_bytes 4 33 @ drop 4 ?q" by (metis append_take_drop_id)
  have "Peek (at ((replicate 4 0 @ be_bytes 4 33) @ drop 4 ?q)) 8 = Inr (replicate 4 0 @ be_bytes 4 33)"
    by (rule Peek_at) simp
  then have peek: "Peek (at (0 # 0 # 0 # 0 # ?q)) 8 = Inr (replicate 4 0 @ be_bytes 4 33)"
    using q by (simp add: replicate_4)
  have "be_bytes 4 33 \<noteq> ascii ''hdlr''" by (simp add: ascii_def be_bytes_numeral)
  moreover have "with_children (at ?q) mk = Inr (mk (children_at 0 (meta_boxes itemType props off len)))" for mk
    using meta_boxes_encodable [OF assms] by (intro with_children_enc) simp_all
  ultimately show ?thesis
    by (subst Parse.simps)
       (simp add: parse_with_def parsers_lookup br_of_at parseMetaBox_def meta_body_def replicate_4 peek)
qed

lemma meta_children_written:
  assumes "length itemType = 4" "itemType \<noteq> ascii ''mime''" "itemType \<noteq> ascii ''uri ''"
    and "length props \<le> 127" "list_all encodable (map prop_pair props)" "8 + length (ipco_body props) < 2 ^ 32"
  shows "\<exists>m' hb pib ib ie ip ipa ilb. meta_children (children_at 0 (meta_boxes itemType props off len)) m = Inr m' \<and>
    FileType m' = FileType m \<and> PrimaryItem_box m' = Some pib \<and> pib_ItemID pib = 1 \<and>
    ItemInfo m' = Some ib \<and> ItemInfos ib = [ie] \<and> ie_ItemID ie = 1 \<and> ItemType ie = itemType \<and>
    m_Properties m' = Some ip \<and> ipc_Properties (PropertyContainer ip) = children_at 0 (map prop_pair props) \<and>
    Associations ip = [ipa] \<and>
    Entries ipa = [\<lparr>ipai_ItemID = 1, AssociationsCount = length props,
                    ipai_Associations = map2 written_assoc [1..<1 + length props] props\<rparr>] \<and>
    ItemLocation m' = Some ilb \<and>
    ilb_Items ilb = [\<lparr>ent_ItemID = 1, ConstructionMethod = 0, DataReferenceIndex = 0, BaseOffset = 0, ExtentCount = 1,
                       Extents = [\<lparr>Offset = ucast off, Length = ucast len\<rparr>]\<rparr>]"
proof -
  obtain o1 o2 o3 o4 where cs: "children_at 0 (meta_boxes itemType props off len) =
      [read_back 0 (ascii ''hdlr'') hdlr_body, read_back o1 (ascii ''pitm'') pitm_body,
       read_back o2 (ascii ''iinf'') (iinf_body itemType), read_back o3 (ascii ''iloc'') (iloc_body off len),
       read_back o4 (ascii ''iprp'') (iprp_body props)]"
    by (simp add: meta_boxes_def)
  obtain ib ie where iinf: "Parse (read_back o2 (ascii ''iinf'') (iinf_body itemType)) = Inr (ItemInfo_Box ib)"
    "ItemInfos ib = [ie]" "ie_ItemID ie = 1" "ItemType ie = itemType"
    using Parse_iinf [OF assms(1-3), of o2] by blast
  obtain ilb where iloc: "Parse (read_back o3 (ascii ''iloc'') (iloc_body off len)) = Inr (ItemLocation_Box ilb)"
    "ilb_Items ilb = [\<lparr>ent_ItemID = 1, ConstructionMethod = 0, DataReferenceIndex = 0, BaseOffset = 0, ExtentCount = 1,
                       Extents = [\<lparr>Offset = ucast off, Length = ucast len\<rparr>]\<rparr>]"
    using Parse_iloc by blast
  obtain ip ipa where iprp: "Parse (read_back o4 (ascii ''iprp'') (iprp_body props)) = Inr (ItemProperties_Box ip)"
    "ipc_Properties (PropertyContainer ip) = children_at 0 (map prop_pair props)" "Associations ip = [ipa]"
    "Entries ipa = [\<lparr>ipai_ItemID = 1, AssociationsCount = length props,
                    ipai_Associations = map2 written_assoc [1..<1 + length props] props\<rparr>]"
    using Parse_iprp [OF assms(4-6), of o4] by blast
  show ?thesis
    unfolding cs meta_children.simps Parse_hdlr Parse_pitm iinf(1) iloc(1) iprp(1)
    using iinf(2-4) iloc(2) iprp(2-4) by (simp add: store_box_def del: upt_Suc)
qed

lemma length_children_at [simp]: "length (children_at off bs) = length bs"
  by (induction bs arbitrary: off) simp_all

definition written_assocs :: "Property list \<Rightarrow> ItemProperty list" where
  "written_assocs props = map2 written_assoc [1..<1 + length props] props"

lemma written_assocs_nth:
  "length (written_assocs props) = length props"
  "j < length props \<Longrightarrow> written_assocs props ! j = \<lparr>Essential = prop_Essential (props ! j), Index = of_nat (Suc j)\<rparr>"
  by (simp_all add: written_assocs_def written_assoc_def del: upt_Suc)

lemma written_assocs_valid:
  assumes "length props \<le> 127"
  shows "filter (\<lambda>ass. Index ass \<noteq> 0 \<and> unat (Index ass) \<le> length props) (written_assocs props) = written_assocs props"
    and "length xs = length props \<Longrightarrow> map (\<lambda>ass. f (xs ! (unat (Index ass) - 1))) (written_assocs props) = map f xs"
    and "map Essential (written_assocs props) = map prop_Essential props"
proof -
  have idx: "unat (of_nat (Suc j) :: 16 word) = Suc j" if "j < length props" for j
    using that assms by (intro unat_of_nat_small) simp
  have "Index ass \<noteq> 0 \<and> unat (Index ass) \<le> length props" if "ass \<in> set (written_assocs props)" for ass
  proof -
    obtain j where "j < length props" "ass = written_assocs props ! j"
      using \<open>ass \<in> set (written_assocs props)\<close> by (auto simp: in_set_conv_nth written_assocs_nth(1))
    then have "unat (Index ass) = Suc j" "j < length props" using idx by (simp_all add: written_assocs_nth(2))
    then show ?thesis by (cases "Index ass = 0") simp_all
  qed
  then show "filter (\<lambda>ass. Index ass \<noteq> 0 \<and> unat (Index ass) \<le> length props) (written_assocs props) = written_assocs props"
    by (simp add: filter_id_conv)
  show "map (\<lambda>ass. f (xs ! (unat (Index ass) - 1))) (written_assocs props) = map f xs" if "length xs = length props"
    using that idx by (intro nth_equalityI) (simp_all add: written_assocs_nth del: of_nat_Suc)
  show "map Essential (written_assocs props) = map prop_Essential props"
    by (rule nth_equalityI) (simp_all add: written_assocs_nth)
qed

text \<open>The metadata of a written file, as far as the items are concerned.\<close>

definition written_meta :: "bytes \<Rightarrow> bytes \<Rightarrow> Property list \<Rightarrow> 32 word \<Rightarrow> 32 word \<Rightarrow> BoxMeta \<Rightarrow> bool" where
  "written_meta brand itemType props off len m \<longleftrightarrow>
     (\<exists>ft pib ib ie ip ipa ilb. FileType m = Some ft \<and> MajorBrand ft = brand \<and>
        PrimaryItem_box m = Some pib \<and> pib_ItemID pib = 1 \<and>
        ItemInfo m = Some ib \<and> ItemInfos ib = [ie] \<and> ie_ItemID ie = 1 \<and> ItemType ie = itemType \<and>
        m_Properties m = Some ip \<and> ipc_Properties (PropertyContainer ip) = children_at 0 (map prop_pair props) \<and>
        Associations ip = [ipa] \<and>
        Entries ipa = [\<lparr>ipai_ItemID = 1, AssociationsCount = length props, ipai_Associations = written_assocs props\<rparr>] \<and>
        ItemLocation m = Some ilb \<and>
        ilb_Items ilb = [\<lparr>ent_ItemID = 1, ConstructionMethod = 0, DataReferenceIndex = 0, BaseOffset = 0, ExtentCount = 1,
                          Extents = [\<lparr>Offset = ucast off, Length = ucast len\<rparr>]\<rparr>])"

lemma read_meta_written:
  assumes "EncodeImage brand itemType props data = Inr out"
    and it: "itemType \<noteq> ascii ''mime''" "itemType \<noteq> ascii ''uri ''"
  defines "off \<equiv> 191 + length (ipco_body props) + length props"
  shows "\<exists>m. read_meta out = Inr m \<and> written_meta brand itemType props (of_nat off) (of_nat (length data)) m"
proof -
  note E = EncodeImage_Inr [OF assms(1), folded off_def]
  let ?F = "ftyp_body brand" and ?M = "meta_body itemType props (of_nat off) (of_nat (length data))"
  let ?D = "enc_box (ascii ''mdat'') data"
  let ?r0 = "NewReader \<lparr>pending = out, after = EOF\<rparr> True"
  let ?r1 = "?r0\<lparr>rd_br := \<lparr>pending = ?F @ enc_box (ascii ''meta'') ?M @ ?D, after = EOF\<rparr>, pos := 24, lastN := Some 16\<rparr>"
  have lenM: "length ?M = off - 40" using E(2) by (simp add: length_meta_body off_def)
  have out: "out = enc_box (ascii ''ftyp'') ?F @ enc_box (ascii ''meta'') ?M @ ?D"
    using E(6) by (simp add: image_file_def)
  have "length out \<le> assumedMaxSize"
    using E(1,2,5) lenM by (simp add: out assumedMaxSize_def off_def)
  then have r0: "NewReader \<lparr>pending = take assumedMaxSize out, after = EOF\<rparr> True = ?r0" by simp
  have 1: "ReadBox ?r0 = (Inr ((read_back 0 (ascii ''ftyp'') ?F)\<lparr>slurp := None\<rparr>), ?r1)"
    by (subst ReadBox_enc [of "ascii ''ftyp''" ?F _ "[]" "enc_box (ascii ''meta'') ?M @ ?D"])
       (use E(1) out in \<open>simp_all add: encodable_def NewReader_def\<close>)
  obtain r2 where 2: "ReadBox ?r1 = (Inr ((read_back 24 (ascii ''meta'') ?M)\<lparr>slurp := None\<rparr>), r2)"
    using ReadBox_enc [of "ascii ''meta''" ?M ?r1 ?F ?D] E(1,5) lenM
    by (simp add: encodable_def NewReader_def off_def)
  obtain ft where ft: "Parse ((read_back 0 (ascii ''ftyp'') ?F)\<lparr>slurp := None\<rparr>) = Inr (FileType_Box ft)" "MajorBrand ft = brand"
    using Parse_ftyp [OF E(1), of 0] by (auto simp: ftyp_body_def)
  have "length ?M < 2 ^ 32" using lenM E(5) by simp
  then obtain mb where mb: "Parse ((read_back 24 (ascii ''meta'') ?M)\<lparr>slurp := None\<rparr>) = Inr (Meta_Box mb)"
    "mb_Children mb = children_at 0 (meta_boxes itemType props (of_nat off) (of_nat (length data)))"
    using Parse_meta [OF E(2)] by blast
  have "8 + length (ipco_body props) < 2 ^ 32" using E(5) by (simp add: off_def)
  from meta_children_written [OF E(2) it E(3,4) this, of "of_nat off" "of_nat (length data)" "empty_meta\<lparr>FileType := Some ft\<rparr>"]
  obtain m where m: "meta_children (mb_Children mb) (empty_meta\<lparr>FileType := Some ft\<rparr>) = Inr m"
    "written_meta brand itemType props (of_nat off) (of_nat (length data)) m"
    unfolding mb(2) written_meta_def written_assocs_def using ft(2) by auto
  have "read_meta out = Inr m"
    unfolding read_meta_def r0 Let_def ReadAndParseBox_def 1 by (simp add: ft(1) 2 mb(1) m(1))
  with m(2) show ?thesis by blast
qed

end
