(* ===== verification/Heif_Properties.thy ===== *)
theory Heif_Properties
  imports Heif_Correct
begin

text \<open>The exported operations of \<open>heif\<close> and \<open>bmff\<close>: the properties of the two packages.\<close>

unbundle bit_operations_syntax

section \<open>The primary item of a written file\<close>

lemma PrimaryItem_written:
  assumes "EncodeImage brand itemType props data = Inr out"
    and it: "itemType \<noteq> ascii ''mime''" "itemType \<noteq> ascii ''uri ''"
  defines "off \<equiv> 191 + length (ipco_body props) + length props"
  obtains it f m where "PrimaryItem (Open out) = (Inr it, f)" "meta f = Some m" "metaErr f = None" "ra f = out"
    "ID it = 1" "ItemType (Info it) = itemType" "majorBrand f = brand"
    "Location it = Some \<lparr>ent_ItemID = 1, ConstructionMethod = 0, DataReferenceIndex = 0, BaseOffset = 0, ExtentCount = 1,
       Extents = [\<lparr>Offset = ucast (of_nat off :: 32 word), Length = ucast (of_nat (length data) :: 32 word)\<rparr>]\<rparr>"
    "Item_Properties it = map parse_or_raw (children_at 0 (map prop_pair props))"
    "all_properties m = children_at 0 (map prop_pair props)" "propertyAssociations f 1 = written_assocs props"
proof -
  note E = EncodeImage_Inr [OF assms(1)]
  obtain m where m: "read_meta out = Inr m" "written_meta brand itemType props (of_nat off) (of_nat (length data)) m"
    using read_meta_written [OF assms(1) it] by (auto simp: off_def)
  let ?f = "(Open out)\<lparr>meta := Some m\<rparr>"
  have g: "getMeta (Open out) = (Inr m, ?f)" "getMeta ?f = (Inr m, ?f)"
    by (simp_all add: getMeta_def Open_def m(1))
  from m(2) obtain ft pib ib ie ip ipa ilb where w:
    "FileType m = Some ft" "MajorBrand ft = brand" "PrimaryItem_box m = Some pib" "pib_ItemID pib = 1"
    "ItemInfo m = Some ib" "ItemInfos ib = [ie]" "ie_ItemID ie = 1" "ItemType ie = itemType"
    "m_Properties m = Some ip" "ipc_Properties (PropertyContainer ip) = children_at 0 (map prop_pair props)"
    "Associations ip = [ipa]"
    "Entries ipa = [\<lparr>ipai_ItemID = 1, AssociationsCount = length props, ipai_Associations = written_assocs props\<rparr>]"
    "ItemLocation m = Some ilb"
    "ilb_Items ilb = [\<lparr>ent_ItemID = 1, ConstructionMethod = 0, DataReferenceIndex = 0, BaseOffset = 0, ExtentCount = 1,
       Extents = [\<lparr>Offset = ucast (of_nat off :: 32 word), Length = ucast (of_nat (length data) :: 32 word)\<rparr>]\<rparr>]"
    unfolding written_meta_def by blast
  have all: "all_properties m = children_at 0 (map prop_pair props)" using w(9,10) by (simp add: all_properties_def)
  have pa: "propertyAssociations ?f 1 = written_assocs props"
    using w(9-12) written_assocs_valid(1) [OF E(3)] by (simp add: propertyAssociations_def)
  have props: "map (\<lambda>ass. parse_or_raw (all_properties m ! (unat (Index ass) - 1))) (written_assocs props) =
      map parse_or_raw (children_at 0 (map prop_pair props))"
    unfolding all by (rule written_assocs_valid(2) [OF E(3)]) simp
  have "majorBrand ?f = brand" using w(1,2) E(1) by (simp add: majorBrand_def)
  moreover have "ra ?f = out" "meta ?f = Some m" "metaErr ?f = None" by (simp_all add: Open_def)
  moreover have "PrimaryItem (Open out) = (Inr \<lparr>ID = 1, Info = ie, Location = Some (hd (ilb_Items ilb)),
      Item_Properties = map parse_or_raw (children_at 0 (map prop_pair props))\<rparr>, ?f)"
    using w(3-8,13,14) props by (simp add: PrimaryItem_def g ItemByID_def last_match_def pa)
  ultimately show thesis using that pa all w(8,14) by simp
qed

lemma unat_ucast_of_nat: "n < 2 ^ 32 \<Longrightarrow> unat (ucast (of_nat n :: 32 word) :: 64 word) = n"
proof -
  assume n: "n < 2 ^ 32"
  have "ucast (of_nat n :: 32 word) = (of_nat (unat (of_nat n :: 32 word)) :: 64 word)" by simp
  also have "\<dots> = of_nat n" using n by (subst unat_of_nat_small) simp_all
  finally show ?thesis using n by (simp only: unat_of_nat_small) (simp add: unat_of_nat_small)
qed

lemma sint_small: "unat (w :: 64 word) < 2 ^ 63 \<Longrightarrow> sint w = int (unat w)"
proof -
  assume w: "unat w < 2 ^ 63"
  have "signed_take_bit 63 (int n) = int n" if "n < 2 ^ 63" for n
    using that by (intro signed_take_bit_int_eq_self) auto
  from this [OF w] show ?thesis by (simp add: sint_uint)
qed

lemma Item_Data_written:
  assumes "EncodeImage brand itemType props data = Inr out"
    and "Location it = Some \<lparr>ent_ItemID = 1, ConstructionMethod = 0, DataReferenceIndex = 0, BaseOffset = 0, ExtentCount = 1,
       Extents = [\<lparr>Offset = ucast (of_nat (191 + length (ipco_body props) + length props) :: 32 word),
                   Length = ucast (of_nat (length data) :: 32 word)\<rparr>]\<rparr>"
    and "0 < length data" "length data \<le> 64 * 2 ^ 20"
  shows "Item_Data out it = Inr data"
proof -
  define off where "off = 191 + length (ipco_body props) + length props"
  define off64 where "off64 = (ucast (of_nat off :: 32 word) :: 64 word)"
  define len64 where "len64 = (ucast (of_nat (length data) :: 32 word) :: 64 word)"
  note E = EncodeImage_Inr [OF assms(1), folded off_def]
  have OL: "unat off64 = off" "unat len64 = length data"
    using E(5) unfolding off64_def len64_def by (simp_all only: unat_ucast_of_nat)
  have "out = (enc_box (ascii ''ftyp'') (ftyp_body brand) @ enc_box (ascii ''meta'')
      (meta_body itemType props (of_nat off) (of_nat (length data))) @ be_bytes 4 (8 + length data) @ ascii ''mdat'') @ data"
    (is "out = ?pre @ data")
    using E(6) by (simp add: image_file_def enc_box_def [of "ascii ''mdat''"])
  moreover have "length ?pre = off" using E(1,2) by (simp add: length_meta_body off_def)
  ultimately have "bytes_ReadAt out (length data) (int off) = (data, None)"
    using bytes_ReadAt_inside [of off out "length data"] assms(3) by simp
  moreover have "sint off64 = int off" using sint_small [of off64] OL E(5) by simp
  moreover have "\<not> off64 > 2 ^ 63 - 1" using OL E(5) by (simp add: word_less_nat_alt)
  moreover have "len64 \<noteq> 0" using OL(2) assms(3) by auto
  moreover have "\<not> len64 > MaxItemDataSize" using OL(2) assms(4) by (simp add: MaxItemDataSize_def word_less_nat_alt push_bit_eq_mult)
  ultimately show ?thesis
    using assms(2) OL(2) unfolding off_def [symmetric] off64_def [symmetric] len64_def [symmetric]
    by (simp add: Item_Data_def Let_def)
qed

section \<open>Copying an item\<close>

lemma bytes_ReadAt_full: "bytes_ReadAt s n off = (b, None) \<Longrightarrow> length b = n"
  by (auto simp: bytes_ReadAt_def Let_def split: if_splits)

lemma read_extents_length:
  "read_extents f base es buf = Inr d \<Longrightarrow> length d = length buf + (\<Sum>e \<leftarrow> es. unat (Length e))"
  by (induction es arbitrary: buf) (auto simp: Let_def split: if_splits option.splits prod.splits dest!: bytes_ReadAt_full)

lemma extents_total_bound:
  assumes "extents_total es tot = Inr t" "tot \<le> MaxItemDataSize"
  shows "unat tot + (\<Sum>e \<leftarrow> es. unat (Length e)) \<le> 64 * 2 ^ 20 \<and> (es \<noteq> [] \<longrightarrow> 0 < (\<Sum>e \<leftarrow> es. unat (Length e)))"
  using assms
proof (induction es arbitrary: tot)
  case Nil
  then show ?case by (simp add: MaxItemDataSize_def word_le_nat_alt push_bit_eq_mult)
next
  case (Cons e es)
  have e: "Length e \<noteq> 0" "Length e \<le> MaxItemDataSize - tot" and t: "extents_total es (tot + Length e) = Inr t"
    using Cons.prems by (auto split: if_splits)
  have "unat (MaxItemDataSize - tot) = 64 * 2 ^ 20 - unat tot"
    using Cons.prems(2) by (simp add: unat_sub MaxItemDataSize_def push_bit_eq_mult)
  then have le: "unat tot + unat (Length e) \<le> 64 * 2 ^ 20"
    using e(2) Cons.prems(2) by (simp add: word_le_nat_alt MaxItemDataSize_def push_bit_eq_mult)
  then have sum: "unat (tot + Length e) = unat tot + unat (Length e)"
    by (subst unat_plus_if') auto
  with le have "tot + Length e \<le> MaxItemDataSize"
    by (simp add: word_le_nat_alt MaxItemDataSize_def push_bit_eq_mult)
  moreover have "0 < unat (Length e)" using e(1) by (intro gr0I) (simp add: unat_eq_0)
  ultimately show ?case using Cons.IH [OF t] sum by simp
qed

lemma Item_Data_length:
  assumes "Item_Data f it = Inr d"
  shows "0 < length d" "length d \<le> 64 * 2 ^ 20"
proof -
  from assms obtain loc :: ItemLocationBoxEntry and t where loc: "Extents loc \<noteq> []" "extents_total (Extents loc) 0 = Inr t"
    "read_extents f (BaseOffset loc) (Extents loc) [] = Inr d"
    by (auto simp: Item_Data_def split: option.splits if_splits sum.splits)
  from extents_total_bound [OF loc(2)] loc(1) read_extents_length [OF loc(3)]
  show "0 < length d" "length d \<le> 64 * 2 ^ 20" by auto
qed

text \<open>
  The properties of an item as the file stores them: box type, box body, and whether the property is
  essential.
\<close>

definition stored_props :: "File \<Rightarrow> 32 word \<Rightarrow> (bytes \<times> bytes \<times> bool) list" where
  "stored_props f item_id = (case meta f of
     None \<Rightarrow> []
   | Some m \<Rightarrow> map (\<lambda>ass. let b = all_properties m ! (unat (Index ass) - 1) in (boxType b, box_bytes b, Essential ass))
       (propertyAssociations f item_id))"

lemma propertyAssociations_valid:
  assumes "meta f = Some m" "ass \<in> set (propertyAssociations f item_id)"
  shows "Index ass \<noteq> 0 \<and> unat (Index ass) \<le> length (all_properties m)"
proof -
  have fold: "set (foldl (\<lambda>asses ipa. if asses \<noteq> [] then asses else asses @ g ipa) acc xs) \<subseteq> set acc \<union> (\<Union>x \<in> set xs. set (g x))"
    for acc xs and g :: "ItemPropertyAssociation \<Rightarrow> ItemProperty list"
    by (induction xs arbitrary: acc) (fastforce split: if_splits)+
  obtain ps where ps: "m_Properties m = Some ps"
    using assms by (cases "m_Properties m") (simp_all add: propertyAssociations_def)
  have eq: "all_properties m = ipc_Properties (PropertyContainer ps)" using ps by (simp add: all_properties_def)
  let ?g = "\<lambda>ipa. concat (map (\<lambda>ipai. if ipai_ItemID ipai \<noteq> item_id then []
      else filter (\<lambda>ass. Index ass \<noteq> 0 \<and> unat (Index ass) \<le> length (all_properties m)) (ipai_Associations ipai)) (Entries ipa))"
  have "propertyAssociations f item_id = foldl (\<lambda>asses ipa. if asses \<noteq> [] then asses else asses @ ?g ipa) [] (Associations ps)"
    unfolding eq using assms(1) ps by (simp add: propertyAssociations_def Let_def)
  with assms(2) fold [of ?g "[]" "Associations ps"] show ?thesis by (auto split: if_splits)
qed

lemma standalone_props_Inr:
  assumes "standalone_props all asses acc = Inr props" "\<And>a. a \<in> set asses \<Longrightarrow> Index a \<noteq> 0 \<and> unat (Index a) \<le> length all"
  shows "props = acc @ map (\<lambda>a. let p = all ! (unat (Index a) - 1) in
    \<lparr>prop_Box = appendBox [] (boxType p) (box_bytes p), prop_Essential = Essential a\<rparr>) asses"
  using assms
proof (induction asses arbitrary: acc)
  case (Cons a asses)
  let ?p = "all ! (unat (Index a) - 1)"
  have "standalone_props all asses (acc @ [\<lparr>prop_Box = appendBox [] (boxType ?p) (box_bytes ?p), prop_Essential = Essential a\<rparr>]) = Inr props"
    using Cons.prems(1) Cons.prems(2) [of a] by (auto simp: Let_def ReadAll_def box_bytes_def split: if_splits)
  from Cons.IH [OF this] Cons.prems(2) show ?case by (simp add: Let_def)
qed simp

lemma boxes_at_children:
  "map (\<lambda>b. (boxType b, box_bytes b)) (children_at off bs) = bs"
  by (induction bs arbitrary: off) (simp_all add: box_bytes_def)

lemma stored_props_written:
  assumes "length props \<le> 127" "meta f = Some m" "all_properties m = children_at 0 (map prop_pair props)"
    "propertyAssociations f 1 = written_assocs props"
  shows "stored_props f 1 = map (\<lambda>p. (fst (prop_pair p), snd (prop_pair p), prop_Essential p)) props"
proof (rule nth_equalityI)
  show "length (stored_props f 1) = length (map (\<lambda>p. (fst (prop_pair p), snd (prop_pair p), prop_Essential p)) props)"
    using assms(2,4) by (simp add: stored_props_def written_assocs_nth)
  fix j assume "j < length (stored_props f 1)"
  then have j: "j < length props" using assms(2,4) by (simp add: stored_props_def written_assocs_nth)
  then have "unat (of_nat (Suc j) :: 16 word) = Suc j" using assms(1) by (intro unat_of_nat_small) simp
  moreover have "(boxType (children_at 0 (map prop_pair props) ! j), box_bytes (children_at 0 (map prop_pair props) ! j)) =
      map prop_pair props ! j"
    using arg_cong [OF boxes_at_children [of 0 "map prop_pair props"], of "\<lambda>xs. xs ! j"] j by simp
  ultimately show "stored_props f 1 ! j = map (\<lambda>p. (fst (prop_pair p), snd (prop_pair p), prop_Essential p)) props ! j"
    using j assms(2-4) by (simp add: stored_props_def written_assocs_nth Let_def del: of_nat_Suc)
qed

lemma EncodeImage_read_back:
  assumes "EncodeImage brand itemType props data = Inr out"
    and "itemType \<noteq> ascii ''mime''" "itemType \<noteq> ascii ''uri ''"
  shows "\<exists>it f. PrimaryItem (Open out) = (Inr it, f) \<and> ID it = 1 \<and> ItemType (Info it) = itemType \<and>
    majorBrand f = brand \<and>
    stored_props f (ID it) = map (\<lambda>p. (take 4 (drop 4 (prop_Box p)), drop 8 (prop_Box p), prop_Essential p)) props \<and>
    (0 < length data \<and> length data \<le> 64 * 2 ^ 20 \<longrightarrow> Item_Data (ra f) it = Inr data)"
proof -
  obtain it f m where w: "PrimaryItem (Open out) = (Inr it, f)" "meta f = Some m" "ra f = out"
    "ID it = 1" "ItemType (Info it) = itemType" "majorBrand f = brand"
    "Location it = Some \<lparr>ent_ItemID = 1, ConstructionMethod = 0, DataReferenceIndex = 0, BaseOffset = 0, ExtentCount = 1,
       Extents = [\<lparr>Offset = ucast (of_nat (191 + length (ipco_body props) + length props) :: 32 word),
                   Length = ucast (of_nat (length data) :: 32 word)\<rparr>]\<rparr>"
    "all_properties m = children_at 0 (map prop_pair props)" "propertyAssociations f 1 = written_assocs props"
    using PrimaryItem_written [OF assms] by blast
  have "stored_props f 1 = map (\<lambda>p. (fst (prop_pair p), snd (prop_pair p), prop_Essential p)) props"
    using stored_props_written [OF EncodeImage_Inr(3) [OF assms(1)] w(2,8,9)] .
  with w Item_Data_written [OF assms(1) w(7)] show ?thesis by auto
qed

text \<open>A box that passes as one has a type of four bytes.\<close>

lemma appendBox_pair:
  assumes "enc_box t b = appendBox [] ty bdy" "length t = 4" "8 + length b < 2 ^ 32"
  shows "t = ty \<and> b = bdy"
proof -
  let ?n = "unat (of_nat (8 + length bdy) :: 32 word)"
  have eq: "be_bytes 4 (8 + length b) @ t @ b = be_bytes 4 ?n @ ty @ bdy"
    using assms(1) by (simp add: enc_box_def appendBox_def AppendUint32_def)
  then have "be_bytes 4 (8 + length b) = be_bytes 4 ?n" and rest: "t @ b = ty @ bdy" by simp_all
  then have "(8 + length b) mod 2 ^ 32 = ?n mod 2 ^ 32"
    using be_nat_be_bytes [of 4 "8 + length b"] be_nat_be_bytes [of 4 ?n] by simp
  then have "8 + length b = (8 + length bdy) mod 2 ^ 32"
    using assms(3) by (simp add: unsigned_of_nat take_bit_eq_mod del: of_nat_add)
  moreover have "4 + length b = length ty + length bdy"
    using arg_cong [OF rest, of length] assms(2) by simp
  ultimately have "length b = length bdy" using assms(3) by (simp add: mod_if split: if_splits)
  with rest show ?thesis by auto
qed

lemma Uint32_be_bytes: "n < 2 ^ 32 \<Longrightarrow> Uint32 (be_bytes 4 n @ q) = of_nat n"
  by (rule word_unat_eq_iff [THEN iffD2]) (simp add: unat_of_nat_small)

lemma prop_is_box:
  assumes "length ty = 4" "length bdy < 100"
  shows "Uint32 (appendBox [] ty bdy) = of_nat (8 + length bdy)"
  using assms by (simp add: appendBox_enc enc_box_def Uint32_be_bytes)

lemma swap_funpow: "((\<lambda>(x, y). (y, x)) ^^ n) (w, h) = (if odd n then (h, w) else (w, h))"
  by (induction n) auto

lemma sample_image: "\<exists>out. EncodeImage (ascii ''heic'') (ascii ''hvc1'') [] [1, 2, 3] = Inr out"
  by (simp add: EncodeImage_def Let_def buildMeta_def)

lemma sample_image_props:
  "\<exists>out. EncodeImage (ascii ''heic'') (ascii ''hvc1'') [SpatialExtents 640 480, Rotation 3] [1] = Inr out"
  by (simp add: EncodeImage_def Let_def buildMeta_def SpatialExtents_def Rotation_def prop_is_box)

lemma read_extents_bytes:
  assumes "read_extents f base es buf = Inr d"
  shows "d = buf @ concat (map (\<lambda>e. take (unat (Length e)) (drop (unat base + unat (Offset e)) f)) es)"
  using assms
proof (induction es arbitrary: buf)
  case (Cons e es)
  let ?off = "base + Offset e"
  obtain part err where ra: "bytes_ReadAt f (unat (Length e)) (sint ?off) = (part, err)" by (metis surj_pair)
  have ok: "\<not> ?off > 2 ^ 63 - 1" "err = None" "base \<le> ?off" and rest: "read_extents f base es (buf @ part) = Inr d"
    using Cons.prems ra by (auto simp: Let_def split: if_splits option.splits)
  have "unat ?off < 2 ^ 63" using ok(1) by (simp add: word_less_nat_alt)
  then have "sint ?off = int (unat ?off)" by (rule sint_small)
  then have "part = take (unat (Length e)) (drop (unat ?off) f)"
    using ra ok(2) by (auto simp: bytes_ReadAt_def Let_def split: if_splits)
  with Cons.IH [OF rest] ok(3) [unfolded unat_plus_simple] show ?case by simp
qed simp

section \<open>Properties\<close>

text \<open>
  C3: a file written by \<open>EncodeImage\<close> (for an item type other than \<open>mime\<close> and \<open>uri\<close>, whose entries have
  further fields) is read back: its primary item has ID 1, the type, the properties in order with
  their essential flags and the brand it was written with, and, when there is data within the size
  limit, \<open>Data\<close> returns it.
\<close>

theorem EncodeImage_roundtrip:
  assumes "EncodeImage brand itemType props data = Inr out"
    and "itemType \<noteq> ascii ''mime''" "itemType \<noteq> ascii ''uri ''"
  shows "\<exists>it f. PrimaryItem (Open out) = (Inr it, f) \<and> ID it = 1 \<and> ItemType (Info it) = itemType \<and>
    majorBrand f = brand \<and>
    stored_props f (ID it) = map (\<lambda>p. (take 4 (drop 4 (prop_Box p)), drop 8 (prop_Box p), prop_Essential p)) props \<and>
    (0 < length data \<and> length data \<le> 64 * 2 ^ 20 \<longrightarrow> Item_Data (ra f) it = Inr data)"
  using assms by (rule EncodeImage_read_back)

theorem EncodeImage_roundtrip_witness:
  "\<exists>out it f. EncodeImage (ascii ''heic'') (ascii ''hvc1'') [] [1, 2, 3] = Inr out \<and>
     PrimaryItem (Open out) = (Inr it, f) \<and> ID it = 1 \<and> ItemType (Info it) = ascii ''hvc1'' \<and>
     majorBrand f = ascii ''heic'' \<and> stored_props f (ID it) = [] \<and> Item_Data (ra f) it = Inr [1, 2, 3]"
proof -
  obtain out where "EncodeImage (ascii ''heic'') (ascii ''hvc1'') [] [1, 2, 3] = Inr out"
    using sample_image by blast
  moreover from EncodeImage_roundtrip [OF this] obtain it f where "PrimaryItem (Open out) = (Inr it, f)" "ID it = 1"
    "ItemType (Info it) = ascii ''hvc1''" "majorBrand f = ascii ''heic''" "stored_props f (ID it) = []"
    "Item_Data (ra f) it = Inr [1, 2, 3]" by (auto simp: ascii_def)
  ultimately show ?thesis by blast
qed

text \<open>
  The image dimensions and rotation given to \<open>EncodeImage\<close> through \<open>SpatialExtents\<close> and \<open>Rotation\<close>
  come back from the written file: the extents as given, the quarter turns modulo four, and the
  visual dimensions exchanged exactly for an odd number of turns.
\<close>

theorem EncodeImage_dimensions:
  assumes "EncodeImage brand itemType [SpatialExtents w h, Rotation q] data = Inr out"
    and "itemType \<noteq> ascii ''mime''" "itemType \<noteq> ascii ''uri ''"
  shows "\<exists>it f. PrimaryItem (Open out) = (Inr it, f) \<and>
    Item_SpatialExtents it = (uint w, uint h, True) \<and> int (Rotations it) = q mod 4 \<and>
    VisualDimensions it = (if odd q then (uint h, uint w, True) else (uint w, uint h, True))"
proof -
  let ?e = "replicate 4 0 @ be_bytes 4 (unat w) @ be_bytes 4 (unat h)" and ?a = "of_int (q AND 3) :: byte"
  have pairs: "map prop_pair [SpatialExtents w h, Rotation q] = [(ascii ''ispe'', ?e), (ascii ''irot'', [?a])]"
    by (simp add: SpatialExtents_def Rotation_def appendBox_def AppendUint32_def)
  obtain it f where it: "PrimaryItem (Open out) = (Inr it, f)"
    "Item_Properties it = map parse_or_raw (children_at 0 (map prop_pair [SpatialExtents w h, Rotation q]))"
    using PrimaryItem_written [OF assms] by blast
  obtain pe where pe: "parse_or_raw (read_back 0 (ascii ''ispe'') ?e) = ImageSpatialExtents_Box pe" "ImageWidth pe = w" "ImageHeight pe = h"
    using readUint32_at [of h "[]"]
    by (simp add: parse_or_raw_def Parse_read_back [OF parsers_lookup(11)] parseImageSpatialExtentsProperty_def replicate_4)
  obtain pr where pr: "parse_or_raw (read_back 20 (ascii ''irot'') [?a]) = ImageRotation_Box pr" "Angle pr = ?a AND 3"
    by (simp add: parse_or_raw_def Parse_read_back [OF parsers_lookup(12)] parseImageRotation_def)
  have q3: "k AND 3 = k mod 4" for k :: int
    using take_bit_eq_mask [of 2 k] by (simp add: take_bit_eq_mod mask_eq_exp_minus_1)
  have "uint ?a = q mod 4 mod 256" by (simp add: q3 unsigned_of_int take_bit_eq_mod)
  then have "uint (?a AND 3) = q mod 4 mod 256 mod 4" by (simp add: unsigned_and_eq q3)
  then have rot: "int (unat (?a AND 3)) = q mod 4" by simp
  have props: "Item_Properties it = [ImageSpatialExtents_Box pe, ImageRotation_Box pr]"
    unfolding it(2) pairs using pe(1) pr(1) by simp
  then have ext: "Item_SpatialExtents it = (uint w, uint h, True)" and rots: "int (Rotations it) = q mod 4"
    using pe pr rot by (simp_all add: Item_SpatialExtents_def Rotations_def)
  have "odd (int (Rotations it)) \<longleftrightarrow> odd q" unfolding rots by presburger
  then have "odd (Rotations it) \<longleftrightarrow> odd q" by (simp only: even_of_nat)
  then show ?thesis using it(1) ext rots by (simp add: VisualDimensions_def swap_funpow)
qed

theorem EncodeImage_dimensions_witness:
  "\<exists>out it f. EncodeImage (ascii ''heic'') (ascii ''hvc1'') [SpatialExtents 640 480, Rotation 3] [1] = Inr out \<and>
     PrimaryItem (Open out) = (Inr it, f) \<and> Item_SpatialExtents it = (640, 480, True) \<and> Rotations it = 3 \<and>
     VisualDimensions it = (480, 640, True)"
proof -
  obtain out where "EncodeImage (ascii ''heic'') (ascii ''hvc1'') [SpatialExtents 640 480, Rotation 3] [1] = Inr out"
    using sample_image_props by blast
  moreover from EncodeImage_dimensions [OF this] obtain it f where "PrimaryItem (Open out) = (Inr it, f)"
    "Item_SpatialExtents it = (640, 480, True)" "Rotations it = 3" "VisualDimensions it = (480, 640, True)"
    by (auto simp: ascii_def)
  ultimately show ?thesis by blast
qed

text \<open>
  C7: \<open>StandaloneHEIF\<close> returns a file whose primary item is a copy of the item: same type, same data,
  same properties (types, bodies and essential flags, in order), and the source file's brand.
\<close>

theorem StandaloneHEIF_copies:
  assumes "StandaloneHEIF f it = (Inr out, f')"
  shows "\<exists>it' g. PrimaryItem (Open out) = (Inr it', g) \<and> ItemType (Info it') = ItemType (Info it) \<and>
    Item_Data (ra g) it' = Item_Data (ra f') it \<and> majorBrand g = majorBrand f' \<and>
    stored_props g (ID it') = stored_props f' (ID it)"
proof -
  obtain m data props where m: "getMeta f = (Inr m, f')" and ty: "ItemType (Info it) \<noteq> ascii ''mime''" "ItemType (Info it) \<noteq> ascii ''uri ''"
    and data: "Item_Data (ra f') it = Inr data"
    and props: "standalone_props (all_properties m) (propertyAssociations f' (ID it)) [] = Inr props"
    and enc: "EncodeImage (majorBrand f') (ItemType (Info it)) props data = Inr out"
    using assms by (auto simp: StandaloneHEIF_def split: prod.splits sum.splits if_splits)
  have meta: "meta f' = Some m"
    using m by (auto simp: getMeta_def split: option.splits sum.splits)
  let ?p = "\<lambda>a. all_properties m ! (unat (Index a) - 1)"
  let ?item_prop = "\<lambda>a. \<lparr>prop_Box = appendBox [] (boxType (?p a)) (box_bytes (?p a)), prop_Essential = Essential a\<rparr>"
  have P: "props = map ?item_prop (propertyAssociations f' (ID it))"
    using standalone_props_Inr [OF props] propertyAssociations_valid [OF meta] by (simp add: Let_def)
  note E = EncodeImage_Inr [OF enc]
  have "prop_pair (?item_prop a) = (boxType (?p a), box_bytes (?p a))" if "a \<in> set (propertyAssociations f' (ID it))" for a
  proof -
    have "?item_prop a \<in> set props" using that P by simp
    then have "encodable (prop_pair (?item_prop a))" "enc_box (fst (prop_pair (?item_prop a))) (snd (prop_pair (?item_prop a))) = prop_Box (?item_prop a)"
      using E(4,7) by (auto simp: list_all_iff)
    then show ?thesis
      using appendBox_pair [of "fst (prop_pair (?item_prop a))" "snd (prop_pair (?item_prop a))" "boxType (?p a)" "box_bytes (?p a)"]
      by (simp add: encodable_def)
  qed
  then have "map (\<lambda>p. (take 4 (drop 4 (prop_Box p)), drop 8 (prop_Box p), prop_Essential p)) props = stored_props f' (ID it)"
    by (simp add: P stored_props_def meta Let_def)
  with EncodeImage_read_back [OF enc ty] Item_Data_length [OF data] data show ?thesis by auto
qed

theorem StandaloneHEIF_copies_witness:
  "\<exists>img it f out f' it' g. EncodeImage (ascii ''heic'') (ascii ''hvc1'') [] [1, 2, 3] = Inr img \<and>
     PrimaryItem (Open img) = (Inr it, f) \<and> StandaloneHEIF f it = (Inr out, f') \<and>
     PrimaryItem (Open out) = (Inr it', g) \<and> ItemType (Info it') = ItemType (Info it) \<and>
     Item_Data (ra g) it' = Item_Data (ra f') it \<and> majorBrand g = majorBrand f' \<and>
     stored_props g (ID it') = stored_props f' (ID it)"
proof -
  obtain img where img: "EncodeImage (ascii ''heic'') (ascii ''hvc1'') [] [1, 2, 3] = Inr img"
    using sample_image by blast
  have ty: "ascii ''hvc1'' \<noteq> ascii ''mime''" "ascii ''hvc1'' \<noteq> ascii ''uri ''" by (simp_all add: ascii_def)
  obtain it f m where w: "PrimaryItem (Open img) = (Inr it, f)" "meta f = Some m" "metaErr f = None" "ra f = img" "ID it = 1"
    "ItemType (Info it) = ascii ''hvc1''" "majorBrand f = ascii ''heic''"
    "Location it = Some \<lparr>ent_ItemID = 1, ConstructionMethod = 0, DataReferenceIndex = 0, BaseOffset = 0, ExtentCount = 1,
       Extents = [\<lparr>Offset = ucast (of_nat (191 + length (ipco_body []) + length ([] :: Property list)) :: 32 word),
                   Length = ucast (of_nat (length [1, 2, 3 :: byte]) :: 32 word)\<rparr>]\<rparr>"
    and pa: "propertyAssociations f 1 = written_assocs []"
    using PrimaryItem_written [OF img ty] by blast
  have "Item_Data img it = Inr [1, 2, 3]" by (rule Item_Data_written [OF img w(8)]) simp_all
  moreover have "propertyAssociations f (ID it) = []" using pa w(5) by (simp add: written_assocs_def)
  moreover have "ascii ''hvc1'' \<notin> {ascii ''grid'', ascii ''iden'', ascii ''iovl'', ascii ''Exif'', ascii ''mime'', ascii ''uri ''}"
    by (simp add: ascii_def)
  ultimately have "StandaloneHEIF f it = (Inr img, f)"
    using w(2-7) img by (simp add: StandaloneHEIF_def getMeta_def)
  with img w(1) StandaloneHEIF_copies [OF this] show ?thesis by blast
qed

text \<open>
  C32: \<open>Data\<close> returns exactly the bytes of the file in the item's extents, one after the other, at least
  one byte and at most 64 MiB of them; no addition of offsets or lengths has wrapped around.
\<close>

theorem Item_Data_extents:
  assumes "Item_Data f it = Inr d"
  shows "\<exists>loc. Location it = Some loc \<and> 0 < length d \<and> length d \<le> 64 * 2 ^ 20 \<and>
    d = concat (map (\<lambda>e. take (unat (Length e)) (drop (unat (BaseOffset loc) + unat (Offset e)) f)) (Extents loc)) \<and>
    length d = (\<Sum>e \<leftarrow> Extents loc. unat (Length e))"
proof -
  from assms obtain loc :: ItemLocationBoxEntry where loc: "Location it = Some loc"
    "read_extents f (BaseOffset loc) (Extents loc) [] = Inr d"
    by (auto simp: Item_Data_def split: option.splits if_splits sum.splits)
  from read_extents_bytes [OF loc(2)] read_extents_length [OF loc(2)] Item_Data_length [OF assms] loc(1)
  show ?thesis unfolding append_Nil list.size add_0 by blast
qed

theorem Item_Data_extents_witness:
  "\<exists>img it f d. EncodeImage (ascii ''heic'') (ascii ''hvc1'') [] [1, 2, 3] = Inr img \<and>
     PrimaryItem (Open img) = (Inr it, f) \<and> Item_Data img it = Inr d \<and>
     (\<exists>loc. Location it = Some loc \<and> 0 < length d \<and> length d \<le> 64 * 2 ^ 20 \<and>
       d = concat (map (\<lambda>e. take (unat (Length e)) (drop (unat (BaseOffset loc) + unat (Offset e)) img)) (Extents loc)) \<and>
       length d = (\<Sum>e \<leftarrow> Extents loc. unat (Length e)))"
proof -
  obtain img where img: "EncodeImage (ascii ''heic'') (ascii ''hvc1'') [] [1, 2, 3] = Inr img" using sample_image by blast
  have ty: "ascii ''hvc1'' \<noteq> ascii ''mime''" "ascii ''hvc1'' \<noteq> ascii ''uri ''" by (simp_all add: ascii_def)
  obtain it f where w: "PrimaryItem (Open img) = (Inr it, f)" and
    loc: "Location it = Some \<lparr>ent_ItemID = 1, ConstructionMethod = 0, DataReferenceIndex = 0, BaseOffset = 0, ExtentCount = 1,
       Extents = [\<lparr>Offset = ucast (of_nat (191 + length (ipco_body []) + length ([] :: Property list)) :: 32 word),
                   Length = ucast (of_nat (length [1, 2, 3 :: byte]) :: 32 word)\<rparr>]\<rparr>"
    using PrimaryItem_written [OF img ty] by blast
  have "Item_Data img it = Inr [1, 2, 3]" by (rule Item_Data_written [OF img loc]) simp_all
  with img w Item_Data_extents [OF this] show ?thesis by blast
qed

text \<open>
  Every property index \<open>ItemByID\<close> uses is in range, whatever the file says, so that the slice
  expression does not panic; the item has as many properties as valid associations.
\<close>

theorem ItemByID_index_safe:
  assumes "ItemByID f item_id = (Inr it, f')"
  shows "\<exists>m. meta f' = Some m \<and>
    (\<forall>ass \<in> set (propertyAssociations f' item_id). 1 \<le> unat (Index ass) \<and> unat (Index ass) - 1 < length (all_properties m)) \<and>
    length (Item_Properties it) = length (propertyAssociations f' item_id)"
proof -
  obtain m where m: "getMeta f = (Inr m, f')"
    using assms by (auto simp: ItemByID_def Let_def split: prod.splits sum.splits option.splits)
  then have meta: "meta f' = Some m" by (auto simp: getMeta_def split: option.splits sum.splits)
  have "1 \<le> unat (Index ass) \<and> unat (Index ass) - 1 < length (all_properties m)"
    if "ass \<in> set (propertyAssociations f' item_id)" for ass
  proof -
    have "unat (Index ass) \<noteq> 0" "unat (Index ass) \<le> length (all_properties m)"
      using propertyAssociations_valid [OF meta that] by (auto simp: unat_eq_0)
    then show ?thesis by linarith
  qed
  moreover have "length (Item_Properties it) = length (propertyAssociations f' item_id)"
    using assms m by (auto simp: ItemByID_def Let_def split: option.splits)
  ultimately show ?thesis using meta by blast
qed

theorem ItemByID_index_safe_witness:
  "\<exists>img it f. EncodeImage (ascii ''heic'') (ascii ''hvc1'') [] [1, 2, 3] = Inr img \<and> ItemByID (Open img) 1 = (Inr it, f) \<and>
     (\<exists>m. meta f = Some m \<and>
      (\<forall>ass \<in> set (propertyAssociations f 1). 1 \<le> unat (Index ass) \<and> unat (Index ass) - 1 < length (all_properties m)) \<and>
      length (Item_Properties it) = length (propertyAssociations f 1))"
proof -
  obtain img where img: "EncodeImage (ascii ''heic'') (ascii ''hvc1'') [] [1, 2, 3] = Inr img" using sample_image by blast
  have ty: "ascii ''hvc1'' \<noteq> ascii ''mime''" "ascii ''hvc1'' \<noteq> ascii ''uri ''" by (simp_all add: ascii_def)
  obtain m where m: "read_meta img = Inr m" "written_meta (ascii ''heic'') (ascii ''hvc1'') []
      (of_nat (191 + length (ipco_body []) + length ([] :: Property list))) (of_nat (length [1, 2, 3 :: byte])) m"
    using read_meta_written [OF img ty] by blast
  then obtain it f where it: "ItemByID (Open img) 1 = (Inr it, f)"
    unfolding written_meta_def by (auto simp: ItemByID_def getMeta_def Open_def last_match_def Let_def)
  from img it ItemByID_index_safe [OF it] show ?thesis by blast
qed

text \<open>
  The EXIF data returned is a contiguous piece of the file of at most 20476 bytes (the limit on
  the declared size is 20 KiB, not the 20 MB of the comment).
\<close>

theorem EXIF_bounded:
  assumes "EXIF f = (Inr buf, f')"
  shows "length buf \<le> 20476 \<and> (\<exists>off. buf = take (length buf) (drop off (ra f')))"
proof -
  from assms obtain loc :: ItemLocationBoxEntry where len: "\<not> Length (Extents loc ! 0) > exif_maxSize" "\<not> Length (Extents loc ! 0) < 4"
    and ra: "bytes_ReadAt (ra f') (unat (Length (Extents loc ! 0) - 4)) (sint (BaseOffset loc + Offset (Extents loc ! 0) + 4)) = (buf, None)"
    by (auto simp: EXIF_def Let_def split: prod.splits sum.splits option.splits if_splits)
  let ?n = "unat (Length (Extents loc ! 0) - 4)"
  have "unat (Length (Extents loc ! 0)) \<le> 20480"
    using len(1) by (simp add: exif_maxSize_def push_bit_eq_mult word_less_nat_alt)
  moreover have "?n = unat (Length (Extents loc ! 0)) - 4"
    using len(2) by (subst unat_sub) (simp_all add: not_less)
  moreover have "length buf = ?n" using ra by (rule bytes_ReadAt_full)
  moreover have "\<exists>off. buf = take ?n (drop off (ra f'))"
    using ra by (auto simp: bytes_ReadAt_def Let_def split: if_splits)
  ultimately show ?thesis by auto
qed

text \<open>A file whose metadata has been read, with an Exif item of six bytes at offset 0.\<close>

definition exif_sample :: File where
  "exif_sample =
     (let fb = \<lparr>fb_box = read_back 0 (ascii ''free'') [], Version = 0, Flags = 0\<rparr> in
      \<lparr>ra = [0, 0, 0, 0, 1, 2], metaErr = None,
       meta = Some (empty_meta
         \<lparr>ItemInfo := Some \<lparr>ib_fb = fb, Count = 1, ItemInfos =
            [\<lparr>ie_fb = fb, ie_ItemID = 1, ProtectionIndex = 0, ItemType = ascii ''Exif'', ie_Name = [], ContentType = [],
              ContentEncoding = [], ItemURIType = []\<rparr>]\<rparr>,
          ItemLocation := Some \<lparr>ilb_fb = fb, offsetSize = 4, lengthSize = 4, baseOffsetSize = 0, indexSize = 0, ItemCount = 1,
            ilb_Items = [\<lparr>ent_ItemID = 1, ConstructionMethod = 0, DataReferenceIndex = 0, BaseOffset = 0, ExtentCount = 1,
              Extents = [\<lparr>Offset = 0, Length = 6\<rparr>]\<rparr>]\<rparr>\<rparr>)\<rparr>)"

theorem EXIF_bounded_witness:
  "EXIF exif_sample = (Inr [1, 2], exif_sample) \<and>
   length [1, 2 :: byte] \<le> 20476 \<and> (\<exists>off. [1, 2] = take (length [1, 2 :: byte]) (drop off (ra exif_sample)))"
proof -
  have "EXIF exif_sample = (Inr [1, 2], exif_sample)"
    by (simp add: EXIF_def exif_sample_def getMeta_def EXIFItemID_def ItemByID_def last_match_def empty_meta_def Let_def
        exif_maxSize_def push_bit_eq_mult bytes_ReadAt_def)
  with EXIF_bounded [OF this] show ?thesis by simp
qed

text \<open>
  An error while reading the metadata is not remembered: \<open>setMetaErr\<close> stores it only if there is
  one already, so a freshly opened file is unchanged by a failing \<open>getMeta\<close> and reads all again.
\<close>

theorem getMeta_error_not_cached:
  assumes "getMeta (Open bs) = (Inl e, f')"
  shows "f' = Open bs \<and> metaErr f' = None"
  using assms by (auto simp: getMeta_def Open_def setMetaErr_def split: sum.splits)

theorem getMeta_error_not_cached_witness:
  "snd (getMeta (Open [])) = Open [] \<and> metaErr (Open []) = None"
proof -
  have "getMeta (Open []) = (Inl (BErr (Wrap ''error reading box'' (IOErr EOF))), snd (getMeta (Open [])))"
    by (simp add: getMeta_def Open_def read_meta_def ReadAndParseBox_def ReadBox_def NewReader_def read_header_def
        io_ReadFull_def ReadFull_def)
  from getMeta_error_not_cached [OF this] show ?thesis by (metis (no_types))
qed

section \<open>Properties of bmff\<close>

text \<open>
  What \<open>ReadBox\<close> returns next does not depend on how much of the last box's body was read: reading
  \<open>k\<close> bytes of it first gives the same box, error and reader state.
\<close>

theorem ReadBox_independent_of_reading:
  assumes "lastN r = Some n" "k \<le> n" "k \<le> length (pending (rd_br r))" "\<not> noMoreBoxes r"
  shows "ReadBox (consume k r) = ReadBox r"
  using assms by (rule ReadBox_consume)

theorem ReadBox_independent_of_reading_witness:
  "let r = \<lparr>rd_br = \<lparr>pending = [7, 7] @ enc_box (ascii ''free'') [], after = EOF\<rparr>, seekable = False, pos = 10,
            lastN = Some 2, noMoreBoxes = False\<rparr> in ReadBox (consume 1 r) = ReadBox r"
  unfolding Let_def by (rule ReadBox_independent_of_reading [of _ 2]) simp_all

text \<open>
  C13: \<open>parseAppendBoxes\<close> on a sequence of encoded boxes returns exactly these boxes, in order, with
  their types, sizes, offsets and bodies, and leaves no error.
\<close>

theorem parseAppendBoxes_roundtrip:
  assumes "list_all encodable bs"
  shows "\<exists>br'. parseAppendBoxes (br_of \<lparr>pending = enc_boxes bs, after = EOF\<rparr>) = (children_at 0 bs, br') \<and> br_err br' = None \<and>
    map (\<lambda>b. (boxType b, box_bytes b)) (children_at 0 bs) = bs"
  using parseAppendBoxes_enc [OF assms, of "br_of \<lparr>pending = enc_boxes bs, after = EOF\<rparr>"]
  by (simp add: br_of_def boxes_at_children)

theorem parseAppendBoxes_roundtrip_witness:
  "\<exists>br'. parseAppendBoxes (br_of \<lparr>pending = enc_boxes [(ascii ''free'', [1]), (ascii ''skip'', [])], after = EOF\<rparr>) =
      (children_at 0 [(ascii ''free'', [1]), (ascii ''skip'', [])], br') \<and> br_err br' = None \<and>
    map (\<lambda>b. (boxType b, box_bytes b)) (children_at 0 [(ascii ''free'', [1]), (ascii ''skip'', [])]) =
      [(ascii ''free'', [1]), (ascii ''skip'', [])]"
  by (rule parseAppendBoxes_roundtrip) (simp add: encodable_def)

text \<open>
  A truncated box header of exactly four bytes, a size with no type after it, passes for the end
  of the boxes: \<open>ReadBox\<close> returns \<open>io.EOF\<close> and \<open>parseAppendBoxes\<close> no error.
\<close>

theorem truncated_header_accepted:
  "br_err (snd (parseAppendBoxes (br_of \<lparr>pending = [0, 0, 0, 20], after = EOF\<rparr>))) = None"
  by (simp add: parseAppendBoxes_def br_of_def parse_boxes.simps NewReader_def ReadBox_def read_header_def
      io_ReadFull_def ReadFull_def)

text \<open>
  The name \<open>parseItemInfoEntry\<close> returns for an entry with item type \<open>typ\<close> and name \<open>nam\<close> (neither
  containing a NUL) is not \<open>nam\<close> but \<open>typ\<close> followed by \<open>nam\<close>: the type is peeked at and never skipped.
\<close>

theorem infe_name_includes_type:
  assumes "length itemType = 4" "itemType \<noteq> ascii ''mime''" "itemType \<noteq> ascii ''uri ''" "0 \<notin> set itemType" "0 \<notin> set nam"
  shows "\<exists>ie. Parse (read_back off (ascii ''infe'') (AppendUint16 (AppendUint16 [2, 0, 0, 0] 1) 0 @ itemType @ nam @ [0])) =
      Inr (ItemInfoEntry_Box ie) \<and> ItemType ie = itemType \<and> ie_Name ie = itemType @ nam"
proof -
  have b: "AppendUint16 (AppendUint16 [2, 0, 0, 0] 1) 0 @ itemType @ nam @ [0] =
    2 # 0 # 0 # 0 # be_bytes 2 (unat (1 :: 16 word)) @ be_bytes 2 (unat (0 :: 16 word)) @ (itemType @ nam) @ [0]"
    by (simp add: AppendUint16_def)
  have "takeWhile (\<lambda>b. b \<noteq> 0) (itemType @ nam) = itemType @ nam"
    using assms(4,5) by (intro takeWhile_eq_all_conv [THEN iffD2]) auto
  then have "readString (at ((itemType @ nam) @ [0])) = (itemType @ nam, at [])"
    by (subst readString_at) (simp only:, simp)
  moreover have "Peek (at ((itemType @ nam) @ [0])) 4 = Inr itemType" using assms(1) by simp
  ultimately show ?thesis
    unfolding Parse_read_back [OF parsers_lookup(6)] unfolding b
    by (simp only: parseItemInfoEntry_def readFullBox_at sum.case prod.case readUint16_at Let_def at_sel option.case)
       (simp add: assms finish_def)
qed

theorem infe_name_includes_type_witness:
  "\<exists>ie. Parse (read_back 0 (ascii ''infe'') (AppendUint16 (AppendUint16 [2, 0, 0, 0] 1) 0 @ ascii ''hvc1'' @ [65] @ [0])) =
      Inr (ItemInfoEntry_Box ie) \<and> ItemType ie = ascii ''hvc1'' \<and> ie_Name ie = ascii ''hvc1'' @ [65]"
  by (rule infe_name_includes_type) (simp_all add: ascii_def)

end
