(* ===== verification/Dumpheif.thy ===== *)
theory Dumpheif
  imports Heif_Properties
begin

text \<open>
  The program \<open>media/heif/dumpheif\<close>, which prints the structure of a HEIF file, as the list of the lines it prints; how \<open>fmt\<close> writes a
  value is left open. \<open>log.Fatal\<close> ends the program. The EXIF decoder is a parameter.
\<close>

section \<open>Lines\<close>

text \<open>The number in the lines of a box is the depth, four blanks of indentation each.\<close>

datatype dump_line =
  PrimaryLine "32 word" | ExtentsLine int int | PropertiesLine | PropertyLine Box | NoPropertiesLine
| EXIFLine | EXIFField bytes bytes | BlankLine | BoxesLine
| Header nat BoxType int | Contents nat bytes | ContentsStart nat nat bytes
| ValueLine nat Box | TypeLine nat Box | ChildrenLine nat Box nat | InfosLine nat "16 word" nat
| AssociationsLine nat "32 word" nat | ForItemLine nat "32 word" nat nat | AssociationLine nat "16 word" bool
| ItemsLine nat "32 word" nat | LocationLine nat ItemLocationBoxEntry | DimensionsLine nat "32 word" "32 word"
| GoTypeLine nat Box

record dump_state =
  exifItemID :: "32 word"
  exifLoc :: "ItemLocationBoxEntry option"

section \<open>Boxes in boxes\<close>

text \<open>The box that a parsed box is of (an embedded pointer).\<close>

fun box_of :: "Box \<Rightarrow> box" where
  "box_of (RawBox b) = b"
| "box_of (FileType_Box v) = ft_box v"
| "box_of (Meta_Box v) = fb_box (mb_fb v)"
| "box_of (ItemInfoEntry_Box v) = fb_box (ie_fb v)"
| "box_of (ItemInfo_Box v) = fb_box (ib_fb v)"
| "box_of (ItemPropertyContainer_Box v) = ipc_box v"
| "box_of (ItemProperties_Box v) = ip_box v"
| "box_of (ItemPropertyAssociation_Box v) = fb_box (ipa_fb v)"
| "box_of (ImageSpatialExtents_Box v) = fb_box (ispe_fb v)"
| "box_of (ItemLocation_Box v) = fb_box (ilb_fb v)"
| "box_of (Handler_Box v) = fb_box (hb_fb v)"
| "box_of (DataInformation_Box v) = dib_box v"
| "box_of (DataReference_Box v) = fb_box (drb_fb v)"
| "box_of (PrimaryItem_Box v) = fb_box (pib_fb v)"
| "box_of (ItemReference_Box v) = fb_box (irb_fb v)"
| "box_of (ImageRotation_Box v) = irot_box v"
| "box_of (MovieHeader_Box v) = fb_box (mh_fb v)"
| "box_of (Keys_Box v) = fb_box (kb_fb v)"
| "box_of (ItemList_Box v) = il_box v"
| "box_of (Data_Box v) = db_box v"

text \<open>The boxes that are dumped below a parsed box.\<close>

fun sub_boxes :: "Box \<Rightarrow> box list" where
  "sub_boxes (Meta_Box v) = mb_Children v"
| "sub_boxes (ItemInfo_Box v) = map (\<lambda>e. fb_box (ie_fb e)) (ItemInfos v)"
| "sub_boxes (ItemProperties_Box v) = ipc_box (PropertyContainer v) # map (\<lambda>a. fb_box (ipa_fb a)) (Associations v)"
| "sub_boxes (DataInformation_Box v) = dib_Children v"
| "sub_boxes (DataReference_Box v) = drb_Children v"
| "sub_boxes (ItemPropertyContainer_Box v) = ipc_Properties v"
| "sub_boxes _ = []"

lemma readFullBox_box: "readFullBox outer br = Inr (fb, br') \<Longrightarrow> fb_box fb = outer"
  by (auto simp: readFullBox_def split: sum.splits)

lemma finish_Inr: "finish br v = Inr w \<longleftrightarrow> br_err br = None \<and> w = v"
  by (auto simp: finish_def split: option.splits)

lemma with_children_Inr:
  "with_children br mk = Inr v \<Longrightarrow> \<exists>cs. v = mk cs \<and> (\<forall>c \<in> set cs. length (box_bytes c) + 8 \<le> left br)"
  using parseAppendBoxes_children [of _ br] by (auto simp: with_children_def split: prod.splits option.splits)

lemmas parser_splits = sum.splits prod.splits option.splits if_splits

lemma parsers_box:
  "parseFileTypeBox b br = Inr v \<Longrightarrow> box_of v = b"
  "parseMetaBox b br = Inr v \<Longrightarrow> box_of v = b"
  "parseItemInfoEntry b br = Inr v \<Longrightarrow> box_of v = b"
  "parseItemPropertyContainerBox b br = Inr v \<Longrightarrow> box_of v = b"
  "parseItemPropertyAssociation b br = Inr v \<Longrightarrow> box_of v = b"
  "parseImageSpatialExtentsProperty b br = Inr v \<Longrightarrow> box_of v = b"
  "parseItemLocationBox b br = Inr v \<Longrightarrow> box_of v = b"
  "parseHandlerBox b br = Inr v \<Longrightarrow> box_of v = b"
  "parseDataInformationBox b br = Inr v \<Longrightarrow> box_of v = b"
  "parseDataReferenceBox b br = Inr v \<Longrightarrow> box_of v = b"
  "parsePrimaryItemBox b br = Inr v \<Longrightarrow> box_of v = b"
  "parseItemReferenceBox b br = Inr v \<Longrightarrow> box_of v = b"
  "parseImageRotation b br = Inr v \<Longrightarrow> box_of v = b"
  "parseMovieHeaderBox b br = Inr v \<Longrightarrow> box_of v = b"
  "parseKeysBox b br = Inr v \<Longrightarrow> box_of v = b"
  "parseDataBox b br = Inr v \<Longrightarrow> box_of v = b"
  "parseItemListBox p b br = Inr v \<Longrightarrow> box_of v = b"
  "parseItemInfoBox p b br = Inr v \<Longrightarrow> box_of v = b"
  "parseItemPropertiesBox p b br = Inr v \<Longrightarrow> box_of v = b"
  subgoal by (auto simp: parseFileTypeBox_def split: parser_splits)
  subgoal by (auto simp: parseMetaBox_def dest!: with_children_Inr readFullBox_box split: parser_splits)
  subgoal by (auto simp: parseItemInfoEntry_def finish_Inr Let_def dest!: readFullBox_box split: parser_splits)
  subgoal by (auto simp: parseItemPropertyContainerBox_def dest!: with_children_Inr)
  subgoal by (auto simp: parseItemPropertyAssociation_def finish_Inr Let_def dest!: readFullBox_box split: parser_splits)
  subgoal by (auto simp: parseImageSpatialExtentsProperty_def finish_Inr Let_def dest!: readFullBox_box split: parser_splits)
  subgoal by (auto simp: parseItemLocationBox_def finish_Inr Let_def dest!: readFullBox_box split: parser_splits)
  subgoal by (auto simp: parseHandlerBox_def Let_def dest!: readFullBox_box split: parser_splits)
  subgoal by (auto simp: parseDataInformationBox_def dest!: with_children_Inr)
  subgoal by (auto simp: parseDataReferenceBox_def dest!: with_children_Inr readFullBox_box split: parser_splits)
  subgoal by (auto simp: parsePrimaryItemBox_def finish_Inr Let_def dest!: readFullBox_box split: parser_splits)
  subgoal by (auto simp: parseItemReferenceBox_def Let_def dest!: readFullBox_box split: parser_splits)
  subgoal by (auto simp: parseImageRotation_def finish_Inr split: parser_splits)
  subgoal by (auto simp: parseMovieHeaderBox_def finish_Inr Let_def dest!: readFullBox_box split: parser_splits)
  subgoal by (auto simp: parseKeysBox_def finish_Inr Let_def dest!: readFullBox_box split: parser_splits)
  subgoal by (auto simp: parseDataBox_def Let_def split: parser_splits)
  subgoal by (auto simp: parseItemListBox_def Let_def split: parser_splits)
  subgoal by (auto simp: parseItemInfoBox_def Let_def dest!: readFullBox_box split: parser_splits)
  subgoal by (auto simp: parseItemPropertiesBox_def Let_def split: parser_splits Box.splits)
  done

text \<open>The parser of a box makes a box of the same header: \<open>Parse\<close> keeps type, size and body.\<close>

lemma Parse_box: "Parse b = Inr v \<Longrightarrow> box_of v = b"
  unfolding Parse.simps [of b] parse_with_def parsers_def
  by (auto simp: parsers_box split: if_splits option.splits)

lemma iinf_entries_from:
  "iinf_entries parse bs acc = Inr es \<Longrightarrow> e \<in> set es \<Longrightarrow> e \<in> set acc \<or> (\<exists>b \<in> set bs. parse b = Inr (ItemInfoEntry_Box e))"
  by (induction parse bs acc rule: iinf_entries.induct) (auto split: sum.splits Box.splits)

lemma iprp_associations_from:
  "iprp_associations parse bs acc = Inr as \<Longrightarrow> a \<in> set as \<Longrightarrow> a \<in> set acc \<or> (\<exists>b \<in> set bs. parse b = Inr (ItemPropertyAssociation_Box a))"
  by (induction parse bs acc rule: iprp_associations.induct) (auto split: sum.splits Box.splits)

lemma readUint32_left: "readUint32 br = (v, br') \<Longrightarrow> left br' \<le> left br"
  by (auto simp: readUint32_def Discard_def set_err_def split: sum.splits if_splits)

text \<open>A parser whose boxes below are shorter than what it was given.\<close>

definition shrinks :: "bufReader \<Rightarrow> (berr + Box) \<Rightarrow> bool" where
  "shrinks br r \<longleftrightarrow> (\<forall>v. r = Inr v \<longrightarrow> (\<forall>c \<in> set (sub_boxes v). length (box_bytes c) + 8 \<le> left br))"

lemma with_children_shrinks:
  assumes "\<And>cs. sub_boxes (mk cs) = cs" "left br' \<le> left br"
  shows "shrinks br (with_children br' mk)"
  using with_children_Inr [of br' mk] assms by (fastforce simp: shrinks_def)

lemma parseMetaBox_shrinks: "shrinks br (parseMetaBox b br)"
proof (cases "case Peek br 8 of Inl _ \<Rightarrow> False | Inr buf \<Rightarrow> drop 4 buf = ascii ''hdlr''")
  case True
  then show ?thesis by (simp add: parseMetaBox_def with_children_shrinks)
next
  case False
  then show ?thesis using with_children_shrinks readFullBox_left
    by (auto simp: parseMetaBox_def shrinks_def [of br "Inl _"] split: sum.split)
qed

lemma parseDataReferenceBox_shrinks: "shrinks br (parseDataReferenceBox b br)"
proof (cases "readFullBox b br")
  case (Inr p)
  obtain fb br1 n br2 where p: "p = (fb, br1)" "readUint32 br1 = (n, br2)" by (metis surj_pair)
  then have "left br2 \<le> left br" using readFullBox_left [of b br fb br1] readUint32_left [of br1 n br2] Inr by simp
  then show ?thesis using Inr p by (simp add: parseDataReferenceBox_def with_children_shrinks)
qed (simp add: parseDataReferenceBox_def shrinks_def)

lemma parseItemInfoBox_shrinks:
  assumes "\<And>c v. parse c = Inr v \<Longrightarrow> box_of v = c"
  shows "shrinks br (parseItemInfoBox parse b br)"
  unfolding shrinks_def
proof (intro allI impI ballI)
  fix v c
  assume v: "parseItemInfoBox parse b br = Inr v" and c: "c \<in> set (sub_boxes v)"
  then obtain fb br1 n br2 cs br3 es where p: "readFullBox b br = Inr (fb, br1)" "readUint16 br1 = (n, br2)"
      "parseAppendBoxes br2 = (cs, br3)" "iinf_entries parse cs [] = Inr es" "v = ItemInfo_Box \<lparr>ib_fb = fb, Count = n, ItemInfos = es\<rparr>"
    by (auto simp: parseItemInfoBox_def Let_def split: parser_splits)
  obtain e where e: "e \<in> set es" "c = fb_box (ie_fb e)" using c p(5) by auto
  then obtain d where d: "d \<in> set cs" "parse d = Inr (ItemInfoEntry_Box e)" using iinf_entries_from [OF p(4)] by auto
  then have "c = d" using assms [OF d(2)] e(2) by simp
  then show "length (box_bytes c) + 8 \<le> left br"
    using parseAppendBoxes_children [of d br2] d(1) p(3) readFullBox_left [OF p(1)] readUint16_left [OF p(2)] by simp
qed

lemma parseItemPropertiesBox_shrinks:
  assumes "\<And>c v. parse c = Inr v \<Longrightarrow> box_of v = c"
  shows "shrinks br (parseItemPropertiesBox parse b br)"
  unfolding shrinks_def
proof (intro allI impI ballI)
  fix v c
  assume v: "parseItemPropertiesBox parse b br = Inr v" and c: "c \<in> set (sub_boxes v)"
  then obtain cs br3 pc as where p: "parseAppendBoxes br = (cs, br3)" "\<not> length cs < 2" "parse (cs ! 0) = Inr (ItemPropertyContainer_Box pc)"
      "iprp_associations parse (tl cs) [] = Inr as" "v = ItemProperties_Box \<lparr>ip_box = b, PropertyContainer = pc, Associations = as\<rparr>"
    by (auto simp: parseItemPropertiesBox_def Let_def split: parser_splits Box.splits)
  have "c \<in> set cs"
  proof (cases "c = ipc_box pc")
    case True
    then have "c = cs ! 0" using assms [OF p(3)] by simp
    then show ?thesis using p(2) by (cases cs) simp_all
  next
    case False
    then obtain a where a: "a \<in> set as" "c = fb_box (ipa_fb a)" using c p(5) by auto
    then obtain d where d: "d \<in> set (tl cs)" "parse d = Inr (ItemPropertyAssociation_Box a)" using iprp_associations_from [OF p(4)] by auto
    then have "c = d" using assms [OF d(2)] a(2) by simp
    then show ?thesis using d(1) by (cases cs) auto
  qed
  then show "length (box_bytes c) + 8 \<le> left br" using parseAppendBoxes_children [of c br] p(1) by simp
qed

lemma parsers_leaf:
  "shrinks br (parseFileTypeBox b br)"
  "shrinks br (parseItemInfoEntry b br)"
  "shrinks br (parseItemPropertyAssociation b br)"
  "shrinks br (parseImageSpatialExtentsProperty b br)"
  "shrinks br (parseItemLocationBox b br)"
  "shrinks br (parseHandlerBox b br)"
  "shrinks br (parsePrimaryItemBox b br)"
  "shrinks br (parseItemReferenceBox b br)"
  "shrinks br (parseImageRotation b br)"
  "shrinks br (parseMovieHeaderBox b br)"
  "shrinks br (parseKeysBox b br)"
  "shrinks br (parseDataBox b br)"
  "shrinks br (parseItemListBox p b br)"
  subgoal by (auto simp: shrinks_def parseFileTypeBox_def split: parser_splits)
  subgoal by (auto simp: shrinks_def parseItemInfoEntry_def finish_Inr Let_def split: parser_splits)
  subgoal by (auto simp: shrinks_def parseItemPropertyAssociation_def finish_Inr Let_def split: parser_splits)
  subgoal by (auto simp: shrinks_def parseImageSpatialExtentsProperty_def finish_Inr Let_def split: parser_splits)
  subgoal by (auto simp: shrinks_def parseItemLocationBox_def finish_Inr Let_def split: parser_splits)
  subgoal by (auto simp: shrinks_def parseHandlerBox_def Let_def split: parser_splits)
  subgoal by (auto simp: shrinks_def parsePrimaryItemBox_def finish_Inr Let_def split: parser_splits)
  subgoal by (auto simp: shrinks_def parseItemReferenceBox_def Let_def split: parser_splits)
  subgoal by (auto simp: shrinks_def parseImageRotation_def finish_Inr split: parser_splits)
  subgoal by (auto simp: shrinks_def parseMovieHeaderBox_def finish_Inr Let_def split: parser_splits)
  subgoal by (auto simp: shrinks_def parseKeysBox_def finish_Inr Let_def split: parser_splits)
  subgoal by (auto simp: shrinks_def parseDataBox_def Let_def split: parser_splits)
  subgoal by (auto simp: shrinks_def parseItemListBox_def Let_def split: parser_splits)
  done

lemma sub_boxes_shorter:
  assumes "Parse b = Inr v" "c \<in> set (sub_boxes v)"
  shows "length (box_bytes c) < length (box_bytes b)"
proof -
  have "shrinks (br_of (Body b)) (Parse b)"
    unfolding Parse.simps [of b] parse_with_def parsers_def
    by (auto simp: parsers_leaf parseMetaBox_shrinks parseDataReferenceBox_shrinks parseItemInfoBox_shrinks [OF Parse_box]
        parseItemPropertiesBox_shrinks [OF Parse_box] parseDataInformationBox_def parseItemPropertyContainerBox_def with_children_shrinks
        shrinks_def [of _ "Inl _"] split: option.split)
  then show ?thesis using assms by (fastforce simp: shrinks_def br_of_def box_bytes_def)
qed

section \<open>Dumping a box\<close>

definition contents_line :: "nat \<Rightarrow> bytes \<Rightarrow> dump_line" where
  "contents_line depth s = (if length s < 5000 then Contents depth s else ContentsStart depth (length s) (take 100 s))"

text \<open>The lines of a parsed box itself, before those of the boxes below it.\<close>

fun own_lines :: "nat \<Rightarrow> Box \<Rightarrow> dump_line list" where
  "own_lines depth (FileType_Box v) = [ValueLine depth (FileType_Box v)]"
| "own_lines depth (Handler_Box v) = [ValueLine depth (Handler_Box v)]"
| "own_lines depth (PrimaryItem_Box v) = [ValueLine depth (PrimaryItem_Box v)]"
| "own_lines depth (Meta_Box v) = [ChildrenLine depth (Meta_Box v) (length (mb_Children v))]"
| "own_lines depth (ItemInfo_Box v) = [InfosLine depth (Count v) (length (ItemInfos v))]"
| "own_lines depth (ItemInfoEntry_Box v) = [ValueLine depth (ItemInfoEntry_Box v)]"
| "own_lines depth (ItemProperties_Box v) = [TypeLine depth (ItemProperties_Box v)]"
| "own_lines depth (ItemPropertyAssociation_Box v) =
     AssociationsLine depth (ipa_EntryCount v) (length (Entries v)) #
     concat (map (\<lambda>ai. ForItemLine depth (ipai_ItemID ai) (AssociationsCount ai) (length (ipai_Associations ai)) #
       map (\<lambda>ass. AssociationLine depth (Index ass) (Essential ass)) (ipai_Associations ai)) (Entries v))"
| "own_lines depth (DataInformation_Box v) = [TypeLine depth (DataInformation_Box v)]"
| "own_lines depth (DataReference_Box v) = [TypeLine depth (DataReference_Box v)]"
| "own_lines depth (ItemPropertyContainer_Box v) = [TypeLine depth (ItemPropertyContainer_Box v)]"
| "own_lines depth (ItemLocation_Box v) = ItemsLine depth (ItemCount v) (length (ilb_Items v)) # map (LocationLine depth) (ilb_Items v)"
| "own_lines depth (ImageSpatialExtents_Box v) = [DimensionsLine depth (ImageWidth v) (ImageHeight v)]"
| "own_lines depth v = [GoTypeLine depth v]"

text \<open>What is remembered of the EXIF item.\<close>

fun note_exif :: "Box \<Rightarrow> dump_state \<Rightarrow> dump_state" where
  "note_exif (ItemInfoEntry_Box v) st = (if ItemType v = ascii ''Exif'' then st\<lparr>exifItemID := ucast (ie_ItemID v)\<rparr> else st)"
| "note_exif (ItemLocation_Box v) st =
     foldl (\<lambda>st lbe. if exifItemID st \<noteq> 0 \<and> ent_ItemID lbe = exifItemID st then st\<lparr>exifLoc := Some lbe\<rparr> else st) st (ilb_Items v)"
| "note_exif _ st = st"

text \<open>\<open>False\<close> is the end of the program by \<open>log.Fatalf\<close>.\<close>

function dumpBox :: "box \<Rightarrow> nat \<Rightarrow> dump_state \<Rightarrow> bool \<times> dump_line list \<times> dump_state"
  and dumpBoxes :: "box list \<Rightarrow> nat \<Rightarrow> dump_state \<Rightarrow> bool \<times> dump_line list \<times> dump_state" where
  "dumpBox b depth st =
     (case Parse b of
       Inl e \<Rightarrow>
         if e = ErrUnknownBox then
           (case ReadAll (Body b) of
             (s, None) \<Rightarrow> (True, [Header depth (boxType b) (box_size b), contents_line depth s], st)
           | (s, Some _) \<Rightarrow> (False, [Header depth (boxType b) (box_size b)], st))
         else (False, [Header depth (boxType b) (box_size b)], st)
     | Inr v \<Rightarrow>
         let (fine, ls, st) = dumpBoxes (sub_boxes v) (depth + 1) (note_exif v st) in
         (fine, Header depth (boxType b) (box_size b) # own_lines depth v @ ls, st))"
| "dumpBoxes [] depth st = (True, [], st)"
| "dumpBoxes (c # cs) depth st =
     (case dumpBox c depth st of
       (False, ls, st) \<Rightarrow> (False, ls, st)
     | (True, ls, st) \<Rightarrow> let (fine, ls', st) = dumpBoxes cs depth st in (fine, ls @ ls', st))"
  by pat_completeness auto
termination
proof (relation "inv_image (less_than <*lex*> less_than) (\<lambda>x. case x of
    Inl (b, _) \<Rightarrow> (Suc (length (box_bytes b)), 0)
  | Inr (cs, _) \<Rightarrow> (Max (insert 0 ((\<lambda>c. Suc (length (box_bytes c))) ` set cs)), length cs))", goal_cases)
  case (2 b depth st v)
  have "Suc (length (box_bytes c)) < Suc (length (box_bytes b))" if "c \<in> set (sub_boxes v)" for c
    using sub_boxes_shorter [OF 2 that] by simp
  then show ?case by simp
qed (auto simp: less_le)

declare dumpBox.simps [simp del]

section \<open>The program\<close>

text \<open>The loop over the boxes of the file. Parsing a box reads of its body, which does not change what \<open>ReadBox\<close> does next.\<close>

function dump_file :: "Reader \<Rightarrow> dump_state \<Rightarrow> bool \<times> dump_line list" where
  "dump_file r st =
     (case ReadBox r of
       (Inl e, _) \<Rightarrow> (e = IOErr EOF, [])
     | (Inr b, r') \<Rightarrow>
         (case dumpBox b 0 st of
           (False, ls, _) \<Rightarrow> (False, ls)
         | (True, ls, st) \<Rightarrow> let (fine, ls') = dump_file r' st in (fine, ls @ ls')))"
  by pat_completeness auto
termination
  by (relation "measure (\<lambda>(r, st). length (pending (rd_br r)))") (auto dest!: ReadBox_Inr [OF sym])

declare dump_file.simps [simp del]

definition dump_boxes :: "bytes \<Rightarrow> dump_line list \<Rightarrow> bool \<times> dump_line list" where
  "dump_boxes f ls =
     (let (fine, ls') = dump_file (NewReader \<lparr>pending = f, after = EOF\<rparr> True) \<lparr>exifItemID = 0, exifLoc = None\<rparr> in
      (fine, ls @ BoxesLine # ls'))"

text \<open>
  \<open>main\<close>, given the arguments, what can be opened, and the decoder of EXIF data, which gives names and
  values: whether the program ends by itself, and its output.
\<close>

definition dumpheif_main :: "(bytes \<Rightarrow> bytes option) \<Rightarrow> (bytes \<Rightarrow> (bytes \<times> bytes) list option) \<Rightarrow> bytes list \<Rightarrow> bool \<times> dump_line list" where
  "dumpheif_main open_file decode args =
     (if length args \<noteq> 1 then (False, [])
      else case open_file (args ! 0) of
        None \<Rightarrow> (False, [])
      | Some f \<Rightarrow>
          (case PrimaryItem (Open f) of
            (Inl e, _) \<Rightarrow> (False, [])
          | (Inr it, hf) \<Rightarrow>
              let (width, height, found) = Item_SpatialExtents it;
                  ls = [PrimaryLine (ID it)] @ (if found then [ExtentsLine width height] else []) @
                    [PropertiesLine] @ map PropertyLine (Item_Properties it) @ (if Item_Properties it = [] then [NoPropertiesLine] else []) in
              (case EXIF hf of
                (Inl e, _) \<Rightarrow> dump_boxes f ls
              | (Inr ex, _) \<Rightarrow>
                  (case decode ex of
                    None \<Rightarrow> (False, ls @ [EXIFLine])
                  | Some tags \<Rightarrow> dump_boxes f (ls @ [EXIFLine] @ map (\<lambda>(n, t). EXIFField n t) tags @ [BlankLine])))))"

section \<open>Properties\<close>

text \<open>The boxes that can be dumped: those of unknown type whose body can be read, and those that parse and in which every box can be dumped.\<close>

inductive dumpable :: "box \<Rightarrow> bool" where
  unknown: "Parse b = Inl ErrUnknownBox \<Longrightarrow> after (Body b) = EOF \<Longrightarrow> dumpable b"
| parsed: "Parse b = Inr v \<Longrightarrow> (\<And>c. c \<in> set (sub_boxes v) \<Longrightarrow> dumpable c) \<Longrightarrow> dumpable b"

inductive_simps dumpable_iff: "dumpable b"

lemma dumpBox_fine:
  "fst (dumpBox b depth st) \<longleftrightarrow> dumpable b"
  "fst (dumpBoxes cs depth st) \<longleftrightarrow> (\<forall>c \<in> set cs. dumpable c)"
proof (induction b depth st and cs depth st rule: dumpBox_dumpBoxes.induct)
  case (1 b depth st)
  show ?case
  proof (cases "Parse b")
    case (Inl e)
    then show ?thesis by (auto simp: dumpBox.simps [of b] dumpable_iff [of b] ReadAll_def)
  next
    case (Inr v)
    then show ?thesis using 1 [OF Inr] by (auto simp: dumpBox.simps [of b] dumpable_iff [of b] split: prod.splits)
  qed
next
  case (3 c cs depth st)
  obtain fine ls st' where d: "dumpBox c depth st = (fine, ls, st')" by (metis prod_cases3)
  show ?case
  proof (cases fine)
    case True
    then show ?thesis using 3 d by (auto split: prod.splits)
  next
    case False
    then show ?thesis using 3(1) d by auto
  qed
qed auto

text \<open>
  The first line is the header of the box itself, which \<open>Parse\<close> does not change, also where the box was found
  inside a parsed one.
\<close>

lemma dumpBox_header: "\<exists>ls. fst (snd (dumpBox b depth st)) = Header depth (boxType b) (box_size b) # ls"
  by (auto simp: dumpBox.simps [of b] split: sum.split prod.split option.split)

section \<open>Dumping a written file\<close>

text \<open>The boxes in a parsed \<open>iinf\<close> or \<open>iprp\<close> parse to what is stored there.\<close>

lemma iinf_stored:
  assumes "parseItemInfoBox Parse b br = Inr (ItemInfo_Box v)" "e \<in> set (ItemInfos v)"
  shows "Parse (fb_box (ie_fb e)) = Inr (ItemInfoEntry_Box e)"
proof -
  obtain cs where "iinf_entries Parse cs [] = Inr (ItemInfos v)"
    using assms(1) by (auto simp: parseItemInfoBox_def Let_def split: parser_splits)
  then obtain d where d: "Parse d = Inr (ItemInfoEntry_Box e)" using iinf_entries_from assms(2) by fastforce
  then show ?thesis using Parse_box [OF d] by simp
qed

lemma iprp_stored:
  assumes "parseItemPropertiesBox Parse b br = Inr (ItemProperties_Box v)"
  shows "Parse (ipc_box (PropertyContainer v)) = Inr (ItemPropertyContainer_Box (PropertyContainer v))"
    and "a \<in> set (Associations v) \<Longrightarrow> Parse (fb_box (ipa_fb a)) = Inr (ItemPropertyAssociation_Box a)"
proof -
  obtain cs where cs: "Parse (cs ! 0) = Inr (ItemPropertyContainer_Box (PropertyContainer v))"
      "iprp_associations Parse (tl cs) [] = Inr (Associations v)"
    using assms by (auto simp: parseItemPropertiesBox_def Let_def split: parser_splits Box.splits)
  show "Parse (ipc_box (PropertyContainer v)) = Inr (ItemPropertyContainer_Box (PropertyContainer v))"
    using Parse_box [OF cs(1)] cs(1) by simp
  show "Parse (fb_box (ipa_fb a)) = Inr (ItemPropertyAssociation_Box a)" if a: "a \<in> set (Associations v)"
  proof -
    obtain d where d: "Parse d = Inr (ItemPropertyAssociation_Box a)" using iprp_associations_from [OF cs(2) a] by auto
    then show ?thesis using Parse_box [OF d] by simp
  qed
qed

lemma dumpable_leaf: "Parse b = Inr v \<Longrightarrow> sub_boxes v = [] \<Longrightarrow> dumpable b"
  by (auto intro: dumpable.parsed)

lemma meta_boxes_dumpable:
  assumes "length itemType = 4" "itemType \<noteq> ascii ''mime''" "itemType \<noteq> ascii ''uri ''"
    and "length props \<le> 127" "list_all encodable (map prop_pair props)" "8 + length (ipco_body props) < 2 ^ 32"
    and props: "\<forall>c \<in> set (children_at 0 (map prop_pair props)). dumpable c"
  shows "\<forall>c \<in> set (children_at 0 (meta_boxes itemType props off len)). dumpable c"
proof -
  have "dumpable (read_back o' (ascii ''hdlr'') hdlr_body)" "dumpable (read_back o' (ascii ''pitm'') pitm_body)" for o'
    by (rule dumpable_leaf [OF Parse_hdlr], simp) (rule dumpable_leaf [OF Parse_pitm], simp)
  moreover have "dumpable (read_back o' (ascii ''iloc'') (iloc_body off len))" for o'
    using Parse_iloc [of o' off len] by (auto intro: dumpable_leaf)
  moreover have "dumpable (read_back o' (ascii ''iinf'') (iinf_body itemType))" for o'
  proof -
    let ?b = "read_back o' (ascii ''iinf'') (iinf_body itemType)"
    obtain ib where ib: "Parse ?b = Inr (ItemInfo_Box ib)" using Parse_iinf [OF assms(1-3), of o'] by blast
    then have "parseItemInfoBox Parse ?b (at (iinf_body itemType)) = Inr (ItemInfo_Box ib)"
      by (simp add: Parse_read_back [OF parsers_lookup(5)])
    note entry = iinf_stored [OF this]
    show ?thesis by (rule dumpable.parsed [OF ib]) (auto intro: dumpable_leaf [OF entry])
  qed
  moreover have "dumpable (read_back o' (ascii ''iprp'') (iprp_body props))" for o'
  proof -
    let ?b = "read_back o' (ascii ''iprp'') (iprp_body props)"
    obtain ip where ip: "Parse ?b = Inr (ItemProperties_Box ip)" "ipc_Properties (PropertyContainer ip) = children_at 0 (map prop_pair props)"
      using Parse_iprp [OF assms(4-6), of o'] by blast
    then have "parseItemPropertiesBox Parse ?b (at (iprp_body props)) = Inr (ItemProperties_Box ip)"
      using Parse_read_back [of "ascii ''iprp''" "parseItemPropertiesBox Parse" o' "iprp_body props"] by (simp add: parsers_lookup)
    note stored = iprp_stored [OF this]
    have "dumpable (ipc_box (PropertyContainer ip))" by (rule dumpable.parsed [OF stored(1)]) (use props ip(2) in simp)
    then show ?thesis by (intro dumpable.parsed [OF ip(1)]) (auto intro: dumpable_leaf [OF stored(2)])
  qed
  ultimately show ?thesis by (simp add: meta_boxes_def)
qed

text \<open>A sequence of encoded boxes, after what is left of a box before them.\<close>

lemma dump_file_fine:
  assumes "list_all encodable bs" "\<not> noMoreBoxes r" "pending (rd_br r) = skip @ enc_boxes bs" "after (rd_br r) = EOF"
    and "length skip = (case lastN r of None \<Rightarrow> 0 | Some n \<Rightarrow> n)"
    and "\<forall>(ty, bdy) \<in> set bs. \<forall>off. dumpable ((read_back off ty bdy)\<lparr>slurp := None\<rparr>)"
  shows "fst (dump_file r st)"
  using assms
proof (induction bs arbitrary: r skip st)
  case Nil
  have "fst (ReadBox r) = Inl (IOErr EOF)"
  proof (cases "lastN r")
    case None
    then show ?thesis using Nil.prems by (intro ReadBox_end) simp_all
  next
    case (Some n)
    then have "ReadBox r = ReadBox (consume n r)" using Nil.prems by (intro ReadBox_consume [symmetric, of _ n]) auto
    also have "fst \<dots> = Inl (IOErr EOF)" using Nil.prems Some by (intro ReadBox_end) (simp_all add: consume_def)
    finally show ?thesis .
  qed
  then show ?case by (simp add: dump_file.simps [of r] case_prod_unfold)
next
  case (Cons b bs)
  obtain ty bdy where b: "b = (ty, bdy)" by (metis surj_pair)
  let ?b = "(read_back (pos r) ty bdy)\<lparr>slurp := None\<rparr>"
  let ?r1 = "r\<lparr>rd_br := (rd_br r)\<lparr>pending := bdy @ enc_boxes bs\<rparr>, pos := pos r + int (8 + length bdy), lastN := Some (length bdy)\<rparr>"
  have rb: "ReadBox r = (Inr ?b, ?r1)" using Cons.prems b by (intro ReadBox_enc [of _ _ _ skip]) auto
  obtain fine ls st' where d: "dumpBox ?b 0 st = (fine, ls, st')" by (metis prod_cases3)
  moreover have "dumpable ?b" using Cons.prems(6) b by auto
  ultimately have fine using dumpBox_fine(1) [of ?b 0 st] by simp
  moreover have "fst (dump_file ?r1 st')" by (rule Cons.IH [of _ bdy]) (use Cons.prems in auto)
  ultimately show ?case using rb d by (auto simp: dump_file.simps [of r] split: prod.splits)
qed

text \<open>
  A file that \<open>EncodeImage\<close> has written is dumped to its end, if its property boxes can be and the decoder of EXIF data accepts
  what it is given.
\<close>

theorem dumpheif_written:
  assumes enc: "EncodeImage brand itemType props data = Inr out" and it: "itemType \<noteq> ascii ''mime''" "itemType \<noteq> ascii ''uri ''"
    and props: "\<forall>c \<in> set (children_at 0 (map prop_pair props)). dumpable c"
    and "open_file name = Some out" "\<forall>ex. decode ex \<noteq> None"
  shows "\<exists>ls. dumpheif_main open_file decode [name] = (True, PrimaryLine 1 # ls)"
proof -
  define off where "off = 191 + length (ipco_body props) + length props"
  note E = EncodeImage_Inr [OF enc, folded off_def]
  let ?M = "meta_body itemType props (of_nat off) (of_nat (length data))"
  have lenM: "8 + length ?M < 2 ^ 32" using E(2,5) by (simp add: length_meta_body off_def)
  have ftyp: "dumpable ((read_back o' (ascii ''ftyp'') (ftyp_body brand))\<lparr>slurp := None\<rparr>)" for o'
    using Parse_ftyp [OF E(1), of o'] by (auto simp: ftyp_body_def intro: dumpable_leaf)
  have meta: "dumpable ((read_back o' (ascii ''meta'') ?M)\<lparr>slurp := None\<rparr>)" for o'
  proof -
    have len: "length ?M < 2 ^ 32" "8 + length (ipco_body props) < 2 ^ 32" using lenM E(2) by (simp_all add: length_meta_body)
    obtain mb where mb: "Parse ((read_back o' (ascii ''meta'') ?M)\<lparr>slurp := None\<rparr>) = Inr (Meta_Box mb)"
      "mb_Children mb = children_at 0 (meta_boxes itemType props (of_nat off) (of_nat (length data)))"
      using Parse_meta [OF E(2) len(1), of o'] by blast
    show ?thesis
      by (rule dumpable.parsed [OF mb(1)]) (use mb(2) meta_boxes_dumpable [OF E(2) it E(3,4) len(2) props] in simp)
  qed
  have mdat: "dumpable ((read_back o' (ascii ''mdat'') data)\<lparr>slurp := None\<rparr>)" for o'
  proof (rule dumpable.unknown)
    have "parsers Parse (ascii ''mdat'') = None" by (simp add: parsers_def ascii_def)
    then show "Parse ((read_back o' (ascii ''mdat'') data)\<lparr>slurp := None\<rparr>) = Inl ErrUnknownBox"
      by (subst Parse.simps) (simp add: parse_with_def)
  qed simp
  have "fst (dump_file (NewReader \<lparr>pending = out, after = EOF\<rparr> True) st)" for st
  proof (rule dump_file_fine)
    show "pending (rd_br (NewReader \<lparr>pending = out, after = EOF\<rparr> True)) = [] @
        enc_boxes [(ascii ''ftyp'', ftyp_body brand), (ascii ''meta'', ?M), (ascii ''mdat'', data)]"
      using E(6) by (simp add: NewReader_def image_file_def)
    show "list_all encodable [(ascii ''ftyp'', ftyp_body brand), (ascii ''meta'', ?M), (ascii ''mdat'', data)]"
      using E(1,5) lenM by (simp add: encodable_def off_def)
  qed (use ftyp meta mdat in \<open>simp_all add: NewReader_def\<close>)
  then have boxes: "\<exists>ls'. dump_boxes out (l # ls) = (True, l # ls')" for l ls by (simp add: dump_boxes_def case_prod_unfold)
  obtain item f where "PrimaryItem (Open out) = (Inr item, f)" "ID item = 1" using PrimaryItem_written [OF enc it] by metis
  note run = this assms(5)
  obtain r f' where ex: "EXIF f = (r, f')" by (metis surj_pair)
  obtain w h fnd where ext: "Item_SpatialExtents item = (w, h, fnd)" by (metis prod_cases3)
  show ?thesis
  proof (cases r)
    case (Inl e)
    then show ?thesis using run ex ext by (simp add: dumpheif_main_def Let_def boxes)
  next
    case (Inr x)
    then obtain tags where "decode x = Some tags" using assms(6) by blast
    then show ?thesis using run ex ext Inr by (simp add: dumpheif_main_def Let_def boxes)
  qed
qed

end
