(* ===== verification/Bytereplacer.thy ===== *)
theory Bytereplacer
  imports Go4_Prelude
begin

text \<open>
  The package \<open>bytereplacer\<close> (\<open>src/bytereplacer/bytereplacer.go\<close>): replacing a list of byte strings,
  through a table of bytes when all old and new strings have length one and through a trie of the old
  strings otherwise.

  A trie node has the five fields of the struct; \<open>nil\<close> pointers and tables are \<open>None\<close>. Operations
  return \<open>None\<close> where the code would panic (an index or slice out of range, a nil pointer). \<open>Replace\<close>
  works on the array below the slice it is given: \<open>buf\<close> is that array up to its capacity, \<open>slen\<close> the
  length of the slice, and the output is first written over the front of the same array.
\<close>

section \<open>Tries\<close>

datatype trieNode = TrieNode
  (nd_value: bytes) (nd_priority: nat) (nd_prefix: bytes) (nd_next: "trieNode option")
  (nd_table: "trieNode option list option")

definition new_trieNode :: trieNode where
  "new_trieNode = TrieNode [] 0 [] None None"

fun common_prefix :: "bytes \<Rightarrow> bytes \<Rightarrow> nat" where
  "common_prefix (a # as) (b # bs) = (if a \<noteq> b then 0 else Suc (common_prefix as bs))"
| "common_prefix _ _ = 0"

text \<open>\<open>r.mapping[c]\<close>, converted to \<open>int\<close>.\<close>

definition index_of :: "bytes \<Rightarrow> byte \<Rightarrow> nat" where
  "index_of mp c = unat (mp ! unat c)"

function trie_add :: "nat \<Rightarrow> bytes \<Rightarrow> trieNode \<Rightarrow> bytes \<Rightarrow> bytes \<Rightarrow> nat \<Rightarrow> trieNode option" where
  "trie_add ts mp (TrieNode v p pre nx tb) key val prio =
     (if key = [] then Some (if p = 0 then TrieNode val prio pre nx tb else TrieNode v p pre nx tb)
      else if pre \<noteq> [] then
        let n = common_prefix pre key in
        if n = length pre then
          (case nx of
             None \<Rightarrow> None
           | Some t \<Rightarrow> do { t \<leftarrow> trie_add ts mp t (drop n key) val prio; Some (TrieNode v p pre (Some t) tb) })
        else if n = 0 then
          let prefixNode = (if length pre = 1 then nx else Some (TrieNode [] 0 (tl pre) nx None));
              i = index_of mp (hd pre); j = index_of mp (hd key) in
          if i < ts \<and> j < ts then
            do { keyNode \<leftarrow> trie_add ts mp new_trieNode (tl key) val prio;
                 Some (TrieNode v p [] None (Some ((replicate ts None)[i := prefixNode, j := Some keyNode]))) }
          else None
        else
          do { next \<leftarrow> trie_add ts mp (TrieNode [] 0 (drop n pre) nx None) (drop n key) val prio;
               Some (TrieNode v p (take n pre) (Some next) tb) }
      else (case tb of
        Some table \<Rightarrow>
          let m = index_of mp (hd key) in
          if m < length table then
            do { t \<leftarrow> trie_add ts mp (case table ! m of None \<Rightarrow> new_trieNode | Some t \<Rightarrow> t) (tl key) val prio;
                 Some (TrieNode v p pre nx (Some (table[m := Some t]))) }
          else None
      | None \<Rightarrow>
          do { next \<leftarrow> trie_add ts mp new_trieNode [] val prio; Some (TrieNode v p key (Some next) tb) }))"
  by pat_completeness auto
termination
  by (relation "measure (\<lambda>(ts, mp, t, key, val, prio). length key)")
    (auto simp: length_greater_0_conv [symmetric] simp del: length_greater_0_conv)

declare trie_add.simps [simp del]

definition HasPrefix :: "bytes \<Rightarrow> bytes \<Rightarrow> bool" where
  "HasPrefix s p \<longleftrightarrow> length p \<le> length s \<and> take (length p) s = p"

text \<open>
  The loop of \<open>lookup\<close>; \<open>skip\<close> says that the node is the root and the root is to be ignored. The result
  is the value and key length found, if any.
\<close>

function lookup_loop ::
  "nat \<Rightarrow> bytes \<Rightarrow> bool \<Rightarrow> trieNode \<Rightarrow> bytes \<Rightarrow> nat \<Rightarrow> nat \<Rightarrow> (bytes \<times> nat) option \<Rightarrow> (bytes \<times> nat) option option" where
  "lookup_loop ts mp skip (TrieNode v p pre nx tb) s n bestPriority res =
     (let (bestPriority, res) = (if p > bestPriority \<and> \<not> skip then (p, Some (v, n)) else (bestPriority, res)) in
      if s = [] then Some res
      else (case tb of
        Some table \<Rightarrow>
          let i = index_of mp (hd s) in
          if i = ts then Some res
          else if i < length table then
            (case table ! i of
               None \<Rightarrow> Some res
             | Some t \<Rightarrow> lookup_loop ts mp False t (tl s) (n + 1) bestPriority res)
          else None
      | None \<Rightarrow>
          if pre \<noteq> [] \<and> HasPrefix s pre then
            (case nx of
               None \<Rightarrow> Some res
             | Some t \<Rightarrow> lookup_loop ts mp False t (drop (length pre) s) (n + length pre) bestPriority res)
          else Some res))"
  by pat_completeness auto
termination
  by (relation "measure (\<lambda>(ts, mp, skip, t, s, n, best, res). length s)") auto

declare lookup_loop.simps [simp del]

record genericReplacer =
  root :: trieNode
  tableSize :: nat
  mapping :: bytes

definition lookup :: "genericReplacer \<Rightarrow> bytes \<Rightarrow> bool \<Rightarrow> (bytes \<times> nat) option option" where
  "lookup r s ignoreRoot = lookup_loop (tableSize r) (mapping r) ignoreRoot (root r) s 0 0 None"

section \<open>Building a replacer\<close>

fun old_keys :: "bytes list \<Rightarrow> bytes list" where
  "old_keys (k # v # rest) = k # old_keys rest"
| "old_keys _ = []"

definition mark_bytes :: "bytes \<Rightarrow> bytes" where
  "mark_bytes ks = foldl (\<lambda>m c. m[unat c := 1]) (replicate 256 0) ks"

primrec assign_indexes :: "nat \<Rightarrow> byte \<Rightarrow> bytes \<Rightarrow> bytes" where
  "assign_indexes ts index [] = []"
| "assign_indexes ts index (b # bs) =
     (if b = 0 then of_nat ts # assign_indexes ts index bs else index # assign_indexes ts (index + 1) bs)"

fun add_pairs :: "nat \<Rightarrow> bytes \<Rightarrow> trieNode \<Rightarrow> bytes list \<Rightarrow> trieNode option" where
  "add_pairs ts mp t (k # v # rest) =
     do { t \<leftarrow> trie_add ts mp t k v (length (k # v # rest)); add_pairs ts mp t rest }"
| "add_pairs ts mp t _ = Some t"

definition makeGenericReplacer :: "bytes list \<Rightarrow> genericReplacer option" where
  "makeGenericReplacer oldnew =
     (let marks = mark_bytes (concat (old_keys oldnew));
          ts = sum_list (map unat marks);
          mp = assign_indexes ts 0 marks in
      do { t \<leftarrow> add_pairs ts mp (TrieNode [] 0 [] None (Some (replicate ts None))) oldnew;
           Some \<lparr>root = t, tableSize = ts, mapping = mp\<rparr> })"

type_synonym byteReplacer = bytes

datatype Replacer = ByteReplacer byteReplacer | GenericReplacer genericReplacer

text \<open>The loop over the pairs of \<open>New\<close>: \<open>None\<close> when it returns the generic replacer.\<close>

fun scan_pairs :: "bytes list \<Rightarrow> bool \<Rightarrow> bool option" where
  "scan_pairs (k # v # rest) allNewBytes =
     (if length k \<noteq> 1 then None else scan_pairs rest (allNewBytes \<and> length v = 1))"
| "scan_pairs _ allNewBytes = Some allNewBytes"

fun fill_bytes :: "bytes list \<Rightarrow> byteReplacer" where
  "fill_bytes (k # v # rest) = (fill_bytes rest)[unat (hd k) := hd v]"
| "fill_bytes _ = map of_nat [0..<256]"

definition New_Replacer :: "bytes list \<Rightarrow> Replacer option" where
  "New_Replacer oldnew =
     (if length oldnew mod 2 = 1 then None
      else if scan_pairs oldnew True = Some True then Some (ByteReplacer (fill_bytes oldnew))
      else map_option GenericReplacer (makeGenericReplacer oldnew))"

section \<open>Replacing\<close>

text \<open>The output slice: the first \<open>n\<close> bytes of the input's own array, or an array of its own.\<close>

datatype dest = InPlace nat | Fresh bytes

primrec dest_bytes :: "bytes \<Rightarrow> dest \<Rightarrow> bytes" where
  "dest_bytes buf (InPlace n) = take n buf"
| "dest_bytes buf (Fresh ds) = ds"

text \<open>\<open>copy(buf[pos:], src)\<close> on the whole array.\<close>

definition copy_at :: "bytes \<Rightarrow> nat \<Rightarrow> bytes \<Rightarrow> bytes" where
  "copy_at buf pos src = take pos buf @ take (length buf - pos) src @ drop (pos + length src) buf"

definition append_dst :: "bytes \<Rightarrow> dest \<Rightarrow> bytes \<Rightarrow> bytes \<times> dest" where
  "append_dst buf d xs = (case d of
     InPlace n \<Rightarrow>
       if n + length xs \<le> length buf then (copy_at buf n xs, InPlace (n + length xs))
       else (buf, Fresh (take n buf @ xs))
   | Fresh ds \<Rightarrow> (buf, Fresh (ds @ xs)))"

text \<open>The fast path: the byte starts no pattern.\<close>

definition no_pattern :: "genericReplacer \<Rightarrow> byte \<Rightarrow> bool option" where
  "no_pattern r c =
     (let index = index_of (mapping r) c in
      if index = tableSize r then Some True
      else (case nd_table (root r) of
        None \<Rightarrow> None
      | Some table \<Rightarrow> if index < length table then Some (table ! index = None) else None))"

lemma lookup_loop_keylen:
  "lookup_loop ts mp skip t s n best res = Some (Some (v, k)) \<Longrightarrow> res = Some (v, k) \<or> n \<le> k \<and> (skip \<longrightarrow> n < k)"
proof (induction s arbitrary: skip t n best res rule: length_induct)
  case (1 s)
  obtain v' p pre nx tb where t: "t = TrieNode v' p pre nx tb" by (cases t)
  obtain best' res' where b: "(if p > best \<and> \<not> skip then (p, Some (v', n)) else (best, res)) = (best', res')" by force
  then have res': "res' = Some (v, k) \<Longrightarrow> res = Some (v, k) \<or> n \<le> k \<and> (skip \<longrightarrow> n < k)"
    by (auto split: if_splits)
  have deeper: "lookup_loop ts mp False t' s' n' best' res' = Some (Some (v, k)) \<Longrightarrow> length s' < length s \<Longrightarrow> n < n' \<Longrightarrow>
      res = Some (v, k) \<or> n \<le> k \<and> (skip \<longrightarrow> n < k)" for t' s' n'
    using 1(1) res' by fastforce
  show ?case
  proof (cases "s = []")
    case True
    with 1(2) res' show ?thesis by (simp add: t lookup_loop.simps b del: if_split)
  next
    case False
    with 1(2) show ?thesis
      unfolding t lookup_loop.simps b Let_def prod.case
      by (auto simp: length_greater_0_conv [symmetric] simp del: length_greater_0_conv
          split: option.splits if_splits dest: deeper res')
  qed
qed

lemma lookup_ignoring_root: "lookup r s True = Some (Some (v, k)) \<Longrightarrow> 0 < k"
  unfolding lookup_def by (drule lookup_loop_keylen) simp

text \<open>
  The loop of \<open>Replace\<close>. Where the output still shares the array and the replacement is longer but
  fits, the rest of the input is shifted up to make room and the slice grows.
\<close>

function replace_loop ::
  "genericReplacer \<Rightarrow> bytes \<Rightarrow> nat \<Rightarrow> dest \<Rightarrow> bool \<Rightarrow> nat \<Rightarrow> nat \<Rightarrow> bool \<Rightarrow> bytes option" where
  "replace_loop r buf slen d grown i start prevMatchEmpty =
     (if i > slen then
        (if start \<noteq> slen then
           do { xs \<leftarrow> slice (take slen buf) start slen; Some (case_prod dest_bytes (append_dst buf d xs)) }
         else Some (dest_bytes buf d))
      else if i \<noteq> slen \<and> nd_priority (root r) = 0 \<and> no_pattern r (buf ! i) = None then None
      else if i \<noteq> slen \<and> nd_priority (root r) = 0 \<and> no_pattern r (buf ! i) = Some True then
        replace_loop r buf slen d grown (i + 1) start prevMatchEmpty
      else (case lookup r (seg i slen buf) prevMatchEmpty of
        None \<Rightarrow> None
      | Some None \<Rightarrow> replace_loop r buf slen d grown (i + 1) start False
      | Some (Some (val, keylen)) \<Rightarrow>
          (case slice buf start i of
            None \<Rightarrow> None
          | Some xs \<Rightarrow>
              let (buf', d') = append_dst buf d xs in
              if grown \<or> length val < keylen then
                let (buf', d') = append_dst buf' d' val in
                replace_loop r buf' slen d' grown (i + keylen) (i + keylen) (keylen = 0)
              else if length val - keylen \<le> length buf' - slen then
                (case (d', slice (take slen buf') (i + keylen) slen) of
                  (InPlace n, Some rest) \<Rightarrow>
                    if i + length val \<le> length buf' then
                      let (buf', d') = append_dst (copy_at buf' (i + length val) rest) d' val in
                      replace_loop r buf' (slen + (length val - keylen)) d' grown (i + length val) (i + length val) (keylen = 0)
                    else None
                | _ \<Rightarrow> None)
              else
                replace_loop r buf' slen (Fresh (dest_bytes buf' d' @ val)) True (i + keylen) (i + keylen) (keylen = 0))))"
  by pat_completeness auto
termination
  by (relation "measure (\<lambda>(r, buf, slen, d, grown, i, start, pme). 2 * (slen + 1 - i) + (if pme then 0 else 1))")
    (auto dest: lookup_ignoring_root)

declare replace_loop.simps [simp del]

definition generic_Replace :: "genericReplacer \<Rightarrow> bytes \<Rightarrow> nat \<Rightarrow> bytes option" where
  "generic_Replace r buf slen = replace_loop r buf slen (InPlace 0) False 0 0 False"

definition byte_Replace :: "byteReplacer \<Rightarrow> bytes \<Rightarrow> bytes" where
  "byte_Replace r s = map (\<lambda>b. r ! unat b) s"

definition Replace :: "Replacer \<Rightarrow> bytes \<Rightarrow> nat \<Rightarrow> bytes option" where
  "Replace r buf slen = (case r of
     ByteReplacer t \<Rightarrow> Some (byte_Replace t (take slen buf))
   | GenericReplacer g \<Rightarrow> generic_Replace g buf slen)"

end
