(* ===== verification/Bytereplacer_Correct.thy ===== *)
theory Bytereplacer_Correct
  imports Bytereplacer "HOL-Library.Sublist"
begin

text \<open>
  Correctness of \<open>bytereplacer\<close>. The trie is a finite map from old strings to priority and new string
  (\<open>entry\<close>); \<open>add\<close> extends the map and \<open>lookup\<close> finds the entry of highest priority among the prefixes
  of the input. What the trie needs of the byte numbering is the locale \<open>key_index\<close>, which the numbering
  \<open>makeGenericReplacer\<close> computes satisfies. \<open>Replace\<close> then does what a left-to-right scan by the
  list of pairs does, whatever the capacity of the array it works in.
\<close>

section \<open>The numbering of bytes\<close>

locale key_index =
  fixes ts :: nat and mp :: bytes and used :: "byte set"
  assumes index_less: "c \<in> used \<Longrightarrow> index_of mp c < ts"
    and index_inj: "c \<in> used \<Longrightarrow> d \<in> used \<Longrightarrow> index_of mp c = index_of mp d \<Longrightarrow> c = d"
    and index_unused: "c \<notin> used \<Longrightarrow> index_of mp c = ts"

text \<open>Well-formed nodes: no edge, a prefix of numbered bytes with a successor, or a full table.\<close>

inductive wf_node :: "byte set \<Rightarrow> nat \<Rightarrow> trieNode \<Rightarrow> bool" for U ts where
  leaf: "wf_node U ts (TrieNode v p [] None None)"
| chain: "pre \<noteq> [] \<Longrightarrow> set pre \<subseteq> U \<Longrightarrow> wf_node U ts t \<Longrightarrow> wf_node U ts (TrieNode v p pre (Some t) None)"
| branch: "length tb = ts \<Longrightarrow> (\<And>t. Some t \<in> set tb \<Longrightarrow> wf_node U ts t) \<Longrightarrow> wf_node U ts (TrieNode v p [] None (Some tb))"

inductive_cases wf_nodeE: "wf_node U ts (TrieNode v p pre nx tb)"

inductive_simps wf_branch [simp]: "wf_node U ts (TrieNode v p pre nx (Some tb))"
inductive_simps wf_chain [simp]: "wf_node U ts (TrieNode v p pre nx None)"

lemma wf_node_fields:
  assumes "wf_node U ts (TrieNode v p pre nx tb)"
  obtains (leaf) "pre = []" "nx = None" "tb = None"
  | (chain) t where "pre \<noteq> []" "set pre \<subseteq> U" "nx = Some t" "tb = None" "wf_node U ts t"
  | (branch) table where "pre = []" "nx = None" "tb = Some table" "length table = ts" "\<And>t. Some t \<in> set table \<Longrightarrow> wf_node U ts t"
  using assms by (auto elim: wf_nodeE)

lemma wf_new [simp]: "wf_node U ts new_trieNode"
  by (simp add: new_trieNode_def)

text \<open>The priority and value a key has in the trie.\<close>

function entry :: "bytes \<Rightarrow> trieNode \<Rightarrow> bytes \<Rightarrow> (nat \<times> bytes) option" where
  "entry mp (TrieNode v p pre nx tb) k =
     (if k = [] then (if p = 0 then None else Some (p, v))
      else (case tb of
        Some table \<Rightarrow>
          if index_of mp (hd k) < length table then
            (case table ! index_of mp (hd k) of None \<Rightarrow> None | Some t \<Rightarrow> entry mp t (tl k))
          else None
      | None \<Rightarrow>
          if pre \<noteq> [] \<and> HasPrefix k pre then
            (case nx of None \<Rightarrow> None | Some t \<Rightarrow> entry mp t (drop (length pre) k))
          else None))"
  by pat_completeness auto
termination
  by (relation "measure (\<lambda>(mp, t, k). length k)") auto

declare entry.simps [simp del]

lemma entry_Nil: "entry mp t [] = (if nd_priority t = 0 then None else Some (nd_priority t, nd_value t))"
  by (cases t) (simp add: entry.simps)

lemma entry_leaf: "k \<noteq> [] \<Longrightarrow> entry mp (TrieNode v p [] nx None) k = None"
  by (simp add: entry.simps)

lemma entry_chain:
  "k \<noteq> [] \<Longrightarrow> pre \<noteq> [] \<Longrightarrow> entry mp (TrieNode v p pre (Some t) None) k =
     (if HasPrefix k pre then entry mp t (drop (length pre) k) else None)"
  by (simp add: entry.simps)

lemma entry_table:
  "entry mp (TrieNode v p pre nx (Some tb)) (c # k) =
     (if index_of mp c < length tb then (case tb ! index_of mp c of None \<Rightarrow> None | Some t \<Rightarrow> entry mp t k) else None)"
  by (simp add: entry.simps split: option.split)

lemma entry_new [simp]: "entry mp new_trieNode k = None"
  by (cases "k = []") (simp_all add: new_trieNode_def entry_leaf entry_Nil)

lemma HasPrefix_iff: "HasPrefix s p \<longleftrightarrow> (\<exists>r. s = p @ r)"
  unfolding HasPrefix_def by (metis append_eq_conv_conj append_take_drop_id le_add1 length_append)

lemma common_prefix_le: "common_prefix as bs \<le> length as" "common_prefix as bs \<le> length bs"
  by (induction as bs rule: common_prefix.induct) auto

lemma common_prefix_take: "take (common_prefix as bs) bs = take (common_prefix as bs) as"
  by (induction as bs rule: common_prefix.induct) auto

lemma common_prefix_differ:
  "common_prefix as bs < length as \<Longrightarrow> common_prefix as bs < length bs \<Longrightarrow> as ! common_prefix as bs \<noteq> bs ! common_prefix as bs"
  by (induction as bs rule: common_prefix.induct) auto

text \<open>What adding a key does to the entries.\<close>

definition added :: "bytes \<Rightarrow> trieNode \<Rightarrow> bytes \<Rightarrow> bytes \<Rightarrow> nat \<Rightarrow> trieNode \<Rightarrow> bool" where
  "added mp t key val prio t' \<longleftrightarrow>
     (\<forall>k. entry mp t' k = (if k = key \<and> entry mp t k = None then Some (prio, val) else entry mp t k))"

lemma added_Nil: "0 < prio \<Longrightarrow>
    added mp (TrieNode v p pre nx tb) [] val prio (if p = 0 then TrieNode val prio pre nx tb else TrieNode v p pre nx tb)"
  by (auto simp: added_def entry.simps)

text \<open>Below an edge labelled \<open>pre\<close>, adding to the successor adds to the node.\<close>

lemma added_chain:
  assumes "added mp t key val prio t'" "pre \<noteq> []"
  shows "added mp (TrieNode v p pre (Some t) None) (pre @ key) val prio (TrieNode v p pre (Some t') None)"
  unfolding added_def
proof
  fix k
  show "entry mp (TrieNode v p pre (Some t') None) k =
    (if k = pre @ key \<and> entry mp (TrieNode v p pre (Some t) None) k = None then Some (prio, val)
     else entry mp (TrieNode v p pre (Some t) None) k)"
  proof (cases "k = []")
    case True
    with assms(2) show ?thesis by (simp add: entry_Nil)
  next
    case False
    with assms show ?thesis by (auto simp: added_def entry_chain HasPrefix_iff)
  qed
qed

text \<open>An edge may be split in two without changing the entries.\<close>

lemma entry_split:
  assumes "pre1 \<noteq> []" "pre2 \<noteq> []"
  shows "entry mp (TrieNode v p pre1 (Some (TrieNode [] 0 pre2 (Some t) None)) None) k =
    entry mp (TrieNode v p (pre1 @ pre2) (Some t) None) k"
proof (cases "k = []")
  case False
  have "entry mp (TrieNode [] 0 pre2 (Some t) None) r = (if HasPrefix r pre2 then entry mp t (drop (length pre2) r) else None)" for r
    using assms(2) by (cases "r = []") (auto simp: entry_chain entry_Nil HasPrefix_iff)
  with False assms show ?thesis by (auto simp: entry_chain HasPrefix_iff)
qed (simp add: entry_Nil)

text \<open>The entries of a list of pairs: the first pair with the key counts.\<close>

fun first_entry :: "bytes list \<Rightarrow> bytes \<Rightarrow> (nat \<times> bytes) option" where
  "first_entry (k # v # rest) k' = (if k = k' then Some (length (k # v # rest), v) else first_entry rest k')"
| "first_entry _ k' = None"

context key_index
begin

lemma added_table:
  assumes "added mp t key val prio t'" "c \<in> used" "length tb = ts"
    and "tb ! index_of mp c = Some t \<or> tb ! index_of mp c = None \<and> t = new_trieNode"
  shows "added mp (TrieNode v p [] None (Some tb)) (c # key) val prio (TrieNode v p [] None (Some (tb[index_of mp c := Some t'])))"
  unfolding added_def
proof
  fix k
  show "entry mp (TrieNode v p [] None (Some (tb[index_of mp c := Some t']))) k =
    (if k = c # key \<and> entry mp (TrieNode v p [] None (Some tb)) k = None then Some (prio, val)
     else entry mp (TrieNode v p [] None (Some tb)) k)"
  proof (cases k)
    case Nil
    then show ?thesis by (simp add: entry_Nil)
  next
    case (Cons d r)
    have c: "index_of mp c < ts" using assms(2) by (rule index_less)
    show ?thesis
    proof (cases "index_of mp d = index_of mp c")
      case True
      then have "d = c" using index_inj [OF _ assms(2), of d] index_unused [of d] c by auto
      with True Cons assms c show ?thesis by (auto simp: entry_table added_def)
    next
      case False
      with Cons assms(3) show ?thesis by (auto simp: entry_table)
    qed
  qed
qed

lemma entry_branch_off:
  assumes "set pre \<subseteq> used" "pre \<noteq> []" "wf_node used ts t"
  shows "entry mp (TrieNode v p [] None (Some ((replicate ts None)[index_of mp (hd pre) :=
      (if length pre = 1 then Some t else Some (TrieNode [] 0 (tl pre) (Some t) None))]))) k =
    entry mp (TrieNode v p pre (Some t) None) k"
proof (cases k)
  case (Cons d r)
  obtain c q where pre: "pre = c # q" using assms(2) by (cases pre) auto
  have c: "index_of mp c < ts" using assms(1) pre by (simp add: index_less)
  show ?thesis
  proof (cases "d = c")
    case True
    with Cons c pre show ?thesis
      by (cases "q = []"; cases "r = []") (auto simp: entry_table entry_chain HasPrefix_iff entry_Nil)
  next
    case False
    then have "index_of mp d \<noteq> index_of mp c"
      using index_inj [of d c] index_unused [of d] c assms(1) pre by (cases "d \<in> used") auto
    with False Cons pre show ?thesis by (auto simp: entry_table entry_chain HasPrefix_iff)
  qed
qed (simp add: entry_Nil)

lemma wf_update:
  "(\<And>t. Some t \<in> set tb \<Longrightarrow> wf_node used ts t) \<Longrightarrow> wf_node used ts t' \<Longrightarrow> Some t \<in> set (tb[i := Some t']) \<Longrightarrow> wf_node used ts t"
  using set_update_subset_insert [of tb i "Some t'"] by auto

lemma added_cong: "added mp t key val prio t' \<Longrightarrow> (\<And>k. entry mp s k = entry mp t k) \<Longrightarrow> added mp s key val prio t'"
  unfolding added_def by presburger

definition add_ok :: "trieNode \<Rightarrow> bytes \<Rightarrow> bytes \<Rightarrow> nat \<Rightarrow> bool" where
  "add_ok t key val prio \<longleftrightarrow>
     (\<exists>t'. trie_add ts mp t key val prio = Some t' \<and> wf_node used ts t' \<and> added mp t key val prio t')"

lemma add_okE:
  assumes "add_ok t key val prio"
  obtains t' where "trie_add ts mp t key val prio = Some t'" "wf_node used ts t'" "added mp t key val prio t'"
  using assms by (auto simp: add_ok_def)

lemma add_ok_Nil: "wf_node used ts t \<Longrightarrow> 0 < prio \<Longrightarrow> add_ok t [] val prio"
  using added_Nil by (cases t) (auto simp: add_ok_def trie_add.simps elim!: wf_nodeE)

lemma add_ok_leaf:
  assumes "key \<noteq> []" "set key \<subseteq> used" "0 < prio"
  shows "add_ok (TrieNode v p [] None None) key val prio"
proof -
  have "trie_add ts mp (TrieNode v p [] None None) key val prio =
      Some (TrieNode v p key (Some (TrieNode val prio [] None None)) None)"
    using assms(1) by (simp add: trie_add.simps new_trieNode_def)
  moreover have "added mp (TrieNode v p [] None None) key val prio (TrieNode v p key (Some (TrieNode val prio [] None None)) None)"
    unfolding added_def using assms by (auto simp: entry.simps HasPrefix_def)
  ultimately show ?thesis using assms by (auto simp: add_ok_def)
qed

lemma add_ok_table:
  assumes "wf_node used ts (TrieNode v p [] None (Some tb))" "c \<in> used"
    and "add_ok (case tb ! index_of mp c of None \<Rightarrow> new_trieNode | Some t \<Rightarrow> t) q val prio"
  shows "add_ok (TrieNode v p [] None (Some tb)) (c # q) val prio"
proof -
  let ?t = "case tb ! index_of mp c of None \<Rightarrow> new_trieNode | Some t \<Rightarrow> t"
  obtain t' where t': "trie_add ts mp ?t q val prio = Some t'" "wf_node used ts t'" "added mp ?t q val prio t'"
    using assms(3) by (rule add_okE)
  have len: "length tb = ts" using assms(1) by simp
  have "added mp (TrieNode v p [] None (Some tb)) (c # q) val prio (TrieNode v p [] None (Some (tb[index_of mp c := Some t'])))"
    using t'(3) assms(2) len by (rule added_table) (cases "tb ! index_of mp c", simp_all)
  moreover have "wf_node used ts u" if "Some u \<in> set tb" for u
    using assms(1) that by simp
  then have "wf_node used ts (TrieNode v p [] None (Some (tb[index_of mp c := Some t'])))"
    using t'(2) wf_update [of tb t'] len by (intro wf_node.branch) auto
  ultimately show ?thesis
    using t'(1) len index_less [OF assms(2)] by (simp add: add_ok_def trie_add.simps Let_def)
qed

lemma add_ok_below:
  assumes "wf_node used ts (TrieNode v p pre (Some t) None)" "pre \<noteq> []" "add_ok t q val prio"
  shows "add_ok (TrieNode v p pre (Some t) None) (pre @ q) val prio"
proof -
  obtain t' where t': "trie_add ts mp t q val prio = Some t'" "wf_node used ts t'" "added mp t q val prio t'"
    using assms(3) by (rule add_okE)
  have "common_prefix pre (pre @ q) = length pre" by (induction pre) auto
  then have "trie_add ts mp (TrieNode v p pre (Some t) None) (pre @ q) val prio = Some (TrieNode v p pre (Some t') None)"
    using t'(1) assms(2) by (simp add: trie_add.simps)
  with t' added_chain [OF t'(3) assms(2)] assms(1) show ?thesis by (auto simp: add_ok_def)
qed

lemma add_ok_split:
  assumes "wf_node used ts (TrieNode v p (a @ b) (Some t) None)" "a \<noteq> []" "b \<noteq> []" "common_prefix (a @ b) (a @ r) = length a"
    and "add_ok (TrieNode [] 0 b (Some t) None) r val prio"
  shows "add_ok (TrieNode v p (a @ b) (Some t) None) (a @ r) val prio"
proof -
  obtain t' where t': "trie_add ts mp (TrieNode [] 0 b (Some t) None) r val prio = Some t'" "wf_node used ts t'"
    "added mp (TrieNode [] 0 b (Some t) None) r val prio t'"
    using assms(5) by (rule add_okE)
  have "added mp (TrieNode v p (a @ b) (Some t) None) (a @ r) val prio (TrieNode v p a (Some t') None)"
    using added_chain [OF t'(3) assms(2)] by (rule added_cong) (simp add: entry_split assms(2,3))
  with t' assms show ?thesis by (auto simp: add_ok_def trie_add.simps)
qed

lemma add_ok_fork:
  assumes "wf_node used ts (TrieNode v p pre (Some t) None)" "c \<in> used" "pre \<noteq> []" "hd pre \<noteq> c"
    and "add_ok new_trieNode q val prio"
  shows "add_ok (TrieNode v p pre (Some t) None) (c # q) val prio"
proof -
  let ?pn = "if length pre = 1 then Some t else Some (TrieNode [] 0 (tl pre) (Some t) None)"
  let ?tb = "(replicate ts None)[index_of mp (hd pre) := ?pn]"
  obtain t' where t': "trie_add ts mp new_trieNode q val prio = Some t'" "wf_node used ts t'" "added mp new_trieNode q val prio t'"
    using assms(5) by (rule add_okE)
  have wf: "wf_node used ts t" "set pre \<subseteq> used" using assms(1) by simp_all
  have hd: "hd pre \<in> used" using wf(2) assms(3) by (cases pre) auto
  have "index_of mp c \<noteq> index_of mp (hd pre)" using index_inj [OF assms(2) hd] assms(4) by blast
  then have "?tb ! index_of mp c = None" using index_less [OF assms(2)] by simp
  then have "added mp (TrieNode v p [] None (Some ?tb)) (c # q) val prio (TrieNode v p [] None (Some (?tb[index_of mp c := Some t'])))"
    using t'(3) assms(2) by (intro added_table) simp_all
  then have "added mp (TrieNode v p pre (Some t) None) (c # q) val prio (TrieNode v p [] None (Some (?tb[index_of mp c := Some t'])))"
    by (rule added_cong) (rule entry_branch_off [OF wf(2) assms(3) wf(1), symmetric])
  moreover have "wf_node used ts (TrieNode v p [] None (Some (?tb[index_of mp c := Some t'])))"
  proof -
    have "wf_node used ts u" if "Some u \<in> set ?tb" for u
    proof -
      have "Some u = ?pn" using that set_update_subset_insert [of "replicate ts None" "index_of mp (hd pre)" ?pn] by auto
      moreover have "set (tl pre) \<subseteq> used" using wf(2) by (cases pre) auto
      moreover have "tl pre \<noteq> []" if "length pre \<noteq> 1" using that assms(3) by (cases pre) auto
      ultimately show ?thesis using wf(1) by (auto split: if_splits)
    qed
    with t'(2) show ?thesis using wf_update [of ?tb t'] by (intro wf_node.branch) auto
  qed
  moreover have "common_prefix pre (c # q) = 0" using assms(3,4) by (cases pre) auto
  ultimately show ?thesis
    using t'(1) assms(3) index_less [OF assms(2)] index_less [OF hd] by (auto simp: add_ok_def trie_add.simps Let_def)
qed

lemma trie_add_correct:
  assumes "wf_node used ts t" "set key \<subseteq> used" "0 < prio"
  shows "add_ok t key val prio"
  using assms(1,2)
proof (induction key arbitrary: t rule: length_induct)
  case (1 key)
  then have IH: "add_ok t' q val prio" if "wf_node used ts t'" "length q < length key" "set q \<subseteq> used" for t' q
    using that by blast
  show ?case
  proof (cases key)
    case Nil
    with 1 assms(3) show ?thesis by (simp add: add_ok_Nil)
  next
    case (Cons c q)
    with 1(3) have cq: "c \<in> used" "set q \<subseteq> used" by auto
    from \<open>wf_node used ts t\<close> show ?thesis
    proof cases
      case leaf
      with Cons 1(3) assms(3) show ?thesis by (simp add: add_ok_leaf)
    next
      case (branch tb v p)
      have "wf_node used ts (case tb ! index_of mp c of None \<Rightarrow> new_trieNode | Some t \<Rightarrow> t)"
        using branch index_less [OF cq(1)] by (auto split: option.split intro!: branch(3) simp: in_set_conv_nth)
      then have "add_ok (case tb ! index_of mp c of None \<Rightarrow> new_trieNode | Some t \<Rightarrow> t) q val prio"
        by (rule IH) (simp_all add: Cons cq)
      with 1(2) cq(1) show ?thesis unfolding branch(1) Cons by (rule add_ok_table)
    next
      case (chain pre t1 v p)
      let ?n = "common_prefix pre key"
      have sub: "set (drop ?n key) \<subseteq> used" using 1(3) set_drop_subset [of ?n key] by blast
      have key: "key = take ?n pre @ drop ?n key" by (metis append_take_drop_id common_prefix_take)
      consider (full) "?n = length pre" | (fork) "?n = 0" "hd pre \<noteq> c" | (split) "0 < ?n" "?n < length pre"
        using common_prefix_le(1) [of pre key] Cons chain(2) by (cases pre) fastforce+
      then show ?thesis
      proof cases
        case full
        then have "key = pre @ drop ?n key" using key by simp
        moreover have "add_ok t1 (drop ?n key) val prio"
          using full chain sub Cons by (intro IH) auto
        ultimately show ?thesis using add_ok_below [of v p pre t1 "drop ?n key"] chain 1(2) by simp
      next
        case fork
        have "add_ok new_trieNode q val prio" by (rule IH) (simp_all add: Cons cq)
        from 1(2) [unfolded chain(1)] cq(1) chain(2) fork(2) this show ?thesis unfolding chain(1) Cons by (rule add_ok_fork)
      next
        case split
        have "add_ok (TrieNode [] 0 (drop ?n pre) (Some t1) None) (drop ?n key) val prio"
          using split chain sub Cons by (intro IH) (auto dest: in_set_dropD)
        with split chain 1(2) key common_prefix_le(1) [of pre key]
        show ?thesis using add_ok_split [of v p "take ?n pre" "drop ?n pre" t1 "drop ?n key"] by simp
      qed
    qed
  qed
qed

text \<open>
  What the walk down the trie returns: the entry of highest priority among those of the prefixes of
  the input, when it beats the best so far.
\<close>

definition is_best ::
  "trieNode \<Rightarrow> bool \<Rightarrow> bytes \<Rightarrow> nat \<Rightarrow> nat \<Rightarrow> (bytes \<times> nat) option \<Rightarrow> (bytes \<times> nat) option \<Rightarrow> bool" where
  "is_best t skip s n best res res' \<longleftrightarrow>
     (let E = \<lambda>i p v. i \<le> length s \<and> \<not> (skip \<and> i = 0) \<and> entry mp t (take i s) = Some (p, v) in
      (\<forall>i p v. E i p v \<longrightarrow> p \<le> best) \<and> res' = res \<or>
      (\<exists>i p v. E i p v \<and> best < p \<and> res' = Some (v, n + i) \<and> (\<forall>j p' v'. E j p' v' \<longrightarrow> p' \<le> p)))"

lemma is_best_old:
  "(\<And>i p v. i \<le> length s \<Longrightarrow> \<not> (skip \<and> i = 0) \<Longrightarrow> entry mp t (take i s) = Some (p, v) \<Longrightarrow> p \<le> best) \<Longrightarrow>
   is_best t skip s n best res res"
  unfolding is_best_def Let_def by blast

lemma is_best_new:
  "i \<le> length s \<Longrightarrow> \<not> (skip \<and> i = 0) \<Longrightarrow> entry mp t (take i s) = Some (p, v) \<Longrightarrow> best < p \<Longrightarrow>
   (\<And>j p' v'. j \<le> length s \<Longrightarrow> \<not> (skip \<and> j = 0) \<Longrightarrow> entry mp t (take j s) = Some (p', v') \<Longrightarrow> p' \<le> p) \<Longrightarrow>
   is_best t skip s n best res (Some (v, n + i))"
  unfolding is_best_def Let_def by blast

lemma is_bestE:
  assumes "is_best t skip s n best res res'"
  obtains (old) "\<And>i p v. i \<le> length s \<Longrightarrow> \<not> (skip \<and> i = 0) \<Longrightarrow> entry mp t (take i s) = Some (p, v) \<Longrightarrow> p \<le> best" "res' = res"
  | (new) i p v where "i \<le> length s" "\<not> (skip \<and> i = 0)" "entry mp t (take i s) = Some (p, v)" "best < p" "res' = Some (v, n + i)"
      "\<And>j p' v'. j \<le> length s \<Longrightarrow> \<not> (skip \<and> j = 0) \<Longrightarrow> entry mp t (take j s) = Some (p', v') \<Longrightarrow> p' \<le> p"
  using assms unfolding is_best_def Let_def by blast

text \<open>The entries of a node are its own and those of a child reached by \<open>m\<close> bytes of the input.\<close>

lemma is_best_step:
  assumes child: "\<And>i. 0 < i \<Longrightarrow> i \<le> length s \<Longrightarrow> entry mp t (take i s) = (if m \<le> i then entry mp t' (take (i - m) (drop m s)) else None)"
    and m: "0 < m" "m \<le> length s"
    and own: "(best', res') = (if nd_priority t > best \<and> \<not> skip then (nd_priority t, Some (nd_value t, n)) else (best, res))"
    and rest: "is_best t' False (drop m s) (n + m) best' res' res''"
  shows "is_best t skip s n best res res''"
proof -
  have deep: "entry mp t' (take i (drop m s)) = entry mp t (take (i + m) s)" if "i + m \<le> length s" for i
    using child [of "i + m"] m that by simp
  have all: "p \<le> B" if "\<not> skip \<Longrightarrow> nd_priority t \<le> B"
    "\<And>i p v. i \<le> length (drop m s) \<Longrightarrow> entry mp t' (take i (drop m s)) = Some (p, v) \<Longrightarrow> p \<le> B"
    "i \<le> length s" "\<not> (skip \<and> i = 0)" "entry mp t (take i s) = Some (p, v)" for B i p v
  proof (cases "i = 0")
    case True
    with that show ?thesis by (auto simp: entry_Nil split: if_splits)
  next
    case False
    with child [of i] that(3,5) have "m \<le> i" "entry mp t' (take (i - m) (drop m s)) = Some (p, v)"
      by (auto split: if_splits)
    with that(2) [of "i - m"] that(3) show ?thesis by simp
  qed
  from rest show ?thesis
  proof (cases rule: is_bestE)
    case old
    show ?thesis
    proof (cases "nd_priority t > best \<and> \<not> skip")
      case True
      with own have b: "best' = nd_priority t" "res' = Some (nd_value t, n)" by simp_all
      have "p \<le> nd_priority t" if "i \<le> length s" "\<not> (skip \<and> i = 0)" "entry mp t (take i s) = Some (p, v)" for i p v
        using that by (rule all [rotated 2]) (use old(1) b in simp_all)
      then show ?thesis
        using is_best_new [of 0 s skip t "nd_priority t" "nd_value t" best n res] True old(2) b by (simp add: entry_Nil)
    next
      case False
      with own have b: "best' = best" "res' = res" by (simp_all split: if_splits)
      have "p \<le> best" if "i \<le> length s" "\<not> (skip \<and> i = 0)" "entry mp t (take i s) = Some (p, v)" for i p v
        using that by (rule all [rotated 2]) (use old(1) b False in simp_all)
      then show ?thesis using is_best_old [of s skip t best n res] old(2) b by simp
    qed
  next
    case (new i p v)
    have "best \<le> best'" using own by (auto split: if_splits)
    moreover have "p' \<le> p" if "j \<le> length s" "\<not> (skip \<and> j = 0)" "entry mp t (take j s) = Some (p', v')" for j p' v'
      using that by (rule all [rotated 2]) (use new(4,6) own in \<open>auto split: if_splits\<close>)
    ultimately show ?thesis
      using is_best_new [of "i + m" s skip t p v best n res] new(1-5) deep [of i] m by (simp add: ac_simps)
  qed
qed

lemma is_best_stop:
  assumes "\<And>i. 0 < i \<Longrightarrow> i \<le> length s \<Longrightarrow> entry mp t (take i s) = None"
    and "(best', res') = (if nd_priority t > best \<and> \<not> skip then (nd_priority t, Some (nd_value t, n)) else (best, res))"
  shows "is_best t skip s n best res res'"
proof -
  have only: "i = 0 \<and> p = nd_priority t \<and> v = nd_value t \<and> \<not> skip \<and> p \<noteq> 0"
    if "i \<le> length s" "\<not> (skip \<and> i = 0)" "entry mp t (take i s) = Some (p, v)" for i p v
    using that assms(1) [of i] by (cases "i = 0") (auto simp: entry_Nil split: if_splits)
  show ?thesis
  proof (cases "nd_priority t > best \<and> \<not> skip")
    case True
    then have "entry mp t (take 0 s) = Some (nd_priority t, nd_value t)" by (simp add: entry_Nil)
    then have "is_best t skip s n best res (Some (nd_value t, n + 0))"
      using True by (intro is_best_new) (use only in blast)+
    with True assms(2) show ?thesis by simp
  next
    case False
    then have "p \<le> best" if "i \<le> length s" "\<not> (skip \<and> i = 0)" "entry mp t (take i s) = Some (p, v)" for i p v
      using only [OF that] by simp
    then have "is_best t skip s n best res res" by (rule is_best_old)
    with False assms(2) show ?thesis by (simp split: if_splits)
  qed
qed

lemma lookup_loop_best:
  "wf_node used ts t \<Longrightarrow> \<exists>res'. lookup_loop ts mp skip t s n best res = Some res' \<and> is_best t skip s n best res res'"
proof (induction s arbitrary: skip t n best res rule: length_induct)
  case less: (1 s)
  obtain v p pre nx tb where t: "t = TrieNode v p pre nx tb" by (cases t)
  obtain best' res' where b: "(if p > best \<and> \<not> skip then (p, Some (v, n)) else (best, res)) = (best', res')" by force
  then have own: "(best', res') = (if nd_priority t > best \<and> \<not> skip then (nd_priority t, Some (nd_value t, n)) else (best, res))"
    by (auto simp: t split: if_splits)
  note unfold = lookup_loop.simps b Let_def prod.case
  have stop: ?case if "lookup_loop ts mp skip t s n best res = Some res'"
    "\<And>i. 0 < i \<Longrightarrow> i \<le> length s \<Longrightarrow> entry mp t (take i s) = None"
    using that is_best_stop [OF that(2) own] by blast
  have step: ?case if "lookup_loop ts mp skip t s n best res = lookup_loop ts mp False t' (drop m s) (n + m) best' res'"
    "wf_node used ts t'" "0 < m" "m \<le> length s"
    "\<And>i. 0 < i \<Longrightarrow> i \<le> length s \<Longrightarrow> entry mp t (take i s) = (if m \<le> i then entry mp t' (take (i - m) (drop m s)) else None)" for t' m
  proof -
    have "length (drop m s) < length s" using that(3,4) by simp
    with less(1) that(2) obtain res'' where "lookup_loop ts mp False t' (drop m s) (n + m) best' res' = Some res''"
      "is_best t' False (drop m s) (n + m) best' res' res''" by blast
    with that(1) is_best_step [OF that(5,3,4) own] show ?thesis by auto
  qed
  show ?case
  proof (cases s)
    case Nil
    then show ?thesis by (intro stop) (simp_all add: t unfold)
  next
    case (Cons c q)
    from less(2) [unfolded t] show ?thesis
    proof (cases rule: wf_node_fields)
      case leaf
      with Cons show ?thesis by (intro stop) (auto simp: t unfold entry_leaf)
    next
      case (chain t1)
      show ?thesis
      proof (cases "HasPrefix s pre")
        case True
        then have "entry mp t (take i s) = (if length pre \<le> i then entry mp t1 (take (i - length pre) (drop (length pre) s)) else None)"
          if "0 < i" "i \<le> length s" for i
          using that chain Cons by (auto simp: t entry_chain HasPrefix_def drop_take min_def)
        with True chain Cons show ?thesis
          by (intro step [of t1 "length pre"]) (auto simp: t unfold HasPrefix_def)
      next
        case False
        then have "entry mp t (take i s) = None" if "0 < i" "i \<le> length s" for i
          using that chain Cons by (auto simp: t entry_chain HasPrefix_def min_def split: if_splits)
        with False chain Cons show ?thesis by (intro stop) (auto simp: t unfold)
      qed
    next
      case (branch tb')
      have E: "entry mp t (take i s) = (if index_of mp c < ts then (case tb' ! index_of mp c of None \<Rightarrow> None | Some t \<Rightarrow> entry mp t (take (i - 1) q)) else None)"
        if "0 < i" for i
        using that branch Cons by (cases i) (auto simp: t entry_table split: option.split)
      have idx: "index_of mp c \<noteq> ts \<longleftrightarrow> index_of mp c < ts" using index_less index_unused by (metis nat_neq_iff)
      show ?thesis
      proof (cases "index_of mp c < ts \<and> tb' ! index_of mp c \<noteq> None")
        case True
        then obtain t1 where t1: "tb' ! index_of mp c = Some t1" by blast
        with True branch have "wf_node used ts t1" by (metis nth_mem)
        with True t1 branch Cons E show ?thesis
          by (intro step [of t1 1]) (auto simp: t unfold)
      next
        case False
        with branch Cons E idx show ?thesis by (intro stop) (auto simp: t unfold)
      qed
    qed
  qed
qed

lemma add_pairs_correct:
  assumes "wf_node used ts t" "set (concat (old_keys oldnew)) \<subseteq> used"
  shows "\<exists>t'. add_pairs ts mp t oldnew = Some t' \<and> wf_node used ts t' \<and>
    (\<forall>k. entry mp t' k = (case entry mp t k of Some e \<Rightarrow> Some e | None \<Rightarrow> first_entry oldnew k))"
  using assms
proof (induction oldnew arbitrary: t rule: old_keys.induct)
  case (1 k v rest)
  obtain t1 where t1: "trie_add ts mp t k v (length (k # v # rest)) = Some t1" "wf_node used ts t1"
    "added mp t k v (length (k # v # rest)) t1"
    using trie_add_correct [of t k "length (k # v # rest)" v] 1(2,3) by (auto elim: add_okE)
  obtain t' where t': "add_pairs ts mp t1 rest = Some t'" "wf_node used ts t'"
    "\<And>k. entry mp t' k = (case entry mp t1 k of Some e \<Rightarrow> Some e | None \<Rightarrow> first_entry rest k)"
    using 1(1) [OF t1(2)] 1(3) by auto
  have "entry mp t' k' = (case entry mp t k' of Some e \<Rightarrow> Some e | None \<Rightarrow> first_entry (k # v # rest) k')" for k'
    using t1(3) t'(3) by (auto simp: added_def split: option.split)
  with t1(1) t'(1,2) show ?case by simp
qed (auto split: option.split)

end

section \<open>The reference: the first pair that matches\<close>

fun first_match :: "bytes list \<Rightarrow> bytes \<Rightarrow> bool \<Rightarrow> (bytes \<times> nat) option" where
  "first_match (k # v # rest) s skip =
     (if prefix k s \<and> \<not> (skip \<and> k = []) then Some (v, length k) else first_match rest s skip)"
| "first_match _ s skip = None"

lemma first_entry_less: "first_entry oldnew k = Some (p, v) \<Longrightarrow> p \<le> length oldnew \<and> 0 < p"
  by (induction oldnew k rule: first_entry.induct) (auto split: if_splits)

text \<open>As priorities decrease along the list, the entry of highest priority is the first pair that matches.\<close>

lemma best_is_first:
  assumes "(\<forall>i p v. i \<le> length s \<and> \<not> (skip \<and> i = 0) \<longrightarrow> first_entry oldnew (take i s) \<noteq> Some (p, v)) \<and> res = None \<or>
    (\<exists>i p v. i \<le> length s \<and> \<not> (skip \<and> i = 0) \<and> first_entry oldnew (take i s) = Some (p, v) \<and> res = Some (v, i) \<and>
      (\<forall>j p' v'. j \<le> length s \<and> \<not> (skip \<and> j = 0) \<and> first_entry oldnew (take j s) = Some (p', v') \<longrightarrow> p' \<le> p))"
  shows "res = first_match oldnew s skip"
  using assms
proof (induction oldnew s skip rule: first_match.induct)
  case (1 k v rest s skip)
  show ?case
  proof (cases "prefix k s \<and> \<not> (skip \<and> k = [])")
    case True
    then have k: "length k \<le> length s" "take (length k) s = k" by (auto simp: prefix_def)
    then have here: "first_entry (k # v # rest) (take (length k) s) = Some (length (k # v # rest), v)" by simp
    from 1(2) show ?thesis
    proof (elim disjE exE conjE)
      fix i p v'
      assume i: "i \<le> length s" "first_entry (k # v # rest) (take i s) = Some (p, v')" "res = Some (v', i)"
        and max: "\<forall>j p' v'. j \<le> length s \<and> \<not> (skip \<and> j = 0) \<and> first_entry (k # v # rest) (take j s) = Some (p', v') \<longrightarrow> p' \<le> p"
      have "length (k # v # rest) \<le> p" using max True k here by blast
      then have "take i s = k" "v' = v" using i(2) first_entry_less [of rest "take i s" p v'] by (auto split: if_splits)
      with i k True show ?thesis by auto
    qed (use True k here in fastforce)
  next
    case False
    then have "first_entry (k # v # rest) (take i s) = first_entry rest (take i s)" if "i \<le> length s" "\<not> (skip \<and> i = 0)" for i
      using that by (auto simp: take_is_prefix)
    with False 1 show ?thesis by (simp only: first_match.simps if_False) (smt (verit))
  qed
qed auto

section \<open>The numbering makeGenericReplacer computes\<close>

lemma length_mark_bytes [simp]: "length (mark_bytes ks) = 256"
proof -
  have "length (foldl (\<lambda>m c. m[unat c := 1]) m ks) = length m" for m :: bytes
    by (induction ks arbitrary: m) auto
  then show ?thesis by (simp add: mark_bytes_def)
qed

lemma byte_bound [simp]: "unat (c :: byte) < 256"
  using unsigned_less [of c] by simp

lemma mark_bytes_nth: "mark_bytes ks ! unat c = (if c \<in> set ks then 1 else 0)"
proof -
  have "length m = 256 \<Longrightarrow> foldl (\<lambda>m c. m[unat c := 1]) m ks ! unat c = (if c \<in> set ks then 1 else m ! unat c)" for m :: bytes
  proof (induction ks arbitrary: m)
    case (Cons d ks)
    have "unat c = unat d \<longleftrightarrow> c = d" by (rule word_unat_eq_iff [symmetric])
    with Cons show ?case by (cases "c = d") simp_all
  qed simp
  from this [of "replicate 256 0"] show ?thesis by (simp add: mark_bytes_def)
qed

lemma mark_bytes_01: "b \<in> set (mark_bytes ks) \<Longrightarrow> b = 0 \<or> b = 1"
proof -
  have "set (foldl (\<lambda>m c. m[unat c := 1]) m ks) \<subseteq> insert 1 (set m)" for m :: bytes
  proof (induction ks arbitrary: m)
    case (Cons c ks)
    then show ?case using set_update_subset_insert [of m "unat c" 1] by fastforce
  qed auto
  from this [of "replicate 256 0"] show "b \<in> set (mark_bytes ks) \<Longrightarrow> b = 0 \<or> b = 1" by (auto simp: mark_bytes_def)
qed

lemma sum_marks: "(\<And>b. b \<in> set bs \<Longrightarrow> b = 0 \<or> b = 1) \<Longrightarrow> sum_list (map unat bs) = length (filter (\<lambda>b. b \<noteq> (0 :: byte)) bs)"
  by (induction bs) fastforce+

lemma length_assign_indexes [simp]: "length (assign_indexes ts index bs) = length bs"
  by (induction bs arbitrary: index) auto

lemma assign_indexes_nth:
  "i < length bs \<Longrightarrow> assign_indexes ts index bs ! i =
     (if bs ! i = 0 then of_nat ts else index + of_nat (length (filter (\<lambda>b. b \<noteq> 0) (take i bs))))"
proof (induction bs arbitrary: index i)
  case (Cons b bs)
  then show ?case by (cases i) auto
qed simp

lemma filter_take_less:
  assumes "i < j" "j \<le> length bs" "P (bs ! i)"
  shows "length (filter P (take i bs)) < length (filter P (take j bs))"
proof -
  have "take j bs = take i bs @ bs ! i # drop (Suc i) (take j bs)"
    using id_take_nth_drop [of i "take j bs"] assms by (simp add: min_def)
  from arg_cong [OF this, of "\<lambda>l. length (filter P l)"] assms(3) show ?thesis by simp
qed

abbreviation table_size :: "bytes list \<Rightarrow> nat" where
  "table_size oldnew \<equiv> sum_list (map unat (mark_bytes (concat (old_keys oldnew))))"

abbreviation numbering :: "bytes list \<Rightarrow> bytes" where
  "numbering oldnew \<equiv> assign_indexes (table_size oldnew) 0 (mark_bytes (concat (old_keys oldnew)))"

interpretation num: key_index "table_size oldnew" "numbering oldnew" "set (concat (old_keys oldnew))" for oldnew
proof unfold_locales
  let ?ks = "concat (old_keys oldnew)"
  let ?m = "mark_bytes ?ks" and ?ts = "table_size oldnew"
  let ?cnt = "\<lambda>c :: byte. length (filter (\<lambda>b. b \<noteq> 0) (take (unat c) ?m))"
  have ts: "?ts = length (filter (\<lambda>b. b \<noteq> 0) (take 256 ?m))"
    using sum_marks [of ?m] mark_bytes_01 by simp
  then have ts_le: "?ts \<le> 256" by (metis length_filter_le length_mark_bytes take_all_iff order_refl)
  have lt: "?cnt c < ?ts" if "c \<in> set ?ks" for c
    unfolding ts using that by (intro filter_take_less) (auto simp: mark_bytes_nth less_imp_le)
  have idx: "index_of (numbering oldnew) c = (if c \<in> set ?ks then ?cnt c else unat (of_nat ?ts :: byte))" for c
  proof (cases "c \<in> set ?ks")
    case True
    with lt [of c] ts_le have "?cnt c < 2 ^ LENGTH(8)" by simp
    with True show ?thesis by (simp add: index_of_def assign_indexes_nth mark_bytes_nth unat_of_nat_small del: set_concat)
  next
    case False
    then show ?thesis by (simp add: index_of_def assign_indexes_nth mark_bytes_nth del: set_concat)
  qed
  show "index_of (numbering oldnew) c < ?ts" if "c \<in> set ?ks" for c
    using that lt by (simp add: idx)
  show "c = d" if "c \<in> set ?ks" "d \<in> set ?ks" "index_of (numbering oldnew) c = index_of (numbering oldnew) d" for c d
  proof -
    have "?cnt a < ?cnt b" if "unat a < unat b" "a \<in> set ?ks" for a b
      using that by (intro filter_take_less) (auto simp: mark_bytes_nth less_imp_le)
    then have "unat c = unat d" using that by (metis idx nat_neq_iff)
    then show ?thesis by (rule word_unat_eq_iff [THEN iffD2])
  qed
  show "index_of (numbering oldnew) c = ?ts" if "c \<notin> set ?ks" for c
  proof -
    have "0 \<in> set ?m" using mark_bytes_nth [of ?ks c] that by (metis byte_bound length_mark_bytes nth_mem)
    then have "length (filter (\<lambda>b. b \<noteq> 0) ?m) < length ?m" by (rule length_filter_less) simp
    then have "?ts < 256" by (simp add: ts)
    with that show ?thesis by (simp add: idx unat_of_nat_small)
  qed
qed

lemma first_entry_Nil: "first_entry oldnew [] = None \<longleftrightarrow> [] \<notin> set (old_keys oldnew)"
  by (induction oldnew rule: old_keys.induct) auto

lemma trie_add_root:
  "trie_add ts mp (TrieNode v p [] None (Some tb)) key val prio = Some t \<Longrightarrow> \<exists>tb'. nd_table t = Some tb'"
  by (auto simp: trie_add.simps Let_def split: if_splits Option.bind_splits)

lemma makeGenericReplacer_correct:
  "\<exists>r. makeGenericReplacer oldnew = Some r \<and> wf_node (set (concat (old_keys oldnew))) (tableSize r) (root r) \<and>
     tableSize r = table_size oldnew \<and> mapping r = numbering oldnew \<and>
     (\<forall>k. entry (mapping r) (root r) k = first_entry oldnew k)"
proof -
  let ?t0 = "TrieNode [] 0 [] None (Some (replicate (table_size oldnew) None))"
  have "entry mp ?t0 k = None" for mp k
    by (cases k) (simp_all add: entry_Nil entry_table)
  moreover have "wf_node (set (concat (old_keys oldnew))) (table_size oldnew) ?t0" by simp
  ultimately obtain t where "add_pairs (table_size oldnew) (numbering oldnew) ?t0 oldnew = Some t"
    "wf_node (set (concat (old_keys oldnew))) (table_size oldnew) t"
    "\<And>k. entry (numbering oldnew) t k = first_entry oldnew k"
    using num.add_pairs_correct [of oldnew ?t0 oldnew] by auto
  then show ?thesis by (auto simp: makeGenericReplacer_def Let_def)
qed

lemma lookup_first_match:
  assumes "makeGenericReplacer oldnew = Some r"
  shows "lookup r s skip = Some (first_match oldnew s skip)"
proof -
  from assms makeGenericReplacer_correct [of oldnew]
  have r: "wf_node (set (concat (old_keys oldnew))) (table_size oldnew) (root r)" "tableSize r = table_size oldnew"
    "mapping r = numbering oldnew" "\<And>k. entry (numbering oldnew) (root r) k = first_entry oldnew k"
    by auto
  obtain res where res: "lookup r s skip = Some res" "num.is_best oldnew (root r) skip s 0 0 None res"
    using num.lookup_loop_best [OF r(1), of skip s 0 0 None] r(2,3) by (auto simp: lookup_def)
  from res(2) have "res = first_match oldnew s skip"
  proof (cases rule: num.is_bestE)
    case old
    have "first_entry oldnew (take i s) \<noteq> Some (p, v)" if "i \<le> length s" "\<not> (skip \<and> i = 0)" for i p v
      using old(1) [OF that, unfolded r(4)] first_entry_less [of oldnew "take i s" p v] by auto
    with old(2) show ?thesis by (intro best_is_first disjI1) simp
  next
    case (new i p v)
    note facts = new [unfolded r(4)]
    then have "\<forall>j p' v'. j \<le> length s \<and> \<not> (skip \<and> j = 0) \<and> first_entry oldnew (take j s) = Some (p', v') \<longrightarrow> p' \<le> p"
      by blast
    with facts(1-5) show ?thesis
      by (intro best_is_first disjI2 exI [of _ i] exI [of _ p] exI [of _ v] conjI) simp_all
  qed
  with res(1) show ?thesis by simp
qed

end
