(* ===== verification/Bytereplacer_Replace.thy ===== *)
theory Bytereplacer_Replace
  imports Bytereplacer_Correct
begin

text \<open>
  Correctness of \<open>Replace\<close> in the array it is given, and the properties of the package.
\<close>

section \<open>The reference scan\<close>

lemma first_match_bounds: "first_match oldnew s skip = Some (v, k) \<Longrightarrow> k \<le> length s \<and> (skip \<longrightarrow> 0 < k) \<and> (k = 0 \<longrightarrow> [] \<in> set (old_keys oldnew))"
  by (induction oldnew s skip rule: first_match.induct) (auto simp: prefix_length_le split: if_splits)

function replace_all :: "bytes list \<Rightarrow> bytes \<Rightarrow> bool \<Rightarrow> bytes" where
  "replace_all oldnew s prevEmpty = (case first_match oldnew s prevEmpty of
     Some (v, k) \<Rightarrow> v @ replace_all oldnew (drop k s) (k = 0)
   | None \<Rightarrow> (case s of [] \<Rightarrow> [] | c # q \<Rightarrow> c # replace_all oldnew q False))"
  by pat_completeness auto
termination
  by (relation "measure (\<lambda>(oldnew, s, skip). 2 * length s + (if skip then 0 else 1))")
    (auto dest: first_match_bounds)

declare replace_all.simps [simp del]

lemma replace_all_skip: "first_match oldnew (c # q) skip = None \<Longrightarrow> replace_all oldnew (c # q) skip = c # replace_all oldnew q False"
  by (simp add: replace_all.simps [of oldnew "c # q"])

lemma replace_all_end: "first_match oldnew [] skip = None \<Longrightarrow> replace_all oldnew [] skip = []"
  by (simp add: replace_all.simps)

section \<open>Copying within the array\<close>

lemma length_copy_at [simp]: "pos + length src \<le> length buf \<Longrightarrow> length (copy_at buf pos src) = length buf"
  by (simp add: copy_at_def)

lemma take_copy_at: "m \<le> pos \<Longrightarrow> pos \<le> length buf \<Longrightarrow> take m (copy_at buf pos src) = take m buf"
  by (simp add: copy_at_def min_def)

lemma drop_copy_at: "pos + length src \<le> length buf \<Longrightarrow> pos + length src \<le> m \<Longrightarrow> drop m (copy_at buf pos src) = drop m buf"
  by (simp add: copy_at_def)

lemma take_copy_at_end: "pos + length src \<le> length buf \<Longrightarrow> take (pos + length src) (copy_at buf pos src) = take pos buf @ src"
  by (simp add: copy_at_def)

lemma seg_copy_at_above: "pos + length src \<le> length buf \<Longrightarrow> pos + length src \<le> a \<Longrightarrow> seg a b (copy_at buf pos src) = seg a b buf"
  by (simp add: seg_def drop_copy_at)

lemma seg_copy_at_src: "pos + length src \<le> length buf \<Longrightarrow> seg pos (pos + length src) (copy_at buf pos src) = src"
  by (simp add: seg_def copy_at_def)

text \<open>Where the output is: still in front of the unread input, or in an array of its own.\<close>

definition dest_ok :: "dest \<Rightarrow> bool \<Rightarrow> nat \<Rightarrow> bool" where
  "dest_ok d grown start \<longleftrightarrow> (if grown then (\<exists>ds. d = Fresh ds) else (\<exists>n \<le> start. d = InPlace n))"

lemma append_dst_ok:
  assumes "dest_ok d grown start" "start + length xs \<le> length buf" "append_dst buf d xs = (buf', d')"
  shows "length buf' = length buf" "dest_ok d' grown (start + length xs)" "dest_bytes buf' d' = dest_bytes buf d @ xs"
    "drop (start + length xs) buf' = drop (start + length xs) buf"
  using assms
  by (auto simp: dest_ok_def append_dst_def take_copy_at_end drop_copy_at split: if_splits dest.splits)

lemma dest_ok_mono: "dest_ok d grown start \<Longrightarrow> start \<le> start' \<Longrightarrow> dest_ok d grown start'"
  by (auto simp: dest_ok_def split: if_splits)

lemma seg_drop_eq: "drop m xs = drop m ys \<Longrightarrow> m \<le> a \<Longrightarrow> seg a b xs = seg a b ys"
  unfolding seg_def by (metis drop_drop le_add_diff_inverse2)

section \<open>The loop\<close>

definition is_branch :: "trieNode \<Rightarrow> bool" where
  "is_branch t \<longleftrightarrow> (\<exists>v p tb. t = TrieNode v p [] None (Some tb))"

lemma add_pairs_branch: "is_branch t \<Longrightarrow> add_pairs ts mp t oldnew = Some t' \<Longrightarrow> is_branch t'"
proof (induction ts mp t oldnew rule: add_pairs.induct)
  case (1 ts mp t k v rest)
  then show ?case
    by (auto simp: is_branch_def trie_add.simps Let_def split: if_splits Option.bind_splits)
qed auto

lemma fast_path:
  assumes r: "makeGenericReplacer oldnew = Some r" and "nd_priority (root r) = 0"
  shows "no_pattern r c \<noteq> None" "no_pattern r c = Some True \<Longrightarrow> first_match oldnew (c # q) skip = None"
proof -
  obtain v p tb where root: "root r = TrieNode v p [] None (Some tb)"
    using r add_pairs_branch by (fastforce simp: makeGenericReplacer_def Let_def is_branch_def split: Option.bind_splits)
  have facts: "length tb = tableSize r" "tableSize r = table_size oldnew" "mapping r = numbering oldnew"
    using makeGenericReplacer_correct [of oldnew] r root by auto
  then show "no_pattern r c \<noteq> None"
    using num.index_less [of c oldnew] num.index_unused [of c oldnew] by (auto simp: no_pattern_def Let_def root simp del: set_concat)
  show "first_match oldnew (c # q) skip = None" if "no_pattern r c = Some True"
  proof -
    have "lookup r (c # q) skip = Some None"
      using that assms(2) by (auto simp: lookup_def lookup_loop.simps root no_pattern_def Let_def split: if_splits)
    then show ?thesis using lookup_first_match [OF r] by simp
  qed
qed

lemma root_priority:
  assumes "makeGenericReplacer oldnew = Some r"
  shows "nd_priority (root r) = 0 \<longleftrightarrow> [] \<notin> set (old_keys oldnew)"
proof -
  have "entry (mapping r) (root r) [] = first_entry oldnew []" using makeGenericReplacer_correct [of oldnew] assms by auto
  then show ?thesis using first_entry_Nil [of oldnew] by (auto simp: entry_Nil split: if_splits)
qed

lemma replace_loop_end:
  assumes "start \<le> slen" "slen \<le> length buf" "dest_ok d grown start"
  shows "replace_loop r buf slen d grown (Suc slen) start pme = Some (dest_bytes buf d @ seg start slen buf)"
proof -
  obtain buf' d' where a: "append_dst buf d (seg start slen (take slen buf)) = (buf', d')" by force
  have "length (seg start slen (take slen buf)) = slen - start" using assms by simp
  then have "dest_bytes buf' d' = dest_bytes buf d @ seg start slen (take slen buf)"
    using assms by (intro append_dst_ok(3) [OF assms(3) _ a]) simp
  then show ?thesis
    using assms a by (auto simp: replace_loop.simps [of r buf slen d grown "Suc slen"] slice_def seg_def drop_take)
qed

lemma seg_Suc: "a \<le> i \<Longrightarrow> i < length xs \<Longrightarrow> seg a (Suc i) xs = seg a i xs @ [xs ! i]"
  by (simp add: seg_def Suc_diff_le take_Suc_conv_app_nth)

lemma seg_Cons: "i < b \<Longrightarrow> b \<le> length xs \<Longrightarrow> seg i b xs = xs ! i # seg (Suc i) b xs"
  using Suc_diff_Suc [of i b] Cons_nth_drop_Suc [of i xs] unfolding seg_def by (metis less_le_trans take_Suc_Cons)

text \<open>
  One match: the text since the last one and the replacement are output, and what is still to be
  read, now from \<open>i'\<close> to \<open>slen'\<close> of the array, is the input after the key.
\<close>

definition match_step :: "bytes \<Rightarrow> nat \<Rightarrow> dest \<Rightarrow> nat \<Rightarrow> nat \<Rightarrow> bytes \<Rightarrow> nat \<Rightarrow> bytes \<Rightarrow> nat \<Rightarrow> dest \<Rightarrow> bool \<Rightarrow> nat \<Rightarrow> bool" where
  "match_step buf slen d i start val keylen buf' slen' d' grown' i' \<longleftrightarrow>
     i' \<le> slen' \<and> slen' \<le> length buf' \<and> dest_ok d' grown' i' \<and> slen' - i' = slen - i - keylen \<and>
     dest_bytes buf' d' = dest_bytes buf d @ seg start i buf @ val \<and>
     seg i' slen' buf' = drop keylen (seg i slen buf)"

lemma replace_loop_on_match:
  assumes "i \<le> slen" "\<not> (i \<noteq> slen \<and> nd_priority (root r) = 0 \<and> (no_pattern r (buf ! i) = None \<or> no_pattern r (buf ! i) = Some True))"
    "lookup r (seg i slen buf) pme = Some (Some (val, keylen))" "slice buf start i = Some xs" "append_dst buf d xs = (buf1, d1)"
  shows "replace_loop r buf slen d grown i start pme =
     (if grown \<or> length val < keylen then
        let (buf', d') = append_dst buf1 d1 val in
        replace_loop r buf' slen d' grown (i + keylen) (i + keylen) (keylen = 0)
      else if length val - keylen \<le> length buf1 - slen then
        (case (d1, slice (take slen buf1) (i + keylen) slen) of
          (InPlace n, Some rest) \<Rightarrow>
            if i + length val \<le> length buf1 then
              let (buf', d') = append_dst (copy_at buf1 (i + length val) rest) d1 val in
              replace_loop r buf' (slen + (length val - keylen)) d' grown (i + length val) (i + length val) (keylen = 0)
            else None
        | _ \<Rightarrow> None)
      else replace_loop r buf1 slen (Fresh (dest_bytes buf1 d1 @ val)) True (i + keylen) (i + keylen) (keylen = 0))"
proof -
  have "\<not> i > slen" "\<not> (i \<noteq> slen \<and> nd_priority (root r) = 0 \<and> no_pattern r (buf ! i) = None)"
    "\<not> (i \<noteq> slen \<and> nd_priority (root r) = 0 \<and> no_pattern r (buf ! i) = Some True)"
    using assms(1,2) by auto
  then show ?thesis
    unfolding replace_loop.simps [of r buf slen d grown i start pme]
    by (simp only: if_False option.case prod.case assms(3,4,5) Let_def)
qed

lemma replace_loop_match:
  assumes inv: "start \<le> i" "i \<le> slen" "slen \<le> length buf" "dest_ok d grown start"
    and look: "\<not> (i \<noteq> slen \<and> nd_priority (root r) = 0 \<and> (no_pattern r (buf ! i) = None \<or> no_pattern r (buf ! i) = Some True))"
      "lookup r (seg i slen buf) pme = Some (Some (val, keylen))" "keylen \<le> slen - i"
  shows "\<exists>buf' slen' d' grown' i'. replace_loop r buf slen d grown i start pme = replace_loop r buf' slen' d' grown' i' i' (keylen = 0) \<and>
    match_step buf slen d i start val keylen buf' slen' d' grown' i'"
proof -
  obtain buf1 d1 where a1: "append_dst buf d (seg start i buf) = (buf1, d1)" by force
  have len: "length (seg start i buf) = i - start" using inv by simp
  have one: "length buf1 = length buf" "dest_ok d1 grown i" "dest_bytes buf1 d1 = dest_bytes buf d @ seg start i buf"
    "drop i buf1 = drop i buf"
    using append_dst_ok [OF inv(4) _ a1] inv len by simp_all
  have slice: "slice buf start i = Some (seg start i buf)" using inv by (simp add: slice_def)
  note unfold = replace_loop_on_match [OF inv(2) look(1,2) slice a1, of grown] Let_def
  have rest1: "seg (i + keylen) slen buf1 = drop keylen (seg i slen buf)"
  proof -
    have "seg (i + keylen) slen buf1 = seg (i + keylen) slen buf" using one(4) by (rule seg_drop_eq) simp
    then show ?thesis by (simp add: seg_def drop_take add.commute)
  qed
  consider (grown) "grown" | (shrink) "\<not> grown" "length val < keylen"
    | (shift) "\<not> grown" "keylen \<le> length val" "length val - keylen \<le> length buf1 - slen"
    | (fresh) "\<not> grown" "keylen \<le> length val" "\<not> length val - keylen \<le> length buf1 - slen"
    by linarith
  then show ?thesis
  proof cases
    case grown
    then obtain ds where d1: "d1 = Fresh ds" using one(2) by (auto simp: dest_ok_def)
    have "match_step buf slen d i start val keylen buf1 slen (Fresh (ds @ val)) True (i + keylen)"
      using inv one look(3) d1 rest1 by (auto simp: match_step_def dest_ok_def)
    moreover have "replace_loop r buf slen d grown i start pme =
        replace_loop r buf1 slen (Fresh (ds @ val)) True (i + keylen) (i + keylen) (keylen = 0)"
      unfolding unfold using grown d1 by (simp add: append_dst_def)
    ultimately show ?thesis by blast
  next
    case shrink
    obtain buf2 d2 where a2: "append_dst buf1 d1 val = (buf2, d2)" by force
    have two: "length buf2 = length buf1" "dest_ok d2 grown (i + length val)" "dest_bytes buf2 d2 = dest_bytes buf1 d1 @ val"
      "drop (i + length val) buf2 = drop (i + length val) buf1"
      using append_dst_ok [OF one(2) _ a2] shrink inv one(1) look(3) by simp_all
    have "seg (i + keylen) slen buf2 = seg (i + keylen) slen buf1"
      using two(4) by (rule seg_drop_eq) (use shrink in simp)
    then have "match_step buf slen d i start val keylen buf2 slen d2 grown (i + keylen)"
      using inv one(1,3) two look(3) shrink rest1 dest_ok_mono [OF two(2), of "i + keylen"] by (auto simp: match_step_def)
    moreover have "replace_loop r buf slen d grown i start pme = replace_loop r buf2 slen d2 grown (i + keylen) (i + keylen) (keylen = 0)"
      unfolding unfold using shrink a2 by simp
    ultimately show ?thesis by blast
  next
    case shift
    then obtain n where d1: "d1 = InPlace n" "n \<le> i" using one(2) by (auto simp: dest_ok_def)
    let ?slen = "slen + (length val - keylen)" and ?rest = "seg (i + keylen) slen buf1" and ?i = "i + length val"
    let ?buf2 = "copy_at buf1 ?i ?rest"
    have len: "length ?rest = slen - i - keylen" using inv one(1) look(3) by simp
    then have fits: "?i + length ?rest = ?slen" "?slen \<le> length buf1" using shift inv one(1) look(3) by simp_all
    obtain buf3 d3 where a3: "append_dst ?buf2 d1 val = (buf3, d3)" by force
    have two: "length ?buf2 = length buf1" "dest_bytes ?buf2 d1 = dest_bytes buf1 d1"
      using fits d1 by (simp_all add: take_copy_at)
    have three: "length buf3 = length buf1" "dest_ok d3 grown ?i" "dest_bytes buf3 d3 = dest_bytes buf1 d1 @ val"
      "drop ?i buf3 = drop ?i ?buf2"
      using append_dst_ok [OF one(2) _ a3] two fits by simp_all
    have "seg ?i ?slen buf3 = seg ?i ?slen ?buf2" using three(4) by (rule seg_drop_eq) simp
    also have "\<dots> = ?rest" using seg_copy_at_src [of ?i ?rest buf1] fits by simp
    finally have "match_step buf slen d i start val keylen buf3 ?slen d3 grown ?i"
      using inv one(1,3) three fits look(3) shift rest1 by (auto simp: match_step_def)
    moreover have "replace_loop r buf slen d grown i start pme = replace_loop r buf3 ?slen d3 grown ?i ?i (keylen = 0)"
    proof -
      have "seg (i + keylen) slen (take slen buf1) = ?rest" by (simp add: seg_def drop_take)
      then have "slice (take slen buf1) (i + keylen) slen = Some ?rest" using inv one(1) look(3) by (simp add: slice_def)
      then show ?thesis unfolding unfold using shift a3 d1 fits by simp
    qed
    ultimately show ?thesis by blast
  next
    case fresh
    have "match_step buf slen d i start val keylen buf1 slen (Fresh (dest_bytes buf1 d1 @ val)) True (i + keylen)"
      using inv one look(3) rest1 by (auto simp: match_step_def dest_ok_def)
    moreover have "replace_loop r buf slen d grown i start pme =
        replace_loop r buf1 slen (Fresh (dest_bytes buf1 d1 @ val)) True (i + keylen) (i + keylen) (keylen = 0)"
      unfolding unfold using fresh by simp
    ultimately show ?thesis by blast
  qed
qed

lemma replace_loop_correct:
  assumes r: "makeGenericReplacer oldnew = Some r"
    and "start \<le> i" "i \<le> slen" "slen \<le> length buf" "dest_ok d grown start"
    and "prevMatchEmpty \<Longrightarrow> nd_priority (root r) \<noteq> 0"
  shows "replace_loop r buf slen d grown i start prevMatchEmpty =
    Some (dest_bytes buf d @ seg start i buf @ replace_all oldnew (seg i slen buf) prevMatchEmpty)"
  using assms(2-)
proof (induction "2 * (slen + 1 - i) + (if prevMatchEmpty then 0 else 1 :: nat)" arbitrary: buf slen d grown i start prevMatchEmpty
    rule: less_induct)
  case less
  note inv = less(2-6) and look = lookup_first_match [OF r]
  have advance: "replace_loop r buf slen d grown (Suc i) start pme =
      Some (dest_bytes buf d @ seg start i buf @ (if i = slen then [] else buf ! i # replace_all oldnew (seg (Suc i) slen buf) pme))"
    if "pme \<Longrightarrow> nd_priority (root r) \<noteq> 0" for pme
  proof (cases "i = slen")
    case True
    with inv show ?thesis using replace_loop_end [of start slen buf d grown] by simp
  next
    case False
    with inv have "i < slen" by simp
    with inv that less(1) [of slen "Suc i" pme start buf d grown] show ?thesis
      by (simp add: seg_Suc Suc_diff_le)
  qed
  show ?case
  proof (cases "i \<noteq> slen \<and> nd_priority (root r) = 0 \<and> no_pattern r (buf ! i) = Some True")
    case True
    then have "i < slen" "\<not> prevMatchEmpty" using inv by auto
    moreover from True fast_path(2) [OF r] have "first_match oldnew (seg i slen buf) False = None"
      using \<open>i < slen\<close> inv by (simp add: seg_Cons)
    ultimately show ?thesis
      using True advance [of False] inv
      by (simp add: replace_loop.simps [of r buf slen d grown i start] replace_all_skip seg_Cons)
  next
    case slow: False
    have np: "\<not> (i \<noteq> slen \<and> nd_priority (root r) = 0 \<and> no_pattern r (buf ! i) = None)" using fast_path(1) [OF r] by blast
    show ?thesis
    proof (cases "first_match oldnew (seg i slen buf) prevMatchEmpty")
      case None
      with slow np look have "replace_loop r buf slen d grown i start prevMatchEmpty = replace_loop r buf slen d grown (Suc i) start False"
        using inv by (subst replace_loop.simps) auto
      with None advance [of False] inv show ?thesis
        by (cases "i = slen") (simp_all add: replace_all_skip replace_all_end seg_Cons)
    next
      case (Some vk)
      then obtain val keylen where vk: "first_match oldnew (seg i slen buf) prevMatchEmpty = Some (val, keylen)" by (cases vk) auto
      note bounds = first_match_bounds [OF vk]
      have kl: "keylen \<le> slen - i" using bounds inv by simp
      obtain buf' slen' d' grown' i' where step:
        "replace_loop r buf slen d grown i start prevMatchEmpty = replace_loop r buf' slen' d' grown' i' i' (keylen = 0)"
        "match_step buf slen d i start val keylen buf' slen' d' grown' i'"
        using replace_loop_match [of start i slen buf d grown r prevMatchEmpty val keylen] inv slow np look vk kl by auto
      have prio: "keylen = 0 \<Longrightarrow> nd_priority (root r) \<noteq> 0"
        using bounds root_priority [OF r] by simp
      have smaller: "2 * (slen' + 1 - i') + (if keylen = 0 then 0 else 1) < 2 * (slen + 1 - i) + (if prevMatchEmpty then 0 else 1 :: nat)"
        using step(2) bounds kl inv by (auto simp: match_step_def)
      have "replace_loop r buf' slen' d' grown' i' i' (keylen = 0) =
          Some (dest_bytes buf' d' @ seg i' i' buf' @ replace_all oldnew (seg i' slen' buf') (keylen = 0))"
        using step(2) prio by (intro less(1) smaller) (auto simp: match_step_def)
      with step vk show ?thesis
        by (simp add: match_step_def replace_all.simps [of oldnew "seg i slen buf"])
    qed
  qed
qed

section \<open>New\<close>

lemma fill_bytes_length [simp]: "length (fill_bytes oldnew) = 256"
  by (induction oldnew rule: fill_bytes.induct) auto

lemma scan_pairs_bytes:
  "scan_pairs oldnew acc = Some True \<Longrightarrow> acc \<and> (oldnew = [] \<or> (\<exists>x. oldnew = [x]) \<or>
     (\<exists>a b rest. oldnew = [a] # [b] # rest \<and> scan_pairs rest True = Some True))"
proof (induction oldnew acc rule: scan_pairs.induct)
  case (1 k v rest acc)
  then have "length k = 1" "scan_pairs rest (acc \<and> length v = 1) = Some True" by (auto split: if_splits)
  moreover from this 1(1) have "acc \<and> length v = 1" by blast
  ultimately show ?case by (auto simp: length_Suc_conv)
qed auto

lemma first_match_bytes:
  "scan_pairs oldnew True = Some True \<Longrightarrow> first_match oldnew [] skip = None \<and>
    (case first_match oldnew (c # q) skip of
       None \<Rightarrow> fill_bytes oldnew ! unat c = c
     | Some (v, k) \<Rightarrow> k = 1 \<and> v = [fill_bytes oldnew ! unat c])"
proof (induction oldnew rule: old_keys.induct)
  case (1 k v rest)
  from scan_pairs_bytes [OF 1(2)] obtain a b where ab: "k = [a]" "v = [b]" "scan_pairs rest True = Some True" by auto
  have "unat a = unat c \<longleftrightarrow> a = c" by (rule word_unat_eq_iff [symmetric])
  with 1(1) [OF ab(3)] ab show ?case by (cases "a = c") (auto split: option.splits)
qed auto

lemma byte_Replace_correct:
  "scan_pairs oldnew True = Some True \<Longrightarrow> byte_Replace (fill_bytes oldnew) s = replace_all oldnew s False"
proof (induction s)
  case Nil
  then show ?case using first_match_bytes by (simp add: byte_Replace_def replace_all_end)
next
  case (Cons c s)
  with first_match_bytes [OF Cons(2), of False c s] show ?case
    by (auto simp: byte_Replace_def replace_all.simps [of oldnew "c # s"] split: option.splits)
qed

section \<open>Properties\<close>

text \<open>
  C4: \<open>New\<close> on an even number of strings returns a replacer, and \<open>Replace\<close> returns, without an index or
  slice out of range, what a scan from left to right by the list of pairs gives, in which the first
  pair whose old string matches counts: whatever the capacity of the array, whether the output is
  written over the input, the input is shifted to make room, or a new array is allocated.
\<close>

theorem Replace_correct:
  assumes "even (length oldnew)" "slen \<le> length buf"
  shows "\<exists>r. New_Replacer oldnew = Some r \<and> Replace r buf slen = Some (replace_all oldnew (take slen buf) False)"
proof (cases "scan_pairs oldnew True = Some True")
  case True
  with assms byte_Replace_correct [OF True] show ?thesis
    by (auto simp: New_Replacer_def Replace_def even_iff_mod_2_eq_zero)
next
  case False
  obtain g where g: "makeGenericReplacer oldnew = Some g" using makeGenericReplacer_correct by blast
  have "generic_Replace g buf slen = Some (replace_all oldnew (take slen buf) False)"
    using replace_loop_correct [OF g, of 0 0 slen buf "InPlace 0" False False] assms(2)
    by (simp add: generic_Replace_def dest_ok_def seg_def)
  with False g assms(1) show ?thesis by (auto simp: New_Replacer_def Replace_def even_iff_mod_2_eq_zero)
qed

theorem Replace_correct_witness:
  "\<exists>r. New_Replacer [ascii ''a'', ascii ''xyz''] = Some r \<and>
     Replace r (ascii ''banana'') 6 = Some (replace_all [ascii ''a'', ascii ''xyz''] (take 6 (ascii ''banana'')) False)"
  by (rule Replace_correct) (simp_all add: ascii_def)

text \<open>
  C14: \<open>lookup\<close> finds in the trie the new string and length of the first pair in the list whose old
  string is a prefix of the input, ignoring the empty old string if asked to.
\<close>

theorem lookup_finds_first_match:
  assumes "makeGenericReplacer oldnew = Some r"
  shows "lookup r s ignoreRoot = Some (first_match oldnew s ignoreRoot)"
  using assms by (rule lookup_first_match)

theorem lookup_finds_first_match_witness:
  "\<exists>r. makeGenericReplacer [ascii ''aa'', ascii ''1'', ascii ''a'', ascii ''2''] = Some r \<and>
     lookup r (ascii ''ab'') False = Some (Some (ascii ''2'', 1))"
proof -
  obtain r where r: "makeGenericReplacer [ascii ''aa'', ascii ''1'', ascii ''a'', ascii ''2''] = Some r"
    using makeGenericReplacer_correct by blast
  from lookup_finds_first_match [OF r, of "ascii ''ab''" False] r show ?thesis by (simp add: ascii_def)
qed

text \<open>An odd number of arguments makes \<open>New\<close> panic, and nothing else does.\<close>

theorem New_panics_iff_odd: "New_Replacer oldnew = None \<longleftrightarrow> odd (length oldnew)"
  using makeGenericReplacer_correct [of oldnew] by (auto simp: New_Replacer_def odd_iff_mod_2_eq_one)

end
