(* ===== verification/Go_UTF8.thy ===== *)
theory Go_UTF8
  imports Go4_Prelude
begin

text \<open>
  What the packages use of Go's \<open>unicode/utf8\<close>: decoding the first rune of a byte string. An encoding
  that is cut short, overlong, a surrogate or out of range decodes to \<open>RuneError\<close> with size 1, the
  empty string to \<open>RuneError\<close> with size 0.
\<close>

type_synonym rune = nat

definition RuneError :: rune where "RuneError = 65533"

definition cont_byte :: "nat \<Rightarrow> bool" where
  "cont_byte b \<longleftrightarrow> 128 \<le> b \<and> b \<le> 191"

text \<open>The bytes that may follow the first byte of an encoding of three or four bytes.\<close>

definition second_ok :: "nat \<Rightarrow> nat \<Rightarrow> bool" where
  "second_ok b0 b1 \<longleftrightarrow> cont_byte b1 \<and> (b0 = 224 \<longrightarrow> 160 \<le> b1) \<and> (b0 = 237 \<longrightarrow> b1 \<le> 159) \<and>
     (b0 = 240 \<longrightarrow> 144 \<le> b1) \<and> (b0 = 244 \<longrightarrow> b1 \<le> 143)"

fun decode_nats :: "nat list \<Rightarrow> rune \<times> nat" where
  "decode_nats [] = (RuneError, 0)"
| "decode_nats (b0 # bs) =
     (if b0 < 128 then (b0, 1)
      else if 194 \<le> b0 \<and> b0 \<le> 223 \<and> bs \<noteq> [] \<and> cont_byte (bs ! 0) then
        ((b0 - 192) * 64 + (bs ! 0 - 128), 2)
      else if 224 \<le> b0 \<and> b0 \<le> 239 \<and> 2 \<le> length bs \<and> second_ok b0 (bs ! 0) \<and> cont_byte (bs ! 1) then
        ((b0 - 224) * 4096 + (bs ! 0 - 128) * 64 + (bs ! 1 - 128), 3)
      else if 240 \<le> b0 \<and> b0 \<le> 244 \<and> 3 \<le> length bs \<and> second_ok b0 (bs ! 0) \<and> cont_byte (bs ! 1) \<and> cont_byte (bs ! 2) then
        ((b0 - 240) * 262144 + (bs ! 0 - 128) * 4096 + (bs ! 1 - 128) * 64 + (bs ! 2 - 128), 4)
      else (RuneError, 1))"

definition DecodeRune :: "bytes \<Rightarrow> rune \<times> nat" where
  "DecodeRune s = decode_nats (map unat (take 4 s))"

definition ValidRune :: "rune \<Rightarrow> bool" where
  "ValidRune r \<longleftrightarrow> r < 55296 \<or> 57343 < r \<and> r \<le> 1114111"

lemma decode_nats_size: "s \<noteq> [] \<Longrightarrow> 0 < snd (decode_nats s) \<and> snd (decode_nats s) \<le> length s"
  by (cases s) (auto simp: Suc_le_eq)

lemma DecodeRune_size: "s \<noteq> [] \<Longrightarrow> 0 < snd (DecodeRune s) \<and> snd (DecodeRune s) \<le> length s"
  using decode_nats_size [of "map unat (take 4 s)"] by (auto simp: DecodeRune_def)

lemma DecodeRune_ASCII: "unat b < 128 \<Longrightarrow> DecodeRune (b # s) = (unat b, 1)"
  by (simp add: DecodeRune_def)

end
