(* ===== verification/Ziputil.thy ===== *)
theory Ziputil
  imports Readerutil Go_UTF8
begin

text \<open>
  The package \<open>ziputil\<close> (\<open>src/ziputil/ziputil.go\<close>), first part: finding and parsing the table of
  contents of a zip file (\<open>ZipTOCSize\<close>, \<open>ParseTOC\<close>). Operations return \<open>None\<close> where the code would panic
  (an index or slice out of range, a negative length), and otherwise an error or a result.
  Offsets are \<open>int64\<close> in the code: \<open>int64\<close> below is the conversion, and sums that may wrap are wrapped.
\<close>

unbundle bit_operations_syntax

datatype zerr = ErrFormat | ErrChecksum | ZIO io_error | ZErrorf string

section \<open>Reading little-endian fields\<close>

primrec le_nat :: "bytes \<Rightarrow> nat" where
  "le_nat [] = 0"
| "le_nat (b # bs) = unat b + 256 * le_nat bs"

definition rb_take :: "nat \<Rightarrow> bytes \<Rightarrow> (nat \<times> bytes) option" where
  "rb_take n b = (if n \<le> length b then Some (le_nat (take n b), drop n b) else None)"

definition rb_uint8 :: "bytes \<Rightarrow> (8 word \<times> bytes) option" where
  "rb_uint8 b = do { (v, b) \<leftarrow> rb_take 1 b; Some (of_nat v, b) }"

definition rb_uint16 :: "bytes \<Rightarrow> (16 word \<times> bytes) option" where
  "rb_uint16 b = do { (v, b) \<leftarrow> rb_take 2 b; Some (of_nat v, b) }"

definition rb_uint32 :: "bytes \<Rightarrow> (32 word \<times> bytes) option" where
  "rb_uint32 b = do { (v, b) \<leftarrow> rb_take 4 b; Some (of_nat v, b) }"

definition rb_uint64 :: "bytes \<Rightarrow> (64 word \<times> bytes) option" where
  "rb_uint64 b = do { (v, b) \<leftarrow> rb_take 8 b; Some (of_nat v, b) }"

definition rb_sub :: "nat \<Rightarrow> bytes \<Rightarrow> (bytes \<times> bytes) option" where
  "rb_sub n b = (if n \<le> length b then Some (take n b, drop n b) else None)"

definition rb_skip :: "nat \<Rightarrow> bytes \<Rightarrow> bytes option" where
  "rb_skip n b = (if n \<le> length b then Some (drop n b) else None)"

section \<open>Times\<close>

text \<open>A \<open>time.Time\<close>: seconds since 1970, nanoseconds, and the offset of its zone unless it is UTC.\<close>

record Time =
  unix_sec :: int
  nsec :: int
  zone :: "int option"

definition zero_Time :: Time where
  "zero_Time = \<lparr>unix_sec = -62135596800, nsec = 0, zone = None\<rparr>"

definition IsZero :: "Time \<Rightarrow> bool" where
  "IsZero t \<longleftrightarrow> unix_sec t = -62135596800 \<and> nsec t = 0"

definition isLeap :: "int \<Rightarrow> bool" where
  "isLeap y \<longleftrightarrow> y mod 4 = 0 \<and> (y mod 100 \<noteq> 0 \<or> y mod 400 = 0)"

definition daysBefore :: "nat \<Rightarrow> int" where
  "daysBefore m = [0, 31, 59, 90, 120, 151, 181, 212, 243, 273, 304, 334] ! m"

text \<open>\<open>time.Date\<close> in UTC: months carry over into years; the other fields only add up.\<close>

definition Date :: "int \<Rightarrow> int \<Rightarrow> int \<Rightarrow> int \<Rightarrow> int \<Rightarrow> int \<Rightarrow> Time" where
  "Date year month day hour mins sec =
     (let m = month - 1; y = year + m div 12; m = nat (m mod 12);
          days = 365 * (y - 1) + (y - 1) div 4 - (y - 1) div 100 + (y - 1) div 400 + daysBefore m +
                 (if isLeap y \<and> 2 \<le> m then 1 else 0) + day - 1 in
      \<lparr>unix_sec = days * 86400 + hour * 3600 + mins * 60 + sec - 62135596800, nsec = 0, zone = None\<rparr>)"

definition time_Unix :: "int \<Rightarrow> int \<Rightarrow> Time" where
  "time_Unix sec ns = \<lparr>unix_sec = sec + ns div 10 ^ 9, nsec = ns mod 10 ^ 9, zone = None\<rparr>"

definition msDosTimeToTime :: "16 word \<Rightarrow> 16 word \<Rightarrow> Time" where
  "msDosTimeToTime dosDate dosTime =
     Date (uint (drop_bit 9 dosDate + 1980)) (uint (drop_bit 5 dosDate AND 15)) (uint (dosDate AND 31))
       (uint (drop_bit 11 dosTime)) (uint (drop_bit 5 dosTime AND 63)) (uint ((dosTime AND 31) * 2))"

text \<open>Durations are nanoseconds in an \<open>int64\<close>; \<open>Sub\<close> saturates.\<close>

definition time_Sub :: "Time \<Rightarrow> Time \<Rightarrow> int" where
  "time_Sub t u = max (- (2 ^ 63)) (min (2 ^ 63 - 1) ((unix_sec t - unix_sec u) * 10 ^ 9 + (nsec t - nsec u)))"

text \<open>\<open>Duration.Round\<close>: to the nearest multiple, halfway values away from zero, saturating.\<close>

definition duration_Round :: "int \<Rightarrow> int \<Rightarrow> int" where
  "duration_Round d m =
     (let r = \<bar>d\<bar> mod m in
      if d < 0 then
        (if r + r < m then d + r else let d1 = int64 (d - m + r) in if d1 < d then d1 else - (2 ^ 63))
      else
        (if r + r < m then d - r else let d1 = int64 (d + m - r) in if d1 > d then d1 else 2 ^ 63 - 1))"

definition timeZone :: "int \<Rightarrow> int" where
  "timeZone offset =
     (let minOffset = -12 * 3600 * 10 ^ 9; maxOffset = 14 * 3600 * 10 ^ 9; offsetAlias = 15 * 60 * 10 ^ 9;
          offset = duration_Round offset offsetAlias;
          offset = (if offset < minOffset \<or> maxOffset < offset then 0 else offset) in
      sgn offset * (\<bar>offset\<bar> div 10 ^ 9))"

section \<open>Directory headers\<close>

record FileHeader =
  fh_Name :: bytes
  fh_Comment :: bytes
  NonUTF8 :: bool
  CreatorVersion :: "16 word"
  ReaderVersion :: "16 word"
  fh_Flags :: "16 word"
  Method :: "16 word"
  Modified :: Time
  ModifiedTime :: "16 word"
  ModifiedDate :: "16 word"
  fh_CRC32 :: "32 word"
  CompressedSize :: "32 word"
  UncompressedSize :: "32 word"
  CompressedSize64 :: "64 word"
  UncompressedSize64 :: "64 word"
  Extra :: bytes
  ExternalAttrs :: "32 word"
  HeaderOffset :: int

function detect_loop :: "bytes \<Rightarrow> bool \<Rightarrow> bool \<times> bool" where
  "detect_loop s require =
     (if s = [] then (True, require)
      else let (r, size) = DecodeRune s in
        if r < 32 \<or> r > 125 \<or> r = 92 then
          (if \<not> ValidRune r \<or> r = RuneError \<and> size = 1 then (False, False) else detect_loop (drop size s) True)
        else detect_loop (drop size s) require)"
  by pat_completeness auto
termination
proof (relation "measure (\<lambda>(s, require). length s)")
  show "((drop size s, True), (s, require)) \<in> measure (\<lambda>(s, require). length s)"
    if "s \<noteq> []" "x = DecodeRune s" "(r, size) = x" for s :: bytes and require x r size
    using DecodeRune_size [OF that(1)] that(2,3) by (metis case_prod_conv diff_less in_measure le_zero_eq length_drop length_greater_0_conv snd_conv that(1))
  show "((drop size s, require), (s, require)) \<in> measure (\<lambda>(s, require). length s)"
    if "s \<noteq> []" "x = DecodeRune s" "(r, size) = x" for s :: bytes and require x r size
    using DecodeRune_size [OF that(1)] that(2,3) by (metis case_prod_conv diff_less in_measure le_zero_eq length_drop length_greater_0_conv snd_conv that(1))
qed simp

declare detect_loop.simps [simp del]

definition detectUTF8 :: "bytes \<Rightarrow> bool \<times> bool" where
  "detectUTF8 s = detect_loop s False"

text \<open>What the loop over the extra fields changes.\<close>

record extras =
  x_UncompressedSize64 :: "64 word"
  x_CompressedSize64 :: "64 word"
  x_HeaderOffset :: int
  needUSize :: bool
  needCSize :: bool
  needHeaderOffset :: bool
  modified :: Time

definition zip64_extra :: "bytes \<Rightarrow> extras \<Rightarrow> (zerr + extras) option" where
  "zip64_extra fieldBuf x =
     (if needUSize x \<and> length fieldBuf < 8 then Some (Inl ErrFormat) else do {
        (x, fieldBuf) \<leftarrow> (if needUSize x then do {
            (v, fieldBuf) \<leftarrow> rb_uint64 fieldBuf;
            Some (x\<lparr>needUSize := False, x_UncompressedSize64 := v\<rparr>, fieldBuf) }
          else Some (x, fieldBuf));
        if needCSize x \<and> length fieldBuf < 8 then Some (Inl ErrFormat) else do {
          (x, fieldBuf) \<leftarrow> (if needCSize x then do {
              (v, fieldBuf) \<leftarrow> rb_uint64 fieldBuf;
              Some (x\<lparr>needCSize := False, x_CompressedSize64 := v\<rparr>, fieldBuf) }
            else Some (x, fieldBuf));
          if needHeaderOffset x \<and> length fieldBuf < 8 then Some (Inl ErrFormat)
          else if needHeaderOffset x then do {
            (v, fieldBuf) \<leftarrow> rb_uint64 fieldBuf;
            Some (Inr (x\<lparr>needHeaderOffset := False, x_HeaderOffset := sint v\<rparr>)) }
          else Some (Inr x) } })"

text \<open>\<open>int64\<close> division and remainder of Go, which truncate towards zero.\<close>

definition quot64 :: "int \<Rightarrow> int \<Rightarrow> int" where
  "quot64 a b = sgn a * (\<bar>a\<bar> div b)"

definition ntfs_time :: "64 word \<Rightarrow> Time" where
  "ntfs_time v =
     (let ts = sint v; secs = quot64 ts (10 ^ 7); nsecs = 100 * (ts - 10 ^ 7 * secs) in
      time_Unix (unix_sec (Date 1601 1 1 0 0 0) + secs) nsecs)"

function ntfs_attrs :: "bytes \<Rightarrow> Time \<Rightarrow> Time option" where
  "ntfs_attrs fieldBuf modif =
     (if length fieldBuf < 4 then Some modif else
        (case do { (attrTag, b) \<leftarrow> rb_uint16 fieldBuf; (attrSize, b) \<leftarrow> rb_uint16 b; Some (attrTag, unat attrSize, b) } of
          None \<Rightarrow> None
        | Some (attrTag, attrSize, b) \<Rightarrow>
            if length b < attrSize then Some modif
            else if attrTag \<noteq> 1 \<or> attrSize \<noteq> 24 then ntfs_attrs (drop attrSize b) modif
            else do { (ts, _) \<leftarrow> rb_uint64 (take attrSize b); ntfs_attrs (drop attrSize b) (ntfs_time ts) }))"
  by pat_completeness auto
termination
  by (relation "measure (\<lambda>(b, t). length b)")
    (auto simp: rb_uint16_def rb_take_def split: if_splits Option.bind_splits)

declare ntfs_attrs.simps [simp del]

text \<open>One extra field; \<open>continue parseExtras\<close> leaves the rest of the field alone.\<close>

definition extra_field :: "16 word \<Rightarrow> bytes \<Rightarrow> extras \<Rightarrow> (zerr + extras) option" where
  "extra_field fieldTag fieldBuf x =
     (if fieldTag = 1 then zip64_extra fieldBuf x
      else if fieldTag = 10 then
        (if length fieldBuf < 4 then Some (Inr x)
         else do { fieldBuf \<leftarrow> rb_skip 4 fieldBuf; t \<leftarrow> ntfs_attrs fieldBuf (modified x); Some (Inr (x\<lparr>modified := t\<rparr>)) })
      else if fieldTag = 13 \<or> fieldTag = 22613 then
        (if length fieldBuf < 8 then Some (Inr x)
         else do { (_, fieldBuf) \<leftarrow> rb_uint32 fieldBuf; (ts, _) \<leftarrow> rb_uint32 fieldBuf;
                   Some (Inr (x\<lparr>modified := time_Unix (uint ts) 0\<rparr>)) })
      else if fieldTag = 21589 then
        (if length fieldBuf < 5 then Some (Inr x)
         else do { (flags, fieldBuf) \<leftarrow> rb_uint8 fieldBuf;
                   if flags AND 1 = 0 then Some (Inr x)
                   else do { (ts, _) \<leftarrow> rb_uint32 fieldBuf; Some (Inr (x\<lparr>modified := time_Unix (uint ts) 0\<rparr>)) } })
      else Some (Inr x))"

function parse_extras :: "bytes \<Rightarrow> extras \<Rightarrow> (zerr + extras) option" where
  "parse_extras extra x =
     (if length extra < 4 then Some (Inr x) else
        (case do { (fieldTag, b) \<leftarrow> rb_uint16 extra; (fieldSize, b) \<leftarrow> rb_uint16 b; Some (fieldTag, unat fieldSize, b) } of
          None \<Rightarrow> None
        | Some (fieldTag, fieldSize, b) \<Rightarrow>
            if length b < fieldSize then Some (Inr x)
            else (case extra_field fieldTag (take fieldSize b) x of
              None \<Rightarrow> None
            | Some (Inl e) \<Rightarrow> Some (Inl e)
            | Some (Inr x) \<Rightarrow> parse_extras (drop fieldSize b) x)))"
  by pat_completeness auto
termination
  by (relation "measure (\<lambda>(b, x). length b)")
    (auto simp: rb_uint16_def rb_take_def split: if_splits Option.bind_splits)

declare parse_extras.simps [simp del]

definition directoryHeaderLen :: nat where "directoryHeaderLen = 46"

definition directoryHeaderSignature :: "32 word" where "directoryHeaderSignature = 33639248"

text \<open>The fixed part of a header: the fields, and the lengths of name, extra fields and comment.\<close>

definition read_fixed :: "bytes \<Rightarrow> (zerr + FileHeader \<times> nat \<times> nat \<times> nat) option" where
  "read_fixed b = do {
     (sig, b) \<leftarrow> rb_uint32 b;
     if sig \<noteq> directoryHeaderSignature then Some (Inl ErrFormat) else do {
       (creator, b) \<leftarrow> rb_uint16 b; (reader, b) \<leftarrow> rb_uint16 b; (flags, b) \<leftarrow> rb_uint16 b; (meth, b) \<leftarrow> rb_uint16 b;
       (mtime, b) \<leftarrow> rb_uint16 b; (mdate, b) \<leftarrow> rb_uint16 b; (crc, b) \<leftarrow> rb_uint32 b;
       (csize, b) \<leftarrow> rb_uint32 b; (usize, b) \<leftarrow> rb_uint32 b;
       (filenameLen, b) \<leftarrow> rb_uint16 b; (extraLen, b) \<leftarrow> rb_uint16 b; (commentLen, b) \<leftarrow> rb_uint16 b;
       b \<leftarrow> rb_skip 4 b;
       (attrs, b) \<leftarrow> rb_uint32 b; (hoff, b) \<leftarrow> rb_uint32 b;
       Some (Inr (\<lparr>fh_Name = [], fh_Comment = [], NonUTF8 = False, CreatorVersion = creator, ReaderVersion = reader,
         fh_Flags = flags, Method = meth, Modified = zero_Time, ModifiedTime = mtime, ModifiedDate = mdate,
         fh_CRC32 = crc, CompressedSize = csize, UncompressedSize = usize,
         CompressedSize64 = ucast csize, UncompressedSize64 = ucast usize, Extra = [], ExternalAttrs = attrs,
         HeaderOffset = uint hoff\<rparr>, unat filenameLen, unat extraLen, unat commentLen)) } }"

definition choose_NonUTF8 :: "bytes \<Rightarrow> bytes \<Rightarrow> 16 word \<Rightarrow> bool" where
  "choose_NonUTF8 nam cmnt flags =
     (let (utf8Valid1, utf8Require1) = detectUTF8 nam; (utf8Valid2, utf8Require2) = detectUTF8 cmnt in
      if \<not> utf8Valid1 \<or> \<not> utf8Valid2 then True
      else if \<not> utf8Require1 \<and> \<not> utf8Require2 then False
      else flags AND 2048 = 0)"

definition choose_Modified :: "16 word \<Rightarrow> 16 word \<Rightarrow> Time \<Rightarrow> Time" where
  "choose_Modified mdate mtime modif =
     (let msdosModified = msDosTimeToTime mdate mtime in
      if IsZero modif then msdosModified
      else if mtime \<noteq> 0 \<or> mdate \<noteq> 0 then modif\<lparr>zone := Some (timeZone (time_Sub msdosModified modif))\<rparr>
      else modif\<lparr>zone := None\<rparr>)"

definition extras_of :: "FileHeader \<Rightarrow> extras" where
  "extras_of f = \<lparr>x_UncompressedSize64 = UncompressedSize64 f, x_CompressedSize64 = CompressedSize64 f,
     x_HeaderOffset = HeaderOffset f, needUSize = (UncompressedSize f = 2 ^ 32 - 1),
     needCSize = (CompressedSize f = 2 ^ 32 - 1), needHeaderOffset = (HeaderOffset f = 2 ^ 32 - 1), modified = zero_Time\<rparr>"

text \<open>After the variable part \<open>d\<close> has been read.\<close>

definition finish_header :: "FileHeader \<Rightarrow> nat \<Rightarrow> nat \<Rightarrow> bytes \<Rightarrow> (zerr + FileHeader) option" where
  "finish_header f filenameLen extraLen d =
     (let f = f\<lparr>fh_Name := take filenameLen d, Extra := take extraLen (drop filenameLen d),
               fh_Comment := drop (filenameLen + extraLen) d\<rparr>;
          f = f\<lparr>NonUTF8 := choose_NonUTF8 (fh_Name f) (fh_Comment f) (fh_Flags f)\<rparr> in
      case parse_extras (Extra f) (extras_of f) of
        None \<Rightarrow> None
      | Some (Inl e) \<Rightarrow> Some (Inl e)
      | Some (Inr x) \<Rightarrow>
          let f = f\<lparr>UncompressedSize64 := x_UncompressedSize64 x, CompressedSize64 := x_CompressedSize64 x,
                    HeaderOffset := x_HeaderOffset x, Modified := choose_Modified (ModifiedDate f) (ModifiedTime f) (modified x)\<rparr> in
          Some (if needCSize x \<or> needHeaderOffset x then Inl ErrFormat else Inr f))"

definition readDirectoryHeader :: "stream \<Rightarrow> ((zerr + FileHeader) \<times> stream) option" where
  "readDirectoryHeader r = (case ReadFull r directoryHeaderLen of
     (buf, Some e, r) \<Rightarrow> Some (Inl (ZIO e), r)
   | (buf, None, r) \<Rightarrow> (case read_fixed buf of
       None \<Rightarrow> None
     | Some (Inl e) \<Rightarrow> Some (Inl e, r)
     | Some (Inr (f, filenameLen, extraLen, commentLen)) \<Rightarrow>
         (case ReadFull r (filenameLen + extraLen + commentLen) of
           (d, Some e, r) \<Rightarrow> Some (Inl (ZIO e), r)
         | (d, None, r) \<Rightarrow> map_option (\<lambda>res. (res, r)) (finish_header f filenameLen extraLen d))))"

section \<open>The end of the directory\<close>

record directoryEnd =
  diskNbr :: "32 word"
  dirDiskNbr :: "32 word"
  dirRecordsThisDisk :: "64 word"
  directoryRecords :: "64 word"
  directorySize :: "64 word"
  directoryOffset :: "64 word"
  commentLen :: "16 word"
  de_comment :: bytes

type_synonym read_at = "nat \<Rightarrow> int \<Rightarrow> (bytes \<times> io_error option) option"

definition directoryEndLen :: nat where "directoryEndLen = 22"

primrec sig_loop :: "bytes \<Rightarrow> nat \<Rightarrow> int" where
  "sig_loop b 0 = -1"
| "sig_loop b (Suc i) =
     (if b ! i = 80 \<and> b ! (i + 1) = 75 \<and> b ! (i + 2) = 5 \<and> b ! (i + 3) = 6 then
        (let n = unat (b ! (i + directoryEndLen - 2)) OR push_bit 8 (unat (b ! (i + directoryEndLen - 1))) in
         if n + directoryEndLen + i > length b then -1 else int i)
      else sig_loop b i)"

definition findSignatureInBlock :: "bytes \<Rightarrow> int" where
  "findSignatureInBlock b = (if length b < directoryEndLen then -1 else sig_loop b (Suc (length b - directoryEndLen)))"

text \<open>A buffer of \<open>n\<close> bytes into which a read put \<open>bs\<close>.\<close>

definition fill_buf :: "nat \<Rightarrow> bytes \<Rightarrow> bytes" where
  "fill_buf n bs = bs @ replicate (n - length bs) 0"

primrec end_loop :: "read_at \<Rightarrow> int \<Rightarrow> int list \<Rightarrow> (zerr + bytes \<times> int) option" where
  "end_loop r fsize [] = None"
| "end_loop r fsize (bLen # bLens) =
     (let bLen = (if bLen > fsize then fsize else bLen) in
      if bLen < 0 then None
      else do {
        (bs, err) \<leftarrow> r (nat bLen) (fsize - bLen);
        if err \<noteq> None \<and> err \<noteq> Some EOF then Some (Inl (ZIO (the err)))
        else let buf = fill_buf (nat bLen) bs; p = findSignatureInBlock buf in
          if p \<ge> 0 then Some (Inr (drop (nat p) buf, fsize - bLen + p))
          else if bLens = [] \<or> bLen = fsize then Some (Inl ErrFormat)
          else end_loop r fsize bLens })"

definition findDirectory64End :: "read_at \<Rightarrow> int \<Rightarrow> (zerr + int) option" where
  "findDirectory64End r directoryEndOffset =
     (let locOffset = directoryEndOffset - 20 in
      if locOffset < 0 then Some (Inr (-1))
      else do {
        (bs, err) \<leftarrow> r 20 locOffset;
        case err of
          Some e \<Rightarrow> Some (Inl (ZIO e))
        | None \<Rightarrow> do {
            (sig, b) \<leftarrow> rb_uint32 (fill_buf 20 bs);
            if sig \<noteq> 117853008 then Some (Inr (-1))
            else do {
              (disk, b) \<leftarrow> rb_uint32 b;
              if disk \<noteq> 0 then Some (Inr (-1))
              else do {
                (p, b) \<leftarrow> rb_uint64 b;
                (disks, b) \<leftarrow> rb_uint32 b;
                if disks \<noteq> 1 then Some (Inr (-1)) else Some (Inr (sint p)) } } } })"

definition readDirectory64End :: "read_at \<Rightarrow> int \<Rightarrow> directoryEnd \<Rightarrow> (zerr + directoryEnd) option" where
  "readDirectory64End r off d = do {
     (bs, err) \<leftarrow> r 56 off;
     case err of
       Some e \<Rightarrow> Some (Inl (ZIO e))
     | None \<Rightarrow> do {
         (sig, b) \<leftarrow> rb_uint32 (fill_buf 56 bs);
         if sig \<noteq> 101075792 then Some (Inl ErrFormat)
         else do {
           b \<leftarrow> rb_skip 12 b;
           (v1, b) \<leftarrow> rb_uint32 b; (v2, b) \<leftarrow> rb_uint32 b; (v3, b) \<leftarrow> rb_uint64 b; (v4, b) \<leftarrow> rb_uint64 b;
           (v5, b) \<leftarrow> rb_uint64 b; (v6, b) \<leftarrow> rb_uint64 b;
           Some (Inr (d\<lparr>diskNbr := v1, dirDiskNbr := v2, dirRecordsThisDisk := v3, directoryRecords := v4,
                        directorySize := v5, directoryOffset := v6\<rparr>)) } } }"

definition parse_end :: "bytes \<Rightarrow> (zerr + directoryEnd) option" where
  "parse_end buf = do {
     b \<leftarrow> rb_skip 4 buf;
     (v1, b) \<leftarrow> rb_uint16 b; (v2, b) \<leftarrow> rb_uint16 b; (v3, b) \<leftarrow> rb_uint16 b; (v4, b) \<leftarrow> rb_uint16 b;
     (v5, b) \<leftarrow> rb_uint32 b; (v6, b) \<leftarrow> rb_uint32 b; (l, b) \<leftarrow> rb_uint16 b;
     if unat l > length b then Some (Inl (ZErrorf ''zip: invalid comment length''))
     else Some (Inr \<lparr>diskNbr = ucast v1, dirDiskNbr = ucast v2, dirRecordsThisDisk = ucast v3, directoryRecords = ucast v4,
       directorySize = ucast v5, directoryOffset = ucast v6, commentLen = l, de_comment = take (unat l) b\<rparr>) }"

text \<open>
  \<open>io.NewSectionReader(r, off, fsize-off)\<close> read from its start: a stream of the bytes of \<open>r\<close> from \<open>off\<close> up
  to \<open>fsize\<close>, none when \<open>off\<close> is at or past the end.
\<close>

definition section_from :: "read_at \<Rightarrow> int \<Rightarrow> int \<Rightarrow> stream option" where
  "section_from r off fsize =
     (if off \<ge> fsize then Some \<lparr>pending = [], after = EOF\<rparr>
      else do {
        (bs, err) \<leftarrow> r (nat (fsize - off)) off;
        Some \<lparr>pending = bs, after = (case err of None \<Rightarrow> EOF | Some e \<Rightarrow> e)\<rparr> })"

text \<open>The zip64 record, when the values ask for it and there is one.\<close>

definition zip64_end :: "read_at \<Rightarrow> int \<Rightarrow> directoryEnd \<Rightarrow> (zerr + directoryEnd \<times> int) option" where
  "zip64_end r directoryEndOffset d =
     (if directoryRecords d = 65535 \<or> directorySize d = 65535 \<or> directoryOffset d = 4294967295 then
        (case findDirectory64End r directoryEndOffset of
          None \<Rightarrow> None
        | Some (Inl e) \<Rightarrow> Some (Inl e)
        | Some (Inr p) \<Rightarrow>
            if p \<ge> 0 then
              (case readDirectory64End r p d of
                None \<Rightarrow> None
              | Some (Inl e) \<Rightarrow> Some (Inl e)
              | Some (Inr d) \<Rightarrow> Some (Inr (d, p)))
            else Some (Inr (d, directoryEndOffset)))
      else Some (Inr (d, directoryEndOffset)))"

text \<open>The offset of the zip's contents in the file.\<close>

definition base_offset :: "read_at \<Rightarrow> int \<Rightarrow> directoryEnd \<Rightarrow> int \<Rightarrow> (zerr + int) option" where
  "base_offset r fsize d directoryEndOffset =
     (if directorySize d > 2 ^ 63 - 1 \<or> directoryOffset d > 2 ^ 63 - 1 then Some (Inl ErrFormat)
      else let baseOffset = int64 (int64 (directoryEndOffset - sint (directorySize d)) - sint (directoryOffset d));
               o' = int64 (baseOffset + sint (directoryOffset d)) in
        if o' < 0 \<or> o' \<ge> fsize then Some (Inl ErrFormat)
        else if baseOffset > 0 then do {
          rs \<leftarrow> section_from r (sint (directoryOffset d)) fsize;
          (res, _) \<leftarrow> readDirectoryHeader rs;
          Some (Inr (case res of Inr _ \<Rightarrow> 0 | Inl _ \<Rightarrow> baseOffset)) }
        else Some (Inr baseOffset))"

definition readDirectoryEnd :: "read_at \<Rightarrow> int \<Rightarrow> (zerr + directoryEnd \<times> int) option" where
  "readDirectoryEnd r fsize = (case end_loop r fsize [1024, 65 * 1024] of
     None \<Rightarrow> None
   | Some (Inl e) \<Rightarrow> Some (Inl e)
   | Some (Inr (buf, directoryEndOffset)) \<Rightarrow> (case parse_end buf of
       None \<Rightarrow> None
     | Some (Inl e) \<Rightarrow> Some (Inl e)
     | Some (Inr d) \<Rightarrow> (case zip64_end r directoryEndOffset d of
         None \<Rightarrow> None
       | Some (Inl e) \<Rightarrow> Some (Inl e)
       | Some (Inr (d, directoryEndOffset)) \<Rightarrow> (case base_offset r fsize d directoryEndOffset of
           None \<Rightarrow> None
         | Some (Inl e) \<Rightarrow> Some (Inl e)
         | Some (Inr baseOffset) \<Rightarrow> Some (Inr (d, baseOffset))))))"

section \<open>The table of contents\<close>

text \<open>The reader both functions build: zeros in place of what was not given, then the given suffix.\<close>

definition suffix_reader :: "int \<Rightarrow> bytes \<Rightarrow> read_at" where
  "suffix_reader numFakeZeros suffix = multi_ReadAt (NewMultiReaderAt [ZeroSizeReaderAt numFakeZeros, bytes_Reader suffix])"

definition ZipTOCSize :: "int \<Rightarrow> bytes \<Rightarrow> (int \<times> bool) option" where
  "ZipTOCSize fsize zipFooter =
     (let numFakeZeros = int64 (fsize - int (length zipFooter)) in
      if numFakeZeros < 0 then Some (0, False)
      else (case readDirectoryEnd (suffix_reader numFakeZeros zipFooter) fsize of
        None \<Rightarrow> None
      | Some (Inl e) \<Rightarrow> Some (0, False)
      | Some (Inr (de, baseOffset)) \<Rightarrow>
          let tocStartOff = int64 (baseOffset + sint (directoryOffset de)); tocSize = int64 (fsize - tocStartOff) in
          if tocSize < 0 \<or> tocSize > fsize then Some (0, False) else Some (tocSize, True)))"

record zip_Reader =
  zr_File :: "FileHeader list"
  BaseOffset :: int
  zr_Comment :: bytes

lemma readDirectoryHeader_shorter:
  "readDirectoryHeader s = Some (Inr f, s') \<Longrightarrow> length (pending s') < length (pending s)"
  by (auto simp: readDirectoryHeader_def ReadFull_def directoryHeaderLen_def
      split: if_splits option.splits sum.splits)

function toc_loop :: "int \<Rightarrow> stream \<Rightarrow> FileHeader list \<Rightarrow> (zerr + FileHeader list) option" where
  "toc_loop base buf files = (case readDirectoryHeader buf of
     None \<Rightarrow> None
   | Some (Inl e, buf') \<Rightarrow> if e = ErrFormat \<or> e = ZIO ErrUnexpectedEOF then Some (Inr files) else Some (Inl e)
   | Some (Inr f, buf') \<Rightarrow> toc_loop base buf' (files @ [f\<lparr>HeaderOffset := int64 (HeaderOffset f + base)\<rparr>]))"
  by pat_completeness auto
termination
  by (relation "measure (\<lambda>(base, buf, files). length (pending buf))") (auto dest: readDirectoryHeader_shorter)

declare toc_loop.simps [simp del]

definition ParseTOC :: "int \<Rightarrow> bytes \<Rightarrow> (zerr + zip_Reader) option" where
  "ParseTOC fsize toc =
     (let numFakeZeros = int64 (fsize - int (length toc)) in
      if numFakeZeros < 0 then Some (Inl (ZErrorf ''invalid arguments to ParseTOC''))
      else let ra = suffix_reader numFakeZeros toc in
        (case readDirectoryEnd ra fsize of
          None \<Rightarrow> None
        | Some (Inl e) \<Rightarrow> Some (Inl e)
        | Some (Inr (de, baseOffset)) \<Rightarrow>
            let start = int64 (baseOffset + sint (directoryOffset de)) in
            if start < 0 then Some (Inl (ZIO (IOError ''Seek: invalid offset'')))
            else do {
              buf \<leftarrow> section_from ra start fsize;
              res \<leftarrow> toc_loop baseOffset buf [];
              Some (case res of
                Inl e \<Rightarrow> Inl e
              | Inr files \<Rightarrow>
                  if (of_nat (length files) :: 16 word) \<noteq> ucast (directoryRecords de) then
                    Inl (ZErrorf ''zip: wrong number of directory entries'')
                  else Inr \<lparr>zr_File = files, BaseOffset = baseOffset, zr_Comment = de_comment de\<rparr>) }))"

end
