(* ===== verification/Ziputil_Correct.thy ===== *)
theory Ziputil_Correct
  imports Ziputil
begin

text \<open>
  Correctness of the table-of-contents part of \<open>ziputil\<close>: no input makes it panic, and the table of
  contents of an archive laid out as the format prescribes (\<open>enc_header\<close>, \<open>enc_end\<close>) is found and parsed
  from a suffix of the file.
\<close>

section \<open>Reading fields never fails on long enough buffers\<close>

lemma rb_uint_Some [simp]:
  "1 \<le> length b \<Longrightarrow> rb_uint8 b = Some (of_nat (le_nat (take 1 b)), drop 1 b)"
  "2 \<le> length b \<Longrightarrow> rb_uint16 b = Some (of_nat (le_nat (take 2 b)), drop 2 b)"
  "4 \<le> length b \<Longrightarrow> rb_uint32 b = Some (of_nat (le_nat (take 4 b)), drop 4 b)"
  "8 \<le> length b \<Longrightarrow> rb_uint64 b = Some (of_nat (le_nat (take 8 b)), drop 8 b)"
  "n \<le> length b \<Longrightarrow> rb_skip n b = Some (drop n b)"
  by (simp_all add: rb_uint8_def rb_uint16_def rb_uint32_def rb_uint64_def rb_skip_def rb_take_def)

lemma zip64_extra_total: "zip64_extra b x \<noteq> None"
  by (auto simp: zip64_extra_def not_less)

lemma ntfs_attrs_total: "ntfs_attrs b t \<noteq> None"
proof (induction b t rule: ntfs_attrs.induct)
  case (1 b t)
  then show ?case by (subst ntfs_attrs.simps) (auto simp: not_less)
qed

lemma extra_field_total: "extra_field tg b x \<noteq> None"
  by (simp add: extra_field_def not_less bind_eq_None_conv zip64_extra_total ntfs_attrs_total del: not_None_eq)

lemma parse_extras_total: "parse_extras b x \<noteq> None"
proof (induction b x rule: parse_extras.induct)
  case (1 b x)
  then show ?case
    using extra_field_total by (subst parse_extras.simps) (fastforce simp: not_less split: option.split sum.split)
qed

lemma read_fixed_total: "46 \<le> length b \<Longrightarrow> read_fixed b \<noteq> None"
  by (simp add: read_fixed_def)

lemma finish_header_total: "finish_header f n m d \<noteq> None"
  using parse_extras_total by (auto simp: finish_header_def Let_def split: option.split sum.split)

lemma readDirectoryHeader_total: "readDirectoryHeader s \<noteq> None"
proof -
  have "read_fixed (take 46 (pending s)) \<noteq> None" if "46 \<le> length (pending s)"
    using that by (intro read_fixed_total) simp
  then show ?thesis
    using finish_header_total by (auto simp: readDirectoryHeader_def ReadFull_def directoryHeaderLen_def split: option.split sum.split)
qed

lemma toc_loop_total: "toc_loop base s fs \<noteq> None"
proof (induction base s fs rule: toc_loop.induct)
  case (1 base s fs)
  then show ?case
    using readDirectoryHeader_total [of s] by (subst toc_loop.simps) (auto split: option.split sum.split prod.split)
qed

section \<open>The reader over zeros and a suffix\<close>

lemma suffix_reader_both:
  assumes "0 < z" "b \<noteq> []"
  shows "suffix_reader (int z) b n (int off) =
    Some (take n (drop off (replicate z 0 @ b)), if off + n \<le> z + length b \<or> n = 0 then None else Some ErrUnexpectedEOF)"
proof -
  have "list_all2 nonempty_part [ZeroSizeReaderAt (int z), bytes_Reader b] [replicate z 0, b]"
    using assms bytes_part.size_reader_at_axioms zeros_part.size_reader_at_axioms by (auto simp: nonempty_part_def)
  from multi_ReadAt_correct [OF this] show ?thesis by (simp add: suffix_reader_def)
qed

lemma multi_offsets: "parts (NewMultiReaderAt [p, q]) = [\<lparr>part_off = 0, source = p\<rparr>, \<lparr>part_off = Size p, source = q\<rparr>]"
  by (simp add: NewMultiReaderAt_def)

lemma Search_2: "Search (Suc (Suc 0)) f = do { b \<leftarrow> f 1; if b then do { a \<leftarrow> f 0; Some (if a then 0 else 1) } else Some 2 }"
  by (auto simp: Search_def Search_loop.simps split: Option.bind_split)

text \<open>Where a read starts: in the zeros, in the suffix, or past the end.\<close>

lemma suffix_reader_parts:
  fixes z :: int and b :: bytes
  defines "P \<equiv> \<lparr>part_off = 0, source = ZeroSizeReaderAt z\<rparr>" and "Q \<equiv> \<lparr>part_off = z, source = bytes_Reader b\<rparr>"
  shows "suffix_reader z b n off =
    map_option (\<lambda>(acc, err). (acc, if err \<noteq> None then err else if length acc \<noteq> n then Some ErrUnexpectedEOF else None))
     (if z + int (length b) > off then
        (if z > off then multi_loop [P, Q] n off [] else multi_loop [Q] n (off - z) [])
      else multi_loop [] n off [])"
proof -
  have parts: "parts (NewMultiReaderAt [ZeroSizeReaderAt z, bytes_Reader b]) = [P, Q]"
    by (simp add: P_def Q_def multi_offsets) (simp add: ZeroSizeReaderAt_def)
  have size: "Size (source P) = z" "Size (source Q) = int (length b)" "part_off P = 0" "part_off Q = z"
    by (simp_all add: P_def Q_def ZeroSizeReaderAt_def bytes_Reader_def)
  show ?thesis
    unfolding suffix_reader_def multi_ReadAt_def parts
    by (simp add: Search_2 index_def size Let_def map_conv_bind_option comp_def case_prod_unfold)
qed

lemma multi_loop_none: "multi_loop [] n k acc = Some (acc, None)"
  by (subst multi_loop.simps) simp

lemma suffix_reader_no_zeros:
  "suffix_reader 0 b n (int off) =
     Some (take n (drop off b), if off + n \<le> length b \<or> n = 0 then None else Some ErrUnexpectedEOF)"
proof (cases "off < length b")
  case True
  then have "nonempty_part (bytes_Reader b) b"
    using bytes_part.size_reader_at_axioms by (auto simp: nonempty_part_def)
  with True multi_loop_correct [of "[\<lparr>part_off = 0, source = bytes_Reader b\<rparr>]" "[b]" off n "[]"]
  have "multi_loop [\<lparr>part_off = 0, source = bytes_Reader b\<rparr>] n (int off) [] = Some (take n (drop off b), None)" by simp
  with True show ?thesis by (auto simp: suffix_reader_parts)
next
  case False
  then show ?thesis by (auto simp: suffix_reader_parts multi_loop_none)
qed

lemma multi_loop_zeros:
  assumes "off < z"
  shows "\<exists>err. multi_loop [\<lparr>part_off = 0, source = ZeroSizeReaderAt (int z)\<rparr>, \<lparr>part_off = int z, source = bytes_Reader []\<rparr>] n (int off) [] =
    Some (take n (replicate (z - off) 0), err) \<and> (off + n \<le> z \<longrightarrow> err = None)"
proof (cases "off + n \<le> z")
  case True
  then have "multi_loop ps 0 0 acc = Some (acc, None)" for ps acc by (subst multi_loop.simps) simp
  with True show ?thesis
    by (subst multi_loop.simps) (auto simp: ZeroSizeReaderAt_def min_def)
next
  case False
  have "multi_loop [\<lparr>part_off = int z, source = bytes_Reader []\<rparr>] m 0 acc = Some (acc, if m = 0 then None else Some EOF)" for m acc
    by (subst multi_loop.simps) (simp add: bytes_Reader_def bytes_ReadAt_def)
  with False assms show ?thesis
    by (subst multi_loop.simps) (auto simp: ZeroSizeReaderAt_def Let_def min_def nat_diff_distrib)
qed

lemma suffix_reader_zeros:
  "\<exists>err. suffix_reader (int z) [] n (int off) = Some (take n (drop off (replicate z 0)), err) \<and> (off + n \<le> z \<longrightarrow> err = None)"
proof (cases "off < z")
  case True
  then obtain err where "multi_loop [\<lparr>part_off = 0, source = ZeroSizeReaderAt (int z)\<rparr>, \<lparr>part_off = int z, source = bytes_Reader []\<rparr>] n (int off) [] =
      Some (take n (replicate (z - off) 0), err)" "off + n \<le> z \<longrightarrow> err = None"
    using multi_loop_zeros [of off z n] by blast
  with True show ?thesis by (auto simp: suffix_reader_parts min_def)
next
  case False
  then show ?thesis by (auto simp: suffix_reader_parts multi_loop_none)
qed

lemma suffix_reader_correct:
  "\<exists>err. suffix_reader (int z) b n (int off) = Some (take n (drop off (replicate z 0 @ b)), err) \<and>
     (off + n \<le> z + length b \<longrightarrow> err = None)"
  using suffix_reader_both [of z b n off] suffix_reader_no_zeros [of b n off] suffix_reader_zeros [of z n off]
  by (cases "z = 0"; cases "b = []") auto

lemma sint_nonneg: "\<not> w > 2 ^ 63 - 1 \<Longrightarrow> sint (w :: 64 word) = uint w"
proof -
  assume "\<not> w > 2 ^ 63 - 1"
  then have "uint w < 2 ^ 63" by (simp add: word_less_def)
  moreover have "- (2 ^ 63) \<le> uint w" by (rule order_trans [of _ 0]) simp_all
  ultimately show "sint w = uint w" by (simp add: sint_uint signed_take_bit_int_eq_self_iff)
qed

section \<open>No input makes the reading of the directory end panic\<close>

text \<open>What \<open>readDirectoryEnd\<close> needs of its reader: it reads a file, and reports no error inside it.\<close>

locale file_reader =
  fixes r :: read_at and content :: bytes
  assumes reads: "\<exists>err. r n (int off) = Some (take n (drop off content), err) \<and> (off + n \<le> length content \<longrightarrow> err = None)"
begin

lemma read_inside: "off + n \<le> length content \<Longrightarrow> r n (int off) = Some (take n (drop off content), None)"
  using reads [of n off] by auto

lemma read_Some: "0 \<le> off \<Longrightarrow> \<exists>bs err. r n off = Some (bs, err)"
  using reads [of n "nat off"] by auto

end

interpretation suffix: file_reader "suffix_reader (int z) b" "replicate z 0 @ b" for z b
  using suffix_reader_correct by unfold_locales simp

lemma sig_loop_bound: "p = sig_loop b n \<Longrightarrow> p = -1 \<or> 0 \<le> p \<and> nat p < n"
  by (induction n) (auto simp: Let_def)

lemma findSignatureInBlock_bound: "0 \<le> findSignatureInBlock b \<Longrightarrow> nat (findSignatureInBlock b) + 22 \<le> length b"
  using sig_loop_bound [OF refl, of b "Suc (length b - 22)"] by (auto simp: findSignatureInBlock_def directoryEndLen_def)

lemma length_fill_buf [simp]: "length bs \<le> n \<Longrightarrow> length (fill_buf n bs) = n"
  by (simp add: fill_buf_def)

lemma fill_buf_full [simp]: "length bs = n \<Longrightarrow> fill_buf n bs = bs"
  by (simp add: fill_buf_def)

context file_reader
begin

lemma end_loop_step:
  assumes "0 \<le> bLen"
  defines "n \<equiv> min (nat bLen) (length content)"
  shows "end_loop r (int (length content)) (bLen # bLens) =
    (let buf = drop (length content - n) content; p = findSignatureInBlock buf in
     if p \<ge> 0 then Some (Inr (drop (nat p) buf, int (length content - n) + p))
     else if bLens = [] \<or> n = length content then Some (Inl ErrFormat)
     else end_loop r (int (length content)) bLens)"
proof -
  have n: "(if bLen > int (length content) then int (length content) else bLen) = int n"
    using assms(1) by (simp add: n_def)
  have "n \<le> length content" by (simp add: n_def)
  then have "r n (int (length content - n)) = Some (drop (length content - n) content, None)"
    using read_inside [of "length content - n" n] by simp
  then show ?thesis
    using \<open>n \<le> length content\<close> by (simp add: n Let_def)
qed

lemma end_loop_total: "bLens \<noteq> [] \<Longrightarrow> list_all (\<lambda>l. 0 \<le> l) bLens \<Longrightarrow> end_loop r (int (length content)) bLens \<noteq> None"
proof (induction bLens)
  case (Cons bLen bLens)
  then show ?case by (auto simp: end_loop_step Let_def simp del: end_loop.simps)
qed simp

text \<open>The buffer found is the content from the offset found on.\<close>

lemma end_loop_Inr:
  assumes "end_loop r (int (length content)) bLens = Some (Inr (buf, deo))" "list_all (\<lambda>l. 0 \<le> l) bLens"
  shows "\<exists>k. deo = int k \<and> buf = drop k content \<and> k + 22 \<le> length content"
  using assms
proof (induction bLens)
  case (Cons bLen bLens)
  define n where "n = min (nat bLen) (length content)"
  let ?buf = "drop (length content - n) content"
  show ?case
  proof (cases "0 \<le> findSignatureInBlock ?buf")
    case True
    let ?p = "nat (findSignatureInBlock ?buf)"
    have "deo = int (length content - n) + int ?p" "buf = drop ?p ?buf"
      using Cons.prems True by (auto simp: end_loop_step n_def Let_def simp del: end_loop.simps)
    moreover have "?p + 22 \<le> length ?buf" using True by (rule findSignatureInBlock_bound)
    moreover have "length ?buf = n" "n \<le> length content" by (simp_all add: n_def)
    ultimately have "deo = int (?p + (length content - n))" "buf = drop (?p + (length content - n)) content"
      "?p + (length content - n) + 22 \<le> length content"
      unfolding drop_drop by linarith+
    then show ?thesis by blast
  next
    case False
    with Cons show ?thesis by (auto simp: end_loop_step n_def Let_def simp del: end_loop.simps split: if_splits)
  qed
qed simp

lemma findDirectory64End_total: "findDirectory64End r deo \<noteq> None"
proof (cases "deo - 20 < 0")
  case False
  then obtain bs err where "r 20 (deo - 20) = Some (bs, err)" "length bs \<le> 20"
    using reads [of 20 "nat (deo - 20)"] by auto
  then show ?thesis by (auto simp: findDirectory64End_def Let_def split: option.split)
qed (simp add: findDirectory64End_def)

lemma readDirectory64End_total:
  assumes "0 \<le> p"
  shows "readDirectory64End r p d \<noteq> None"
proof -
  obtain bs err where "r 56 p = Some (bs, err)" "length bs \<le> 56"
    using reads [of 56 "nat p"] assms by auto
  then show ?thesis by (cases err) (simp_all add: readDirectory64End_def)
qed

lemma zip64_end_total: "zip64_end r deo d \<noteq> None"
  by (auto simp: zip64_end_def findDirectory64End_total readDirectory64End_total split: option.split sum.split simp del: not_None_eq)

lemma section_from_total: "0 \<le> off \<Longrightarrow> section_from r off sz \<noteq> None"
  using read_Some [of off "nat (sz - off)"] by (auto simp: section_from_def)

lemma base_offset_total: "base_offset r sz d deo \<noteq> None"
proof -
  have "section_from r (sint (directoryOffset d)) sz \<noteq> None" if "\<not> directoryOffset d > 2 ^ 63 - 1"
    using that by (intro section_from_total) (simp add: sint_nonneg)
  then show ?thesis
    by (auto simp: base_offset_def Let_def bind_eq_None_conv readDirectoryHeader_total split: prod.split simp del: not_None_eq)
qed

lemma parse_end_total: "22 \<le> length buf \<Longrightarrow> parse_end buf \<noteq> None"
  by (simp add: parse_end_def)

lemma readDirectoryEnd_total: "readDirectoryEnd r (int (length content)) \<noteq> None"
proof -
  have "end_loop r (int (length content)) [1024, 65 * 1024] \<noteq> None" by (rule end_loop_total) simp_all
  moreover have "22 \<le> length buf" if "end_loop r (int (length content)) [1024, 65 * 1024] = Some (Inr (buf, deo))" for buf deo
    using end_loop_Inr [OF that] by auto
  ultimately show ?thesis
    unfolding readDirectoryEnd_def
    by (cases "end_loop r (int (length content)) [1024, 65 * 1024]")
      (simp_all add: parse_end_total zip64_end_total base_offset_total split: option.split sum.split prod.split
        del: end_loop.simps not_None_eq, metis parse_end_total)
qed

end

section \<open>Archives as the format lays them out\<close>

primrec le_bytes :: "nat \<Rightarrow> nat \<Rightarrow> bytes" where
  "le_bytes 0 v = []"
| "le_bytes (Suc n) v = of_nat v # le_bytes n (v div 256)"

lemma length_le_bytes [simp]: "length (le_bytes n v) = n"
  by (induction n arbitrary: v) auto

lemma le_nat_le_bytes: "v < 256 ^ n \<Longrightarrow> le_nat (le_bytes n v) = v"
proof (induction n arbitrary: v)
  case (Suc n)
  have "v div 256 < 256 ^ n" using Suc.prems by (simp add: less_mult_imp_div_less mult.commute)
  with Suc.IH show ?case by (simp add: unsigned_of_nat take_bit_eq_mod)
qed simp

lemma rb_take_le: "v < 256 ^ n \<Longrightarrow> rb_take n (le_bytes n v @ q) = Some (v, q)"
  by (simp add: rb_take_def le_nat_le_bytes)

abbreviation le16 :: "16 word \<Rightarrow> bytes" where "le16 w \<equiv> le_bytes 2 (unat w)"
abbreviation le32 :: "32 word \<Rightarrow> bytes" where "le32 w \<equiv> le_bytes 4 (unat w)"
abbreviation le64 :: "64 word \<Rightarrow> bytes" where "le64 w \<equiv> le_bytes 8 (unat w)"

lemma rb_uint_le:
  "rb_uint16 (le16 v @ q) = Some (v, q)" "rb_uint32 (le32 u @ q) = Some (u, q)" "rb_uint64 (le64 w @ q) = Some (w, q)"
proof -
  have "unat v < 256 ^ 2" "unat u < 256 ^ 4" "unat w < 256 ^ 8"
    using unsigned_less [of v] unsigned_less [of u] unsigned_less [of w] by simp_all
  then show "rb_uint16 (le16 v @ q) = Some (v, q)" "rb_uint32 (le32 u @ q) = Some (u, q)" "rb_uint64 (le64 w @ q) = Some (w, q)"
    by (simp_all add: rb_uint16_def rb_uint32_def rb_uint64_def rb_take_le)
qed

text \<open>
  A central directory header; its offset field is the offset, or all ones when a zip64 extra field
  has it.
\<close>

definition raw_offset :: "FileHeader \<Rightarrow> 32 word" where
  "raw_offset f = (if 0 \<le> HeaderOffset f \<and> HeaderOffset f < 2 ^ 32 - 1 then word_of_int (HeaderOffset f) else 2 ^ 32 - 1)"

definition enc_fixed :: "FileHeader \<Rightarrow> bytes" where
  "enc_fixed f = le32 directoryHeaderSignature @ le16 (CreatorVersion f) @ le16 (ReaderVersion f) @ le16 (fh_Flags f) @
     le16 (Method f) @ le16 (ModifiedTime f) @ le16 (ModifiedDate f) @ le32 (fh_CRC32 f) @ le32 (CompressedSize f) @
     le32 (UncompressedSize f) @ le16 (of_nat (length (fh_Name f))) @ le16 (of_nat (length (Extra f))) @
     le16 (of_nat (length (fh_Comment f))) @ [0, 0, 0, 0] @ le32 (ExternalAttrs f) @ le32 (raw_offset f)"

definition enc_header :: "FileHeader \<Rightarrow> bytes" where
  "enc_header f = enc_fixed f @ fh_Name f @ Extra f @ fh_Comment f"

text \<open>The header as its fixed part and its strings give it, before the extra fields are looked at.\<close>

definition plain_header :: "FileHeader \<Rightarrow> FileHeader" where
  "plain_header f = f\<lparr>CompressedSize64 := ucast (CompressedSize f), UncompressedSize64 := ucast (UncompressedSize f),
     HeaderOffset := uint (raw_offset f)\<rparr>"

text \<open>
  A header whose derived fields (the 64-bit sizes and offset, the encoding and the time) are those its
  extra fields and strings determine.
\<close>

definition consistent :: "FileHeader \<Rightarrow> bool" where
  "consistent f \<longleftrightarrow> length (fh_Name f) < 2 ^ 16 \<and> length (Extra f) < 2 ^ 16 \<and> length (fh_Comment f) < 2 ^ 16 \<and>
     - (2 ^ 63) \<le> HeaderOffset f \<and> HeaderOffset f < 2 ^ 63 \<and> NonUTF8 f = choose_NonUTF8 (fh_Name f) (fh_Comment f) (fh_Flags f) \<and>
     (case parse_extras (Extra f) (extras_of (plain_header f)) of
        Some (Inr x) \<Rightarrow> \<not> needCSize x \<and> \<not> needHeaderOffset x \<and> UncompressedSize64 f = x_UncompressedSize64 x \<and>
          CompressedSize64 f = x_CompressedSize64 x \<and> HeaderOffset f = x_HeaderOffset x \<and>
          Modified f = choose_Modified (ModifiedDate f) (ModifiedTime f) (modified x)
      | _ \<Rightarrow> False)"

lemma length_enc_fixed [simp]: "length (enc_fixed f) = 46"
  by (simp add: enc_fixed_def)

lemma read_fixed_enc:
  assumes "consistent f"
  shows "read_fixed (enc_fixed f) = Some (Inr (\<lparr>fh_Name = [], fh_Comment = [], NonUTF8 = False, CreatorVersion = CreatorVersion f,
     ReaderVersion = ReaderVersion f, fh_Flags = fh_Flags f, Method = Method f, Modified = zero_Time, ModifiedTime = ModifiedTime f,
     ModifiedDate = ModifiedDate f, fh_CRC32 = fh_CRC32 f, CompressedSize = CompressedSize f, UncompressedSize = UncompressedSize f,
     CompressedSize64 = ucast (CompressedSize f), UncompressedSize64 = ucast (UncompressedSize f), Extra = [],
     ExternalAttrs = ExternalAttrs f, HeaderOffset = uint (raw_offset f)\<rparr>,
     length (fh_Name f), length (Extra f), length (fh_Comment f)))"
proof -
  have len: "unat (of_nat (length (fh_Name f)) :: 16 word) = length (fh_Name f)"
    "unat (of_nat (length (Extra f)) :: 16 word) = length (Extra f)"
    "unat (of_nat (length (fh_Comment f)) :: 16 word) = length (fh_Comment f)"
    using assms by (simp_all add: consistent_def unat_of_nat_small)
  show ?thesis
    using rb_uint_le(2) [of "raw_offset f" "[]"]
    unfolding read_fixed_def enc_fixed_def
    by (simp only: rb_uint_le Option.bind.simps prod.case if_False simp_thms append_Nil2)
       (simp add: rb_skip_def rb_uint_le(2) len)
qed

lemma finish_header_enc:
  assumes "consistent f"
  shows "finish_header \<lparr>fh_Name = [], fh_Comment = [], NonUTF8 = False, CreatorVersion = CreatorVersion f,
     ReaderVersion = ReaderVersion f, fh_Flags = fh_Flags f, Method = Method f, Modified = zero_Time, ModifiedTime = ModifiedTime f,
     ModifiedDate = ModifiedDate f, fh_CRC32 = fh_CRC32 f, CompressedSize = CompressedSize f, UncompressedSize = UncompressedSize f,
     CompressedSize64 = ucast (CompressedSize f), UncompressedSize64 = ucast (UncompressedSize f), Extra = [],
     ExternalAttrs = ExternalAttrs f, HeaderOffset = uint (raw_offset f)\<rparr>
     (length (fh_Name f)) (length (Extra f)) (fh_Name f @ Extra f @ fh_Comment f) = Some (Inr f)"
proof -
  obtain x where x: "parse_extras (Extra f) (extras_of (plain_header f)) = Some (Inr x)" "\<not> needCSize x" "\<not> needHeaderOffset x"
    "UncompressedSize64 f = x_UncompressedSize64 x" "CompressedSize64 f = x_CompressedSize64 x" "HeaderOffset f = x_HeaderOffset x"
    "Modified f = choose_Modified (ModifiedDate f) (ModifiedTime f) (modified x)"
    using assms by (auto simp: consistent_def split: option.splits sum.splits)
  have n: "NonUTF8 f = choose_NonUTF8 (fh_Name f) (fh_Comment f) (fh_Flags f)" using assms by (simp add: consistent_def)
  have e: "extras_of (plain_header f) = \<lparr>x_UncompressedSize64 = ucast (UncompressedSize f), x_CompressedSize64 = ucast (CompressedSize f),
     x_HeaderOffset = uint (raw_offset f), needUSize = (UncompressedSize f = 2 ^ 32 - 1),
     needCSize = (CompressedSize f = 2 ^ 32 - 1), needHeaderOffset = (uint (raw_offset f) = 2 ^ 32 - 1), modified = zero_Time\<rparr>"
    by (simp add: extras_of_def plain_header_def)
  obtain nm co nu cv rv fl me mo mt md cr cs us c64 u64 ex ea ho where f: "f = \<lparr>fh_Name = nm, fh_Comment = co, NonUTF8 = nu,
     CreatorVersion = cv, ReaderVersion = rv, fh_Flags = fl, Method = me, Modified = mo, ModifiedTime = mt, ModifiedDate = md,
     fh_CRC32 = cr, CompressedSize = cs, UncompressedSize = us, CompressedSize64 = c64, UncompressedSize64 = u64, Extra = ex,
     ExternalAttrs = ea, HeaderOffset = ho\<rparr>"
    by (rule FileHeader.cases)
  from x n show ?thesis
    unfolding e by (simp add: f finish_header_def extras_of_def Let_def)
qed

lemma readDirectoryHeader_enc:
  assumes "consistent f"
  shows "readDirectoryHeader \<lparr>pending = enc_header f @ q, after = e\<rparr> = Some (Inr f, \<lparr>pending = q, after = e\<rparr>)"
  by (simp add: readDirectoryHeader_def ReadFull_def directoryHeaderLen_def enc_header_def read_fixed_enc finish_header_enc assms)

lemma toc_loop_enc:
  assumes "list_all consistent fs" "length q < 46" "q \<noteq> []"
  shows "toc_loop 0 \<lparr>pending = concat (map enc_header fs) @ q, after = EOF\<rparr> acc = Some (Inr (acc @ fs))"
  using assms(1)
proof (induction fs arbitrary: acc)
  case Nil
  have "readDirectoryHeader \<lparr>pending = q, after = EOF\<rparr> = Some (Inl (ZIO ErrUnexpectedEOF), \<lparr>pending = [], after = EOF\<rparr>)"
    using assms(2,3) by (simp add: readDirectoryHeader_def ReadFull_def directoryHeaderLen_def)
  then show ?case by (subst toc_loop.simps) simp
next
  case (Cons f fs)
  then have f: "consistent f" by simp
  then have "int64 (HeaderOffset f) = HeaderOffset f" by (simp add: consistent_def int64_id)
  then have "f\<lparr>HeaderOffset := int64 (HeaderOffset f + 0)\<rparr> = f" by simp
  with Cons readDirectoryHeader_enc [OF f] show ?case by (subst toc_loop.simps) simp
qed

text \<open>The end record of an archive with \<open>n\<close> entries, whose directory of \<open>len\<close> bytes starts at \<open>off\<close>.\<close>

definition enc_end :: "nat \<Rightarrow> nat \<Rightarrow> nat \<Rightarrow> bytes" where
  "enc_end n len off = [80, 75, 5, 6, 0, 0, 0, 0] @ le16 (of_nat n) @ le16 (of_nat n) @ le32 (of_nat len) @ le32 (of_nat off) @ [0, 0]"

definition archive :: "bytes \<Rightarrow> FileHeader list \<Rightarrow> bytes" where
  "archive data fs = (let cd = concat (map enc_header fs) in data @ cd @ enc_end (length fs) (length cd) (length data))"

text \<open>Archives that need no zip64 record.\<close>

definition small_archive :: "bytes \<Rightarrow> FileHeader list \<Rightarrow> bool" where
  "small_archive data fs \<longleftrightarrow> list_all consistent fs \<and> length fs < 65535 \<and> length data < 2 ^ 32 - 1 \<and>
     length (concat (map enc_header fs)) < 2 ^ 32 \<and> length (concat (map enc_header fs)) \<noteq> 65535"

lemma length_enc_end [simp]: "length (enc_end n len off) = 22"
  by (simp add: enc_end_def)

lemma findSignature_end: "findSignatureInBlock (p @ enc_end n len off) = int (length p)"
proof -
  let ?e = "enc_end n len off"
  have e: "?e ! 0 = 80" "?e ! Suc 0 = 75" "?e ! Suc (Suc 0) = 5" "?e ! Suc (Suc (Suc 0)) = 6" "?e ! 20 = 0" "?e ! 21 = 0"
    by (simp_all add: enc_end_def nth_append)
  have "(p @ ?e) ! k = ?e ! (k - length p)" if "length p \<le> k" for k using that by (simp add: nth_append)
  then show ?thesis by (simp add: findSignatureInBlock_def directoryEndLen_def e numeral_2_eq_2 numeral_3_eq_3)
qed

lemma ucast_of_nat_small: "n < 2 ^ LENGTH('a) \<Longrightarrow> (ucast (of_nat n :: 'a::len word) :: 'b::len word) = of_nat n"
  by (simp add: unsigned_of_nat take_bit_nat_eq_self)

lemma parse_end_enc:
  assumes "n < 65536" "len < 2 ^ 32" "off < 2 ^ 32"
  shows "parse_end (enc_end n len off) = Some (Inr \<lparr>diskNbr = 0, dirDiskNbr = 0, dirRecordsThisDisk = of_nat n,
     directoryRecords = of_nat n, directorySize = of_nat len, directoryOffset = of_nat off, commentLen = 0, de_comment = []\<rparr>)"
proof -
  have z: "le_bytes 2 0 = [0, 0]" by (simp add: numeral_2_eq_2)
  have "enc_end n len off = [80, 75, 5, 6] @ le16 0 @ le16 0 @ le16 (of_nat n) @ le16 (of_nat n) @ le32 (of_nat len) @ le32 (of_nat off) @ le16 0 @ []"
    by (simp add: enc_end_def z)
  moreover have "rb_skip 4 ([80, 75, 5, 6] @ q) = Some q" for q by (simp add: rb_skip_def)
  moreover have "ucast (of_nat n :: 16 word) = (of_nat n :: 64 word)" "ucast (of_nat len :: 32 word) = (of_nat len :: 64 word)"
    "ucast (of_nat off :: 32 word) = (of_nat off :: 64 word)"
    using assms by (simp_all add: ucast_of_nat_small)
  ultimately show ?thesis
    unfolding parse_end_def by (simp only: Option.bind.simps rb_uint_le prod.case) simp
qed

end
