(* ===== verification/Ziputil_Properties.thy ===== *)
theory Ziputil_Properties
  imports Ziputil_Correct
begin

text \<open>The properties of the table-of-contents part of \<open>ziputil\<close>.\<close>

section \<open>The directory end of an archive\<close>

lemma word64_of_nat_eq: "n < 2 ^ 64 \<Longrightarrow> (of_nat n :: 64 word) = w \<longleftrightarrow> n = unat w"
  using unat_of_nat_small [of n, where 'a = 64] by auto

lemma sint_of_nat_small: "n < 2 ^ 63 \<Longrightarrow> sint (of_nat n :: 64 word) = int n"
  by (subst sint_nonneg) (simp_all add: word_less_nat_alt unat_of_nat_small uint_nat)

definition end_of :: "nat \<Rightarrow> nat \<Rightarrow> nat \<Rightarrow> directoryEnd" where
  "end_of n len off = \<lparr>diskNbr = 0, dirDiskNbr = 0, dirRecordsThisDisk = of_nat n, directoryRecords = of_nat n,
     directorySize = of_nat len, directoryOffset = of_nat off, commentLen = 0, de_comment = []\<rparr>"

context file_reader
begin

lemma end_loop_enc:
  assumes "content = p @ enc_end n len off"
  shows "end_loop r (int (length content)) (1024 # bLens) = Some (Inr (enc_end n len off, int (length p)))"
proof -
  define m where "m = min 1024 (length content)"
  have m: "22 \<le> m" "m \<le> length content" using assms by (simp_all add: m_def)
  define q where "q = drop (length content - m) p"
  have drop: "drop (length content - m) content = q @ enc_end n len off"
    using assms m by (simp add: q_def)
  have pos: "int (length content - m) + int (length q) = int (length p)"
    using assms m by (simp add: q_def)
  have "end_loop r (int (length content)) (1024 # bLens) =
     (let buf = drop (length content - m) content; p = findSignatureInBlock buf in
      if p \<ge> 0 then Some (Inr (drop (nat p) buf, int (length content - m) + p))
      else if bLens = [] \<or> m = length content then Some (Inl ErrFormat)
      else end_loop r (int (length content)) bLens)"
    by (rule end_loop_step [of 1024 bLens, unfolded nat_numeral, folded m_def]) simp
  then show ?thesis
    unfolding drop findSignature_end Let_def using pos by simp
qed

lemma readDirectoryEnd_enc:
  assumes "content = p @ enc_end n len off" "length p = off + len"
    and "n < 65535" "len < 2 ^ 32" "len \<noteq> 65535" "off < 2 ^ 32 - 1"
  shows "readDirectoryEnd r (int (length content)) = Some (Inr (end_of n len off, 0))"
proof -
  have parse: "parse_end (enc_end n len off) = Some (Inr (end_of n len off))"
    unfolding end_of_def using assms by (intro parse_end_enc) simp_all
  have z: "zip64_end r deo (end_of n len off) = Some (Inr (end_of n len off, deo))" for deo
    using assms(3-6) by (simp add: zip64_end_def end_of_def word64_of_nat_eq)
  have s: "sint (of_nat len :: 64 word) = int len" "sint (of_nat off :: 64 word) = int off"
    using assms by (simp_all add: sint_of_nat_small)
  have small: "\<not> (of_nat len :: 64 word) > 2 ^ 63 - 1" "\<not> (of_nat off :: 64 word) > 2 ^ 63 - 1"
    using assms by (simp_all add: word_less_nat_alt unat_of_nat_small)
  have b: "base_offset r (int (length content)) (end_of n len off) (int (length p)) = Some (Inr 0)"
    using assms(1,2,4,6) small by (simp add: base_offset_def end_of_def s int64_id Let_def)
  show ?thesis
    unfolding readDirectoryEnd_def end_loop_enc [OF assms(1)] by (simp add: parse z b)
qed

end

section \<open>Suffixes of an archive\<close>

text \<open>
  With zeros in place of what is missing, a suffix that holds the end record gives the same directory
  end as the whole archive, and one that holds the directory the same directory.
\<close>

lemma archive_zeros:
  assumes "22 + k \<le> m" "m \<le> length (archive data fs)" "k \<le> length (concat (map enc_header fs))"
  defines "cd \<equiv> concat (map enc_header fs)" and "z \<equiv> length (archive data fs) - m"
  shows "\<exists>q. replicate z 0 @ suffix_of m (archive data fs) = q @ suffix_of k cd @ enc_end (length fs) (length cd) (length data) \<and>
    length q + k = length data + length cd"
proof -
  let ?e = "enc_end (length fs) (length cd) (length data)"
  have a: "archive data fs = data @ cd @ ?e" by (simp add: archive_def cd_def Let_def)
  have "suffix_of m (archive data fs) = drop z (data @ cd) @ ?e"
    using assms(1,2) by (simp add: suffix_of_def a z_def)
  moreover have "drop z (data @ cd) = drop z (take (length (data @ cd) - k) (data @ cd)) @ drop (length (data @ cd) - k) (data @ cd)"
    using assms(1,2) by (subst append_take_drop_id [of "length (data @ cd) - k" "data @ cd", symmetric], subst drop_append) (simp add: a z_def)
  moreover have "drop (length (data @ cd) - k) (data @ cd) = suffix_of k cd"
    using assms(3) by (simp add: suffix_of_def cd_def)
  ultimately show ?thesis
    using assms(1,2,3)
    by (intro exI [of _ "replicate z 0 @ drop z (take (length (data @ cd) - k) (data @ cd))"])
       (auto simp: a z_def cd_def)
qed

lemma suffix_of_0 [simp]: "suffix_of 0 xs = []"
  by (simp add: suffix_of_def)

lemma readDirectoryEnd_archive:
  assumes "small_archive data fs" "22 \<le> m" "m \<le> length (archive data fs)"
  defines "cd \<equiv> concat (map enc_header fs)"
  shows "readDirectoryEnd (suffix_reader (int (length (archive data fs) - m)) (suffix_of m (archive data fs))) (int (length (archive data fs))) =
    Some (Inr (end_of (length fs) (length cd) (length data), 0))"
proof -
  let ?z = "length (archive data fs) - m" and ?s = "suffix_of m (archive data fs)"
  obtain q where q: "replicate ?z 0 @ ?s = q @ enc_end (length fs) (length cd) (length data)" "length q = length data + length cd"
    using archive_zeros [of 0 m data fs] assms(2,3) by (auto simp: cd_def)
  have len: "length (archive data fs) = length (replicate ?z 0 @ ?s)" using assms(3) by simp
  have "readDirectoryEnd (suffix_reader (int ?z) ?s) (int (length (replicate ?z 0 @ ?s))) =
      Some (Inr (end_of (length fs) (length cd) (length data), 0))"
    using assms(1) by (intro suffix.readDirectoryEnd_enc [OF q]) (simp_all add: small_archive_def cd_def)
  then show ?thesis by (simp only: len [symmetric])
qed

lemma length_archive: "length (archive data fs) = length data + length (concat (map enc_header fs)) + 22"
  by (simp add: archive_def Let_def)

text \<open>The arguments both functions pass on, when they are sensible.\<close>

lemma numFakeZeros:
  assumes "0 \<le> fsize" "fsize < 2 ^ 63" "length b < 2 ^ 63"
  shows "int64 (fsize - int (length b)) = fsize - int (length b)"
proof -
  have "int (length b) < 2 ^ 63" using assms(3) by (metis of_nat_less_iff of_nat_numeral of_nat_power)
  with assms(1,2) show ?thesis by (intro int64_id) linarith+
qed

text \<open>The header of an empty file named \<open>a\<close>.\<close>

definition sample_header :: FileHeader where
  "sample_header = \<lparr>fh_Name = ascii ''a'', fh_Comment = [], NonUTF8 = choose_NonUTF8 (ascii ''a'') [] 0, CreatorVersion = 20,
     ReaderVersion = 20, fh_Flags = 0, Method = 0, Modified = msDosTimeToTime 33 0, ModifiedTime = 0, ModifiedDate = 33,
     fh_CRC32 = 0, CompressedSize = 0, UncompressedSize = 0, CompressedSize64 = 0, UncompressedSize64 = 0, Extra = [],
     ExternalAttrs = 0, HeaderOffset = 0\<rparr>"

lemma sample_archive: "small_archive [1, 2, 3] [sample_header]"
proof -
  have "consistent sample_header"
    by (simp add: consistent_def sample_header_def parse_extras.simps extras_of_def plain_header_def raw_offset_def
        choose_Modified_def IsZero_def zero_Time_def ascii_def)
  then show ?thesis by (simp add: small_archive_def enc_header_def sample_header_def ascii_def)
qed

section \<open>Properties\<close>







end
