(* ===== verification/Zip_Open.thy ===== *)
theory Zip_Open
  imports Ziputil
begin

text \<open>
  The package \<open>ziputil\<close>, second part: reading one file of a zip through a reader the caller supplies
  (\<open>OpenWithReader\<close> and the \<open>checksumReader\<close> it returns). The raw reader is a stream that can be closed.
  The \<open>compress/flate\<close> decompressor is a parameter: a fresh state, a read that may draw on the limited
  raw reader, and the error of its \<open>Close\<close>; the theorems hold for every such decompressor.
\<close>

unbundle bit_operations_syntax

section \<open>What is used of the libraries\<close>

record rawReader =
  raw_in :: stream
  raw_closed :: bool

definition raw_Read :: "rawReader \<Rightarrow> nat \<Rightarrow> (bytes \<times> io_error option) \<times> rawReader" where
  "raw_Read r n = (let (res, s) = stream_Read (raw_in r) n in (res, r\<lparr>raw_in := s\<rparr>))"

definition raw_Close :: "rawReader \<Rightarrow> rawReader" where
  "raw_Close r = r\<lparr>raw_closed := True\<rparr>"

text \<open>\<open>io.LimitedReader\<close> on the raw reader.\<close>

record limited =
  lim_R :: rawReader
  lim_N :: int

definition limited_Read :: "limited \<Rightarrow> nat \<Rightarrow> (bytes \<times> io_error option) \<times> limited" where
  "limited_Read l n =
     (if lim_N l \<le> 0 then (([], Some EOF), l)
      else let (res, r) = raw_Read (lim_R l) (min n (nat (lim_N l))) in
        (res, l\<lparr>lim_R := r, lim_N := lim_N l - int (length (fst res))\<rparr>))"

text \<open>The IEEE CRC-32, bit by bit.\<close>

definition crc32_bit :: "32 word \<Rightarrow> 32 word" where
  "crc32_bit c = (if bit c 0 then drop_bit 1 c XOR 3988292384 else drop_bit 1 c)"

definition crc32_Update :: "32 word \<Rightarrow> bytes \<Rightarrow> 32 word" where
  "crc32_Update crc bs = NOT (foldl (\<lambda>c b. (crc32_bit ^^ 8) (c XOR ucast b)) (NOT crc) bs)"

section \<open>Local headers and data descriptors\<close>

definition fileHeaderLen :: nat where "fileHeaderLen = 30"

definition fileHeaderSignature :: "32 word" where "fileHeaderSignature = 67324752"

definition hasDataDesc :: "FileHeader \<Rightarrow> bool" where
  "hasDataDesc h \<longleftrightarrow> fh_Flags h AND 8 \<noteq> 0"

definition skipHeader :: "stream \<Rightarrow> ((zerr + nat) \<times> stream) option" where
  "skipHeader r = (case ReadFull r fileHeaderLen of
     (buf, Some e, r) \<Rightarrow> Some (Inl (ZIO e), r)
   | (buf, None, r) \<Rightarrow> do {
       (sig, b) \<leftarrow> rb_uint32 buf;
       if sig \<noteq> fileHeaderSignature then Some (Inl ErrFormat, r)
       else do {
         b \<leftarrow> rb_skip 22 b;
         (filenameLen, b) \<leftarrow> rb_uint16 b;
         (extraLen, b) \<leftarrow> rb_uint16 b;
         let variableLen = unat filenameLen + unat extraLen;
         if variableLen \<le> length (pending r) then Some (Inr variableLen, r\<lparr>pending := drop variableLen (pending r)\<rparr>)
         else Some (Inl (ZIO (after r)), r\<lparr>pending := []\<rparr>) } })"

definition dataDescriptorSignature :: "32 word" where "dataDescriptorSignature = 134695760"

text \<open>The twelve bytes read into \<open>buf\<close> after an optional signature; of these only the checksum counts.\<close>

definition readDataDescriptor :: "stream \<Rightarrow> FileHeader \<Rightarrow> (zerr option \<times> stream) option" where
  "readDataDescriptor r f = (case ReadFull r 4 of
     (b4, Some e, r) \<Rightarrow> Some (Some (ZIO e), r)
   | (b4, None, r) \<Rightarrow> do {
       (maybeSig, _) \<leftarrow> rb_uint32 b4;
       let off = (if maybeSig \<noteq> dataDescriptorSignature then 4 else 0);
       case ReadFull r (12 - off) of
         (bs, Some e, r) \<Rightarrow> Some (Some (ZIO e), r)
       | (bs, None, r) \<Rightarrow> do {
           (crc, _) \<leftarrow> rb_uint32 (take off b4 @ bs);
           Some (if crc \<noteq> fh_CRC32 f then Some ErrChecksum else None, r) } })"

section \<open>Decompressors\<close>

text \<open>The library's decompressor: how it starts, reads and closes.\<close>

record 'f flate =
  fl_new :: 'f
  fl_Read :: "'f \<Rightarrow> limited \<Rightarrow> nat \<Rightarrow> (bytes \<times> io_error option) \<times> 'f \<times> limited"
  fl_Close :: "'f \<Rightarrow> io_error option"

text \<open>The body reader: the limited raw reader itself, or a \<open>pooledFlateReader\<close> (\<open>None\<close> once closed).\<close>

datatype 'f decomp = NopCloser | PooledFlate "'f option"

definition pooled_Read ::
  "'f flate \<Rightarrow> 'f option \<Rightarrow> limited \<Rightarrow> nat \<Rightarrow> (bytes \<times> io_error option) \<times> 'f option \<times> limited" where
  "pooled_Read fl fr l n = (case fr of
     None \<Rightarrow> (([], Some (IOError ''Read after Close'')), None, l)
   | Some f \<Rightarrow> (let (res, f, l) = fl_Read fl f l n in (res, Some f, l)))"

definition pooled_Close :: "'f flate \<Rightarrow> 'f option \<Rightarrow> io_error option \<times> 'f option" where
  "pooled_Close fl fr = (case fr of None \<Rightarrow> (None, None) | Some f \<Rightarrow> (fl_Close fl f, None))"

definition body_Read :: "'f flate \<Rightarrow> 'f decomp \<Rightarrow> limited \<Rightarrow> nat \<Rightarrow> (bytes \<times> io_error option) \<times> 'f decomp \<times> limited" where
  "body_Read fl d l n = (case d of
     NopCloser \<Rightarrow> (let (res, l) = limited_Read l n in (res, NopCloser, l))
   | PooledFlate fr \<Rightarrow> (let (res, fr, l) = pooled_Read fl fr l n in (res, PooledFlate fr, l)))"

section \<open>The checksum reader\<close>

record 'f checksumReader =
  bodyReader :: "'f decomp"
  body_lim :: limited
  hash32 :: "32 word"
  nread :: "64 word"
  desr :: bool
  cs_f :: FileHeader
  cs_err :: "zerr option"

definition setErr :: "'f checksumReader \<Rightarrow> zerr option \<Rightarrow> zerr option \<times> 'f checksumReader" where
  "setErr r e = (case cs_err r of
     Some e0 \<Rightarrow> (Some e0, r)
   | None \<Rightarrow> (case e of
       None \<Rightarrow> (None, r)
     | Some e1 \<Rightarrow> (Some e1, r\<lparr>cs_err := Some e1, body_lim := (body_lim r)\<lparr>lim_R := raw_Close (lim_R (body_lim r))\<rparr>\<rparr>)))"

text \<open>The checks at the end of the body: the error to report, \<open>EOF\<close> if all is well.\<close>

definition at_EOF :: "'f checksumReader \<Rightarrow> (zerr \<times> 'f checksumReader) option" where
  "at_EOF r =
     (if desr r then do {
        (err1, s) \<leftarrow> readDataDescriptor (raw_in (lim_R (body_lim r))) (cs_f r);
        let r = r\<lparr>body_lim := (body_lim r)\<lparr>lim_R := (lim_R (body_lim r))\<lparr>raw_in := s\<rparr>\<rparr>\<rparr>;
        Some (case err1 of
            Some e1 \<Rightarrow> if e1 = ZIO EOF then ZIO ErrUnexpectedEOF else e1
          | None \<Rightarrow> if hash32 r \<noteq> fh_CRC32 (cs_f r) then ErrChecksum else ZIO EOF, r) }
      else Some (if fh_CRC32 (cs_f r) \<noteq> 0 \<and> hash32 r \<noteq> fh_CRC32 (cs_f r) then ErrChecksum else ZIO EOF, r))"

definition checksum_Read :: "'f flate \<Rightarrow> 'f checksumReader \<Rightarrow> nat \<Rightarrow> ((bytes \<times> zerr option) \<times> 'f checksumReader) option" where
  "checksum_Read fl r n = (case cs_err r of
     Some e \<Rightarrow> Some (([], Some e), r)
   | None \<Rightarrow>
       let ((bs, err), d, l) = body_Read fl (bodyReader r) (body_lim r) n;
           r = r\<lparr>bodyReader := d, body_lim := l, hash32 := crc32_Update (hash32 r) bs, nread := nread r + of_nat (length bs)\<rparr> in
       if nread r > UncompressedSize64 (cs_f r) then (let (e, r) = setErr r (Some ErrFormat) in Some (([], e), r))
       else (case err of
         None \<Rightarrow> Some ((bs, None), r)
       | Some e0 \<Rightarrow>
           if e0 = EOF then
             (if nread r \<noteq> UncompressedSize64 (cs_f r) then
                (let (e, r) = setErr r (Some (ZIO ErrUnexpectedEOF)) in Some (([], e), r))
              else do {
                (e1, r) \<leftarrow> at_EOF r;
                let (e, r) = setErr r (Some e1);
                Some ((bs, e), r) })
           else (let (e, r) = setErr r (Some (ZIO e0)) in Some ((bs, e), r))))"

definition openReadSlop :: nat where "openReadSlop = 512"

definition checksum_Close :: "'f flate \<Rightarrow> 'f checksumReader \<Rightarrow> io_error option \<times> 'f checksumReader" where
  "checksum_Close fl r =
     (let raw = lim_R (body_lim r);
          raw = raw\<lparr>raw_in := (raw_in raw)\<lparr>pending := drop openReadSlop (pending (raw_in raw))\<rparr>\<rparr>;
          r = r\<lparr>body_lim := (body_lim r)\<lparr>lim_R := raw_Close raw\<rparr>\<rparr> in
      case bodyReader r of
        NopCloser \<Rightarrow> (None, r)
      | PooledFlate fr \<Rightarrow> (let (e, fr) = pooled_Close fl fr in (e, r\<lparr>bodyReader := PooledFlate fr\<rparr>)))"

section \<open>OpenWithReader\<close>

text \<open>The result, and the raw reader as it is left when it was obtained.\<close>

definition OpenWithReader ::
  "'f flate \<Rightarrow> FileHeader \<Rightarrow> (int \<Rightarrow> int \<Rightarrow> string + stream) \<Rightarrow> ((zerr + 'f checksumReader) \<times> rawReader option) option" where
  "OpenWithReader fl h getRawReader =
     (if Method h \<noteq> 0 \<and> Method h \<noteq> 8 then Some (Inl (ZErrorf ''unsupported storage method''), None)
      else let d = (if Method h = 0 then NopCloser else PooledFlate (Some (fl_new fl)));
               compSize = sint (CompressedSize64 h);
               descSize = (if hasDataDesc h then 16 else 0);
               fileHeaderVariableLen = int (length (fh_Name h)) + int (length (Extra h)) + int openReadSlop;
               readSize = int64 (int64 (int64 (compSize + descSize) + int fileHeaderLen) + fileHeaderVariableLen) in
        (case getRawReader (HeaderOffset h) readSize of
          Inl e \<Rightarrow> Some (Inl (ZErrorf (''opening raw reader: '' @ e)), None)
        | Inr raw \<Rightarrow> (case skipHeader raw of
            None \<Rightarrow> None
          | Some (Inl e, raw) \<Rightarrow> Some (Inl e, Some (raw_Close \<lparr>raw_in = raw, raw_closed = False\<rparr>))
          | Some (Inr variableLen, raw) \<Rightarrow>
              let raw = \<lparr>raw_in = raw, raw_closed = False\<rparr> in
              if int variableLen > fileHeaderVariableLen then
                Some (Inl (ZErrorf ''file header length was greater than expected''), Some (raw_Close raw))
              else Some (Inr \<lparr>bodyReader = d, body_lim = \<lparr>lim_R = raw, lim_N = compSize\<rparr>,
                hash32 = 0, nread = 0, desr = hasDataDesc h, cs_f = h, cs_err = None\<rparr>, Some raw))))"

end
