(* ===== verification/Zip_Open_Correct.thy ===== *)
theory Zip_Open_Correct
  imports Zip_Open Ziputil_Correct
begin

text \<open>
  What a reader returned by \<open>OpenWithReader\<close> delivers: never more than the declared size, an end of
  file only after exactly that many bytes with the right checksum, and for a stored file its bytes.
\<close>

section \<open>Reachable states\<close>

text \<open>A decompressor keeps the contract of \<open>io.Reader\<close>: it returns no more bytes than asked for.\<close>

definition flate_ok :: "'f flate \<Rightarrow> bool" where
  "flate_ok fl \<longleftrightarrow> (\<forall>f l n. length (fst (fst (fl_Read fl f l n))) \<le> n)"

inductive cs_reach :: "'f flate \<Rightarrow> FileHeader \<Rightarrow> (int \<Rightarrow> int \<Rightarrow> string + stream) \<Rightarrow> bytes \<Rightarrow> 'f checksumReader \<Rightarrow> bool"
  for fl h g where
  opened: "OpenWithReader fl h g = Some (Inr r, raw) \<Longrightarrow> cs_reach fl h g [] r"
| read: "cs_reach fl h g out r \<Longrightarrow> n < 2 ^ 63 \<Longrightarrow> checksum_Read fl r n = Some ((bs, e), r') \<Longrightarrow> cs_reach fl h g (out @ bs) r'"

definition cs_inv :: "FileHeader \<Rightarrow> bytes \<Rightarrow> 'f checksumReader \<Rightarrow> bool" where
  "cs_inv h out r \<longleftrightarrow> cs_f r = h \<and> desr r = hasDataDesc h \<and> length out \<le> unat (UncompressedSize64 h) \<and>
     (cs_err r = None \<longrightarrow> hash32 r = crc32_Update 0 out \<and> unat (nread r) = length out)"

lemma crc32_Update_append: "crc32_Update (crc32_Update c xs) ys = crc32_Update c (xs @ ys)"
  by (simp add: crc32_Update_def)

lemma body_Read_length: "flate_ok fl \<Longrightarrow> body_Read fl d l n = ((bs, e), d', l') \<Longrightarrow> length bs \<le> n"
  by (auto simp: body_Read_def limited_Read_def raw_Read_def stream_Read_def pooled_Read_def flate_ok_def Let_def
      case_prod_unfold split: decomp.splits option.splits if_splits)
     (metis fst_conv)+

lemma setErr_cases: "setErr r (Some e) = (if cs_err r = None then (Some e, r\<lparr>cs_err := Some e, body_lim := (body_lim r)\<lparr>lim_R := raw_Close (lim_R (body_lim r))\<rparr>\<rparr>) else (cs_err r, r))"
  by (auto simp: setErr_def split: option.split)

lemma at_EOF_Some:
  assumes "at_EOF r = Some (e, r')"
  shows "cs_f r' = cs_f r" "desr r' = desr r" "cs_err r' = cs_err r"
    "e = ZIO EOF \<Longrightarrow> (desr r \<or> fh_CRC32 (cs_f r) \<noteq> 0) \<Longrightarrow> hash32 r = fh_CRC32 (cs_f r)"
  using assms by (auto simp: at_EOF_def Let_def split: if_splits Option.bind_splits option.splits)

text \<open>The state after the bytes of the body have been counted.\<close>

lemma cs_counted:
  assumes "cs_inv h out r" "cs_err r = None" "UncompressedSize64 h < 2 ^ 63" "length bs < 2 ^ 63"
    and r1_def: "r1 = r\<lparr>bodyReader := d, body_lim := l, hash32 := crc32_Update (hash32 r) bs, nread := nread r + of_nat (length bs)\<rparr>"
  shows "unat (nread r1) = length (out @ bs)" "hash32 r1 = crc32_Update 0 (out @ bs)"
    "\<not> nread r1 > UncompressedSize64 h \<Longrightarrow> cs_inv h (out @ bs) r1"
proof -
  have inv: "hash32 r = crc32_Update 0 out" "unat (nread r) = length out" "length out \<le> unat (UncompressedSize64 h)"
    using assms(1,2) by (simp_all add: cs_inv_def)
  have small: "unat (UncompressedSize64 h) < 2 ^ 63" using assms(3) by (simp add: word_less_nat_alt)
  have "unat (nread r + of_nat (length bs)) = unat (nread r) + unat (of_nat (length bs) :: 64 word)"
    using inv small assms(4) by (subst unat_add_lem [symmetric]) (simp_all add: unat_of_nat_small)
  then show n: "unat (nread r1) = length (out @ bs)"
    using assms(4) inv by (simp add: r1_def unat_of_nat_small)
  show h: "hash32 r1 = crc32_Update 0 (out @ bs)" by (simp add: r1_def inv crc32_Update_append)
  show "cs_inv h (out @ bs) r1" if "\<not> nread r1 > UncompressedSize64 h"
    using that n h assms(1) by (simp add: cs_inv_def word_less_nat_alt) (simp add: r1_def)
qed

lemma setErr_None: "cs_err r = None \<Longrightarrow> setErr r (Some e) =
    (Some e, r\<lparr>cs_err := Some e, body_lim := (body_lim r)\<lparr>lim_R := raw_Close (lim_R (body_lim r))\<rparr>\<rparr>)"
  by (simp add: setErr_def)

lemma cs_inv_failed: "cs_inv h out r \<Longrightarrow> cs_f r' = cs_f r \<Longrightarrow> desr r' = desr r \<Longrightarrow> cs_err r' \<noteq> None \<Longrightarrow> cs_inv h out r'"
  by (auto simp: cs_inv_def)

text \<open>One read in a state without error: what it delivers and how it may end.\<close>

lemma checksum_Read_step:
  assumes "flate_ok fl" "cs_inv h out r" "UncompressedSize64 h < 2 ^ 63" "n < 2 ^ 63" "cs_err r = None"
    and "checksum_Read fl r n = Some ((bs, e), r')"
  shows "cs_inv h (out @ bs) r' \<and> cs_err r' = e \<and>
    (e = Some (ZIO EOF) \<longrightarrow> length (out @ bs) = unat (UncompressedSize64 h) \<and>
       (hasDataDesc h \<or> fh_CRC32 h \<noteq> 0 \<longrightarrow> crc32_Update 0 (out @ bs) = fh_CRC32 h))"
proof -
  obtain bs0 err d l where body: "body_Read fl (bodyReader r) (body_lim r) n = ((bs0, err), d, l)" by (metis prod.exhaust)
  define r1 where "r1 = r\<lparr>bodyReader := d, body_lim := l, hash32 := crc32_Update (hash32 r) bs0, nread := nread r + of_nat (length bs0)\<rparr>"
  have "length bs0 < 2 ^ 63" using body_Read_length [OF assms(1) body] assms(4) by simp
  note counted = cs_counted [OF assms(2,5,3) this r1_def]
  have r1: "cs_f r1 = h" "cs_err r1 = None" "desr r1 = hasDataDesc h" using assms(2,5) by (simp_all add: r1_def cs_inv_def)
  note run = assms(6) [unfolded checksum_Read_def assms(5) body option.case prod.case Let_def, folded r1_def]
  consider (over) "nread r1 > UncompressedSize64 h"
    | (more) "\<not> nread r1 > UncompressedSize64 h" "err = None"
    | (short) "\<not> nread r1 > UncompressedSize64 h" "err = Some EOF" "nread r1 \<noteq> UncompressedSize64 h"
    | (complete) "\<not> nread r1 > UncompressedSize64 h" "err = Some EOF" "nread r1 = UncompressedSize64 h"
    | (failed) e0 where "\<not> nread r1 > UncompressedSize64 h" "err = Some e0" "e0 \<noteq> EOF"
    by (cases err) auto
  then show ?thesis
  proof cases
    case over
    with run r1 have "bs = []" "e = Some ErrFormat" "cs_err r' = Some ErrFormat" "cs_f r' = cs_f r1" "desr r' = desr r1"
      by (auto simp: setErr_None)
    with assms(2) r1 show ?thesis by (simp add: cs_inv_def)
  next
    case more
    with run r1 counted(3) show ?thesis by auto
  next
    case short
    with run r1 have "bs = []" "e = Some (ZIO ErrUnexpectedEOF)" "cs_err r' = e" "cs_f r' = cs_f r1" "desr r' = desr r1"
      by (auto simp: setErr_None)
    with assms(2) r1 show ?thesis by (simp add: cs_inv_def)
  next
    case failed
    with run r1 have "bs = bs0" "e = Some (ZIO e0)" "cs_err r' = e" "cs_f r' = cs_f r1" "desr r' = desr r1"
      by (auto simp: setErr_None)
    with counted(3) failed r1 show ?thesis by (auto intro: cs_inv_failed)
  next
    case complete
    then obtain e1 r2 where eof: "at_EOF r1 = Some (e1, r2)" and run2: "Some ((bs0, fst (setErr r2 (Some e1))), snd (setErr r2 (Some e1))) = Some ((bs, e), r')"
      using run r1 by (auto simp: case_prod_unfold split: Option.bind_splits)
    note r2 = at_EOF_Some [OF eof]
    have "bs = bs0" "e = Some e1" "cs_err r' = e" "cs_f r' = cs_f r1" "desr r' = desr r1"
      using run2 r2 r1 by (auto simp: setErr_None)
    moreover have "length (out @ bs0) = unat (UncompressedSize64 h)" using counted(1) complete(3) by simp
    ultimately show ?thesis
      using counted(2,3) complete r1 r2(4) by (auto intro: cs_inv_failed)
  qed
qed

lemma cs_reach_inv:
  assumes "flate_ok fl" "UncompressedSize64 h < 2 ^ 63" "cs_reach fl h g out r"
  shows "cs_inv h out r"
  using assms(3)
proof (induction rule: cs_reach.induct)
  case (opened r raw)
  then show ?case
    by (auto simp: OpenWithReader_def cs_inv_def crc32_Update_def Let_def split: if_splits sum.splits option.splits prod.splits)
next
  case (read out r n bs e r')
  show ?case
  proof (cases "cs_err r")
    case None
    with read assms(1,2) checksum_Read_step show ?thesis by blast
  next
    case (Some e0)
    with read have "bs = []" "r' = r" by (auto simp: checksum_Read_def)
    with read show ?thesis by simp
  qed
qed

section \<open>Stored files\<close>

text \<open>\<open>io.ReadAll\<close> with a buffer of \<open>n\<close> bytes: the bytes read until the first error, and that error.\<close>

primrec cs_ReadAll :: "nat \<Rightarrow> 'f flate \<Rightarrow> nat \<Rightarrow> 'f checksumReader \<Rightarrow> bytes \<Rightarrow> (bytes \<times> zerr) option" where
  "cs_ReadAll 0 fl n r acc = None"
| "cs_ReadAll (Suc fuel) fl n r acc = (case checksum_Read fl r n of
     None \<Rightarrow> None
   | Some ((bs, None), r) \<Rightarrow> cs_ReadAll fuel fl n r (acc @ bs)
   | Some ((bs, Some e), r) \<Rightarrow> Some (acc @ bs, e))"

text \<open>A local file header, and the data descriptor when the flags ask for one.\<close>

definition enc_local :: "bytes \<Rightarrow> bytes \<Rightarrow> bytes \<Rightarrow> bytes" where
  "enc_local fixed nam ext = le32 fileHeaderSignature @ fixed @ le16 (of_nat (length nam)) @ le16 (of_nat (length ext)) @ nam @ ext"

definition enc_descriptor :: "FileHeader \<Rightarrow> bytes \<Rightarrow> bytes" where
  "enc_descriptor h sizes = (if hasDataDesc h then le32 dataDescriptorSignature @ le32 (fh_CRC32 h) @ sizes else [])"

lemma skipHeader_enc:
  assumes "length fixed = 22" "length nam < 2 ^ 16" "length ext < 2 ^ 16"
  shows "skipHeader \<lparr>pending = enc_local fixed nam ext @ q, after = e\<rparr> = Some (Inr (length nam + length ext), \<lparr>pending = q, after = e\<rparr>)"
proof -
  let ?b = "le32 fileHeaderSignature @ fixed @ le16 (of_nat (length nam)) @ le16 (of_nat (length ext))"
  have "ReadFull \<lparr>pending = enc_local fixed nam ext @ q, after = e\<rparr> fileHeaderLen = (?b, None, \<lparr>pending = nam @ ext @ q, after = e\<rparr>)"
    using assms(1) by (simp add: ReadFull_def fileHeaderLen_def enc_local_def)
  moreover have "rb_skip 22 (fixed @ p) = Some p" for p using assms(1) by (simp add: rb_skip_def)
  moreover have "le_nat (le_bytes 2 (length nam)) = length nam" "le_nat (le_bytes 2 (length ext)) = length ext"
    using assms by (simp_all add: le_nat_le_bytes)
  moreover have "unat (of_nat (length nam) :: 16 word) = length nam" "unat (of_nat (length ext) :: 16 word) = length ext"
    using assms by (simp_all add: unat_of_nat_small)
  ultimately show ?thesis by (simp add: skipHeader_def rb_uint_le Let_def)
qed

lemma readDataDescriptor_enc:
  assumes "length sizes = 8"
  shows "readDataDescriptor \<lparr>pending = le32 dataDescriptorSignature @ le32 crc @ sizes @ q, after = e\<rparr> h =
    Some (if crc \<noteq> fh_CRC32 h then Some ErrChecksum else None, \<lparr>pending = q, after = e\<rparr>)"
proof -
  have "rb_uint32 (le32 w) = Some (w, [])" for w using rb_uint_le(2) [of w "[]"] by simp
  with assms show ?thesis by (simp add: readDataDescriptor_def ReadFull_def rb_uint_le)
qed

text \<open>How a read of the last bytes ends.\<close>

definition final_error :: "FileHeader \<Rightarrow> bytes \<Rightarrow> zerr" where
  "final_error h data =
     (if (hasDataDesc h \<or> fh_CRC32 h \<noteq> 0) \<and> crc32_Update 0 data \<noteq> fh_CRC32 h then ErrChecksum else ZIO EOF)"

definition stored_state :: "FileHeader \<Rightarrow> bytes \<Rightarrow> bytes \<Rightarrow> bytes \<Rightarrow> 'f checksumReader \<Rightarrow> bool" where
  "stored_state h out rem q r \<longleftrightarrow> bodyReader r = NopCloser \<and> cs_f r = h \<and> desr r = hasDataDesc h \<and> cs_err r = None \<and>
     lim_N (body_lim r) = int (length rem) \<and> pending (raw_in (lim_R (body_lim r))) = rem @ q \<and>
     hash32 r = crc32_Update 0 out \<and> nread r = of_nat (length out)"

lemma stored_end:
  assumes "stored_state h out [] (enc_descriptor h sizes @ q) r" "length sizes = 8" "UncompressedSize64 h = of_nat (length out)"
  shows "\<exists>r'. checksum_Read fl r n = Some (([], Some (final_error h out)), r')"
proof -
  have at: "\<exists>r'. at_EOF r1 = Some (final_error h out, r') \<and> cs_err r' = None"
    if asm: "desr r1 = hasDataDesc h" "cs_f r1 = h" "hash32 r1 = crc32_Update 0 out" "cs_err r1 = None"
      "pending (raw_in (lim_R (body_lim r1))) = enc_descriptor h sizes @ q" for r1 :: "'a checksumReader"
  proof (cases "hasDataDesc h")
    case True
    obtain e where "raw_in (lim_R (body_lim r1)) = \<lparr>pending = le32 dataDescriptorSignature @ le32 (fh_CRC32 h) @ sizes @ q, after = e\<rparr>"
      using asm(5) True by (cases "raw_in (lim_R (body_lim r1))") (auto simp: enc_descriptor_def)
    with that True assms(2) show ?thesis
      by (simp add: at_EOF_def readDataDescriptor_enc final_error_def Let_def)
  next
    case False
    with that show ?thesis by (simp add: at_EOF_def final_error_def)
  qed
  define r1 where "r1 = r\<lparr>bodyReader := NopCloser, body_lim := body_lim r, hash32 := crc32_Update (hash32 r) [],
      nread := nread r + of_nat (length ([] :: bytes))\<rparr>"
  have body: "body_Read fl (bodyReader r) (body_lim r) n = (([], Some EOF), NopCloser, body_lim r)"
    using assms(1) by (simp add: stored_state_def body_Read_def limited_Read_def)
  have r1: "desr r1 = hasDataDesc h" "cs_f r1 = h" "hash32 r1 = crc32_Update 0 out" "cs_err r1 = None"
    "pending (raw_in (lim_R (body_lim r1))) = enc_descriptor h sizes @ q" "nread r1 = UncompressedSize64 h"
    using assms(1,3) crc32_Update_append [of 0 out "[]"] by (simp_all add: r1_def stored_state_def)
  obtain r' where "at_EOF r1 = Some (final_error h out, r')" "cs_err r' = None"
    using at [OF r1(1-5)] by blast
  moreover have "cs_err r = None" using assms(1) by (simp add: stored_state_def)
  ultimately show ?thesis
    unfolding checksum_Read_def body Let_def prod.case r1_def [symmetric] by (simp add: r1 setErr_None)
qed

lemma stored_more:
  assumes "stored_state h out rem q r" "rem \<noteq> []" "length (out @ rem) < 2 ^ 63" "UncompressedSize64 h = of_nat (length (out @ rem))"
  shows "\<exists>r'. checksum_Read fl r n = Some ((take n rem, None), r') \<and> stored_state h (out @ take n rem) (drop n rem) q r'"
proof -
  let ?k = "min n (length rem)"
  have l: "lim_N (body_lim r) = int (length rem)" "pending (raw_in (lim_R (body_lim r))) = rem @ q" "bodyReader r = NopCloser"
    using assms(1) by (simp_all add: stored_state_def)
  have "take ?k (rem @ q) = take n rem" "drop ?k (rem @ q) = drop n rem @ q" by (simp_all add: min_def)
  then obtain l' where body: "body_Read fl (bodyReader r) (body_lim r) n = ((take n rem, None), NopCloser, l')"
    "lim_N l' = int (length (drop n rem))" "pending (raw_in (lim_R l')) = drop n rem @ q"
    using assms(2) l by (auto simp: body_Read_def limited_Read_def raw_Read_def stream_Read_def min_def)
  have "nread r + of_nat (length (take n rem)) = of_nat (length (out @ take n rem))"
    using assms(1) by (simp add: stored_state_def)
  moreover have len: "unat (of_nat (length xs) :: 64 word) = length xs" if "length xs \<le> length (out @ rem)" for xs :: bytes
    using that assms(3) by (intro unat_of_nat_small) simp
  have "\<not> (of_nat (length (out @ take n rem)) :: 64 word) > of_nat (length (out @ rem))"
    unfolding word_less_nat_alt by (subst (1 2) len) simp_all
  ultimately show ?thesis
    using assms(1,4) body by (simp add: checksum_Read_def stored_state_def crc32_Update_append Let_def)
qed

lemma cs_ReadAll_stored:
  assumes "stored_state h out rem (enc_descriptor h sizes @ q) r" "length sizes = 8" "0 < n" "length rem < fuel"
    and "length (out @ rem) < 2 ^ 63" "UncompressedSize64 h = of_nat (length (out @ rem))"
  shows "cs_ReadAll fuel fl n r out = Some (out @ rem, final_error h (out @ rem))"
  using assms(1,4-6)
proof (induction fuel arbitrary: out rem r)
  case (Suc fuel)
  show ?case
  proof (cases "rem = []")
    case True
    with Suc.prems stored_end [of h out sizes q r fl n] assms(2) show ?thesis by auto
  next
    case False
    then obtain r' where r': "checksum_Read fl r n = Some ((take n rem, None), r')"
      "stored_state h (out @ take n rem) (drop n rem) (enc_descriptor h sizes @ q) r'"
      using stored_more [OF Suc.prems(1) False Suc.prems(3,4)] by blast
    have "length (drop n rem) < fuel" using False assms(3) Suc.prems(2) by (cases rem) auto
    with r' Suc.IH [OF r'(2)] Suc.prems(3,4) show ?thesis by simp
  qed
qed simp

lemma open_stored:
  assumes "Method h = 0" "CompressedSize64 h = of_nat (length data)" "length data < 2 ^ 63"
    and "length fixed = 22" "length nam < 2 ^ 16" "length ext < 2 ^ 16"
    and "length nam + length ext \<le> length (fh_Name h) + length (Extra h) + 512"
    and "\<And>sz. g (HeaderOffset h) sz = Inr \<lparr>pending = enc_local fixed nam ext @ data @ q, after = err\<rparr>"
  shows "\<exists>r raw. OpenWithReader fl h g = Some (Inr r, raw) \<and> stored_state h [] data q r"
proof -
  have c: "sint (CompressedSize64 h) = int (length data)"
    using assms(2,3) by (subst sint_nonneg) (simp_all add: word_less_nat_alt unat_of_nat_small uint_nat)
  show ?thesis
    using assms(1,4-8) c
    by (simp add: OpenWithReader_def Let_def skipHeader_enc openReadSlop_def stored_state_def crc32_Update_def)
qed

text \<open>A stored file of one byte, and a raw reader that has it.\<close>

definition stored_sample :: FileHeader where
  "stored_sample = \<lparr>fh_Name = [], fh_Comment = [], NonUTF8 = False, CreatorVersion = 20, ReaderVersion = 20, fh_Flags = 8,
     Method = 0, Modified = zero_Time, ModifiedTime = 0, ModifiedDate = 0, fh_CRC32 = crc32_Update 0 [65],
     CompressedSize = 1, UncompressedSize = 1, CompressedSize64 = 1, UncompressedSize64 = 1, Extra = [],
     ExternalAttrs = 0, HeaderOffset = 0\<rparr>"

definition sample_raw :: "int \<Rightarrow> int \<Rightarrow> string + stream" where
  "sample_raw off sz = Inr \<lparr>pending = enc_local (replicate 22 0) [] [] @ [65] @ enc_descriptor stored_sample (replicate 8 0) @ [], after = EOF\<rparr>"

definition no_flate :: "unit flate" where
  "no_flate = \<lparr>fl_new = (), fl_Read = (\<lambda>f l n. (([], Some EOF), f, l)), fl_Close = (\<lambda>f. None)\<rparr>"

section \<open>Properties\<close>

text \<open>
  C9: however a file is read, at most the declared number of bytes is ever delivered; and when a read
  reports the end of the file, exactly that many have been, and their checksum is the one in the
  directory (unless that is 0 and there is no data descriptor).
\<close>

theorem checksum_reader_safe:
  assumes "flate_ok fl" "UncompressedSize64 h < 2 ^ 63" "cs_reach fl h g out r" "n < 2 ^ 63"
    and "checksum_Read fl r n = Some ((bs, e), r')"
  shows "length (out @ bs) \<le> unat (UncompressedSize64 h) \<and>
    (cs_err r = None \<and> e = Some (ZIO EOF) \<longrightarrow> length (out @ bs) = unat (UncompressedSize64 h) \<and>
       (hasDataDesc h \<or> fh_CRC32 h \<noteq> 0 \<longrightarrow> crc32_Update 0 (out @ bs) = fh_CRC32 h)) \<and>
    (cs_err r \<noteq> None \<longrightarrow> bs = [] \<and> e = cs_err r \<and> r' = r)"
proof -
  note inv = cs_reach_inv [OF assms(1-3)]
  have "cs_inv h (out @ bs) r'" using cs_reach_inv [OF assms(1,2) cs_reach.read [OF assms(3-5)]] .
  then have "length (out @ bs) \<le> unat (UncompressedSize64 h)" by (simp add: cs_inv_def)
  moreover have "bs = [] \<and> e = cs_err r \<and> r' = r" if "cs_err r \<noteq> None"
    using that assms(5) by (auto simp: checksum_Read_def)
  ultimately show ?thesis
    using checksum_Read_step [OF assms(1) inv assms(2,4) _ assms(5)] by blast
qed

theorem checksum_reader_safe_witness:
  "\<exists>r raw bs e r'. OpenWithReader no_flate stored_sample sample_raw = Some (Inr r, raw) \<and>
     checksum_Read no_flate r 8 = Some ((bs, e), r') \<and> length bs \<le> unat (UncompressedSize64 stored_sample)"
proof -
  obtain r raw where r: "OpenWithReader no_flate stored_sample sample_raw = Some (Inr r, raw)"
    "stored_state stored_sample [] [65] (enc_descriptor stored_sample (replicate 8 0) @ []) r"
    using open_stored [of stored_sample "[65]" "replicate 22 0" "[]" "[]" sample_raw "enc_descriptor stored_sample (replicate 8 0) @ []" EOF no_flate]
    by (auto simp: sample_raw_def stored_sample_def)
  obtain r' where r': "checksum_Read no_flate r 8 = Some ((take 8 [65], None), r')"
    using stored_more [OF r(2), of no_flate 8] by (auto simp: stored_sample_def)
  have "flate_ok no_flate" by (simp add: flate_ok_def no_flate_def)
  from checksum_reader_safe [OF this _ cs_reach.opened [OF r(1)] _ r'] r(1) r' show ?thesis
    by (auto simp: stored_sample_def)
qed

text \<open>
  C33: reading a stored file that the raw reader has behind its local header (and before its data
  descriptor, if it has one), with any buffer size, gives exactly the data and then the end of the file if
  the checksum is that of the directory, and \<open>ErrChecksum\<close> otherwise.
\<close>

theorem OpenWithReader_stored:
  assumes "Method h = 0" "CompressedSize64 h = of_nat (length data)" "UncompressedSize64 h = of_nat (length data)"
    and "length data < 2 ^ 63" "length fixed = 22" "length nam < 2 ^ 16" "length ext < 2 ^ 16" "length sizes = 8"
    and "length nam + length ext \<le> length (fh_Name h) + length (Extra h) + 512"
    and "\<And>sz. g (HeaderOffset h) sz = Inr \<lparr>pending = enc_local fixed nam ext @ data @ enc_descriptor h sizes @ q, after = err\<rparr>"
    and "0 < n" "length data < fuel"
  shows "\<exists>r raw. OpenWithReader fl h g = Some (Inr r, raw) \<and> cs_ReadAll fuel fl n r [] = Some (data, final_error h data)"
proof -
  obtain r raw where r: "OpenWithReader fl h g = Some (Inr r, raw)" "stored_state h [] data (enc_descriptor h sizes @ q) r"
    using open_stored [OF assms(1,2,4-7,9), of g "enc_descriptor h sizes @ q" err fl] assms(10) by blast
  have "cs_ReadAll fuel fl n r [] = Some ([] @ data, final_error h ([] @ data))"
    using assms(3,4) by (intro cs_ReadAll_stored [OF r(2) assms(8,11,12)]) simp_all
  with r(1) show ?thesis by auto
qed

theorem OpenWithReader_stored_witness:
  "\<exists>r raw. OpenWithReader no_flate stored_sample sample_raw = Some (Inr r, raw) \<and>
     cs_ReadAll 2 no_flate 8 r [] = Some ([65], final_error stored_sample [65])"
  by (rule OpenWithReader_stored [where fixed = "replicate 22 0" and nam = "[]" and ext = "[]" and sizes = "replicate 8 0" and q = "[]"])
     (simp_all add: sample_raw_def, simp_all add: stored_sample_def)

end
