(* ===== verification/Transitions.thy ===== *)
theory Transitions
  imports Go4_Prelude
begin

text \<open>
  Transition systems: reachable states, invariants as a locale, and the sets of goroutines at a point
  of their code.
\<close>

inductive reachable :: "'s \<Rightarrow> ('s \<Rightarrow> 's \<Rightarrow> bool) \<Rightarrow> 's \<Rightarrow> bool" for s0 step where
  start: "reachable s0 step s0"
| next_state: "reachable s0 step s \<Longrightarrow> step s s' \<Longrightarrow> reachable s0 step s'"

locale invariant =
  fixes s0 :: 's and step :: "'s \<Rightarrow> 's \<Rightarrow> bool" and inv :: "'s \<Rightarrow> bool"
  assumes initially: "inv s0" and preserved: "inv s \<Longrightarrow> step s s' \<Longrightarrow> inv s'"
begin

lemma always: "reachable s0 step s \<Longrightarrow> inv s"
  by (induction rule: reachable.induct) (auto intro: initially preserved)

end

text \<open>The goroutines at a point of their code, given the program counter of each.\<close>

definition at_pc :: "('i \<Rightarrow> 'p) \<Rightarrow> 'p \<Rightarrow> 'i set" where
  "at_pc f p = {i. f i = p}"

lemma reachable_trans: "reachable t step u \<Longrightarrow> reachable s step t \<Longrightarrow> reachable s step u"
  by (induction rule: reachable.induct) (auto intro: next_state)

lemma reachable_step: "step s s' \<Longrightarrow> reachable s step s'"
  by (rule next_state [OF start])

lemma mem_at_pc [simp]: "i \<in> at_pc f p \<longleftrightarrow> f i = p"
  by (simp add: at_pc_def)

lemma at_pc_update: "at_pc (f(j := p)) q = (if p = q then insert j (at_pc f q) else at_pc f q - {j})"
  by (auto simp: at_pc_def)

end
