(* ===== verification/Syncutil.thy ===== *)
theory Syncutil
  imports Transitions
begin

text \<open>
  The gate and the semaphore of the package \<open>syncutil\<close> (\<open>gate.go\<close>, \<open>sem.go\<close>). The sequential effect of each operation is a function on the state of the object; the ways goroutines
  interleave are a step relation on that state and a program counter per goroutine. A section under
  a mutex is one step; a step that is not enabled is a goroutine that is blocked.
\<close>

section \<open>Gate\<close>

text \<open>The channel of a gate: its capacity and the number of values in it.\<close>

record Gate =
  g_cap :: nat
  g_len :: nat

definition NewGate :: "nat \<Rightarrow> Gate" where
  "NewGate max_ops = \<lparr>g_cap = max_ops, g_len = 0\<rparr>"

text \<open>\<open>None\<close>: the send blocks.\<close>

definition Gate_Start :: "Gate \<Rightarrow> Gate option" where
  "Gate_Start g = (if g_len g < g_cap g then Some (g\<lparr>g_len := g_len g + 1\<rparr>) else None)"

text \<open>\<open>None\<close>: the panic \<open>Done called more than Start\<close>.\<close>

definition Gate_Done :: "Gate \<Rightarrow> Gate option" where
  "Gate_Done g = (if g_len g > 0 then Some (g\<lparr>g_len := g_len g - 1\<rparr>) else None)"

datatype gate_pc = GIdle | GStarting | GRunning

record gate_sys =
  the_gate :: Gate
  gpc :: "nat \<Rightarrow> gate_pc"

inductive gate_step :: "gate_sys \<Rightarrow> gate_sys \<Rightarrow> bool" where
  g_call: "gpc s i = GIdle \<Longrightarrow> gate_step s (s\<lparr>gpc := (gpc s)(i := GStarting)\<rparr>)"
| g_start: "gpc s i = GStarting \<Longrightarrow> Gate_Start (the_gate s) = Some g \<Longrightarrow>
    gate_step s (s\<lparr>the_gate := g, gpc := (gpc s)(i := GRunning)\<rparr>)"
| g_done: "gpc s i = GRunning \<Longrightarrow> Gate_Done (the_gate s) = Some g \<Longrightarrow>
    gate_step s (s\<lparr>the_gate := g, gpc := (gpc s)(i := GIdle)\<rparr>)"

definition gate_init :: "nat \<Rightarrow> gate_sys" where
  "gate_init max_ops = \<lparr>the_gate = NewGate max_ops, gpc = (\<lambda>_. GIdle)\<rparr>"

definition gate_inv :: "nat \<Rightarrow> gate_sys \<Rightarrow> bool" where
  "gate_inv max_ops s \<longleftrightarrow> g_cap (the_gate s) = max_ops \<and> finite (at_pc (gpc s) GRunning) \<and>
     card (at_pc (gpc s) GRunning) = g_len (the_gate s) \<and> g_len (the_gate s) \<le> max_ops"

interpretation gate: invariant "gate_init max_ops" gate_step "gate_inv max_ops" for max_ops
proof unfold_locales
  show "gate_inv max_ops (gate_init max_ops)"
    by (simp add: gate_inv_def gate_init_def NewGate_def at_pc_def)
next
  fix s s'
  assume "gate_inv max_ops s" "gate_step s s'"
  from this(2,1) show "gate_inv max_ops s'"
    by (induction rule: gate_step.induct)
      (auto simp: gate_inv_def Gate_Start_def Gate_Done_def at_pc_update card_Diff_singleton split: if_splits)
qed

lemma gate_enter:
  assumes "gate_inv max_ops s" "gpc s i = GStarting" "0 < max_ops"
  shows "\<exists>s'. reachable s gate_step s' \<and> gpc s' i = GRunning"
proof -
  have enter: "\<exists>s'. reachable t gate_step s' \<and> gpc s' i = GRunning"
    if "gpc t i = GStarting" "g_len (the_gate t) < g_cap (the_gate t)" for t
  proof -
    have "gate_step t (t\<lparr>the_gate := (the_gate t)\<lparr>g_len := g_len (the_gate t) + 1\<rparr>, gpc := (gpc t)(i := GRunning)\<rparr>)"
      using that by (intro g_start) (simp_all add: Gate_Start_def)
    then show ?thesis using reachable_step by fastforce
  qed
  show ?thesis
  proof (cases "g_len (the_gate s) < max_ops")
    case True
    then show ?thesis using enter assms by (simp add: gate_inv_def)
  next
    case False
    then have full: "g_len (the_gate s) = max_ops" "card (at_pc (gpc s) GRunning) = max_ops" "g_cap (the_gate s) = max_ops"
      using assms(1) by (simp_all add: gate_inv_def)
    then obtain j where j: "gpc s j = GRunning"
      using assms(3) by (metis card.empty mem_at_pc equals0I less_not_refl)
    let ?t = "s\<lparr>the_gate := (the_gate s)\<lparr>g_len := g_len (the_gate s) - 1\<rparr>, gpc := (gpc s)(j := GIdle)\<rparr>"
    have "gate_step s ?t" using j full(1) assms(3) by (intro g_done) (simp_all add: Gate_Done_def)
    moreover have "\<exists>s'. reachable ?t gate_step s' \<and> gpc s' i = GRunning"
      using full assms(2,3) j by (intro enter) auto
    ultimately show ?thesis by (meson next_state reachable_trans start)
  qed
qed

lemma gate_limits_parts:
  assumes "reachable (gate_init max_ops) gate_step s"
  shows "finite (at_pc (gpc s) GRunning)" "card (at_pc (gpc s) GRunning) \<le> max_ops"
    and "gpc s i = GRunning \<Longrightarrow> Gate_Done (the_gate s) \<noteq> None"
    and "Gate_Start (the_gate s) = None \<longleftrightarrow> card (at_pc (gpc s) GRunning) = max_ops"
    and "gpc s i = GStarting \<Longrightarrow> 0 < max_ops \<Longrightarrow> \<exists>s'. reachable s gate_step s' \<and> gpc s' i = GRunning"
proof -
  have inv: "gate_inv max_ops s" using assms by (rule gate.always)
  then show "finite (at_pc (gpc s) GRunning)" "card (at_pc (gpc s) GRunning) \<le> max_ops"
    "Gate_Start (the_gate s) = None \<longleftrightarrow> card (at_pc (gpc s) GRunning) = max_ops"
    by (auto simp: gate_inv_def Gate_Start_def)
  show "Gate_Done (the_gate s) \<noteq> None" if "gpc s i = GRunning"
    using inv that card_gt_0_iff [of "at_pc (gpc s) GRunning"] mem_at_pc [of i "gpc s" GRunning]
    by (auto simp: gate_inv_def Gate_Done_def simp del: mem_at_pc)
  show "\<exists>s'. reachable s gate_step s' \<and> gpc s' i = GRunning" if "gpc s i = GStarting" "0 < max_ops"
    using gate_enter inv that by blast
qed

text \<open>
  A gate made by \<open>NewGate(max)\<close> and used as intended (each goroutine calls \<open>Start\<close>, then \<open>Done\<close>)
  never has more than \<open>max\<close> operations between \<open>Start\<close> and \<open>Done\<close>; \<open>Done\<close> never panics; \<open>Start\<close>
  blocks exactly while \<open>max\<close> operations run; and, if \<open>max\<close> is positive, a goroutine that is blocked in
  \<open>Start\<close> can still get through, whatever has happened before.
\<close>

theorem gate_limits:
  assumes "reachable (gate_init max_ops) gate_step s"
  shows "(finite (at_pc (gpc s) GRunning)) \<and>
    (card (at_pc (gpc s) GRunning) \<le> max_ops) \<and>
    (gpc s i = GRunning \<longrightarrow>
      Gate_Done (the_gate s) \<noteq> None) \<and>
    (Gate_Start (the_gate s) = None \<longleftrightarrow> card (at_pc (gpc s) GRunning) = max_ops) \<and>
    (gpc s i = GStarting \<and> 0 < max_ops \<longrightarrow>
      (\<exists>s'. reachable s gate_step s' \<and> gpc s' i = GRunning))"
  using gate_limits_parts [OF assms] by blast

text \<open>With room for one operation and one running, another goroutine waits, and can get in.\<close>

definition gate_demo :: gate_sys where
  "gate_demo = \<lparr>the_gate = \<lparr>g_cap = 1, g_len = 1\<rparr>, gpc = (\<lambda>_. GIdle)(0 := GRunning, 1 := GStarting)\<rparr>"

lemma gate_demo_reachable: "reachable (gate_init 1) gate_step gate_demo"
proof -
  let ?s1 = "(gate_init 1)\<lparr>gpc := (\<lambda>_. GIdle)(0 := GStarting)\<rparr>"
  let ?s2 = "\<lparr>the_gate = \<lparr>g_cap = 1, g_len = 1\<rparr>, gpc = (\<lambda>_. GIdle)(0 := GRunning)\<rparr>"
  have "gate_step (gate_init 1) ?s1" using g_call [of "gate_init 1" 0] by (simp add: gate_init_def)
  moreover have "gate_step ?s1 ?s2"
    using g_start [of ?s1 0 "\<lparr>g_cap = 1, g_len = 1\<rparr>"] by (simp add: gate_init_def NewGate_def Gate_Start_def)
  moreover have "gate_step ?s2 gate_demo" using g_call [of ?s2 1] by (simp add: gate_demo_def)
  ultimately show ?thesis by (meson next_state start)
qed

theorem gate_limits_witness:
  "reachable (gate_init 1) gate_step gate_demo \<and> Gate_Done (the_gate gate_demo) \<noteq> None \<and>
   (\<exists>s'. reachable gate_demo gate_step s' \<and> gpc s' 1 = GRunning)"
  using gate_demo_reachable gate_limits [OF gate_demo_reachable, of 0] gate_limits [OF gate_demo_reachable, of 1]
  by (simp add: gate_demo_def)

section \<open>Sem\<close>

record Sem =
  sem_max :: int
  sem_free :: int

definition NewSem :: "int \<Rightarrow> Sem" where
  "NewSem m = \<lparr>sem_max = m, sem_free = m\<rparr>"

text \<open>The test at the start of \<open>Acquire\<close>: more units than there are is an error.\<close>

definition Acquire_error :: "Sem \<Rightarrow> int \<Rightarrow> bool" where
  "Acquire_error s n \<longleftrightarrow> n > sem_max s"

text \<open>One round of its loop: \<open>None\<close> is \<open>s.c.Wait()\<close>.\<close>

definition Acquire_check :: "Sem \<Rightarrow> int \<Rightarrow> Sem option" where
  "Acquire_check s n = (if sem_free s \<ge> n then Some (s\<lparr>sem_free := int64 (sem_free s - n)\<rparr>) else None)"

definition Release :: "Sem \<Rightarrow> int \<Rightarrow> Sem" where
  "Release s n = s\<lparr>sem_free := int64 (sem_free s + n)\<rparr>"

text \<open>Checking: about to look at \<open>free\<close>. Asleep: in \<open>Wait\<close>. Holding: between \<open>Acquire\<close> and \<open>Release\<close>.\<close>

datatype sem_pc = SIdle | SChecking int | SAsleep int | SHolding int

record sem_sys =
  the_sem :: Sem
  spc :: "nat \<Rightarrow> sem_pc"

definition broadcast :: "(nat \<Rightarrow> sem_pc) \<Rightarrow> nat \<Rightarrow> sem_pc" where
  "broadcast f = (\<lambda>i. case f i of SAsleep n \<Rightarrow> SChecking n | p \<Rightarrow> p)"

inductive sem_step :: "sem_sys \<Rightarrow> sem_sys \<Rightarrow> bool" where
  s_refused: "spc s i = SIdle \<Longrightarrow> Acquire_error (the_sem s) n \<Longrightarrow> sem_step s s"
| s_call: "spc s i = SIdle \<Longrightarrow> 0 \<le> n \<Longrightarrow> \<not> Acquire_error (the_sem s) n \<Longrightarrow> sem_step s (s\<lparr>spc := (spc s)(i := SChecking n)\<rparr>)"
| s_take: "spc s i = SChecking n \<Longrightarrow> Acquire_check (the_sem s) n = Some t \<Longrightarrow>
    sem_step s (s\<lparr>the_sem := t, spc := (spc s)(i := SHolding n)\<rparr>)"
| s_wait: "spc s i = SChecking n \<Longrightarrow> Acquire_check (the_sem s) n = None \<Longrightarrow> sem_step s (s\<lparr>spc := (spc s)(i := SAsleep n)\<rparr>)"
| s_release: "spc s i = SHolding n \<Longrightarrow>
    sem_step s (s\<lparr>the_sem := Release (the_sem s) n, spc := broadcast ((spc s)(i := SIdle))\<rparr>)"

definition sem_init :: "int \<Rightarrow> sem_sys" where
  "sem_init m = \<lparr>the_sem = NewSem m, spc = (\<lambda>_. SIdle)\<rparr>"

primrec units :: "sem_pc \<Rightarrow> int" where
  "units SIdle = 0"
| "units (SChecking n) = 0"
| "units (SAsleep n) = 0"
| "units (SHolding n) = n"

text \<open>The goroutines that are in or between calls, and the units they hold.\<close>

definition busy :: "(nat \<Rightarrow> sem_pc) \<Rightarrow> nat set" where
  "busy f = {i. f i \<noteq> SIdle}"

definition held :: "(nat \<Rightarrow> sem_pc) \<Rightarrow> int" where
  "held f = (\<Sum>i \<in> busy f. units (f i))"

text \<open>
  What holds of a goroutine when \<open>k\<close> units are free: one that sleeps asks for more than that, so that
  no wake-up is lost, and requests are within the size of the semaphore.
\<close>

primrec pc_ok :: "int \<Rightarrow> int \<Rightarrow> sem_pc \<Rightarrow> bool" where
  "pc_ok m k SIdle \<longleftrightarrow> True"
| "pc_ok m k (SChecking n) \<longleftrightarrow> 0 \<le> n \<and> n \<le> m"
| "pc_ok m k (SAsleep n) \<longleftrightarrow> k < n \<and> n \<le> m"
| "pc_ok m k (SHolding n) \<longleftrightarrow> 0 \<le> n"

definition sem_inv :: "int \<Rightarrow> sem_sys \<Rightarrow> bool" where
  "sem_inv m s \<longleftrightarrow> sem_max (the_sem s) = m \<and> finite (busy (spc s)) \<and> sem_free (the_sem s) + held (spc s) = m \<and>
     0 \<le> sem_free (the_sem s) \<and> (\<forall>i. pc_ok m (sem_free (the_sem s)) (spc s i))"

lemma pc_ok_less: "pc_ok m k p \<Longrightarrow> k' \<le> k \<Longrightarrow> pc_ok m k' p"
  by (cases p) auto

lemma pc_ok_broadcast: "pc_ok m k (f i) \<Longrightarrow> 0 \<le> k \<Longrightarrow> pc_ok m k' (broadcast f i)"
  by (cases "f i") (auto simp: broadcast_def)

lemma broadcast_holding: "broadcast f i = SHolding n \<longleftrightarrow> f i = SHolding n"
  by (simp add: broadcast_def split: sem_pc.splits)

lemma pc_ok_units: "pc_ok m k p \<Longrightarrow> 0 \<le> units p"
  by (cases p) auto

lemma held_superset: "finite A \<Longrightarrow> busy f \<subseteq> A \<Longrightarrow> held f = (\<Sum>i \<in> A. units (f i))"
  unfolding held_def by (intro sum.mono_neutral_left) (auto simp: busy_def)

lemma busy_update: "finite (busy f) \<Longrightarrow> finite (busy (f(j := p)))"
  by (rule finite_subset [of _ "insert j (busy f)"]) (auto simp: busy_def)

lemma held_update:
  assumes "finite (busy f)"
  shows "held (f(j := p)) = held f - units (f j) + units p"
proof -
  let ?A = "insert j (busy f)"
  have A: "finite ?A" "busy (f(j := p)) \<subseteq> ?A" "busy f \<subseteq> ?A" using assms by (auto simp: busy_def)
  have "(\<Sum>i \<in> ?A. units (g i)) = units (g j) + (\<Sum>i \<in> ?A - {j}. units (g i))" for g
    using A(1) by (intro sum.remove) auto
  then show ?thesis using A by (simp add: held_superset [of ?A])
qed

lemma units_le_held: "finite (busy f) \<Longrightarrow> (\<And>j. 0 \<le> units (f j)) \<Longrightarrow> units (f i) \<le> held f"
  by (cases "i \<in> busy f") (auto simp: held_def busy_def intro!: member_le_sum sum_nonneg)

lemma held_broadcast: "busy (broadcast f) = busy f" "held (broadcast f) = held f"
  by (auto simp: held_def busy_def broadcast_def intro!: sum.cong split: sem_pc.splits)

lemma sem_inv_held:
  assumes "sem_inv m s"
  shows "units (spc s i) \<le> held (spc s)" "0 \<le> held (spc s)"
proof -
  have "0 \<le> units (spc s j)" for j using assms by (auto simp: sem_inv_def intro: pc_ok_units)
  then show "units (spc s i) \<le> held (spc s)" "0 \<le> held (spc s)"
    using assms by (auto simp: sem_inv_def held_def [of "spc s"] intro!: sum_nonneg units_le_held [unfolded held_def])
qed

lemma sem_inv_step:
  assumes "sem_inv m s" "sem_step s s'" "m < 2 ^ 63"
  shows "sem_inv m s'"
  using assms(2,1)
proof (induction rule: sem_step.induct)
  case (s_release s i n)
  let ?k = "sem_free (the_sem s)"
  have ok: "0 \<le> n" "0 \<le> ?k" "?k + held (spc s) = m" "finite (busy (spc s))" "sem_max (the_sem s) = m"
    "pc_ok m ?k (spc s j)" for j
    using s_release pc_ok.simps(4) [of m ?k n] by (auto simp: sem_inv_def) (metis pc_ok.simps(4))
  have "int64 (?k + n) = ?k + n"
    using sem_inv_held(1) [OF s_release(2), of i] s_release(1) ok(1-3) assms(3) by (intro int64_id) auto
  moreover have "pc_ok m (?k + n) (broadcast ((spc s)(i := SIdle)) j)" for j
    using ok(2,6) by (intro pc_ok_broadcast [of m ?k]) auto
  ultimately show ?case
    using ok(1-5) s_release(1) by (simp add: sem_inv_def Release_def held_broadcast held_update busy_update)
next
  case (s_take s i n t)
  let ?k = "sem_free (the_sem s)"
  have ok: "0 \<le> ?k" "?k + held (spc s) = m" "finite (busy (spc s))" "sem_max (the_sem s) = m" "pc_ok m ?k (spc s j)" for j
    using s_take(3) by (auto simp: sem_inv_def)
  have n: "0 \<le> n" using ok(5) [of i] s_take(1) by simp
  have t: "n \<le> ?k" "t = (the_sem s)\<lparr>sem_free := int64 (?k - n)\<rparr>"
    using s_take(2) by (auto simp: Acquire_check_def split: if_splits)
  have "int64 (?k - n) = ?k - n"
    using sem_inv_held(2) [OF s_take(3)] ok(1,2) n t(1) assms(3) by (intro int64_id) auto
  moreover have "pc_ok m (?k - n) (spc s j)" for j
    using ok(5) [of j] n by (auto intro: pc_ok_less)
  ultimately show ?case
    using ok(1-4) s_take(1) n t by (simp add: sem_inv_def held_update busy_update)
next
  case (s_wait s i n)
  then have "pc_ok m (sem_free (the_sem s)) (SChecking n)" by (metis sem_inv_def)
  with s_wait show ?case by (auto simp: sem_inv_def Acquire_check_def held_update busy_update split: if_splits)
next
  case (s_call s i n)
  then show ?case by (simp add: sem_inv_def Acquire_error_def held_update busy_update)
qed

text \<open>The sizes of a semaphore are the non-negative values of \<open>int64\<close>.\<close>

interpretation sem: invariant "sem_init (uint m)" sem_step "sem_inv (uint m)" for m :: "63 word"
proof unfold_locales
  show "sem_inv (uint m) (sem_init (uint m))" by (simp add: sem_inv_def sem_init_def NewSem_def busy_def held_def)
  show "sem_inv (uint m) s'" if "sem_inv (uint m) s" "sem_step s s'" for s s'
    using uint_lt2p [of m] by (intro sem_inv_step [OF that]) simp
qed


text \<open>A goroutine that has asked for \<open>n\<close> units and does not have them yet.\<close>

definition waiting :: "sem_sys \<Rightarrow> nat \<Rightarrow> int \<Rightarrow> bool" where
  "waiting s i n \<longleftrightarrow> spc s i = SChecking n \<or> spc s i = SAsleep n"

definition holders :: "sem_sys \<Rightarrow> nat set" where
  "holders s = {i. \<exists>n. spc s i = SHolding n}"

lemma holders_finite: "sem_inv m s \<Longrightarrow> finite (holders s)"
  by (rule finite_subset [of _ "busy (spc s)"]) (auto simp: holders_def busy_def sem_inv_def)

lemma no_holders_free:
  assumes "sem_inv m s" "holders s = {}"
  shows "sem_free (the_sem s) = m"
proof -
  have "units (spc s i) = 0" for i using assms(2) by (cases "spc s i") (auto simp: holders_def)
  then show ?thesis using assms(1) by (simp add: sem_inv_def held_def)
qed

text \<open>When every holder releases its units, those that wait are served.\<close>

lemma sem_served:
  assumes "sem_inv m s" "m < 2 ^ 63" "waiting s i n"
  shows "\<exists>s'. reachable s sem_step s' \<and> spc s' i = SHolding n"
  using assms
proof (induction "card (holders s)" arbitrary: s rule: less_induct)
  case less
  show ?case
  proof (cases "holders s = {}")
    case True
    have "pc_ok m (sem_free (the_sem s)) (spc s i)" using less.prems(1) by (simp add: sem_inv_def)
    with no_holders_free [OF less.prems(1) True] less.prems(3)
    have "spc s i = SChecking n" "Acquire_check (the_sem s) n \<noteq> None" by (auto simp: waiting_def Acquire_check_def)
    then obtain t where "sem_step s (s\<lparr>the_sem := t, spc := (spc s)(i := SHolding n)\<rparr>)" by (auto intro: s_take)
    then have "reachable s sem_step (s\<lparr>the_sem := t, spc := (spc s)(i := SHolding n)\<rparr>)" by (rule next_state [OF start])
    then show ?thesis by (intro exI conjI) auto
  next
    case False
    then obtain j k where j: "spc s j = SHolding k" by (auto simp: holders_def)
    let ?t = "s\<lparr>the_sem := Release (the_sem s) k, spc := broadcast ((spc s)(j := SIdle))\<rparr>"
    have step: "sem_step s ?t" using j by (rule s_release)
    have "holders ?t = holders s - {j}" "j \<in> holders s"
      using j by (auto simp: holders_def broadcast_holding)
    then have "card (holders ?t) < card (holders s)" using holders_finite [OF less.prems(1)] by (metis card_Diff1_less)
    moreover have "waiting ?t i n" using less.prems(3) j by (auto simp: waiting_def broadcast_def)
    moreover have "sem_inv m ?t" using sem_inv_step [OF less.prems(1) step less.prems(2)] .
    ultimately obtain s' where "reachable ?t sem_step s'" "spc s' i = SHolding n" using less.hyps less.prems(2) by blast
    moreover have "reachable s sem_step ?t" using step by (rule reachable_step)
    ultimately show ?thesis using reachable_trans by (intro exI [of _ s'] conjI)
  qed
qed

lemma sem_safe_parts:
  fixes m :: "63 word"
  assumes "reachable (sem_init (uint m)) sem_step s"
  shows "sem_free (the_sem s) + held (spc s) = uint m" "0 \<le> sem_free (the_sem s)" "0 \<le> held (spc s)"
    and "spc s i = SAsleep n \<Longrightarrow> sem_free (the_sem s) < n"
    and "waiting s i n \<Longrightarrow> \<exists>s'. reachable s sem_step s' \<and> spc s' i = SHolding n"
proof -
  have inv: "sem_inv (uint m) s" using assms by (rule sem.always)
  then show "sem_free (the_sem s) + held (spc s) = uint m" "0 \<le> sem_free (the_sem s)" "0 \<le> held (spc s)"
    using sem_inv_held(2) [OF inv] by (auto simp: sem_inv_def)
  show "sem_free (the_sem s) < n" if "spc s i = SAsleep n"
    using inv that by (metis pc_ok.simps(3) sem_inv_def)
  show "\<exists>s'. reachable s sem_step s' \<and> spc s' i = SHolding n" if "waiting s i n"
    using sem_served [OF inv _ that] uint_lt2p [of m] by simp
qed

text \<open>
  C29: A semaphore made by \<open>NewSem(max)\<close>, with \<open>0 \<le> max\<close>, whose users release what they acquired: the
  free units and the units held always add up to \<open>max\<close>, so that no sum wraps and no more than \<open>max\<close>
  units are held; a goroutine sleeps in \<open>Wait\<close> only while fewer units are free than it asks for, so no
  wake-up is lost; and a goroutine that waits can still be served, whatever has happened before.
\<close>

theorem sem_safe:
  fixes m :: "63 word"
  assumes "reachable (sem_init (uint m)) sem_step s"
  shows "(sem_free (the_sem s) + held (spc s) = uint m) \<and>
    (0 \<le> sem_free (the_sem s)) \<and>
    (0 \<le> held (spc s)) \<and>
    (spc s i = SAsleep n \<longrightarrow>
      sem_free (the_sem s) < n) \<and>
    (waiting s i n \<longrightarrow>
      (\<exists>s'. reachable s sem_step s' \<and> spc s' i = SHolding n))"
  using sem_safe_parts [OF assms] by blast

text \<open>One unit, held by one goroutine and asked for by another, which sleeps.\<close>

definition sem_demo :: sem_sys where
  "sem_demo = \<lparr>the_sem = \<lparr>sem_max = 1, sem_free = 0\<rparr>, spc = (\<lambda>_. SIdle)(0 := SHolding 1, 1 := SAsleep 1)\<rparr>"

lemma sem_demo_reachable: "reachable (sem_init (uint (1 :: 63 word))) sem_step sem_demo"
proof -
  let ?s0 = "sem_init (uint (1 :: 63 word))"
  let ?s1 = "?s0\<lparr>spc := (\<lambda>_. SIdle)(0 := SChecking 1)\<rparr>"
  let ?s2 = "\<lparr>the_sem = \<lparr>sem_max = 1, sem_free = 0\<rparr>, spc = (\<lambda>_. SIdle)(0 := SHolding 1)\<rparr>"
  let ?s3 = "?s2\<lparr>spc := (\<lambda>_. SIdle)(0 := SHolding 1, 1 := SChecking 1)\<rparr>"
  have "sem_step ?s0 ?s1" using s_call [of ?s0 0 1] by (simp add: sem_init_def Acquire_error_def NewSem_def)
  moreover have "sem_step ?s1 ?s2"
    using s_take [of ?s1 0 1 "\<lparr>sem_max = 1, sem_free = 0\<rparr>"] by (simp add: sem_init_def NewSem_def Acquire_check_def int64_def)
  moreover have "sem_step ?s2 ?s3" using s_call [of ?s2 1 1] by (simp add: Acquire_error_def)
  moreover have "sem_step ?s3 sem_demo" using s_wait [of ?s3 1 1] by (simp add: Acquire_check_def sem_demo_def)
  ultimately show ?thesis by (meson next_state start)
qed

theorem sem_safe_witness:
  "reachable (sem_init (uint (1 :: 63 word))) sem_step sem_demo \<and> held (spc sem_demo) = 1 \<and> sem_free (the_sem sem_demo) < 1 \<and>
   (\<exists>s'. reachable sem_demo sem_step s' \<and> spc s' 1 = SHolding 1)"
  using sem_demo_reachable sem_safe [OF sem_demo_reachable, of 1 1] by (simp add: sem_demo_def waiting_def)

end
