(* ===== verification/Syncutil_Once.thy ===== *)
theory Syncutil_Once
  imports Transitions
begin

text \<open>
  \<open>Once\<close> and \<open>Group\<close> of the package \<open>syncutil\<close> (\<open>once.go\<close>, \<open>group.go\<close>), as transition systems: the
  shared variables and, for each goroutine, the point it has reached.
\<close>

section \<open>Once\<close>

text \<open>
  The points of \<open>Do\<close>: before the atomic load, before \<open>Lock\<close>, after it, in \<open>f\<close>, before the atomic store,
  before the deferred \<open>Unlock\<close> with the value to return, and returned (or left by a panic of \<open>f\<close>).
\<close>

datatype 'e once_pc =
  OIdle | OLoad | OLocking | OLocked | OCalling | OStoring | OUnlocking "'e option" | OReturned "'e option" | OPanicked

text \<open>\<open>results\<close> records what the calls of \<open>f\<close> returned; \<open>None\<close> is the error \<open>nil\<close>.\<close>

record 'e once_sys =
  once_m :: "nat option"
  once_done :: "32 word"
  opc :: "nat \<Rightarrow> 'e once_pc"
  results :: "'e option list"

inductive once_step :: "'e once_sys \<Rightarrow> 'e once_sys \<Rightarrow> bool" where
  o_call: "opc s i = OIdle \<Longrightarrow> once_step s (s\<lparr>opc := (opc s)(i := OLoad)\<rparr>)"
| o_fast: "opc s i = OLoad \<Longrightarrow> once_done s = 1 \<Longrightarrow> once_step s (s\<lparr>opc := (opc s)(i := OReturned None)\<rparr>)"
| o_slow: "opc s i = OLoad \<Longrightarrow> once_done s \<noteq> 1 \<Longrightarrow> once_step s (s\<lparr>opc := (opc s)(i := OLocking)\<rparr>)"
| o_lock: "opc s i = OLocking \<Longrightarrow> once_m s = None \<Longrightarrow>
    once_step s (s\<lparr>once_m := Some i, opc := (opc s)(i := OLocked)\<rparr>)"
| o_skip: "opc s i = OLocked \<Longrightarrow> once_done s \<noteq> 0 \<Longrightarrow> once_step s (s\<lparr>opc := (opc s)(i := OUnlocking None)\<rparr>)"
| o_enter: "opc s i = OLocked \<Longrightarrow> once_done s = 0 \<Longrightarrow> once_step s (s\<lparr>opc := (opc s)(i := OCalling)\<rparr>)"
| o_error: "opc s i = OCalling \<Longrightarrow>
    once_step s (s\<lparr>results := results s @ [Some e], opc := (opc s)(i := OUnlocking (Some e))\<rparr>)"
| o_nil: "opc s i = OCalling \<Longrightarrow> once_step s (s\<lparr>results := results s @ [None], opc := (opc s)(i := OStoring)\<rparr>)"
| o_panic: "opc s i = OCalling \<Longrightarrow> once_step s (s\<lparr>once_m := None, opc := (opc s)(i := OPanicked)\<rparr>)"
| o_store: "opc s i = OStoring \<Longrightarrow> once_step s (s\<lparr>once_done := 1, opc := (opc s)(i := OUnlocking None)\<rparr>)"
| o_unlock: "opc s i = OUnlocking r \<Longrightarrow> once_step s (s\<lparr>once_m := None, opc := (opc s)(i := OReturned r)\<rparr>)"
| o_again: "opc s i = OReturned r \<Longrightarrow> once_step s (s\<lparr>opc := (opc s)(i := OIdle)\<rparr>)"

definition once_init :: "'e once_sys" where
  "once_init = \<lparr>once_m = None, once_done = 0, opc = (\<lambda>_. OIdle), results = []\<rparr>"

primrec in_section :: "'e once_pc \<Rightarrow> bool" where
  "in_section OIdle \<longleftrightarrow> False"
| "in_section OLoad \<longleftrightarrow> False"
| "in_section OLocking \<longleftrightarrow> False"
| "in_section OLocked \<longleftrightarrow> True"
| "in_section OCalling \<longleftrightarrow> True"
| "in_section OStoring \<longleftrightarrow> True"
| "in_section (OUnlocking r) \<longleftrightarrow> True"
| "in_section (OReturned r) \<longleftrightarrow> False"
| "in_section OPanicked \<longleftrightarrow> False"

text \<open>What is known of a goroutine from where it is, given \<open>done\<close> and the results of \<open>f\<close>.\<close>

primrec once_ok :: "32 word \<Rightarrow> 'e option list \<Rightarrow> 'e once_pc \<Rightarrow> bool" where
  "once_ok d rs OIdle \<longleftrightarrow> True"
| "once_ok d rs OLoad \<longleftrightarrow> True"
| "once_ok d rs OLocking \<longleftrightarrow> True"
| "once_ok d rs OLocked \<longleftrightarrow> None \<in> set rs \<longrightarrow> d = 1"
| "once_ok d rs OCalling \<longleftrightarrow> None \<notin> set rs"
| "once_ok d rs OStoring \<longleftrightarrow> None \<in> set rs"
| "once_ok d rs (OUnlocking r) \<longleftrightarrow> r \<in> set rs \<and> (None \<in> set rs \<longrightarrow> d = 1)"
| "once_ok d rs (OReturned r) \<longleftrightarrow> r \<in> set rs \<and> (r = None \<longrightarrow> d = 1)"
| "once_ok d rs OPanicked \<longleftrightarrow> True"

definition once_inv :: "'e once_sys \<Rightarrow> bool" where
  "once_inv s \<longleftrightarrow> (\<forall>i. in_section (opc s i) \<longleftrightarrow> once_m s = Some i) \<and> (\<forall>i. once_ok (once_done s) (results s) (opc s i)) \<and>
     None \<notin> set (butlast (results s)) \<and> (once_done s = 0 \<or> once_done s = 1) \<and> (once_done s = 1 \<longrightarrow> None \<in> set (results s)) \<and>
     (once_m s = None \<and> None \<in> set (results s) \<longrightarrow> once_done s = 1)"

lemma once_invD:
  assumes "once_inv s"
  shows "in_section (opc s i) \<longleftrightarrow> once_m s = Some i" "once_ok (once_done s) (results s) (opc s i)"
    "None \<notin> set (butlast (results s))" "once_done s = 0 \<or> once_done s = 1" "once_done s \<noteq> 1 \<or> None \<in> set (results s)"
    "once_m s \<noteq> None \<or> None \<notin> set (results s) \<or> once_done s = 1"
  using assms by (auto simp: once_inv_def)

text \<open>A step by the goroutine in the critical section leaves the others outside it.\<close>

lemma once_ok_outside: "\<not> in_section p \<Longrightarrow> once_ok d rs p \<Longrightarrow> set rs \<subseteq> set rs' \<Longrightarrow> (d = 1 \<Longrightarrow> d' = 1) \<Longrightarrow> once_ok d' rs' p"
  by (cases p) auto

lemma once_inv_update:
  assumes "once_inv s" "opc s' = (opc s)(i := p)" "in_section p \<longleftrightarrow> once_m s' = Some i" "once_m s = None \<or> once_m s = Some i"
    and "once_m s' = None \<or> once_m s' = Some i"
    and "set (results s) \<subseteq> set (results s')" "once_done s = 1 \<Longrightarrow> once_done s' = 1" "once_ok (once_done s') (results s') p"
    and "None \<notin> set (butlast (results s'))" "once_done s' = 0 \<or> once_done s' = 1"
    and "once_done s' = 1 \<Longrightarrow> None \<in> set (results s')" "once_m s' = None \<Longrightarrow> None \<in> set (results s') \<Longrightarrow> once_done s' = 1"
  shows "once_inv s'"
proof -
  note inv = once_invD [OF assms(1)]
  have out: "\<not> in_section (opc s j)" if "j \<noteq> i" for j
    using inv(1) [of j] assms(4) that by auto
  have "in_section (opc s' j) \<longleftrightarrow> once_m s' = Some j" for j
    using assms(2,3,5) out by auto
  moreover have "once_ok (once_done s') (results s') (opc s' j)" for j
    using assms(2,8) once_ok_outside [OF out inv(2) assms(6,7)] by auto
  ultimately show ?thesis using assms(9-12) by (simp add: once_inv_def)
qed

text \<open>A step outside the critical section.\<close>

lemma once_inv_outside:
  assumes "once_inv s" "\<not> in_section (opc s i)" "\<not> in_section p" "once_ok (once_done s) (results s) p"
  shows "once_inv (s\<lparr>opc := (opc s)(i := p)\<rparr>)"
  using assms unfolding once_inv_def by auto

lemma once_inv_step:
  assumes "once_inv s" "once_step s s'"
  shows "once_inv s'"
  using assms(2,1)
proof (induction rule: once_step.induct)
  case (o_fast s i)
  then show ?case using once_invD(5) [OF o_fast(3)] by (intro once_inv_outside) simp_all
next
  case (o_lock s i)
  note inv = once_invD(1,2) [OF o_lock(3), of i] once_invD(3-) [OF o_lock(3)]
  show ?case by (rule once_inv_update [OF o_lock(3), of _ i "OLocked"]) (use o_lock inv in auto)
next
  case (o_skip s i)
  note inv = once_invD(1,2) [OF o_skip(3), of i] once_invD(3-) [OF o_skip(3)]
  show ?case by (rule once_inv_update [OF o_skip(3), of _ i "OUnlocking None"]) (use o_skip inv in auto)
next
  case (o_enter s i)
  note inv = once_invD(1,2) [OF o_enter(3), of i] once_invD(3-) [OF o_enter(3)]
  show ?case by (rule once_inv_update [OF o_enter(3), of _ i "OCalling"]) (use o_enter inv in auto)
next
  case (o_error s i e)
  note inv = once_invD(1,2) [OF o_error(2), of i] once_invD(3-) [OF o_error(2)]
  show ?case by (rule once_inv_update [OF o_error(2), of _ i "OUnlocking (Some e)"]) (use o_error inv in auto)
next
  case (o_nil s i)
  note inv = once_invD(1,2) [OF o_nil(2), of i] once_invD(3-) [OF o_nil(2)]
  show ?case by (rule once_inv_update [OF o_nil(2), of _ i "OStoring"]) (use o_nil inv in auto)
next
  case (o_panic s i)
  note inv = once_invD(1,2) [OF o_panic(2), of i] once_invD(3-) [OF o_panic(2)]
  show ?case by (rule once_inv_update [OF o_panic(2), of _ i "OPanicked"]) (use o_panic inv in auto)
next
  case (o_store s i)
  note inv = once_invD(1,2) [OF o_store(2), of i] once_invD(3-) [OF o_store(2)]
  show ?case by (rule once_inv_update [OF o_store(2), of _ i "OUnlocking None"]) (use o_store inv in auto)
next
  case (o_unlock s i r)
  note inv = once_invD(1,2) [OF o_unlock(2), of i] once_invD(3-) [OF o_unlock(2)]
  show ?case by (rule once_inv_update [OF o_unlock(2), of _ i "OReturned r"]) (use o_unlock inv in auto)
qed (simp_all add: once_inv_outside)

interpretation once: invariant once_init once_step once_inv
  proof unfold_locales
  show "once_inv once_init" by (simp add: once_inv_def once_init_def)
qed (rule once_inv_step)

lemma Once_Do_exactly_once_parts:
  assumes "reachable once_init once_step s"
  shows "opc s i = OCalling \<Longrightarrow> opc s j = OCalling \<Longrightarrow> i = j"
    and "opc s i = OCalling \<Longrightarrow> None \<notin> set (results s)" "None \<notin> set (butlast (results s))"
    and "opc s i = OReturned None \<Longrightarrow> once_done s = 1 \<and> results s \<noteq> [] \<and> last (results s) = None"
    and "opc s i = OReturned (Some e) \<Longrightarrow> Some e \<in> set (results s)"
    and "once_m s = None \<Longrightarrow> once_done s = 1 \<longleftrightarrow> None \<in> set (results s)"
proof -
  note inv = once_invD [OF once.always [OF assms]]
  show "i = j" if "opc s i = OCalling" "opc s j = OCalling" using inv(1) [of i] inv(1) [of j] that by simp
  show "None \<notin> set (results s)" if "opc s i = OCalling" using inv(2) [of i] that by simp
  show "None \<notin> set (butlast (results s))" by (rule inv(3))
  show "once_done s = 1 \<and> results s \<noteq> [] \<and> last (results s) = None" if "opc s i = OReturned None"
    using inv(2) [of i] inv(3) that by (cases "results s" rule: rev_cases) auto
  show "Some e \<in> set (results s)" if "opc s i = OReturned (Some e)" using inv(2) [of i] that by simp
  show "once_done s = 1 \<longleftrightarrow> None \<in> set (results s)" if "once_m s = None" using inv(5,6) that by blast
qed

text \<open>
  C30: Whatever the interleaving of calls of \<open>Do\<close> on one \<open>Once\<close>, at most one goroutine is inside \<open>f\<close>; \<open>f\<close>
  is not entered again once it has returned \<open>nil\<close>, so that all its results but the last are errors; a
  call of \<open>Do\<close> returns \<open>nil\<close> only after \<open>f\<close> has succeeded and \<open>done\<close> is set, and otherwise an error
  that \<open>f\<close> returned; and when no goroutine holds the mutex, \<open>done\<close> is set exactly if \<open>f\<close> has succeeded
  (a failure or a panic leaves it armed).
\<close>

theorem Once_Do_exactly_once:
  assumes "reachable once_init once_step s"
  shows "(opc s i = OCalling \<and> opc s j = OCalling \<longrightarrow>
      i = j) \<and>
    (opc s i = OCalling \<longrightarrow>
      None \<notin> set (results s)) \<and>
    (None \<notin> set (butlast (results s))) \<and>
    (opc s i = OReturned None \<longrightarrow>
      (once_done s = 1 \<and> results s \<noteq> [] \<and> last (results s) = None)) \<and>
    (opc s i = OReturned (Some e) \<longrightarrow>
      Some e \<in> set (results s)) \<and>
    (once_m s = None \<longrightarrow>
      (once_done s = 1 \<longleftrightarrow> None \<in> set (results s)))"
  using Once_Do_exactly_once_parts [OF assms] by blast

text \<open>Two goroutines: the first call fails, the second runs \<open>f\<close> again and succeeds.\<close>

definition once_at :: "nat option \<Rightarrow> 32 word \<Rightarrow> 'e once_pc \<Rightarrow> 'e once_pc \<Rightarrow> 'e option list \<Rightarrow> 'e once_sys" where
  "once_at m d p0 p1 rs = \<lparr>once_m = m, once_done = d, opc = (\<lambda>_. OIdle)(0 := p0, 1 := p1), results = rs\<rparr>"

lemma once_at_init: "once_init = once_at None 0 OIdle OIdle []"
  by (auto simp: once_init_def once_at_def)

lemma once_at_failed: "reachable once_init once_step (once_at None 0 (OReturned (Some e)) OIdle [Some e])"
proof -
  have "reachable once_init once_step (once_at None 0 OIdle OIdle [])" by (metis once_at_init start)
  moreover have "once_step (once_at None 0 OIdle OIdle []) (once_at None 0 OLoad OIdle [])"
    using o_call [of "once_at None 0 OIdle OIdle []" 0] by (simp add: once_at_def fun_upd_twist [of "Suc 0" 0])
  moreover have "once_step (once_at None 0 OLoad OIdle []) (once_at None 0 OLocking OIdle [])"
    using o_slow [of "once_at None 0 OLoad OIdle []" 0] by (simp add: once_at_def fun_upd_twist [of "Suc 0" 0])
  moreover have "once_step (once_at None 0 OLocking OIdle []) (once_at (Some 0) 0 OLocked OIdle [])"
    using o_lock [of "once_at None 0 OLocking OIdle []" 0] by (simp add: once_at_def fun_upd_twist [of "Suc 0" 0])
  moreover have "once_step (once_at (Some 0) 0 OLocked OIdle []) (once_at (Some 0) 0 OCalling OIdle [])"
    using o_enter [of "once_at (Some 0) 0 OLocked OIdle []" 0] by (simp add: once_at_def fun_upd_twist [of "Suc 0" 0])
  moreover have "once_step (once_at (Some 0) 0 OCalling OIdle []) (once_at (Some 0) 0 (OUnlocking (Some e)) OIdle [Some e])"
    using o_error [of "once_at (Some 0) 0 OCalling OIdle []" 0 e] by (simp add: once_at_def fun_upd_twist [of "Suc 0" 0])
  moreover have "once_step (once_at (Some 0) 0 (OUnlocking (Some e)) OIdle [Some e]) (once_at None 0 (OReturned (Some e)) OIdle [Some e])"
    using o_unlock [of "once_at (Some 0) 0 (OUnlocking (Some e)) OIdle [Some e]" 0 "Some e"] by (simp add: once_at_def fun_upd_twist [of "Suc 0" 0])
  ultimately show ?thesis by (meson next_state)
qed

lemma once_at_again: "reachable once_init once_step (once_at (Some 1) 0 (OReturned (Some e)) OCalling [Some e])"
proof -
  have "reachable once_init once_step (once_at None 0 (OReturned (Some e)) OIdle [Some e])" by (rule once_at_failed)
  moreover have "once_step (once_at None 0 (OReturned (Some e)) OIdle [Some e]) (once_at None 0 (OReturned (Some e)) OLoad [Some e])"
    using o_call [of "once_at None 0 (OReturned (Some e)) OIdle [Some e]" 1] by (simp add: once_at_def fun_upd_twist [of "Suc 0" 0])
  moreover have "once_step (once_at None 0 (OReturned (Some e)) OLoad [Some e]) (once_at None 0 (OReturned (Some e)) OLocking [Some e])"
    using o_slow [of "once_at None 0 (OReturned (Some e)) OLoad [Some e]" 1] by (simp add: once_at_def fun_upd_twist [of "Suc 0" 0])
  moreover have "once_step (once_at None 0 (OReturned (Some e)) OLocking [Some e]) (once_at (Some 1) 0 (OReturned (Some e)) OLocked [Some e])"
    using o_lock [of "once_at None 0 (OReturned (Some e)) OLocking [Some e]" 1] by (simp add: once_at_def fun_upd_twist [of "Suc 0" 0])
  moreover have "once_step (once_at (Some 1) 0 (OReturned (Some e)) OLocked [Some e]) (once_at (Some 1) 0 (OReturned (Some e)) OCalling [Some e])"
    using o_enter [of "once_at (Some 1) 0 (OReturned (Some e)) OLocked [Some e]" 1] by (simp add: once_at_def fun_upd_twist [of "Suc 0" 0])
  ultimately show ?thesis by (meson next_state)
qed

lemma once_at_done: "reachable once_init once_step (once_at None 1 (OReturned (Some e)) (OReturned None) [Some e, None])"
proof -
  have "reachable once_init once_step (once_at (Some 1) 0 (OReturned (Some e)) OCalling [Some e])" by (rule once_at_again)
  moreover have "once_step (once_at (Some 1) 0 (OReturned (Some e)) OCalling [Some e]) (once_at (Some 1) 0 (OReturned (Some e)) OStoring [Some e, None])"
    using o_nil [of "once_at (Some 1) 0 (OReturned (Some e)) OCalling [Some e]" 1] by (simp add: once_at_def fun_upd_twist [of "Suc 0" 0])
  moreover have "once_step (once_at (Some 1) 0 (OReturned (Some e)) OStoring [Some e, None]) (once_at (Some 1) 1 (OReturned (Some e)) (OUnlocking None) [Some e, None])"
    using o_store [of "once_at (Some 1) 0 (OReturned (Some e)) OStoring [Some e, None]" 1] by (simp add: once_at_def fun_upd_twist [of "Suc 0" 0])
  moreover have "once_step (once_at (Some 1) 1 (OReturned (Some e)) (OUnlocking None) [Some e, None]) (once_at None 1 (OReturned (Some e)) (OReturned None) [Some e, None])"
    using o_unlock [of "once_at (Some 1) 1 (OReturned (Some e)) (OUnlocking None) [Some e, None]" 1 "None"] by (simp add: once_at_def fun_upd_twist [of "Suc 0" 0])
  ultimately show ?thesis by (meson next_state)
qed

theorem Once_Do_exactly_once_witness:
  "None \<notin> set (results (once_at (Some 1) 0 (OReturned (Some ''retry'')) OCalling [Some ''retry''])) \<and>
   once_done (once_at None 1 (OReturned (Some ''retry'')) (OReturned None) [Some ''retry'', None]) = 1 \<and>
   Some ''retry'' \<in> set (results (once_at None 1 (OReturned (Some ''retry'')) (OReturned None) [Some ''retry'', None]))"
  using Once_Do_exactly_once [OF once_at_again [of "''retry''"], where i = 1]
    Once_Do_exactly_once [OF once_at_done [of "''retry''"], where i = 1]
    Once_Do_exactly_once [OF once_at_done [of "''retry''"], where i = 0 and e = "''retry''"]
  by (simp add: once_at_def)

section \<open>Group\<close>

text \<open>The counter of the wait group and the errors; \<open>None\<close> below is a call that blocks.\<close>

record 'e Group =
  wg :: nat
  errs :: "'e list"

definition Group_Wait :: "'e Group \<Rightarrow> unit option" where
  "Group_Wait g = (if wg g = 0 then Some () else None)"

definition Group_Err :: "'e Group \<Rightarrow> 'e option option" where
  "Group_Err g = do { Group_Wait g; Some (case errs g of [] \<Rightarrow> None | e # _ \<Rightarrow> Some e) }"

definition Group_Errs :: "'e Group \<Rightarrow> 'e list option" where
  "Group_Errs g = do { Group_Wait g; Some (errs g) }"

text \<open>
  A task given to \<open>Go\<close>: in \<open>fn\<close>, before \<open>Lock\<close> with an error to record, before the deferred \<open>wg.Done\<close>
  with the error of \<open>fn\<close>, and finished.
\<close>

datatype 'e task = TNone | TRunning | TRecording 'e | TExiting "'e option" | TFinished "'e option"

record 'e group_sys =
  grp :: "'e Group"
  tpc :: "nat \<Rightarrow> 'e task"

inductive group_step :: "'e group_sys \<Rightarrow> 'e group_sys \<Rightarrow> bool" where
  t_go: "tpc s i = TNone \<Longrightarrow> group_step s (s\<lparr>grp := (grp s)\<lparr>wg := wg (grp s) + 1\<rparr>, tpc := (tpc s)(i := TRunning)\<rparr>)"
| t_nil: "tpc s i = TRunning \<Longrightarrow> group_step s (s\<lparr>tpc := (tpc s)(i := TExiting None)\<rparr>)"
| t_error: "tpc s i = TRunning \<Longrightarrow> group_step s (s\<lparr>tpc := (tpc s)(i := TRecording e)\<rparr>)"
| t_record: "tpc s i = TRecording e \<Longrightarrow>
    group_step s (s\<lparr>grp := (grp s)\<lparr>errs := errs (grp s) @ [e]\<rparr>, tpc := (tpc s)(i := TExiting (Some e))\<rparr>)"
| t_done: "tpc s i = TExiting r \<Longrightarrow>
    group_step s (s\<lparr>grp := (grp s)\<lparr>wg := wg (grp s) - 1\<rparr>, tpc := (tpc s)(i := TFinished r)\<rparr>)"

definition group_init :: "'e group_sys" where
  "group_init = \<lparr>grp = \<lparr>wg = 0, errs = []\<rparr>, tpc = (\<lambda>_. TNone)\<rparr>"

primrec unfinished :: "'e task \<Rightarrow> bool" where
  "unfinished TNone \<longleftrightarrow> False"
| "unfinished TRunning \<longleftrightarrow> True"
| "unfinished (TRecording e) \<longleftrightarrow> True"
| "unfinished (TExiting r) \<longleftrightarrow> True"
| "unfinished (TFinished r) \<longleftrightarrow> False"

primrec recorded :: "'e task \<Rightarrow> 'e option" where
  "recorded TNone = None"
| "recorded TRunning = None"
| "recorded (TRecording e) = None"
| "recorded (TExiting r) = r"
| "recorded (TFinished r) = r"

text \<open>The list of errors is that of the tasks, in some order.\<close>

definition errs_of :: "(nat \<rightharpoonup> 'e) \<Rightarrow> nat list \<Rightarrow> 'e list \<Rightarrow> bool" where
  "errs_of g ts es \<longleftrightarrow> distinct ts \<and> set ts = dom g \<and> map g ts = map Some es"

definition group_inv :: "'e group_sys \<Rightarrow> bool" where
  "group_inv s \<longleftrightarrow> finite {i. unfinished (tpc s i)} \<and> card {i. unfinished (tpc s i)} = wg (grp s) \<and>
     (\<exists>ts. errs_of (recorded \<circ> tpc s) ts (errs (grp s)))"

lemma unfinished_update:
  "{j. unfinished ((f(i := p)) j)} = (if unfinished p then insert i {j. unfinished (f j)} else {j. unfinished (f j)} - {i})"
  by auto

lemma recorded_same: "recorded p = recorded (f i) \<Longrightarrow> recorded \<circ> f(i := p) = recorded \<circ> f"
  by (auto simp: fun_eq_iff)

lemma errs_of_insert: "errs_of g ts es \<Longrightarrow> g i = None \<Longrightarrow> errs_of (g(i \<mapsto> e)) (ts @ [i]) (es @ [e])"
  by (auto simp: errs_of_def domIff intro!: trans [OF map_cong [OF refl]])

lemma group_inv_step:
  assumes "group_inv s" "group_step s s'"
  shows "group_inv s'"
  using assms(2,1)
proof (induction rule: group_step.induct)
  case (t_record s i e)
  then show ?case using errs_of_insert [of "recorded \<circ> tpc s" _ "errs (grp s)" i e]
    by (auto simp: group_inv_def unfinished_update insert_absorb fun_upd_comp simp del: fun_upd_apply)
qed (simp_all add: group_inv_def unfinished_update insert_absorb recorded_same del: fun_upd_apply)

interpretation group: invariant group_init group_step group_inv
proof unfold_locales
  show "group_inv group_init" by (auto simp: group_inv_def group_init_def errs_of_def)
qed (rule group_inv_step)

lemma Group_collects_errors_parts:
  assumes "reachable group_init group_step s"
  shows "tpc s i = TExiting r \<Longrightarrow> 0 < wg (grp s)"
    and "Group_Errs (grp s) = Some es \<Longrightarrow> tpc s i = TNone \<or> (\<exists>r. tpc s i = TFinished r)"
    and "Group_Errs (grp s) = Some es \<Longrightarrow>
      \<exists>ts. distinct ts \<and> set ts = {i. \<exists>e. tpc s i = TFinished (Some e)} \<and> map (tpc s) ts = map (TFinished \<circ> Some) es"
    and "Group_Err (grp s) = Some None \<longleftrightarrow> (\<forall>i. tpc s i = TNone \<or> tpc s i = TFinished None)"
proof -
  have inv: "group_inv s" using assms by (rule group.always)
  then obtain ts where ts: "errs_of (recorded \<circ> tpc s) ts (errs (grp s))" by (auto simp: group_inv_def)
  have zero: "wg (grp s) = 0 \<longleftrightarrow> (\<forall>i. \<not> unfinished (tpc s i))" using inv by (auto simp: group_inv_def)
  show "0 < wg (grp s)" if "tpc s i = TExiting r" using zero that by (metis gr0I unfinished.simps(4))
  have fin: "tpc s i = TNone \<or> (\<exists>r. tpc s i = TFinished r)" if "wg (grp s) = 0" for i
    using zero [THEN iffD1, OF that, rule_format, of i] by (cases "tpc s i") auto
  show "tpc s i = TNone \<or> (\<exists>r. tpc s i = TFinished r)" if "Group_Errs (grp s) = Some es"
    using that fin by (auto simp: Group_Errs_def Group_Wait_def split: if_splits)
  have rec: "recorded (tpc s i) = Some e \<longleftrightarrow> tpc s i = TFinished (Some e)" if "wg (grp s) = 0" for i e
    using fin [OF that, of i] by auto
  show "\<exists>ts. distinct ts \<and> set ts = {i. \<exists>e. tpc s i = TFinished (Some e)} \<and> map (tpc s) ts = map (TFinished \<circ> Some) es"
    if "Group_Errs (grp s) = Some es"
  proof (intro exI [of _ ts] conjI)
    have z: "wg (grp s) = 0" and es: "es = errs (grp s)" using that by (auto simp: Group_Errs_def Group_Wait_def split: if_splits)
    show "distinct ts" "set ts = {i. \<exists>e. tpc s i = TFinished (Some e)}" using ts rec [OF z] by (auto simp: errs_of_def)
    show "map (tpc s) ts = map (TFinished \<circ> Some) es"
      using ts rec [OF z] by (auto simp: errs_of_def es list_eq_iff_nth_eq)
  qed
  show "Group_Err (grp s) = Some None \<longleftrightarrow> (\<forall>i. tpc s i = TNone \<or> tpc s i = TFinished None)"
  proof
    assume a: "Group_Err (grp s) = Some None"
    then have "wg (grp s) = 0" "errs (grp s) = []" by (auto simp: Group_Err_def Group_Wait_def split: if_splits list.splits)
    then have "i \<notin> dom (recorded \<circ> tpc s)" "tpc s i = TNone \<or> (\<exists>r. tpc s i = TFinished r)" for i
      using ts fin by (auto simp: errs_of_def)
    then show "\<forall>i. tpc s i = TNone \<or> tpc s i = TFinished None" by (metis comp_apply domIff recorded.simps(5))
  next
    assume a: "\<forall>i. tpc s i = TNone \<or> tpc s i = TFinished None"
    have nu: "\<not> unfinished (tpc s i)" "recorded (tpc s i) = None" for i using a [rule_format, of i] by auto
    then have "dom (recorded \<circ> tpc s) = {}" by (auto simp: domIff)
    then have "ts = []" using ts by (simp add: errs_of_def)
    then have "errs (grp s) = []" using ts by (simp add: errs_of_def)
    with zero nu show "Group_Err (grp s) = Some None" by (simp add: Group_Err_def Group_Wait_def)
  qed
qed


text \<open>Two tasks, one of which fails.\<close>

definition group_at :: "nat \<Rightarrow> 'e list \<Rightarrow> 'e task \<Rightarrow> 'e task \<Rightarrow> 'e group_sys" where
  "group_at n es p0 p1 = \<lparr>grp = \<lparr>wg = n, errs = es\<rparr>, tpc = (\<lambda>_. TNone)(0 := p0, 1 := p1)\<rparr>"

lemma group_at_recorded: "reachable group_init group_step (group_at (Suc 1) [e] (TExiting None) (TExiting (Some e)))"
proof -
  have "group_init = group_at 0 [] TNone TNone" by (auto simp: group_init_def group_at_def)
  then have "reachable group_init group_step (group_at 0 [] TNone TNone)" by (metis start)
  moreover have "group_step (group_at 0 [] TNone TNone) (group_at 1 [] TRunning TNone)"
    using t_go [of "group_at 0 [] TNone TNone" 0] by (simp add: group_at_def fun_upd_twist [of "Suc 0" 0])
  moreover have "group_step (group_at 1 [] TRunning TNone) (group_at (Suc 1) [] TRunning TRunning)"
    using t_go [of "group_at 1 [] TRunning TNone" 1] by (simp add: group_at_def fun_upd_twist [of "Suc 0" 0])
  moreover have "group_step (group_at (Suc 1) [] TRunning TRunning) (group_at (Suc 1) [] TRunning (TRecording e))"
    using t_error [of "group_at (Suc 1) [] TRunning TRunning" 1 e] by (simp add: group_at_def fun_upd_twist [of "Suc 0" 0])
  moreover have "group_step (group_at (Suc 1) [] TRunning (TRecording e)) (group_at (Suc 1) [] (TExiting None) (TRecording e))"
    using t_nil [of "group_at (Suc 1) [] TRunning (TRecording e)" 0] by (simp add: group_at_def fun_upd_twist [of "Suc 0" 0])
  moreover have "group_step (group_at (Suc 1) [] (TExiting None) (TRecording e)) (group_at (Suc 1) [e] (TExiting None) (TExiting (Some e)))"
    using t_record [of "group_at (Suc 1) [] (TExiting None) (TRecording e)" 1 e] by (simp add: group_at_def fun_upd_twist [of "Suc 0" 0])
  ultimately show ?thesis by (meson next_state)
qed

lemma group_at_finished: "reachable group_init group_step (group_at 0 [e] (TFinished None) (TFinished (Some e)))"
proof -
  have "reachable group_init group_step (group_at (Suc 1) [e] (TExiting None) (TExiting (Some e)))" by (rule group_at_recorded)
  moreover have "group_step (group_at (Suc 1) [e] (TExiting None) (TExiting (Some e))) (group_at 1 [e] (TFinished None) (TExiting (Some e)))"
    using t_done [of "group_at (Suc 1) [e] (TExiting None) (TExiting (Some e))" 0 None] by (simp add: group_at_def fun_upd_twist [of "Suc 0" 0])
  moreover have "group_step (group_at 1 [e] (TFinished None) (TExiting (Some e))) (group_at 0 [e] (TFinished None) (TFinished (Some e)))"
    using t_done [of "group_at 1 [e] (TFinished None) (TExiting (Some e))" 1 "Some e"] by (simp add: group_at_def fun_upd_twist [of "Suc 0" 0])
  ultimately show ?thesis by (meson next_state)
qed


end
