(* ===== verification/Singleflight.thy ===== *)
theory Singleflight
  imports Transitions
begin

text \<open>
  The package \<open>syncutil/singleflight\<close>: the map of calls in flight, the calls on a heap of their own
  (callers share them by pointer) and the points of \<open>Do\<close>.
\<close>

text \<open>A call: its wait group and what \<open>fn\<close> returned (\<open>None\<close> until then). \<open>c_key\<close> is the key it was made for.\<close>

record ('k, 'r) call =
  c_wg :: nat
  c_res :: "'r option"
  c_key :: 'k

text \<open>
  Waiting in \<open>c.wg.Wait()\<close>; in \<open>fn\<close>; after the assignment of its results; after \<open>c.wg.Done()\<close>, before the
  deletion from the map; returned; and left by a panic of \<open>fn\<close>.
\<close>

datatype ('k, 'r) flight_pc =
  FIdle | FWaiting 'k nat | FRunning 'k nat | FStored 'k nat | FReleased 'k nat | FReturned 'k nat "'r option" | FPanicked 'k nat

record ('k, 'r) flight =
  sf_m :: "'k \<rightharpoonup> nat"
  sf_calls :: "nat \<rightharpoonup> ('k, 'r) call"
  sf_next :: nat
  fpc :: "nat \<Rightarrow> ('k, 'r) flight_pc"

inductive flight_step :: "('k, 'r) flight \<Rightarrow> ('k, 'r) flight \<Rightarrow> bool" where
  f_join: "fpc s i = FIdle \<Longrightarrow> sf_m s k = Some a \<Longrightarrow> flight_step s (s\<lparr>fpc := (fpc s)(i := FWaiting k a)\<rparr>)"
| f_new: "fpc s i = FIdle \<Longrightarrow> sf_m s k = None \<Longrightarrow>
    flight_step s (s\<lparr>sf_m := (sf_m s)(k \<mapsto> sf_next s), sf_calls := (sf_calls s)(sf_next s \<mapsto> \<lparr>c_wg = 1, c_res = None, c_key = k\<rparr>),
      sf_next := sf_next s + 1, fpc := (fpc s)(i := FRunning k (sf_next s))\<rparr>)"
| f_return: "fpc s i = FRunning k a \<Longrightarrow> sf_calls s a = Some c \<Longrightarrow>
    flight_step s (s\<lparr>sf_calls := (sf_calls s)(a \<mapsto> c\<lparr>c_res := Some r\<rparr>), fpc := (fpc s)(i := FStored k a)\<rparr>)"
| f_panic: "fpc s i = FRunning k a \<Longrightarrow> flight_step s (s\<lparr>fpc := (fpc s)(i := FPanicked k a)\<rparr>)"
| f_done: "fpc s i = FStored k a \<Longrightarrow> sf_calls s a = Some c \<Longrightarrow>
    flight_step s (s\<lparr>sf_calls := (sf_calls s)(a \<mapsto> c\<lparr>c_wg := c_wg c - 1\<rparr>), fpc := (fpc s)(i := FReleased k a)\<rparr>)"
| f_delete: "fpc s i = FReleased k a \<Longrightarrow> sf_calls s a = Some c \<Longrightarrow>
    flight_step s (s\<lparr>sf_m := (sf_m s)(k := None), fpc := (fpc s)(i := FReturned k a (c_res c))\<rparr>)"
| f_wake: "fpc s i = FWaiting k a \<Longrightarrow> sf_calls s a = Some c \<Longrightarrow> c_wg c = 0 \<Longrightarrow>
    flight_step s (s\<lparr>fpc := (fpc s)(i := FReturned k a (c_res c))\<rparr>)"
| f_again: "fpc s i = FReturned k a r \<Longrightarrow> flight_step s (s\<lparr>fpc := (fpc s)(i := FIdle)\<rparr>)"

definition flight_init :: "('k, 'r) flight" where
  "flight_init = \<lparr>sf_m = (\<lambda>_. None), sf_calls = (\<lambda>_. None), sf_next = 0, fpc = (\<lambda>_. FIdle)\<rparr>"

text \<open>The call a goroutine runs, from its entry in the map to its deletion.\<close>

primrec owns :: "('k, 'r) flight_pc \<Rightarrow> ('k \<times> nat) option" where
  "owns FIdle = None"
| "owns (FWaiting k a) = None"
| "owns (FRunning k a) = Some (k, a)"
| "owns (FStored k a) = Some (k, a)"
| "owns (FReleased k a) = Some (k, a)"
| "owns (FReturned k a r) = None"
| "owns (FPanicked k a) = Some (k, a)"

text \<open>What is known of the call from where a goroutine is.\<close>

primrec sees :: "(nat \<rightharpoonup> ('k, 'r) call) \<Rightarrow> ('k, 'r) flight_pc \<Rightarrow> bool" where
  "sees h FIdle \<longleftrightarrow> True"
| "sees h (FWaiting k a) \<longleftrightarrow> (\<exists>w r. h a = Some \<lparr>c_wg = w, c_res = r, c_key = k\<rparr>)"
| "sees h (FRunning k a) \<longleftrightarrow> h a = Some \<lparr>c_wg = 1, c_res = None, c_key = k\<rparr>"
| "sees h (FStored k a) \<longleftrightarrow> (\<exists>v. h a = Some \<lparr>c_wg = 1, c_res = Some v, c_key = k\<rparr>)"
| "sees h (FReleased k a) \<longleftrightarrow> (\<exists>v. h a = Some \<lparr>c_wg = 0, c_res = Some v, c_key = k\<rparr>)"
| "sees h (FReturned k a r) \<longleftrightarrow> r \<noteq> None \<and> h a = Some \<lparr>c_wg = 0, c_res = r, c_key = k\<rparr>"
| "sees h (FPanicked k a) \<longleftrightarrow> h a = Some \<lparr>c_wg = 1, c_res = None, c_key = k\<rparr>"

text \<open>A call whose wait group is not released has a goroutine that runs it.\<close>

definition served :: "('k, 'r) flight \<Rightarrow> nat \<Rightarrow> ('k, 'r) call \<Rightarrow> bool" where
  "served s a c \<longleftrightarrow> c_wg c = 0 \<and> c_res c \<noteq> None \<or>
     (\<exists>i k. fpc s i = FRunning k a \<or> fpc s i = FStored k a \<or> fpc s i = FPanicked k a)"

definition flight_inv :: "('k, 'r) flight \<Rightarrow> bool" where
  "flight_inv s \<longleftrightarrow> (\<forall>i. sees (sf_calls s) (fpc s i)) \<and> (\<forall>i k a. owns (fpc s i) = Some (k, a) \<longrightarrow> sf_m s k = Some a) \<and>
     (\<forall>i j x. owns (fpc s i) = Some x \<and> owns (fpc s j) = Some x \<longrightarrow> i = j) \<and>
     (\<forall>k a. sf_m s k = Some a \<longrightarrow> (\<exists>i. owns (fpc s i) = Some (k, a))) \<and>
     (\<forall>a c. sf_calls s a = Some c \<longrightarrow> a < sf_next s \<and> served s a c)"

lemma flight_invD:
  assumes "flight_inv s"
  shows "sees (sf_calls s) (fpc s i)" "owns (fpc s i) = Some (k, a) \<Longrightarrow> sf_m s k = Some a"
    "owns (fpc s i) = Some x \<Longrightarrow> owns (fpc s j) = Some x \<Longrightarrow> i = j"
    "sf_m s k = Some a \<Longrightarrow> \<exists>i. owns (fpc s i) = Some (k, a)"
    "sf_calls s a = Some c \<Longrightarrow> a < sf_next s" "sf_calls s a = Some c \<Longrightarrow> served s a c"
  using assms unfolding flight_inv_def by blast+

text \<open>A step of one goroutine that keeps what it owns and leaves alone the calls others have finished with.\<close>

lemma sees_frame:
  assumes "sees h p" "\<And>k w r. h a = Some \<lparr>c_wg = w, c_res = r, c_key = k\<rparr> \<Longrightarrow> w = 1 \<and> (\<exists>w' r'. h' a = Some \<lparr>c_wg = w', c_res = r', c_key = k\<rparr>)"
    and "\<And>b. b \<noteq> a \<Longrightarrow> h' b = h b \<or> h b = None" "\<And>k. owns p \<noteq> Some (k, a)"
  shows "sees h' p"
proof -
  have other: "h' b = Some c" if "b \<noteq> a" "h b = Some c" for b c using assms(3) [OF that(1)] that(2) by simp
  have same: "\<exists>w' r'. h' a = Some \<lparr>c_wg = w', c_res = r', c_key = k\<rparr>" "w = 1" if "h a = Some \<lparr>c_wg = w, c_res = r, c_key = k\<rparr>" for w r k
    using assms(2) [OF that] by auto
  show ?thesis
  proof (cases p)
    case (FWaiting k b)
    then obtain w r where b: "h b = Some \<lparr>c_wg = w, c_res = r, c_key = k\<rparr>" using assms(1) by auto
    then show ?thesis using FWaiting other [of b] same(1) by (cases "b = a") auto
  next
    case (FReturned k b r)
    then show ?thesis using assms(1) other [of b] same(2) by (cases "b = a") auto
  qed (use assms(1,4) other in auto)
qed

lemma flight_inv_same_owner:
  assumes "flight_inv s" "fpc s' = (fpc s)(i := p)" "owns p = owns (fpc s i)" "sf_m s' = sf_m s"
    and "sees (sf_calls s') p" "\<And>j. j \<noteq> i \<Longrightarrow> sees (sf_calls s') (fpc s j)"
    and "\<And>a c. sf_calls s' a = Some c \<Longrightarrow> a < sf_next s' \<and> served s' a c"
  shows "flight_inv s'"
proof -
  have o: "owns (fpc s' j) = owns (fpc s j)" for j using assms(2,3) by simp
  have "sees (sf_calls s') (fpc s' j)" for j using assms(2,5,6) by simp
  then show ?thesis using assms(1,7) unfolding flight_inv_def o assms(4) by blast
qed

lemma served_frame:
  assumes "served s a c" "fpc s' = (fpc s)(i := p)" "\<And>k. p = FRunning k a \<or> p = FStored k a \<or> p = FPanicked k a
    \<or> \<not> (fpc s i = FRunning k a \<or> fpc s i = FStored k a \<or> fpc s i = FPanicked k a)"
  shows "served s' a c"
proof (cases "c_wg c = 0 \<and> c_res c \<noteq> None")
  case False
  then obtain j k where j: "fpc s j = FRunning k a \<or> fpc s j = FStored k a \<or> fpc s j = FPanicked k a"
    using assms(1) by (auto simp: served_def)
  then have "fpc s' j = FRunning k a \<or> fpc s' j = FStored k a \<or> fpc s' j = FPanicked k a"
    using assms(2) assms(3) [of k] by (cases "j = i") auto
  then show ?thesis by (auto simp: served_def)
qed (simp add: served_def)

text \<open>A step that changes nothing but the point the goroutine has reached.\<close>

lemma flight_inv_move:
  assumes "flight_inv s" "owns p = owns (fpc s i)" "sees (sf_calls s) p"
    and "\<And>k a. p = FRunning k a \<or> p = FStored k a \<or> p = FPanicked k a
      \<or> \<not> (fpc s i = FRunning k a \<or> fpc s i = FStored k a \<or> fpc s i = FPanicked k a)"
  shows "flight_inv (s\<lparr>fpc := (fpc s)(i := p)\<rparr>)"
proof (rule flight_inv_same_owner [OF assms(1), of _ i p])
  fix a c
  assume "sf_calls (s\<lparr>fpc := (fpc s)(i := p)\<rparr>) a = Some c"
  then have c: "sf_calls s a = Some c" by simp
  show "a < sf_next (s\<lparr>fpc := (fpc s)(i := p)\<rparr>) \<and> served (s\<lparr>fpc := (fpc s)(i := p)\<rparr>) a c"
    using flight_invD(5) [OF assms(1) c] served_frame [OF flight_invD(6) [OF assms(1) c], of _ i p] assms(4) by simp
qed (use assms flight_invD(1) in auto)

text \<open>A step of the owner of a call, still unreleased, that writes to it.\<close>

lemma flight_inv_write:
  assumes "flight_inv s" "owns p = owns (fpc s i)" "owns p = Some (k, a)" "sf_calls s a = Some \<lparr>c_wg = 1, c_res = r, c_key = k\<rparr>"
    and "c_key c' = k" "sees ((sf_calls s)(a \<mapsto> c')) p" "c_wg c' = 0 \<and> c_res c' \<noteq> None \<or> p = FStored k a"
  shows "flight_inv (s\<lparr>sf_calls := (sf_calls s)(a \<mapsto> c'), fpc := (fpc s)(i := p)\<rparr>)" (is "flight_inv ?s")
proof (rule flight_inv_same_owner [OF assms(1), of _ i p])
  fix j
  assume j: "j \<noteq> i"
  have "owns (fpc s j) \<noteq> Some (k', a)" for k'
  proof
    assume o: "owns (fpc s j) = Some (k', a)"
    have "k' = k" using flight_invD(1) [OF assms(1), of j] o assms(4) by (cases "fpc s j") auto
    then show False using flight_invD(3) [OF assms(1), of i "(k, a)" j] o assms(2,3) j by simp
  qed
  moreover obtain w' r' where "c' = \<lparr>c_wg = w', c_res = r', c_key = k\<rparr>" using assms(5) by (cases c') auto
  ultimately show "sees (sf_calls ?s) (fpc s j)"
    using assms(4) by (intro sees_frame [OF flight_invD(1) [OF assms(1), of j], of a]) auto
next
  fix b c
  assume b: "sf_calls ?s b = Some c"
  show "b < sf_next ?s \<and> served ?s b c"
  proof (cases "b = a")
    case True
    then show ?thesis using b assms(7) flight_invD(5) [OF assms(1,4)] by (auto simp: served_def)
  next
    case False
    then have c: "sf_calls s b = Some c" using b by simp
    have "served ?s b c"
      using assms(2,3) False by (intro served_frame [OF flight_invD(6) [OF assms(1) c], of _ i p]) auto
    then show ?thesis using flight_invD(5) [OF assms(1) c] by simp
  qed
qed (use assms in auto)

lemma flight_inv_new:
  assumes "flight_inv s" "fpc s i = FIdle" "sf_m s k = None"
  shows "flight_inv (s\<lparr>sf_m := (sf_m s)(k \<mapsto> sf_next s), sf_calls := (sf_calls s)(sf_next s \<mapsto> \<lparr>c_wg = 1, c_res = None, c_key = k\<rparr>),
      sf_next := sf_next s + 1, fpc := (fpc s)(i := FRunning k (sf_next s))\<rparr>)" (is "flight_inv ?s")
proof -
  note inv = flight_invD [OF assms(1)]
  have none: "sf_calls s (sf_next s) = None" using inv(5) by (metis less_irrefl option.exhaust)
  have fresh: "owns (fpc s j) \<noteq> Some (k', sf_next s)" "owns (fpc s j) \<noteq> Some (k, b)" for j k' b
    using inv(1) [of j] inv(2) [of j k b] assms(3) none by (cases "fpc s j"; auto)+
  have "sees (sf_calls ?s) (fpc ?s j)" for j
    using inv(1) [of j] none fresh by (cases "j = i") (auto intro: sees_frame [of "sf_calls s" _ "sf_next s"])
  moreover have "owns (fpc ?s j) = Some (k', b) \<longrightarrow> sf_m ?s k' = Some b" for j k' b
    using inv(2) [of j k' b] fresh(2) [of j] by auto
  moreover have "owns (fpc ?s j) = Some x \<and> owns (fpc ?s l) = Some x \<longrightarrow> j = l" for j l x
    using inv(3) [of j x l] fresh(1) [of j] fresh(1) [of l] by auto
  moreover have "\<exists>j. owns (fpc ?s j) = Some (k', b)" if m: "sf_m ?s k' = Some b" for k' b
  proof (cases "k' = k")
    case True
    then show ?thesis using m by (intro exI [of _ i]) simp
  next
    case False
    then obtain j where "owns (fpc s j) = Some (k', b)" using m inv(4) by auto
    moreover from this have "j \<noteq> i" using assms(2) by auto
    ultimately show ?thesis by (intro exI [of _ j]) simp
  qed
  moreover have "sf_calls ?s b = Some c \<longrightarrow> b < sf_next ?s \<and> served ?s b c" for b c
  proof (cases "b = sf_next s")
    case False
    then have "served ?s b c" if "sf_calls s b = Some c"
      using assms(2) by (intro served_frame [OF inv(6) [OF that], of _ i]) auto
    then show ?thesis using inv(5) False by (auto dest!: inv(5))
  qed (auto simp: served_def)
  ultimately show ?thesis unfolding flight_inv_def by blast
qed

lemma flight_inv_delete:
  assumes "flight_inv s" "fpc s i = FReleased k a" "sf_calls s a = Some c"
  shows "flight_inv (s\<lparr>sf_m := (sf_m s)(k := None), fpc := (fpc s)(i := FReturned k a (c_res c))\<rparr>)" (is "flight_inv ?s")
proof -
  note inv = flight_invD [OF assms(1)]
  have mk: "sf_m s k = Some a" using inv(2) [of i k a] assms(2) by simp
  have "sees (sf_calls ?s) (fpc ?s j)" for j
    using inv(1) [of j] inv(1) [of i] assms(2,3) by auto
  moreover have "owns (fpc ?s j) = Some (k', b) \<longrightarrow> sf_m ?s k' = Some b" for j k' b
  proof (intro impI)
    assume "owns (fpc ?s j) = Some (k', b)"
    then have j: "j \<noteq> i" "owns (fpc s j) = Some (k', b)" by (auto split: if_splits)
    then have "sf_m s k' = Some b" using inv(2) by blast
    moreover have "k' \<noteq> k" using inv(3) [of i "(k, a)" j] mk j assms(2) calculation by auto
    ultimately show "sf_m ?s k' = Some b" by simp
  qed
  moreover have "owns (fpc ?s j) = Some x \<and> owns (fpc ?s l) = Some x \<longrightarrow> j = l" for j l x
    using inv(3) [of j x l] by auto
  moreover have "sf_m ?s k' = Some b \<longrightarrow> (\<exists>j. owns (fpc ?s j) = Some (k', b))" for k' b
  proof
    assume m: "sf_m ?s k' = Some b"
    then have "k' \<noteq> k" "sf_m s k' = Some b" by (auto split: if_splits)
    then obtain j where "owns (fpc s j) = Some (k', b)" "j \<noteq> i" using inv(4) assms(2) by fastforce
    then show "\<exists>j. owns (fpc ?s j) = Some (k', b)" by (intro exI [of _ j]) simp
  qed
  moreover have "sf_calls ?s b = Some c' \<longrightarrow> b < sf_next ?s \<and> served ?s b c'" for b c'
    using inv(5) [of b c'] served_frame [OF inv(6), of b c' ?s i] assms(2) by auto
  ultimately show ?thesis unfolding flight_inv_def by blast
qed

lemma flight_inv_step:
  assumes "flight_inv s" "flight_step s s'"
  shows "flight_inv s'"
  using assms(2,1)
proof (induction rule: flight_step.induct)
  case (f_join s i k a)
  obtain j where "owns (fpc s j) = Some (k, a)" using flight_invD(4) [OF f_join(3,2)] by blast
  then have "\<exists>w r. sf_calls s a = Some \<lparr>c_wg = w, c_res = r, c_key = k\<rparr>"
    using flight_invD(1) [OF f_join(3), of j] by (cases "fpc s j") auto
  then show ?case using f_join by (intro flight_inv_move [OF f_join(3)]) auto
next
  case (f_new s i k)
  show ?case by (rule flight_inv_new [OF f_new(3,1,2)])
next
  case (f_return s i k a c r)
  have "c = \<lparr>c_wg = 1, c_res = None, c_key = k\<rparr>" using flight_invD(1) [OF f_return(3), of i] f_return(1,2) by simp
  then show ?case using f_return(1,2) by (intro flight_inv_write [OF f_return(3)]) auto
next
  case (f_panic s i k a)
  show ?case using flight_invD(1) [OF f_panic(2), of i] f_panic(1) by (intro flight_inv_move [OF f_panic(2)]) auto
next
  case (f_done s i k a c)
  obtain v where "c = \<lparr>c_wg = 1, c_res = Some v, c_key = k\<rparr>" using flight_invD(1) [OF f_done(3), of i] f_done(1,2) by auto
  then show ?case using f_done(1,2) by (intro flight_inv_write [OF f_done(3)]) auto
next
  case (f_delete s i k a c)
  show ?case by (rule flight_inv_delete [OF f_delete(3,1,2)])
next
  case (f_wake s i k a c)
  obtain w r where c: "c = \<lparr>c_wg = w, c_res = r, c_key = k\<rparr>" using flight_invD(1) [OF f_wake(4), of i] f_wake(1,2) by auto
  have "r \<noteq> None"
  proof (rule ccontr)
    assume "\<not> r \<noteq> None"
    then obtain j k' where "fpc s j = FRunning k' a \<or> fpc s j = FStored k' a \<or> fpc s j = FPanicked k' a"
      using flight_invD(6) [OF f_wake(4,2)] c by (auto simp: served_def)
    then show False using flight_invD(1) [OF f_wake(4), of j] f_wake(2,3) by auto
  qed
  then show ?case using f_wake(1-3) c by (intro flight_inv_move [OF f_wake(4)]) auto
next
  case (f_again s i k a r)
  show ?case using f_again(1) by (intro flight_inv_move [OF f_again(2)]) auto
qed

interpretation flight: invariant flight_init flight_step flight_inv
proof unfold_locales
  show "flight_inv flight_init" by (simp add: flight_inv_def flight_init_def)
qed (rule flight_inv_step)

lemma singleflight_Do_parts:
  assumes "reachable flight_init flight_step s"
  shows "fpc s i = FRunning k a \<Longrightarrow> fpc s j = FRunning k b \<Longrightarrow> i = j \<and> a = b"
    and "fpc s i = FReturned k a r \<Longrightarrow> \<exists>c v. sf_calls s a = Some c \<and> c_key c = k \<and> c_res c = Some v \<and> r = Some v"
    and "fpc s i = FReturned k a r \<Longrightarrow> fpc s j = FReturned k' a r' \<Longrightarrow> k' = k \<and> r' = r"
    and "fpc s i = FWaiting k a \<Longrightarrow> (\<exists>s'. flight_step s s' \<and> (\<exists>v. fpc s' i = FReturned k a (Some v))) \<or>
      (\<exists>j. fpc s j = FRunning k a \<or> fpc s j = FStored k a \<or> fpc s j = FPanicked k a)"
proof -
  note inv = flight_invD [OF flight.always [OF assms]]
  show "i = j \<and> a = b" if "fpc s i = FRunning k a" "fpc s j = FRunning k b"
    using inv(2) [of i k a] inv(2) [of j k b] inv(3) [of i "(k, a)" j] that by simp
  show "\<exists>c v. sf_calls s a = Some c \<and> c_key c = k \<and> c_res c = Some v \<and> r = Some v" if "fpc s i = FReturned k a r"
    using inv(1) [of i] that by auto
  show "k' = k \<and> r' = r" if "fpc s i = FReturned k a r" "fpc s j = FReturned k' a r'"
    using inv(1) [of i] inv(1) [of j] that by auto
  show "(\<exists>s'. flight_step s s' \<and> (\<exists>v. fpc s' i = FReturned k a (Some v))) \<or>
      (\<exists>j. fpc s j = FRunning k a \<or> fpc s j = FStored k a \<or> fpc s j = FPanicked k a)" if w: "fpc s i = FWaiting k a"
  proof -
    obtain n r where c: "sf_calls s a = Some \<lparr>c_wg = n, c_res = r, c_key = k\<rparr>" using inv(1) [of i] w by auto
    show ?thesis
    proof (cases "n = 0 \<and> r \<noteq> None")
      case True
      then obtain v where "flight_step s (s\<lparr>fpc := (fpc s)(i := FReturned k a (Some v))\<rparr>)" using f_wake [OF w c] by auto
      then show ?thesis by (intro disjI1 exI conjI) auto
    next
      case False
      then obtain j k' where j: "fpc s j = FRunning k' a \<or> fpc s j = FStored k' a \<or> fpc s j = FPanicked k' a"
        using inv(6) [OF c] by (auto simp: served_def)
      moreover have "k' = k" using j inv(1) [of j] c by auto
      ultimately show ?thesis by blast
    qed
  qed
qed

text \<open>
  C25: Whatever the interleaving of calls of \<open>Do\<close>, at most one goroutine executes \<open>fn\<close> for a key at a
  time; a call for a key returns exactly what an execution of \<open>fn\<close> for that key returned, and all the
  callers that joined the same execution return the same; and a caller that waits is either free to go on or
  waits for a goroutine that is still executing \<open>fn\<close> for the same key, has just finished it, or
  was left by a panic of \<open>fn\<close>.
\<close>

theorem singleflight_Do:
  assumes "reachable flight_init flight_step s"
  shows "(fpc s i = FRunning k a \<and> fpc s j = FRunning k b \<longrightarrow>
      (i = j \<and> a = b)) \<and>
    (fpc s i = FReturned k a r \<longrightarrow>
      (\<exists>c v. sf_calls s a = Some c \<and> c_key c = k \<and> c_res c = Some v \<and> r = Some v)) \<and>
    (fpc s i = FReturned k a r \<and> fpc s j = FReturned k' a r' \<longrightarrow>
      (k' = k \<and> r' = r)) \<and>
    (fpc s i = FWaiting k a \<longrightarrow>
      ((\<exists>s'. flight_step s s' \<and> (\<exists>v. fpc s' i = FReturned k a (Some v))) \<or> (\<exists>j. fpc s j = FRunning k a \<or> fpc s j = FStored k a \<or> fpc s j = FPanicked k a)))"
  using singleflight_Do_parts(1) [OF assms, of i k a j b] singleflight_Do_parts(2) [OF assms, of i k a r]
    singleflight_Do_parts(3) [OF assms, of i k a r j k' r'] singleflight_Do_parts(4) [OF assms, of i k a] by blast

lemma singleflight_panic_blocks_key_parts:
  assumes "reachable flight_init flight_step s" "fpc s i = FPanicked k a" "reachable s flight_step s'"
  shows "sf_m s' k = Some a" "\<exists>c. sf_calls s' a = Some c \<and> c_wg c = 1" "fpc s' j \<noteq> FReturned k' a r"
proof -
  have p: "fpc s' i = FPanicked k a"
    using assms(3,2) by (induction rule: reachable.induct) (auto elim!: flight_step.cases)
  note inv = flight_invD [OF flight.always [OF reachable_trans [OF assms(3,1)]]]
  have h: "sf_calls s' a = Some \<lparr>c_wg = 1, c_res = None, c_key = k\<rparr>" using inv(1) [of i] p by simp
  then show "\<exists>c. sf_calls s' a = Some c \<and> c_wg c = 1" by simp
  show "sf_m s' k = Some a" using inv(2) [of i k a] p by simp
  show "fpc s' j \<noteq> FReturned k' a r" using inv(1) [of j] h by auto
qed

text \<open>
  If \<open>fn\<close> panics for a key, the call is never released and never deleted from the map: from then on every
  caller of \<open>Do\<close> for that key joins it, and none of those that joined it ever returns.
\<close>

theorem singleflight_panic_blocks_key:
  assumes "reachable flight_init flight_step s" "fpc s i = FPanicked k a" "reachable s flight_step s'"
  shows "(sf_m s' k = Some a) \<and>
    (\<exists>c. sf_calls s' a = Some c \<and> c_wg c = 1) \<and>
    (fpc s' j \<noteq> FReturned k' a r)"
  using singleflight_panic_blocks_key_parts [OF assms] by blast

text \<open>One goroutine runs the call, a second waits for it.\<close>

definition flight_at :: "('k \<rightharpoonup> nat) \<Rightarrow> ('k, 'r) call option \<Rightarrow> ('k, 'r) flight_pc \<Rightarrow> ('k, 'r) flight_pc \<Rightarrow> ('k, 'r) flight" where
  "flight_at m c p0 p1 = \<lparr>sf_m = m, sf_calls = (\<lambda>_. None)(0 := c), sf_next = (if c = None then 0 else 1),
     fpc = (\<lambda>_. FIdle)(0 := p0, 1 := p1)\<rparr>"

lemma flight_at_waiting:
  fixes k :: 'k
  shows "reachable flight_init flight_step (flight_at [k \<mapsto> 0] (Some \<lparr>c_wg = 1, c_res = None, c_key = k\<rparr>) (FRunning k 0) (FWaiting k 0) :: ('k, 'r) flight)"
proof -
  have "(flight_init :: ('k, 'r) flight) = flight_at Map.empty None FIdle FIdle" by (auto simp: flight_init_def flight_at_def)
  then have "reachable flight_init flight_step (flight_at Map.empty None FIdle FIdle :: ('k, 'r) flight)" by (metis start)
  moreover have "flight_step (flight_at Map.empty None FIdle FIdle)
      (flight_at [k \<mapsto> 0] (Some \<lparr>c_wg = 1, c_res = None, c_key = k\<rparr>) (FRunning k 0) FIdle :: ('k, 'r) flight)"
    using f_new [of "flight_at Map.empty None FIdle FIdle" 0 k]
    by (simp add: flight_at_def fun_upd_twist [of "Suc 0" 0])
  moreover have "flight_step (flight_at [k \<mapsto> 0] (Some \<lparr>c_wg = 1, c_res = None, c_key = k\<rparr>) (FRunning k 0) FIdle)
      (flight_at [k \<mapsto> 0] (Some \<lparr>c_wg = 1, c_res = None, c_key = k\<rparr>) (FRunning k 0) (FWaiting k 0) :: ('k, 'r) flight)"
    using f_join [of "flight_at [k \<mapsto> 0] (Some \<lparr>c_wg = 1, c_res = None, c_key = k\<rparr>) (FRunning k 0) FIdle" 1 k 0]
    by (simp add: flight_at_def fun_upd_twist [of "Suc 0" 0])
  ultimately show ?thesis by (meson next_state)
qed

lemma flight_at_returned:
  fixes k :: 'k
  shows "reachable flight_init flight_step (flight_at Map.empty (Some \<lparr>c_wg = 0, c_res = Some v, c_key = k\<rparr>) (FReturned k 0 (Some v)) (FReturned k 0 (Some v)) :: ('k, 'r) flight)"
proof -
  have "reachable flight_init flight_step (flight_at [k \<mapsto> 0] (Some \<lparr>c_wg = 1, c_res = None, c_key = k\<rparr>) (FRunning k 0) (FWaiting k 0) :: ('k, 'r) flight)" by (rule flight_at_waiting)
  moreover have "flight_step (flight_at [k \<mapsto> 0] (Some \<lparr>c_wg = 1, c_res = None, c_key = k\<rparr>) (FRunning k 0) (FWaiting k 0))
      (flight_at [k \<mapsto> 0] (Some \<lparr>c_wg = 1, c_res = Some v, c_key = k\<rparr>) (FStored k 0) (FWaiting k 0) :: ('k, 'r) flight)"
    using f_return [of "flight_at [k \<mapsto> 0] (Some \<lparr>c_wg = 1, c_res = None, c_key = k\<rparr>) (FRunning k 0) (FWaiting k 0)" 0 k 0 "\<lparr>c_wg = 1, c_res = None, c_key = k\<rparr>" v]
    by (simp add: flight_at_def fun_upd_twist [of "Suc 0" 0])
  moreover have "flight_step (flight_at [k \<mapsto> 0] (Some \<lparr>c_wg = 1, c_res = Some v, c_key = k\<rparr>) (FStored k 0) (FWaiting k 0))
      (flight_at [k \<mapsto> 0] (Some \<lparr>c_wg = 0, c_res = Some v, c_key = k\<rparr>) (FReleased k 0) (FWaiting k 0) :: ('k, 'r) flight)"
    using f_done [of "flight_at [k \<mapsto> 0] (Some \<lparr>c_wg = 1, c_res = Some v, c_key = k\<rparr>) (FStored k 0) (FWaiting k 0)" 0 k 0 "\<lparr>c_wg = 1, c_res = Some v, c_key = k\<rparr>"]
    by (simp add: flight_at_def fun_upd_twist [of "Suc 0" 0])
  moreover have "flight_step (flight_at [k \<mapsto> 0] (Some \<lparr>c_wg = 0, c_res = Some v, c_key = k\<rparr>) (FReleased k 0) (FWaiting k 0))
      (flight_at Map.empty (Some \<lparr>c_wg = 0, c_res = Some v, c_key = k\<rparr>) (FReturned k 0 (Some v)) (FWaiting k 0) :: ('k, 'r) flight)"
    using f_delete [of "flight_at [k \<mapsto> 0] (Some \<lparr>c_wg = 0, c_res = Some v, c_key = k\<rparr>) (FReleased k 0) (FWaiting k 0)" 0 k 0 "\<lparr>c_wg = 0, c_res = Some v, c_key = k\<rparr>"]
    by (simp add: flight_at_def fun_upd_twist [of "Suc 0" 0])
  moreover have "flight_step (flight_at Map.empty (Some \<lparr>c_wg = 0, c_res = Some v, c_key = k\<rparr>) (FReturned k 0 (Some v)) (FWaiting k 0))
      (flight_at Map.empty (Some \<lparr>c_wg = 0, c_res = Some v, c_key = k\<rparr>) (FReturned k 0 (Some v)) (FReturned k 0 (Some v)) :: ('k, 'r) flight)"
    using f_wake [of "flight_at Map.empty (Some \<lparr>c_wg = 0, c_res = Some v, c_key = k\<rparr>) (FReturned k 0 (Some v)) (FWaiting k 0)" 1 k 0 "\<lparr>c_wg = 0, c_res = Some v, c_key = k\<rparr>"]
    by (simp add: flight_at_def fun_upd_twist [of "Suc 0" 0])
  ultimately show ?thesis by (meson next_state)
qed

lemma flight_at_panicked:
  fixes k :: 'k
  shows "reachable flight_init flight_step (flight_at [k \<mapsto> 0] (Some \<lparr>c_wg = 1, c_res = None, c_key = k\<rparr>) (FPanicked k 0) (FWaiting k 0) :: ('k, 'r) flight)"
proof -
  have "reachable flight_init flight_step (flight_at [k \<mapsto> 0] (Some \<lparr>c_wg = 1, c_res = None, c_key = k\<rparr>) (FRunning k 0) (FWaiting k 0) :: ('k, 'r) flight)" by (rule flight_at_waiting)
  moreover have "flight_step (flight_at [k \<mapsto> 0] (Some \<lparr>c_wg = 1, c_res = None, c_key = k\<rparr>) (FRunning k 0) (FWaiting k 0))
      (flight_at [k \<mapsto> 0] (Some \<lparr>c_wg = 1, c_res = None, c_key = k\<rparr>) (FPanicked k 0) (FWaiting k 0) :: ('k, 'r) flight)"
    using f_panic [of "flight_at [k \<mapsto> 0] (Some \<lparr>c_wg = 1, c_res = None, c_key = k\<rparr>) (FRunning k 0) (FWaiting k 0)" 0 k 0]
    by (simp add: flight_at_def fun_upd_twist [of "Suc 0" 0])
  ultimately show ?thesis by (meson next_state)
qed

theorem singleflight_Do_witness:
  "(\<exists>c v. sf_calls (flight_at Map.empty (Some \<lparr>c_wg = 0, c_res = Some (7 :: int), c_key = ''k''\<rparr>) (FReturned ''k'' 0 (Some 7)) (FReturned ''k'' 0 (Some 7))) 0 =
     Some c \<and> c_key c = ''k'' \<and> c_res c = Some v \<and> Some 7 = Some v) \<and>
   (\<exists>j. fpc (flight_at [''k'' \<mapsto> 0] (Some \<lparr>c_wg = 1, c_res = None :: int option, c_key = ''k''\<rparr>) (FRunning ''k'' 0) (FWaiting ''k'' 0)) j = FRunning ''k'' 0)"
proof
  let ?w = "flight_at [''k'' \<mapsto> 0] (Some \<lparr>c_wg = 1, c_res = None :: int option, c_key = ''k''\<rparr>) (FRunning ''k'' 0) (FWaiting ''k'' 0)"
  show "\<exists>c v. sf_calls (flight_at Map.empty (Some \<lparr>c_wg = 0, c_res = Some (7 :: int), c_key = ''k''\<rparr>) (FReturned ''k'' 0 (Some 7)) (FReturned ''k'' 0 (Some 7))) 0 =
     Some c \<and> c_key c = ''k'' \<and> c_res c = Some v \<and> Some 7 = Some v"
    by (rule singleflight_Do [OF flight_at_returned, where i = 1, THEN conjunct2, THEN conjunct1, rule_format]) (simp add: flight_at_def)
  have "fpc ?w 1 = FWaiting ''k'' 0" "fpc ?w j \<noteq> FStored ''k'' 0" "fpc ?w j \<noteq> FPanicked ''k'' 0" for j
    by (auto simp: flight_at_def)
  moreover have "\<not> flight_step ?w s'" if "fpc s' 1 = FReturned ''k'' 0 (Some v)" for s' v
  proof
    assume "flight_step ?w s'"
    then show False using that by cases (auto simp: flight_at_def split: if_splits)
  qed
  ultimately show "\<exists>j. fpc ?w j = FRunning ''k'' 0"
    using singleflight_Do [OF flight_at_waiting, where i = 1 and k = "''k''" and a = 0, THEN conjunct2, THEN conjunct2, THEN conjunct2] by blast
qed

theorem singleflight_panic_blocks_key_witness:
  "sf_m (flight_at [''k'' \<mapsto> 0] (Some \<lparr>c_wg = 1, c_res = None :: int option, c_key = ''k''\<rparr>) (FPanicked ''k'' 0) (FWaiting ''k'' 0)) ''k'' = Some 0"
  by (rule singleflight_panic_blocks_key [OF flight_at_panicked _ start, where i = 0, THEN conjunct1]) (simp add: flight_at_def)

end
