(* ===== verification/Strutil.thy ===== *)
theory Strutil
  imports Go4_Prelude "HOL-Library.Sublist"
begin

text \<open>
  The package \<open>strutil\<close> less its case folding: number parsing (\<open>strconv.go\<close>), splitting and the JSON
  heuristics (\<open>strutil.go\<close>) and interning (\<open>intern.go\<close>).
\<close>

section \<open>ParseUintBytes\<close>

datatype num_error = ErrSyntax | ErrRange | InvalidBase int

text \<open>\<open>strconv.NumError\<close>: the input and the cause.\<close>

type_synonym NumError = "bytes \<times> num_error"

definition cutoff64 :: "int \<Rightarrow> 64 word" where
  "cutoff64 base = (if base < 2 then 0 else (- 1) div of_int base + 1)"

definition digit_value :: "byte \<Rightarrow> byte option" where
  "digit_value d =
     (if 48 \<le> d \<and> d \<le> 57 then Some (d - 48)
      else if 97 \<le> d \<and> d \<le> 122 then Some (d - 97 + 10)
      else if 65 \<le> d \<and> d \<le> 90 then Some (d - 65 + 10)
      else None)"

primrec parse_digits :: "bytes \<Rightarrow> int \<Rightarrow> 64 word \<Rightarrow> 64 word \<Rightarrow> 64 word \<Rightarrow> 64 word \<times> num_error option" where
  "parse_digits [] base cutoff maxVal n = (n, None)"
| "parse_digits (d # s) base cutoff maxVal n = (case digit_value d of
     None \<Rightarrow> (0, Some ErrSyntax)
   | Some v \<Rightarrow>
       if uint v \<ge> base then (0, Some ErrSyntax)
       else if n \<ge> cutoff then (- 1, Some ErrRange)
       else let n = n * of_int base; n1 = n + ucast v in
         if n1 < n \<or> n1 > maxVal then (- 1, Some ErrRange)
         else parse_digits s base cutoff maxVal n1)"

text \<open>The base and the digits that are left, or the error that ends the call.\<close>

definition choose_base :: "bytes \<Rightarrow> int \<Rightarrow> num_error + (int \<times> bytes)" where
  "choose_base s base =
     (if length s < 1 then Inl ErrSyntax
      else if 2 \<le> base \<and> base \<le> 36 then Inr (base, s)
      else if base = 0 then
        (if s ! 0 = 48 \<and> length s > 1 \<and> (s ! 1 = 120 \<or> s ! 1 = 88) then
           (let s = drop 2 s in if length s < 1 then Inl ErrSyntax else Inr (16, s))
         else if s ! 0 = 48 then Inr (8, s)
         else Inr (10, s))
      else Inl (InvalidBase base))"

definition ParseUintBytes :: "bytes \<Rightarrow> int \<Rightarrow> int \<Rightarrow> 64 word \<times> NumError option" where
  "ParseUintBytes s base bitSize =
     (let bitSize = (if bitSize = 0 then 64 else bitSize) in
      case choose_base s base of
        Inl e \<Rightarrow> (0, Some (s, e))
      | Inr (base, s') \<Rightarrow>
          let cutoff = cutoff64 base; maxVal = push_bit (unat (of_int bitSize :: 64 word)) 1 - 1;
              (n, err) = parse_digits s' base cutoff maxVal 0 in
          (n, map_option (Pair s) err))"

section \<open>AppendSplitN\<close>

text \<open>\<open>strings.Count\<close> of a separator that is not empty: its occurrences that do not overlap.\<close>

function strings_Count :: "bytes \<Rightarrow> bytes \<Rightarrow> nat" where
  "strings_Count s sep =
     (if s = [] \<or> sep = [] then 0
      else if take (length sep) s = sep then 1 + strings_Count (drop (length sep) s) sep
      else strings_Count (tl s) sep)"
  by pat_completeness auto
termination
  by (relation "measure (\<lambda>(s, sep). length s)") auto

declare strings_Count.simps [simp del]

function split_loop :: "bytes \<Rightarrow> bytes \<Rightarrow> nat \<Rightarrow> int \<Rightarrow> nat \<Rightarrow> nat \<Rightarrow> int \<Rightarrow> bytes list \<Rightarrow> bytes list option" where
  "split_loop s sep sepSave n i start na dst =
     (if i + length sep \<le> length s \<and> na + 1 < n \<and> sep \<noteq> [] then
        (if s ! i = sep ! 0 \<and> (length sep = 1 \<or> seg i (i + length sep) s = sep) then
           (case slice s start (i + sepSave) of
             None \<Rightarrow> None
           | Some x \<Rightarrow> split_loop s sep sepSave n (i + length sep) (i + length sep) (na + 1) (dst @ [x]))
         else split_loop s sep sepSave n (i + 1) start na dst)
      else do { x \<leftarrow> slice s start (length s); Some (dst @ [x]) })"
  by pat_completeness auto
termination
  by (relation "measure (\<lambda>(s, sep, sepSave, n, i, start, na, dst). length s - i)") (auto simp flip: length_greater_0_conv)

declare split_loop.simps [simp del]

text \<open>\<open>None\<close> is a panic; a \<open>nil\<close> slice is the empty list.\<close>

definition genSplit :: "bytes list \<Rightarrow> bytes \<Rightarrow> bytes \<Rightarrow> nat \<Rightarrow> int \<Rightarrow> bytes list option" where
  "genSplit dst s sep sepSave n =
     (if n = 0 then Some []
      else if sep = [] then None
      else let n = (if n < 0 then int (strings_Count s sep) + 1 else n) in
        split_loop s sep sepSave n 0 0 0 dst)"

definition AppendSplitN :: "bytes list \<Rightarrow> bytes \<Rightarrow> bytes \<Rightarrow> int \<Rightarrow> bytes list option" where
  "AppendSplitN dst s sep n = genSplit dst s sep 0 n"

section \<open>IsPlausibleJSON\<close>

definition isASCIIWhite :: "byte \<Rightarrow> bool" where
  "isASCIIWhite b \<longleftrightarrow> b = 32 \<or> b = 10 \<or> b = 13 \<or> b = 9"

fun startsWithOpenBrace :: "bytes \<Rightarrow> bool" where
  "startsWithOpenBrace [] \<longleftrightarrow> False"
| "startsWithOpenBrace (c # s) \<longleftrightarrow> (if c = 123 then True else if isASCIIWhite c then startsWithOpenBrace s else False)"

function endsWithCloseBrace :: "bytes \<Rightarrow> bool" where
  "endsWithCloseBrace s =
     (if length s > 0 then
        let lst = length s - 1 in
        if s ! lst = 125 then True
        else if isASCIIWhite (s ! lst) then endsWithCloseBrace (take lst s)
        else False
      else False)"
  by pat_completeness auto
termination
  by (relation "measure length") auto

declare endsWithCloseBrace.simps [simp del]

definition IsPlausibleJSON :: "bytes \<Rightarrow> bool" where
  "IsPlausibleJSON s \<longleftrightarrow> startsWithOpenBrace s \<and> endsWithCloseBrace s"

section \<open>Interning\<close>

primrec RegisterCommonString :: "bytes list \<Rightarrow> (bytes \<rightharpoonup> bytes) \<Rightarrow> (bytes \<rightharpoonup> bytes)" where
  "RegisterCommonString [] internStr = internStr"
| "RegisterCommonString (v # s) internStr = RegisterCommonString s (internStr(v \<mapsto> v))"

definition StringFromBytes :: "(bytes \<rightharpoonup> bytes) \<Rightarrow> bytes \<Rightarrow> bytes" where
  "StringFromBytes internStr v = (case internStr v of Some s \<Rightarrow> s | None \<Rightarrow> v)"

section \<open>Numbers\<close>

text \<open>The value of a digit and of a sequence of digits.\<close>

definition digit :: "byte \<Rightarrow> nat option" where
  "digit d = map_option unat (digit_value d)"

definition is_digit :: "int \<Rightarrow> byte \<Rightarrow> bool" where
  "is_digit base d \<longleftrightarrow> (case digit_value d of None \<Rightarrow> False | Some v \<Rightarrow> uint v < base)"

definition horner :: "int \<Rightarrow> nat \<Rightarrow> bytes \<Rightarrow> nat" where
  "horner base = foldl (\<lambda>n d. n * nat base + the (digit d))"

lemma horner_simps [simp]:
  "horner base n [] = n" "horner base n (d # s) = horner base (n * nat base + the (digit d)) s"
  by (simp_all add: horner_def)

lemma horner_mono: "1 \<le> base \<Longrightarrow> n \<le> horner base n s"
proof (induction s arbitrary: n)
  case (Cons d s)
  have "n * 1 \<le> n * nat base" using Cons.prems by (intro mult_le_mono2) linarith
  then have "n \<le> n * nat base + the (digit d)" by linarith
  also have "\<dots> \<le> horner base (n * nat base + the (digit d)) s" by (rule Cons.IH [OF Cons.prems])
  finally show ?case by simp
qed simp

lemma unat_base: "0 \<le> base \<Longrightarrow> base < 2 ^ 64 \<Longrightarrow> unat (of_int base :: 64 word) = nat base"
  using unat_of_nat_small [of "nat base", where 'a = 64] by simp

lemma cutoff64_iff:
  assumes "2 \<le> base" "base \<le> 36"
  shows "n \<ge> cutoff64 base \<longleftrightarrow> unat n * nat base \<ge> 2 ^ 64"
proof -
  have b: "unat (of_int base :: 64 word) = nat base" using assms by (intro unat_base) auto
  have q: "unat ((- 1) div (of_int base :: 64 word)) = (2 ^ 64 - 1) div nat base"
    by (simp add: unat_div_distrib b unsigned_minus_1_eq_mask mask_eq_exp_minus_1)
  have small: "(2 ^ 64 - 1) div nat base \<le> (2 ^ 64 - 1) div 2" using assms by (intro div_le_mono2) auto
  have "unat (cutoff64 base) = (2 ^ 64 - 1) div nat base + 1"
    using assms(1) small by (simp add: cutoff64_def unat_word_ariths(1) q)
  then have "n \<ge> cutoff64 base \<longleftrightarrow> (2 ^ 64 - 1) div nat base < unat n" by (auto simp: word_le_nat_alt)
  also have "\<dots> \<longleftrightarrow> 2 ^ 64 - 1 < unat n * nat base" using assms by (intro div_less_iff_less_mult) auto
  finally show ?thesis by auto
qed

lemma unat_ucast_byte: "unat (ucast (v :: byte) :: 64 word) = unat v"
  using unsigned_less [of v, where 'a = nat] by (simp add: unsigned_ucast_eq take_bit_nat_eq_self)

lemma unat_power_minus_1: "0 < w \<Longrightarrow> w \<le> 64 \<Longrightarrow> unat (2 ^ w - 1 :: 64 word) = 2 ^ w - 1"
  using unat_of_nat_small [of "2 ^ w - 1", where 'a = 64] power_increasing [of w 64 "2 :: nat"] by (simp add: of_nat_diff)

text \<open>Adding a digit wraps or passes the limit exactly if the sum is too large.\<close>

lemma word_step:
  fixes a v :: "64 word"
  assumes "unat v < 2 ^ 8" "0 < w" "w \<le> 64" "unat (2 ^ w - 1 :: 64 word) = 2 ^ w - 1"
  shows "a + v < a \<or> a + v > 2 ^ w - 1 \<longleftrightarrow> 2 ^ w \<le> unat a + unat v"
    "\<not> 2 ^ w \<le> unat a + unat v \<Longrightarrow> unat (a + v) = unat a + unat v"
proof -
  have w64: "(2 :: nat) ^ w \<le> 2 ^ 64" using assms(3) by (rule power_increasing) simp
  have key: "(2 :: nat) ^ w - Suc 0 < x \<longleftrightarrow> 2 ^ w \<le> x" for x using zero_less_power [of "2 :: nat" w] by linarith
  have sum: "unat (a + v) = (if unat a + unat v < 2 ^ 64 then unat a + unat v else unat a + unat v - 2 ^ 64)"
    using unsigned_less [of a, where 'a = nat] unsigned_less [of v, where 'a = nat] by (auto simp: unat_word_ariths not_less mod_if)
  then show "\<not> 2 ^ w \<le> unat a + unat v \<Longrightarrow> unat (a + v) = unat a + unat v" using w64 by simp
  show "a + v < a \<or> a + v > 2 ^ w - 1 \<longleftrightarrow> 2 ^ w \<le> unat a + unat v"
    using sum w64 assms(1,4) by (auto simp: word_less_nat_alt key split: if_splits)
qed

lemma parse_digits_correct:
  assumes "2 \<le> base" "base \<le> 36" "0 < w" "w \<le> 64" "unat n < 2 ^ w"
  shows "parse_digits s base (cutoff64 base) (2 ^ w - 1) n =
    (let p = takeWhile (is_digit base) s; m = horner base (unat n) p in
     if 2 ^ w \<le> m then (- 1, Some ErrRange) else if p \<noteq> s then (0, Some ErrSyntax) else (of_nat m, None))"
  using assms(5)
proof (induction s arbitrary: n)
  case (Cons d s)
  show ?case
  proof (cases "is_digit base d")
    case False
    then show ?thesis using Cons.prems by (auto simp: is_digit_def digit_def split: option.splits)
  next
    case True
    then obtain v where v: "digit_value d = Some v" "digit d = Some (unat v)" "uint v < base"
      by (auto simp: is_digit_def digit_def split: option.splits)
    let ?m = "unat n * nat base + unat v"
    have mono: "?m \<le> horner base ?m (takeWhile (is_digit base) s)" using assms(1) by (intro horner_mono) auto
    have max_val: "unat (2 ^ w - 1 :: 64 word) = 2 ^ w - 1"
      using assms(3,4) by (intro unat_power_minus_1)
    have w64: "(2 :: nat) ^ w \<le> 2 ^ 64" using assms(4) by (rule power_increasing) simp
    show ?thesis
    proof (cases "unat n * nat base \<ge> 2 ^ 64")
      case over: True
      then have "2 ^ w \<le> horner base ?m (takeWhile (is_digit base) s)" using mono w64 by linarith
      then show ?thesis using over True v by (simp add: cutoff64_iff assms(1,2) Let_def)
    next
      case False
      have "unat (n * of_int base) = unat n * nat base"
        using False assms(1,2) by (simp add: unat_word_ariths unat_base)
      then have n1: "n * of_int base + ucast v < n * of_int base \<or> n * of_int base + ucast v > 2 ^ w - 1 \<longleftrightarrow> 2 ^ w \<le> ?m"
        "\<not> 2 ^ w \<le> ?m \<Longrightarrow> unat (n * of_int base + ucast v) = ?m"
        using word_step [of "ucast v" w "n * of_int base"] unsigned_less [of v, where 'a = nat] assms(2-4) max_val
        by (simp_all add: unat_ucast_byte)
      show ?thesis
      proof (cases "2 ^ w \<le> ?m")
        case over: True
        then have "2 ^ w \<le> horner base ?m (takeWhile (is_digit base) s)" using mono by linarith
        then show ?thesis using over True False v n1(1) by (simp add: cutoff64_iff assms(1,2) Let_def)
      next
        case fits: False
        then show ?thesis using Cons.IH [of "n * of_int base + ucast v"] n1 False True v
          by (simp add: cutoff64_iff assms(1,2) Let_def)
      qed
    qed
  qed
qed simp

lemma ParseUintBytes_unfold:
  assumes "choose_base s base = Inr (b, s')" "2 \<le> b" "b \<le> 36" "0 \<le> bitSize" "bitSize \<le> 64"
    and "w = (if bitSize = 0 then 64 else nat bitSize)"
  shows "ParseUintBytes s base bitSize =
    (let p = takeWhile (is_digit b) s'; m = horner b 0 p in
     if 2 ^ w \<le> m then (- 1, Some (s, ErrRange)) else if p \<noteq> s' then (0, Some (s, ErrSyntax)) else (of_nat m, None))"
proof -
  have w: "0 < w" "w \<le> 64" using assms(4-6) by auto
  have "push_bit (unat (of_int (if bitSize = 0 then 64 else bitSize) :: 64 word)) 1 = (2 ^ w :: 64 word)"
    using assms(4-6) by (simp add: unat_base push_bit_eq_mult)
  then show ?thesis
    using parse_digits_correct [OF assms(2,3) w, of 0 s'] assms(1) by (simp add: ParseUintBytes_def Let_def)
qed

lemma ParseUintBytes_correct_parts:
  assumes "0 \<le> bitSize" "bitSize \<le> 64" and w: "w = (if bitSize = 0 then 64 else nat bitSize)"
  shows "2 \<le> base \<Longrightarrow> base \<le> 36 \<Longrightarrow> s \<noteq> [] \<Longrightarrow> \<forall>d \<in> set s. is_digit base d \<Longrightarrow>
      ParseUintBytes s base bitSize = (if horner base 0 s < 2 ^ w then (of_nat (horner base 0 s), None) else (- 1, Some (s, ErrRange)))"
    and "2 \<le> base \<Longrightarrow> base \<le> 36 \<Longrightarrow> \<forall>d \<in> set p. is_digit base d \<Longrightarrow> \<not> is_digit base c \<Longrightarrow>
      ParseUintBytes (p @ c # s) base bitSize =
        (if horner base 0 p < 2 ^ w then (0, Some (p @ c # s, ErrSyntax)) else (- 1, Some (p @ c # s, ErrRange)))"
    and "ParseUintBytes [] base bitSize = (0, Some ([], ErrSyntax))"
    and "base < 0 \<or> base = 1 \<or> 36 < base \<Longrightarrow> s \<noteq> [] \<Longrightarrow> ParseUintBytes s base bitSize = (0, Some (s, InvalidBase base))"
    and "s \<noteq> [] \<Longrightarrow> x = 120 \<or> x = 88 \<Longrightarrow> fst (ParseUintBytes (48 # x # s) 0 bitSize) = fst (ParseUintBytes s 16 bitSize)"
    and "s = [] \<or> hd s \<noteq> 120 \<and> hd s \<noteq> 88 \<Longrightarrow> ParseUintBytes (48 # s) 0 bitSize = ParseUintBytes (48 # s) 8 bitSize"
    and "s \<noteq> [] \<Longrightarrow> hd s \<noteq> 48 \<Longrightarrow> ParseUintBytes s 0 bitSize = ParseUintBytes s 10 bitSize"
proof -
  show "ParseUintBytes s base bitSize = (if horner base 0 s < 2 ^ w then (of_nat (horner base 0 s), None) else (- 1, Some (s, ErrRange)))"
    if "2 \<le> base" "base \<le> 36" "s \<noteq> []" "\<forall>d \<in> set s. is_digit base d"
  proof -
    have t: "takeWhile (is_digit base) s = s" using that(4) by (simp add: takeWhile_eq_all_conv)
    have c: "choose_base s base = Inr (base, s)" using that by (simp add: choose_base_def Suc_le_eq)
    show ?thesis unfolding ParseUintBytes_unfold [OF c that(1,2) assms] t by (simp add: Let_def not_le)
  qed
  show "ParseUintBytes (p @ c # s) base bitSize =
        (if horner base 0 p < 2 ^ w then (0, Some (p @ c # s, ErrSyntax)) else (- 1, Some (p @ c # s, ErrRange)))"
    if "2 \<le> base" "base \<le> 36" "\<forall>d \<in> set p. is_digit base d" "\<not> is_digit base c"
  proof -
    have t: "takeWhile (is_digit base) (p @ c # s) = p" using that(3,4) by simp
    have b: "choose_base (p @ c # s) base = Inr (base, p @ c # s)" using that by (simp add: choose_base_def)
    show ?thesis unfolding ParseUintBytes_unfold [OF b that(1,2) assms] t by (simp add: Let_def not_le)
  qed
  show "fst (ParseUintBytes (48 # x # s) 0 bitSize) = fst (ParseUintBytes s 16 bitSize)" if "s \<noteq> []" "x = 120 \<or> x = 88"
    using that ParseUintBytes_unfold [of "48 # x # s" 0 16 s bitSize w] ParseUintBytes_unfold [of s 16 16 s bitSize w] assms
    by (auto simp: choose_base_def Let_def Suc_le_eq)
  show "ParseUintBytes (48 # s) 0 bitSize = ParseUintBytes (48 # s) 8 bitSize" if "s = [] \<or> hd s \<noteq> 120 \<and> hd s \<noteq> 88"
    using that by (cases s) (auto simp: ParseUintBytes_def choose_base_def)
  show "ParseUintBytes s 0 bitSize = ParseUintBytes s 10 bitSize" if "s \<noteq> []" "hd s \<noteq> 48"
    using that by (cases s) (auto simp: ParseUintBytes_def choose_base_def)
qed (auto simp: ParseUintBytes_def choose_base_def Let_def)



section \<open>Splitting\<close>

text \<open>The text before and after the first occurrence of a separator.\<close>

fun first_sep :: "bytes \<Rightarrow> bytes \<Rightarrow> (bytes \<times> bytes) option" where
  "first_sep sep [] = None"
| "first_sep sep (c # s) =
     (if take (length sep) (c # s) = sep then Some ([], drop (length sep) (c # s))
      else map_option (map_prod (Cons c) id) (first_sep sep s))"

text \<open>Reference definition: cut at the first occurrence, at most \<open>k\<close> times.\<close>

primrec split_ref :: "nat \<Rightarrow> bytes \<Rightarrow> bytes \<Rightarrow> bytes list" where
  "split_ref 0 sep s = [s]"
| "split_ref (Suc k) sep s = (case first_sep sep s of None \<Rightarrow> [s] | Some (p, r) \<Rightarrow> p # split_ref k sep r)"

fun join :: "bytes \<Rightarrow> bytes list \<Rightarrow> bytes" where
  "join sep [] = []"
| "join sep [p] = p"
| "join sep (p # q # ps) = p @ sep @ join sep (q # ps)"

lemma take_prefix: "take (length sep) s = sep \<longleftrightarrow> prefix sep s"
  by (auto simp: prefix_def) (metis append_take_drop_id)

lemma first_sep_None: "sep \<noteq> [] \<Longrightarrow> first_sep sep s = None \<longleftrightarrow> \<not> sublist sep s"
  by (induction sep s rule: first_sep.induct) (auto simp: take_prefix sublist_Cons_right simp del: take_Suc_Cons)

text \<open>A separator cannot start before the first one and reach into it, unless the text has it there.\<close>

lemma prefix_overlap:
  assumes "prefix sep (p @ sep @ r)" "p \<noteq> []"
  shows "prefix sep (p @ butlast sep)"
proof (cases sep rule: rev_cases)
  case (snoc sep' x)
  then have "prefix (p @ butlast sep) (p @ sep @ r)" "length sep \<le> length (p @ butlast sep)"
    using assms(2) by (auto simp: Suc_le_eq)
  then show ?thesis using assms(1) prefix_length_prefix by blast
qed simp

lemma first_sep_Some:
  assumes "sep \<noteq> []"
  shows "first_sep sep s = Some (p, r) \<longleftrightarrow> s = p @ sep @ r \<and> \<not> sublist sep (p @ butlast sep)"
  using assms
proof (induction sep s arbitrary: p rule: first_sep.induct)
  case (2 sep c s)
  have short: "\<not> sublist sep (butlast sep)" using sublist_length_le [of sep "butlast sep"] "2.prems" by (cases sep) auto
  show ?case
  proof (cases "prefix sep (c # s)")
    case True
    have "p = []" if "c # s = p @ sep @ r" "\<not> sublist sep (p @ butlast sep)"
      using True that prefix_overlap [of sep p r] by (auto intro: prefix_imp_sublist)
    moreover have "c # s = sep @ drop (length sep) (c # s)" using True by (metis append_take_drop_id take_prefix)
    ultimately show ?thesis using True short
      by (simp add: take_prefix del: drop_Suc_Cons take_Suc_Cons) (metis append_Nil same_append_eq)
  next
    case False
    have "first_sep sep (c # s) = Some (p, r) \<longleftrightarrow> (\<exists>p'. p = c # p' \<and> first_sep sep s = Some (p', r))"
      using False by (auto simp: take_prefix simp del: take_Suc_Cons drop_Suc_Cons)
    also have "\<dots> \<longleftrightarrow> (\<exists>p'. p = c # p' \<and> s = p' @ sep @ r \<and> \<not> sublist sep (p' @ butlast sep))"
      using "2.IH" False "2.prems" by (simp add: take_prefix del: take_Suc_Cons)
    also have "\<dots> \<longleftrightarrow> c # s = p @ sep @ r \<and> \<not> sublist sep (p @ butlast sep)"
    proof (cases p)
      case Nil
      then show ?thesis using False by auto
    next
      case (Cons d p')
      obtain sep' x where sep: "sep = sep' @ [x]" using "2.prems" by (cases sep rule: rev_cases) auto
      have "\<not> prefix sep (c # p' @ butlast sep)" if s: "s = p' @ sep @ r"
      proof
        assume "prefix sep (c # p' @ butlast sep)"
        moreover have "prefix (c # p' @ butlast sep) (c # s)" by (simp add: s sep)
        ultimately show False using False prefix_order.trans by blast
      qed
      then show ?thesis using Cons by (auto simp: sublist_Cons_right)
    qed
    finally show ?thesis .
  qed
qed auto

lemma first_sep_short: "length s < length sep \<Longrightarrow> first_sep sep s = None"
  using first_sep_None [of sep s] by (cases sep) (auto dest: sublist_length_le)

lemma split_ref_nonempty [simp]: "split_ref k sep s \<noteq> []"
  by (cases k) (auto split: option.splits)

lemma split_ref_length: "length (split_ref k sep s) \<le> Suc k"
  by (induction k arbitrary: s) (auto split: option.splits)

lemma join_Cons: "ps \<noteq> [] \<Longrightarrow> join sep (p # ps) = p @ sep @ join sep ps"
  by (cases ps) auto

lemma split_ref_join: "sep \<noteq> [] \<Longrightarrow> join sep (split_ref k sep s) = s"
  by (induction k arbitrary: s) (auto simp: join_Cons first_sep_Some split: option.splits)

lemma split_ref_pieces: "sep \<noteq> [] \<Longrightarrow> p \<in> set (butlast (split_ref k sep s)) \<Longrightarrow> \<not> sublist sep (p @ butlast sep)"
  by (induction k arbitrary: s) (auto simp: first_sep_Some split: option.splits if_splits)

lemma split_ref_last: "sep \<noteq> [] \<Longrightarrow> length (split_ref k sep s) \<le> k \<Longrightarrow> \<not> sublist sep (last (split_ref k sep s))"
proof (induction k arbitrary: s)
  case (Suc k)
  then show ?case by (cases "first_sep sep s") (auto simp flip: first_sep_None)
qed simp

lemma strings_Count_first:
  assumes "sep \<noteq> []"
  shows "strings_Count s sep = (case first_sep sep s of None \<Rightarrow> 0 | Some (p, r) \<Rightarrow> 1 + strings_Count r sep)"
  using assms
  by (induction sep s rule: first_sep.induct) (simp_all add: strings_Count.simps [of "[]"] strings_Count.simps [of "_ # _"] split: option.split)

lemma split_ref_Count: "sep \<noteq> [] \<Longrightarrow> \<not> sublist sep (last (split_ref (strings_Count s sep) sep s))"
proof (induction "strings_Count s sep" arbitrary: s)
  case 0
  then show ?case using strings_Count_first [of sep s] first_sep_None [of sep s] by (auto split: option.splits)
next
  case (Suc n)
  then obtain p r where "first_sep sep s = Some (p, r)" "strings_Count r sep = n"
    using strings_Count_first [of sep s] by (auto split: option.splits)
  then show ?case using Suc.hyps(1) [of r] Suc.hyps(2) Suc.prems by (simp flip: Suc.hyps(2))
qed

text \<open>While the loop searches, the text from \<open>start\<close> to \<open>i\<close> holds no start of the separator.\<close>

definition searched :: "bytes \<Rightarrow> bytes \<Rightarrow> nat \<Rightarrow> nat \<Rightarrow> bool" where
  "searched s sep start i \<longleftrightarrow> start \<le> i \<and> i \<le> length s \<and>
     first_sep sep (drop start s) = map_option (map_prod (append (seg start i s)) id) (first_sep sep (drop i s))"

lemma searched_start: "i \<le> length s \<Longrightarrow> searched s sep i i"
  by (cases "first_sep sep (drop i s)") (auto simp: searched_def)

lemma seg_prefix: "i + length sep \<le> length s \<Longrightarrow> seg i (i + length sep) s = sep \<longleftrightarrow> take (length sep) (drop i s) = sep"
  by (simp add: seg_def)

lemma searched_next:
  assumes "searched s sep start i" "i < length s" "take (length sep) (drop i s) \<noteq> sep"
  shows "searched s sep start (i + 1)"
proof -
  have "drop i s = s ! i # drop (Suc i) s" using assms(2) by (simp add: Cons_nth_drop_Suc)
  then have "first_sep sep (drop i s) = map_option (map_prod (Cons (s ! i)) id) (first_sep sep (drop (Suc i) s))"
    using assms(3) by (metis first_sep.simps(2))
  moreover have "seg start (Suc i) s = seg start i s @ [s ! i]"
    using assms(1,2) seg_append [of start i "Suc i" s] by (simp add: searched_def seg_def take_Suc_conv_app_nth)
  ultimately show ?thesis using assms(1,2)
    by (cases "first_sep sep (drop (Suc i) s)") (auto simp: searched_def)
qed

lemma searched_found:
  assumes "searched s sep start i" "i + length sep \<le> length s" "sep \<noteq> []" "take (length sep) (drop i s) = sep"
  shows "first_sep sep (drop start s) = Some (seg start i s, drop (i + length sep) s)"
proof -
  have "drop i s \<noteq> []" using assms(2,3) by (cases sep) auto
  then have "first_sep sep (drop i s) = Some ([], drop (length sep) (drop i s))"
    using assms(4) by (cases "drop i s") simp_all
  then show ?thesis using assms(1) by (simp add: searched_def add.commute)
qed

lemma match_test:
  assumes "i + length sep \<le> length s" "sep \<noteq> []"
  shows "s ! i = sep ! 0 \<and> (length sep = 1 \<or> seg i (i + length sep) s = sep) \<longleftrightarrow> take (length sep) (drop i s) = sep"
proof -
  have "i < length s" using assms by (cases sep) auto
  then have d: "drop i s = s ! i # drop (Suc i) s" by (simp add: Cons_nth_drop_Suc)
  have "s ! i = sep ! 0" if "take (length sep) (drop i s) = sep"
    using that d assms(2) by (metis hd_append2 hd_conv_nth list.sel(1) take_eq_Nil append_take_drop_id)
  moreover have "take (length sep) (drop i s) = sep" if "length sep = 1" "s ! i = sep ! 0"
    using that d by (cases sep) auto
  ultimately show ?thesis using seg_prefix [OF assms(1)] by auto
qed

lemma split_loop_correct:
  assumes "searched s sep start i" "sep \<noteq> []" "0 \<le> na" "na < n"
  shows "split_loop s sep 0 n i start na dst = Some (dst @ split_ref (nat (n - 1 - na)) sep (drop start s))"
  using assms
proof (induction s sep "0 :: nat" n i start na dst rule: split_loop.induct)
  case (1 s sep n i start na dst)
  have le: "start \<le> i" "i \<le> length s" using "1.prems"(1) by (simp_all add: searched_def)
  show ?case
  proof (cases "i + length sep \<le> length s \<and> na + 1 < n")
    case False
    have "split_ref (nat (n - 1 - na)) sep (drop start s) = [drop start s]"
    proof (cases "na + 1 < n")
      case True
      then have "first_sep sep (drop i s) = None" using False le by (intro first_sep_short) auto
      then have "first_sep sep (drop start s) = None" using "1.prems"(1) by (simp add: searched_def)
      then show ?thesis by (cases "nat (n - 1 - na)") auto
    qed (use "1.prems"(4) in auto)
    then show ?thesis using False le by (subst split_loop.simps) (auto simp: slice_def seg_def)
  next
    case True
    note match = match_test [OF conjunct1 [OF True] "1.prems"(2)]
    show ?thesis
    proof (cases "take (length sep) (drop i s) = sep")
      case found: True
      have "nat (n - 1 - na) = Suc (nat (n - 1 - (na + 1)))" using True by linarith
      moreover have "slice s start (i + 0) = Some (seg start i s)" using le by (simp add: slice_def)
      moreover have "searched s sep (i + length sep) (i + length sep)" using True by (intro searched_start) simp
      ultimately show ?thesis
        using True found match "1.hyps"(1) [of "seg start i s"] "1.prems" searched_found [OF "1.prems"(1) _ "1.prems"(2) found]
        by (subst split_loop.simps) simp
    next
      case missed: False
      have "i < length s" using True "1.prems"(2) by (cases sep) auto
      then have "searched s sep start (i + 1)" using searched_next [OF "1.prems"(1)] missed by blast
      then show ?thesis
        using True missed match "1.hyps"(2) "1.prems" by (subst split_loop.simps) auto
    qed
  qed
qed

lemma AppendSplitN_splits_parts:
  shows "sep \<noteq> [] \<Longrightarrow> n \<noteq> 0 \<Longrightarrow> \<exists>parts. AppendSplitN dst s sep n = Some (dst @ parts) \<and> parts \<noteq> [] \<and> join sep parts = s \<and>
      (\<forall>p \<in> set (butlast parts). \<not> sublist sep (p @ butlast sep)) \<and> (0 < n \<longrightarrow> int (length parts) \<le> n) \<and>
      (n < 0 \<or> int (length parts) < n \<longrightarrow> \<not> sublist sep (last parts))"
    and "AppendSplitN dst s sep 0 = Some []" "AppendSplitN dst s sep n = None \<longleftrightarrow> sep = [] \<and> n \<noteq> 0"
proof -
  have ex: "\<exists>parts. AppendSplitN dst s sep n = Some (dst @ parts) \<and> parts \<noteq> [] \<and> join sep parts = s \<and>
      (\<forall>p \<in> set (butlast parts). \<not> sublist sep (p @ butlast sep)) \<and> (0 < n \<longrightarrow> int (length parts) \<le> n) \<and>
      (n < 0 \<or> int (length parts) < n \<longrightarrow> \<not> sublist sep (last parts))" if "sep \<noteq> []" "n \<noteq> 0" for n
  proof -
    let ?k = "if n < 0 then strings_Count s sep else nat (n - 1)"
    have "AppendSplitN dst s sep n = Some (dst @ split_ref ?k sep s)"
      using split_loop_correct [OF searched_start [of 0 s sep] that(1), of 0] that by (simp add: AppendSplitN_def genSplit_def Let_def)
    moreover have "0 < n \<longrightarrow> int (length (split_ref ?k sep s)) \<le> n" using split_ref_length [of "nat (n - 1)" sep s] by auto
    moreover have "n < 0 \<or> int (length (split_ref ?k sep s)) < n \<longrightarrow> \<not> sublist sep (last (split_ref ?k sep s))"
      using split_ref_Count [OF that(1), of s] split_ref_last [OF that(1), of "nat (n - 1)" s] by auto
    ultimately show ?thesis
      using split_ref_join [OF that(1), of ?k s] split_ref_pieces [OF that(1), of _ ?k s] by (intro exI [of _ "split_ref ?k sep s"]) auto
  qed
  then show "sep \<noteq> [] \<Longrightarrow> n \<noteq> 0 \<Longrightarrow> \<exists>parts. AppendSplitN dst s sep n = Some (dst @ parts) \<and> parts \<noteq> [] \<and> join sep parts = s \<and>
      (\<forall>p \<in> set (butlast parts). \<not> sublist sep (p @ butlast sep)) \<and> (0 < n \<longrightarrow> int (length parts) \<le> n) \<and>
      (n < 0 \<or> int (length parts) < n \<longrightarrow> \<not> sublist sep (last parts))" by blast
  show "AppendSplitN dst s sep 0 = Some []" by (simp add: AppendSplitN_def genSplit_def)
  show "AppendSplitN dst s sep n = None \<longleftrightarrow> sep = [] \<and> n \<noteq> 0"
    using ex [of n] by (auto simp: AppendSplitN_def genSplit_def)
qed

text \<open>
  C22: \<open>AppendSplitN\<close> with a separator that is not empty and a count that is not 0 appends to \<open>dst\<close> pieces
  which, joined by the separator, give back the input; the cuts are at the leftmost occurrences (a piece followed by the separator
  holds it nowhere earlier); with a positive count there are at most that many pieces, and only when
  there are as many may the last still hold the separator; with a negative count no piece does. Count 0 gives
  \<open>nil\<close>, and only then is an empty separator not a panic.
\<close>

theorem AppendSplitN_splits:
  shows "(sep \<noteq> [] \<and> n \<noteq> 0 \<longrightarrow>
      (\<exists>parts. AppendSplitN dst s sep n = Some (dst @ parts) \<and> parts \<noteq> [] \<and> join sep parts = s \<and> (\<forall>p \<in> set (butlast parts). \<not> sublist sep (p @ butlast sep)) \<and> (0 < n \<longrightarrow> int (length parts) \<le> n) \<and> (n < 0 \<or> int (length parts) < n \<longrightarrow> \<not> sublist sep (last parts)))) \<and>
    (AppendSplitN dst s sep 0 = Some []) \<and>
    (AppendSplitN dst s sep n = None \<longleftrightarrow> sep = [] \<and> n \<noteq> 0)"
proof (intro conjI impI)
  show "AppendSplitN dst s sep 0 = Some []" "AppendSplitN dst s sep n = None \<longleftrightarrow> sep = [] \<and> n \<noteq> 0"
    by (rule AppendSplitN_splits_parts)+
qed (elim conjE, rule AppendSplitN_splits_parts(1))

theorem AppendSplitN_splits_witness:
  "\<exists>parts. AppendSplitN [] [1, 0, 2, 0, 3] [0] 2 = Some ([] @ parts) \<and> parts \<noteq> [] \<and> join [0] parts = [1, 0, 2, 0, 3] \<and>
      (\<forall>p \<in> set (butlast parts). \<not> sublist [0] (p @ butlast [0])) \<and> (0 < (2 :: int) \<longrightarrow> int (length parts) \<le> 2) \<and>
      (2 < (0 :: int) \<or> int (length parts) < 2 \<longrightarrow> \<not> sublist [0] (last parts))"
  by (rule AppendSplitN_splits [THEN conjunct1, rule_format]) simp_all

section \<open>The JSON heuristic\<close>

lemma startsWithOpenBrace_iff: "startsWithOpenBrace s \<longleftrightarrow> (\<exists>r. dropWhile isASCIIWhite s = 123 # r)"
  by (induction s rule: startsWithOpenBrace.induct) (auto simp: isASCIIWhite_def)

lemma endsWithCloseBrace_snoc [simp]:
  "\<not> endsWithCloseBrace []"
  "endsWithCloseBrace (s @ [c]) \<longleftrightarrow> c = 125 \<or> isASCIIWhite c \<and> endsWithCloseBrace s"
  by (subst endsWithCloseBrace.simps; simp add: Let_def)+

lemma endsWithCloseBrace_rev: "endsWithCloseBrace s \<longleftrightarrow> (\<exists>r. dropWhile isASCIIWhite (rev s) = 125 # r)"
  by (induction s rule: rev_induct) (auto simp: isASCIIWhite_def)

text \<open>
  \<open>IsPlausibleJSON\<close> holds exactly of the texts whose first byte that is not white space is an opening
  brace and whose last such byte is a closing brace.
\<close>

lemma IsPlausibleJSON_iff:
  "IsPlausibleJSON s \<longleftrightarrow> (\<exists>r. dropWhile isASCIIWhite s = 123 # r) \<and> (\<exists>r. dropWhile isASCIIWhite (rev s) = 125 # r)"
  by (simp add: IsPlausibleJSON_def startsWithOpenBrace_iff endsWithCloseBrace_rev)

text \<open>Interning does not change strings, whatever was registered.\<close>

lemma RegisterCommonString_same: "(\<And>k v. m k = Some v \<Longrightarrow> v = k) \<Longrightarrow> RegisterCommonString ss m k = Some v \<Longrightarrow> v = k"
proof (induction ss arbitrary: m)
  case (Cons a ss)
  show ?case
  proof (rule Cons.IH [of "m(a \<mapsto> a)"])
    show "RegisterCommonString ss (m(a \<mapsto> a)) k = Some v" using Cons.prems(2) by simp
    show "v = k" if "(m(a \<mapsto> a)) k = Some v" for k v using that Cons.prems(1) by (auto split: if_splits)
  qed
qed simp

lemma StringFromBytes_same: "StringFromBytes (RegisterCommonString ss Map.empty) v = v"
  using RegisterCommonString_same [of Map.empty ss v] by (auto simp: StringFromBytes_def split: option.splits)

end
