(* ===== verification/Strutil_Fold.thy ===== *)
theory Strutil_Fold
  imports Go_UTF8
begin

text \<open>
  The case folding of the package \<open>strutil\<close> (\<open>strutil.go\<close>). Go's \<open>unicode.SimpleFold\<close> rests on the tables
  of Unicode and is a parameter; the locale \<open>simple_folding\<close> states what its documentation promises.
\<close>

section \<open>Model\<close>

type_synonym fold = "rune \<Rightarrow> rune"

partial_function (option) fold_loop :: "fold \<Rightarrow> rune \<Rightarrow> rune \<Rightarrow> rune \<Rightarrow> rune option" where
  "fold_loop SimpleFold sr tr r = (if r \<noteq> sr \<and> r < tr then fold_loop SimpleFold sr tr (SimpleFold r) else Some r)"

text \<open>\<open>None\<close>: the loop does not end.\<close>

definition equalFoldRune :: "fold \<Rightarrow> rune \<Rightarrow> rune \<Rightarrow> bool option" where
  "equalFoldRune SimpleFold sr tr =
     (if sr = tr then Some True
      else let (sr, tr) = (if tr < sr then (tr, sr) else (sr, tr)) in
        if tr < 128 \<and> 65 \<le> sr \<and> sr \<le> 90 then Some (tr = sr + 97 - 65)
        else do { r \<leftarrow> fold_loop SimpleFold sr tr (SimpleFold sr); Some (r = tr) })"

lemma DecodeRune_less: "(r, n) = DecodeRune s \<Longrightarrow> s \<noteq> [] \<Longrightarrow> length s - n < length s"
  using DecodeRune_size [of s] by (metis diff_less length_greater_0_conv snd_conv)

function prefix_loop :: "fold \<Rightarrow> bytes \<Rightarrow> bytes \<Rightarrow> bool option" where
  "prefix_loop SimpleFold s pre =
     (if pre = [] then Some True
      else if s = [] then Some False
      else let (pr, psize) = DecodeRune pre; (sr, size) = DecodeRune s in
        if sr = RuneError then Some False
        else (case equalFoldRune SimpleFold sr pr of
          None \<Rightarrow> None
        | Some eq \<Rightarrow> if \<not> eq then Some False else prefix_loop SimpleFold (drop size s) (drop psize pre)))"
  by pat_completeness auto
termination
  by (relation "measure (\<lambda>(SimpleFold, s, pre). length pre)") (auto intro: DecodeRune_less)

declare prefix_loop.simps [simp del]

definition HasPrefixFold :: "fold \<Rightarrow> bytes \<Rightarrow> bytes \<Rightarrow> bool option" where
  "HasPrefixFold SimpleFold s pre = (if pre = [] then Some True else prefix_loop SimpleFold s pre)"

text \<open>\<open>utf8.DecodeLastRuneInString\<close>: from the last byte back to the first that starts a rune, at most four bytes.\<close>

definition RuneStart :: "byte \<Rightarrow> bool" where
  "RuneStart b \<longleftrightarrow> \<not> cont_byte (unat b)"

definition last_start :: "bytes \<Rightarrow> nat" where
  "last_start s = (let lim = length s - 4 in
     case find (\<lambda>i. RuneStart (s ! i)) (rev [lim..<length s - 1]) of Some i \<Rightarrow> i | None \<Rightarrow> lim - 1)"

definition DecodeLastRune :: "bytes \<Rightarrow> rune \<times> nat" where
  "DecodeLastRune s =
     (let n = length s in
      if n = 0 then (RuneError, 0)
      else if unat (s ! (n - 1)) < 128 then (unat (s ! (n - 1)), 1)
      else let start = last_start s; (r, size) = DecodeRune (drop start s) in
        if start + size \<noteq> n then (RuneError, 1) else (r, size))"

lemma last_start_less: "s \<noteq> [] \<Longrightarrow> last_start s < length s"
  by (auto simp: last_start_def Let_def find_Some_iff rev_nth split: option.splits)

lemma DecodeLastRune_size: "s \<noteq> [] \<Longrightarrow> 0 < snd (DecodeLastRune s) \<and> snd (DecodeLastRune s) \<le> length s"
  using DecodeRune_size [of "drop (last_start s) s"] last_start_less [of s]
  by (auto simp: DecodeLastRune_def Let_def Suc_le_eq split: prod.splits)

lemma DecodeLastRune_less: "(r, n) = DecodeLastRune s \<Longrightarrow> s \<noteq> [] \<Longrightarrow> length s - n < length s"
  using DecodeLastRune_size [of s] by (metis diff_less length_greater_0_conv snd_conv)

function suffix_loop :: "fold \<Rightarrow> bytes \<Rightarrow> bytes \<Rightarrow> bool option" where
  "suffix_loop SimpleFold s suf =
     (if s \<noteq> [] \<and> suf \<noteq> [] then
        let (r, size) = DecodeLastRune s in
        if r = RuneError then Some False
        else let s = take (length s - size) s; (sr, size) = DecodeLastRune suf in
          if sr = RuneError then Some False
          else let suf = take (length suf - size) suf in
            (case equalFoldRune SimpleFold r sr of
              None \<Rightarrow> None
            | Some eq \<Rightarrow> if \<not> eq then Some False else suffix_loop SimpleFold s suf)
      else Some (suf = []))"
  by pat_completeness auto
termination
  by (relation "measure (\<lambda>(SimpleFold, s, suf). length suf)") (auto intro: DecodeLastRune_less)

declare suffix_loop.simps [simp del]

definition HasSuffixFold :: "fold \<Rightarrow> bytes \<Rightarrow> bytes \<Rightarrow> bool option" where
  "HasSuffixFold SimpleFold s suf = (if suf = [] then Some True else suffix_loop SimpleFold s suf)"

function contains_loop :: "fold \<Rightarrow> bytes \<Rightarrow> bytes \<Rightarrow> rune \<Rightarrow> bool option" where
  "contains_loop SimpleFold s substr firstRune =
     (if s = [] then Some False
      else let (rune, size) = DecodeRune s in
        (case equalFoldRune SimpleFold rune firstRune of
          None \<Rightarrow> None
        | Some eq \<Rightarrow>
            if eq then
              (case HasPrefixFold SimpleFold s substr of
                None \<Rightarrow> None
              | Some True \<Rightarrow> Some True
              | Some False \<Rightarrow> contains_loop SimpleFold (drop size s) substr firstRune)
            else contains_loop SimpleFold (drop size s) substr firstRune))"
  by pat_completeness auto
termination
  by (relation "measure (\<lambda>(SimpleFold, s, substr, firstRune). length s)") (auto intro: DecodeRune_less)

declare contains_loop.simps [simp del]

definition ContainsFold :: "fold \<Rightarrow> bytes \<Rightarrow> bytes \<Rightarrow> bool option" where
  "ContainsFold SimpleFold s substr =
     (if substr = [] then Some True
      else if s = [] then Some False
      else let firstRune = unat (substr ! 0);
               firstRune = (if firstRune \<ge> 128 then fst (DecodeRune substr) else firstRune) in
        contains_loop SimpleFold s substr firstRune)"

section \<open>Runes\<close>

text \<open>The runes of a string, from the front (as \<open>range\<close> gives them) and from the back.\<close>

function runes :: "bytes \<Rightarrow> rune list" where
  "runes s = (if s = [] then [] else let (r, n) = DecodeRune s in r # runes (drop n s))"
  by pat_completeness auto
termination
  by (relation "measure length") (auto intro: DecodeRune_less)

function last_runes :: "bytes \<Rightarrow> rune list" where
  "last_runes s = (if s = [] then [] else let (r, n) = DecodeLastRune s in r # last_runes (take (length s - n) s))"
  by pat_completeness auto
termination
  by (relation "measure length") (auto intro: DecodeLastRune_less)

declare runes.simps [simp del] last_runes.simps [simp del]

lemma runes_Nil [simp]: "runes s = [] \<longleftrightarrow> s = []" "last_runes s = [] \<longleftrightarrow> s = []"
  by (auto simp: runes.simps [of s] last_runes.simps [of s] split: prod.splits)

text \<open>The first of the runes \<open>rs\<close> are valid and equivalent to \<open>ps\<close>.\<close>

definition fold_match :: "(rune \<Rightarrow> rune \<Rightarrow> bool) \<Rightarrow> rune list \<Rightarrow> rune list \<Rightarrow> bool" where
  "fold_match eqv rs ps \<longleftrightarrow> RuneError \<notin> set (take (length ps) rs) \<and> list_all2 eqv (take (length ps) rs) ps"

lemma fold_match_simps [simp]:
  "fold_match eqv rs []" "\<not> fold_match eqv [] (p # ps)"
  "fold_match eqv (r # rs) (p # ps) \<longleftrightarrow> r \<noteq> RuneError \<and> eqv r p \<and> fold_match eqv rs ps"
  by (auto simp: fold_match_def)

section \<open>Folding\<close>

text \<open>
  \<open>SimpleFold r\<close> is, among the runes equivalent to \<open>r\<close> under simple case folding, the smallest that is
  greater than \<open>r\<close>, or, if there is none, the smallest of all. A capital of ASCII and a greater ASCII rune
  are equivalent exactly if the latter is the small letter.
\<close>

locale simple_folding =
  fixes SimpleFold :: fold and eqv :: "rune \<Rightarrow> rune \<Rightarrow> bool"
  assumes refl: "eqv r r" and sym: "eqv r t \<Longrightarrow> eqv t r" and trans: "eqv r t \<Longrightarrow> eqv t u \<Longrightarrow> eqv r u"
    and fold_eqv: "eqv r (SimpleFold r)"
    and fold_next: "eqv r t \<Longrightarrow> r < t \<Longrightarrow> r < SimpleFold r \<and> SimpleFold r \<le> t"
    and fold_first: "(\<And>t. eqv r t \<Longrightarrow> t \<le> r) \<Longrightarrow> eqv r t \<Longrightarrow> SimpleFold r \<le> t"
    and fold_ASCII: "65 \<le> r \<Longrightarrow> r \<le> 90 \<Longrightarrow> r < t \<Longrightarrow> t < 128 \<Longrightarrow> eqv r t \<longleftrightarrow> t = r + 32"
begin

lemma fold_loop_up: "eqv r sr \<Longrightarrow> r \<le> sr \<Longrightarrow> sr < tr \<Longrightarrow> fold_loop SimpleFold sr tr r = Some sr"
proof (induction "sr - r" arbitrary: r rule: less_induct)
  case less
  show ?case
  proof (cases "r = sr")
    case True
    then show ?thesis by (subst fold_loop.simps) simp
  next
    case False
    then have "r < SimpleFold r" "SimpleFold r \<le> sr" using fold_next [OF less.prems(1)] less.prems(2) by auto
    moreover have "eqv (SimpleFold r) sr" using sym [OF fold_eqv] less.prems(1) by (rule trans)
    ultimately show ?thesis
      using less.hyps [of "SimpleFold r"] less.prems False by (subst fold_loop.simps) simp
  qed
qed

lemma fold_loop_result:
  "eqv sr r \<Longrightarrow> sr < r \<Longrightarrow> sr < tr \<Longrightarrow> (eqv sr tr \<Longrightarrow> r \<le> tr) \<Longrightarrow> \<exists>t. fold_loop SimpleFold sr tr r = Some t \<and> (t = tr \<longleftrightarrow> eqv sr tr)"
proof (induction "tr - r" arbitrary: r rule: less_induct)
  case less
  show ?case
  proof (cases "r < tr")
    case False
    then show ?thesis using less.prems by (subst fold_loop.simps) auto
  next
    case True
    then have step: "fold_loop SimpleFold sr tr r = fold_loop SimpleFold sr tr (SimpleFold r)"
      using less.prems(2) by (subst fold_loop.simps) simp
    have e: "eqv sr (SimpleFold r)" using less.prems(1) fold_eqv by (rule trans)
    show ?thesis
    proof (cases "\<exists>t. eqv r t \<and> r < t")
      case True
      then have "r < SimpleFold r" using fold_next by blast
      moreover have "SimpleFold r \<le> tr" if "eqv sr tr"
        using fold_next [of r tr] trans [OF sym [OF less.prems(1)] that] \<open>r < tr\<close> by simp
      ultimately show ?thesis using less.hyps [of "SimpleFold r"] e less.prems(2,3) \<open>r < tr\<close> step by auto
    next
      case False
      then have "SimpleFold r \<le> sr" using fold_first [of r sr] sym [OF less.prems(1)] by (meson not_le)
      then have "fold_loop SimpleFold sr tr r = Some sr" using fold_loop_up [OF sym [OF e]] less.prems(3) step by simp
      moreover have "\<not> eqv sr tr" using False \<open>r < tr\<close> trans [OF sym [OF less.prems(1)]] by blast
      ultimately show ?thesis using less.prems(3) by auto
    qed
  qed
qed

lemma equalFoldRune_less:
  assumes "sr < tr"
  shows "equalFoldRune SimpleFold sr tr = Some (eqv sr tr)"
proof -
  have "\<exists>t. fold_loop SimpleFold sr tr (SimpleFold sr) = Some t \<and> (t = tr \<longleftrightarrow> eqv sr tr)"
  proof (cases "\<exists>t. eqv sr t \<and> sr < t")
    case True
    then show ?thesis using fold_next assms by (intro fold_loop_result [OF fold_eqv]) blast+
  next
    case False
    then have "SimpleFold sr \<le> sr" using fold_first [of sr sr] refl by (meson not_le)
    then show ?thesis using False fold_loop_up [OF sym [OF fold_eqv]] assms by auto
  qed
  then show ?thesis using assms fold_ASCII [of sr tr] by (auto simp: equalFoldRune_def)
qed

lemma equalFoldRune_correct: "equalFoldRune SimpleFold sr tr = Some (eqv sr tr)"
proof (cases sr tr rule: linorder_cases)
  case equal
  then show ?thesis by (simp add: equalFoldRune_def refl)
next
  case greater
  then have "equalFoldRune SimpleFold sr tr = equalFoldRune SimpleFold tr sr" by (simp add: equalFoldRune_def)
  then show ?thesis using equalFoldRune_less [OF greater] sym by auto
qed (rule equalFoldRune_less)

lemma prefix_loop_correct: "prefix_loop SimpleFold s pre = Some (fold_match eqv (runes s) (runes pre))"
proof (induction "length pre" arbitrary: s pre rule: less_induct)
  case less
  obtain sr n where s: "DecodeRune s = (sr, n)" by fastforce
  obtain pr m where p: "DecodeRune pre = (pr, m)" by fastforce
  show ?case
  proof (cases "pre = [] \<or> s = []")
    case True
    then show ?thesis
      by (subst prefix_loop.simps) (auto simp: p runes.simps [of pre] runes.simps [of "[]"])
  next
    case False
    then have "length (drop m pre) < length pre" using DecodeRune_less [of pr m pre] p by simp
    from less.hyps [OF this] show ?thesis using False
      by (subst prefix_loop.simps) (simp add: s p runes.simps [of pre] runes.simps [of s] equalFoldRune_correct)
  qed
qed

lemma suffix_loop_correct:
  "suffix_loop SimpleFold s suf = Some (fold_match eqv (last_runes s) (last_runes suf) \<and> RuneError \<notin> set (last_runes suf))"
proof (induction "length suf" arbitrary: s suf rule: less_induct)
  case less
  obtain sr n where s: "DecodeLastRune s = (sr, n)" by fastforce
  obtain pr m where p: "DecodeLastRune suf = (pr, m)" by fastforce
  show ?case
  proof (cases "suf = [] \<or> s = []")
    case True
    then show ?thesis
      by (subst suffix_loop.simps) (auto simp: p last_runes.simps [of suf] last_runes.simps [of "[]"])
  next
    case False
    then have "length (take (length suf - m) suf) < length suf" using DecodeLastRune_less [of pr m suf] p by simp
    from less.hyps [OF this] show ?thesis using False
      by (subst suffix_loop.simps) (simp add: s p last_runes.simps [of suf] last_runes.simps [of s] equalFoldRune_correct)
  qed
qed

lemma HasPrefixFold_correct: "HasPrefixFold SimpleFold s pre = Some (fold_match eqv (runes s) (runes pre))"
  by (cases "pre = []") (simp_all add: HasPrefixFold_def prefix_loop_correct runes.simps [of "[]"])

lemma HasSuffixFold_correct:
  "HasSuffixFold SimpleFold s suf = Some (fold_match eqv (last_runes s) (last_runes suf) \<and> RuneError \<notin> set (last_runes suf))"
  by (cases "suf = []") (simp_all add: HasSuffixFold_def suffix_loop_correct last_runes.simps [of "[]"])

lemma contains_loop_correct:
  assumes "substr \<noteq> []"
  shows "contains_loop SimpleFold s substr (hd (runes substr)) =
    Some (\<exists>k < length (runes s). fold_match eqv (drop k (runes s)) (runes substr))"
proof (induction "length s" arbitrary: s rule: less_induct)
  case less
  obtain r n where s: "DecodeRune s = (r, n)" by fastforce
  obtain p ps where p: "runes substr = p # ps" using assms by (cases "runes substr") auto
  show ?case
  proof (cases "s = []")
    case True
    then show ?thesis by (subst contains_loop.simps) (simp add: runes.simps [of "[]"])
  next
    case False
    then have "length (drop n s) < length s" using DecodeRune_less [of r n s] s by simp
    note IH = less.hyps [OF this]
    have rs: "runes s = r # runes (drop n s)" using False by (simp add: s runes.simps [of s])
    have ex: "(\<exists>k < length (runes s). fold_match eqv (drop k (runes s)) (runes substr)) \<longleftrightarrow>
      fold_match eqv (runes s) (runes substr) \<or> (\<exists>k < length (runes (drop n s)). fold_match eqv (drop k (runes (drop n s))) (runes substr))"
      unfolding rs by (auto simp: Ex_less_Suc2)
    have hd: "hd (runes substr) = p" using p by simp
    have "eqv r p" if "fold_match eqv (runes s) (runes substr)" using that by (simp add: rs p)
    then show ?thesis unfolding ex using False IH
      by (subst contains_loop.simps) (auto simp: s hd equalFoldRune_correct HasPrefixFold_correct split: bool.split)
  qed
qed

lemma ContainsFold_correct:
  "ContainsFold SimpleFold s substr =
     Some (substr = [] \<or> (\<exists>k < length (runes s). fold_match eqv (drop k (runes s)) (runes substr)))"
proof (cases "substr = [] \<or> s = []")
  case True
  then show ?thesis by (auto simp: ContainsFold_def runes.simps [of "[]"])
next
  case False
  have "hd (runes substr) = fst (DecodeRune substr)" using False by (simp add: runes.simps [of substr] split: prod.split)
  moreover have "unat (substr ! 0) = fst (DecodeRune substr)" if "unat (substr ! 0) < 128"
    using that False DecodeRune_ASCII [of "hd substr" "tl substr"] by (cases substr) auto
  ultimately show ?thesis using False contains_loop_correct [of substr s] by (auto simp: ContainsFold_def Let_def not_le)
qed

end

lemma Fold_tests_correct_parts:
  assumes "simple_folding SimpleFold eqv"
  shows "HasPrefixFold SimpleFold s t = Some (fold_match eqv (runes s) (runes t))"
    and "HasSuffixFold SimpleFold s t = Some (fold_match eqv (last_runes s) (last_runes t) \<and> RuneError \<notin> set (last_runes t))"
    and "ContainsFold SimpleFold s t = Some (t = [] \<or> (\<exists>k < length (runes s). fold_match eqv (drop k (runes s)) (runes t)))"
  using simple_folding.HasPrefixFold_correct [OF assms] simple_folding.HasSuffixFold_correct [OF assms]
    simple_folding.ContainsFold_correct [OF assms] by blast+

text \<open>
  C23: With a \<open>SimpleFold\<close> as documented, the case-insensitive tests always return, and:
  \<open>HasPrefixFold\<close> holds exactly if the runes of the prefix are equivalent, one by one, to the first runes
  of the string, all of them valid; \<open>HasSuffixFold\<close> the same from the back, the suffix being valid too; and
  \<open>ContainsFold\<close> exactly if such a match starts at some rune of the string, the test of the first rune being only a short cut.
\<close>

theorem Fold_tests_correct:
  assumes "simple_folding SimpleFold eqv"
  shows "(HasPrefixFold SimpleFold s t = Some (fold_match eqv (runes s) (runes t))) \<and>
    (HasSuffixFold SimpleFold s t = Some (fold_match eqv (last_runes s) (last_runes t) \<and> RuneError \<notin> set (last_runes t))) \<and>
    (ContainsFold SimpleFold s t = Some (t = [] \<or> (\<exists>k < length (runes s). fold_match eqv (drop k (runes s)) (runes t))))"
  using Fold_tests_correct_parts [OF assms] by blast

text \<open>The classes of the ASCII letters, with the Kelvin sign and the long s.\<close>

definition fold_canon :: "rune \<Rightarrow> rune" where
  "fold_canon r = (if 65 \<le> r \<and> r \<le> 90 then r + 32 else if r = 8490 then 107 else if r = 383 then 115 else r)"

definition latin_fold :: fold where
  "latin_fold r =
     (if 65 \<le> r \<and> r \<le> 90 then r + 32 else if r = 107 then 8490 else if r = 115 then 383
      else if 97 \<le> r \<and> r \<le> 122 then r - 32 else if r = 8490 then 75 else if r = 383 then 83 else r)"

interpretation latin: simple_folding latin_fold "\<lambda>r t. fold_canon r = fold_canon t"
proof unfold_locales
  show "latin_fold r \<le> t" if "\<And>t. fold_canon r = fold_canon t \<Longrightarrow> t \<le> r" "fold_canon r = fold_canon t" for r t
  proof -
    have "fold_canon r = fold_canon 8490 \<Longrightarrow> r = 8490" "fold_canon r = fold_canon 383 \<Longrightarrow> r = 383"
      "65 \<le> r \<and> r \<le> 90 \<Longrightarrow> r + 32 \<le> r"
      using that(1) [of 8490] that(1) [of 383] that(1) [of "r + 32"] by (auto simp: fold_canon_def split: if_splits)
    then show ?thesis using that(2) by (auto simp: fold_canon_def latin_fold_def split: if_splits)
  qed
qed (auto simp: fold_canon_def latin_fold_def split: if_splits)

theorem Fold_tests_correct_witness:
  "HasPrefixFold latin_fold (ascii ''Keyhole'') (ascii ''kEY'') = Some True \<and>
   ContainsFold latin_fold (ascii ''my Keyhole'') (ascii ''KEY'') = Some True"
proof
  have r: "runes (b # s) = unat b # runes s" if "unat b < 128" for b :: byte and s
    using that by (simp add: runes.simps [of "b # s"] DecodeRune_ASCII)
  note tests = Fold_tests_correct [OF latin.simple_folding_axioms]
  show "HasPrefixFold latin_fold (ascii ''Keyhole'') (ascii ''kEY'') = Some True"
    unfolding tests [THEN conjunct1] by (simp add: ascii_def of_char_def r fold_canon_def RuneError_def runes.simps [of "[]"])
  have "fold_match (\<lambda>r t. fold_canon r = fold_canon t) (drop 3 (runes (ascii ''my Keyhole''))) (runes (ascii ''KEY''))"
    "3 < length (runes (ascii ''my Keyhole''))"
    by (simp_all add: ascii_def of_char_def r fold_canon_def RuneError_def runes.simps [of "[]"])
  then show "ContainsFold latin_fold (ascii ''my Keyhole'') (ascii ''KEY'') = Some True"
    unfolding tests [THEN conjunct2, THEN conjunct2] by blast
qed

end
