(* ===== verification/Jsonconfig.thy ===== *)
theory Jsonconfig
  imports Go4_Prelude "HOL-Library.AList" "HOL-Library.List_Lexorder"
begin

text \<open>
  The package \<open>jsonconfig\<close>, first part (\<open>jsonconfig.go\<close>): typed access to a JSON object that keeps, under
  two keys of its own, the keys asked for and the errors found. A Go map is an association list, in
  the order in which it is ranged over.
\<close>

section \<open>Values\<close>

text \<open>A \<open>float64\<close> that JSON can hold: \<open>Float m e\<close> is \<open>m * 2 ^ e\<close>.\<close>

datatype float_num = Float int int

datatype val_kind = KObject | KString | KStringOrObject | KBool | KInt | KNumber | KList

datatype cfg_error =
  MissingKey bytes val_kind | WrongType bytes val_kind | BadBool bytes bytes | BadItem bytes nat | UnknownKey bytes

text \<open>The dynamic types of an \<open>interface{}\<close> that occur: those of JSON, \<open>map[string]bool\<close> and \<open>[]error\<close>.\<close>

datatype val =
  VNull | VBool bool | VNum float_num | VStr bytes | VList "val list" | VMap "(bytes \<times> val) list"
| VKnown "bytes \<Rightarrow> bool" | VErrors "cfg_error list"

type_synonym Obj = "(bytes \<times> val) list"

definition knownkeys :: bytes where "knownkeys = ascii ''_knownkeys''"
definition errors_key :: bytes where "errors_key = ascii ''_errors''"

section \<open>Bookkeeping\<close>

text \<open>\<open>None\<close> is the panic of a failed type assertion.\<close>

definition noteKnownKey :: "bytes \<Rightarrow> Obj \<Rightarrow> Obj option" where
  "noteKnownKey key jc =
     (let jc = (case map_of jc knownkeys of None \<Rightarrow> AList.update knownkeys (VKnown (\<lambda>_. False)) jc | Some _ \<Rightarrow> jc) in
      case map_of jc knownkeys of
        Some (VKnown m) \<Rightarrow> Some (AList.update knownkeys (VKnown (m(key := True))) jc)
      | _ \<Rightarrow> None)"

definition appendError :: "cfg_error \<Rightarrow> Obj \<Rightarrow> Obj option" where
  "appendError err jc = (case map_of jc errors_key of
     Some (VErrors es) \<Rightarrow> Some (AList.update errors_key (VErrors (es @ [err])) jc)
   | Some _ \<Rightarrow> None
   | None \<Rightarrow> Some (AList.update errors_key (VErrors [err]) jc))"

section \<open>Accessors\<close>

definition obj :: "Obj \<Rightarrow> bytes \<Rightarrow> bool \<Rightarrow> (Obj \<times> Obj) option" where
  "obj jc key optional = do {
     jc \<leftarrow> noteKnownKey key jc;
     case map_of jc key of
       None \<Rightarrow> if optional then Some ([], jc) else do { jc \<leftarrow> appendError (MissingKey key KObject) jc; Some ([], jc) }
     | Some (VMap m) \<Rightarrow> Some (m, jc)
     | Some _ \<Rightarrow> do { jc \<leftarrow> appendError (WrongType key KObject) jc; Some ([], jc) } }"

definition RequiredObject :: "Obj \<Rightarrow> bytes \<Rightarrow> (Obj \<times> Obj) option" where
  "RequiredObject jc key = obj jc key False"

definition OptionalObject :: "Obj \<Rightarrow> bytes \<Rightarrow> (Obj \<times> Obj) option" where
  "OptionalObject jc key = obj jc key True"

definition cfg_string :: "Obj \<Rightarrow> bytes \<Rightarrow> bytes option \<Rightarrow> (bytes \<times> Obj) option" where
  "cfg_string jc key def = do {
     jc \<leftarrow> noteKnownKey key jc;
     case map_of jc key of
       None \<Rightarrow> (case def of
           Some d \<Rightarrow> Some (d, jc)
         | None \<Rightarrow> do { jc \<leftarrow> appendError (MissingKey key KString) jc; Some ([], jc) })
     | Some (VStr s) \<Rightarrow> Some (s, jc)
     | Some _ \<Rightarrow> do { jc \<leftarrow> appendError (WrongType key KString) jc; Some ([], jc) } }"

definition RequiredString :: "Obj \<Rightarrow> bytes \<Rightarrow> (bytes \<times> Obj) option" where
  "RequiredString jc key = cfg_string jc key None"

definition OptionalString :: "Obj \<Rightarrow> bytes \<Rightarrow> bytes \<Rightarrow> (bytes \<times> Obj) option" where
  "OptionalString jc key def = cfg_string jc key (Some def)"

definition stringOrObject :: "Obj \<Rightarrow> bytes \<Rightarrow> bool \<Rightarrow> (val \<times> Obj) option" where
  "stringOrObject jc key required = do {
     jc \<leftarrow> noteKnownKey key jc;
     case map_of jc key of
       None \<Rightarrow> if \<not> required then Some (VNull, jc)
         else do { jc \<leftarrow> appendError (MissingKey key KStringOrObject) jc; Some (VStr [], jc) }
     | Some (VMap m) \<Rightarrow> Some (VMap m, jc)
     | Some (VStr s) \<Rightarrow> Some (VStr s, jc)
     | Some _ \<Rightarrow> do { jc \<leftarrow> appendError (WrongType key KStringOrObject) jc; Some (VStr [], jc) } }"

definition RequiredStringOrObject :: "Obj \<Rightarrow> bytes \<Rightarrow> (val \<times> Obj) option" where
  "RequiredStringOrObject jc key = stringOrObject jc key True"

definition OptionalStringOrObject :: "Obj \<Rightarrow> bytes \<Rightarrow> (val \<times> Obj) option" where
  "OptionalStringOrObject jc key = stringOrObject jc key False"

text \<open>\<open>strconv.ParseBool\<close>; \<open>None\<close> is its error, with the value \<open>false\<close>.\<close>

definition ParseBool :: "bytes \<Rightarrow> bool option" where
  "ParseBool s =
     (if s \<in> set (map ascii [''1'', ''t'', ''T'', ''TRUE'', ''true'', ''True'']) then Some True
      else if s \<in> set (map ascii [''0'', ''f'', ''F'', ''FALSE'', ''false'', ''False'']) then Some False
      else None)"

definition cfg_bool :: "Obj \<Rightarrow> bytes \<Rightarrow> bool option \<Rightarrow> (bool \<times> Obj) option" where
  "cfg_bool jc key def = do {
     jc \<leftarrow> noteKnownKey key jc;
     case map_of jc key of
       None \<Rightarrow> (case def of
           Some d \<Rightarrow> Some (d, jc)
         | None \<Rightarrow> do { jc \<leftarrow> appendError (MissingKey key KBool) jc; Some (False, jc) })
     | Some (VBool v) \<Rightarrow> Some (v, jc)
     | Some (VStr v) \<Rightarrow> (case ParseBool v of
           Some b \<Rightarrow> Some (b, jc)
         | None \<Rightarrow> do { jc \<leftarrow> appendError (BadBool key v) jc; Some (False, jc) })
     | Some _ \<Rightarrow> do { jc \<leftarrow> appendError (WrongType key KBool) jc; Some (False, jc) } }"

definition RequiredBool :: "Obj \<Rightarrow> bytes \<Rightarrow> (bool \<times> Obj) option" where
  "RequiredBool jc key = cfg_bool jc key None"

definition OptionalBool :: "Obj \<Rightarrow> bytes \<Rightarrow> bool \<Rightarrow> (bool \<times> Obj) option" where
  "OptionalBool jc key def = cfg_bool jc key (Some def)"

text \<open>
  The conversion of a \<open>float64\<close> to a 64-bit integer drops the fraction; out of range the result depends on the
  implementation (the parameter \<open>imp\<close>).
\<close>

fun trunc :: "float_num \<Rightarrow> int" where
  "trunc (Float m e) = (if 0 \<le> e then m * 2 ^ nat e else sgn m * (\<bar>m\<bar> div 2 ^ nat (- e)))"

definition float_int :: "(float_num \<Rightarrow> int) \<Rightarrow> float_num \<Rightarrow> int" where
  "float_int imp b = (if - (2 ^ 63) \<le> trunc b \<and> trunc b < 2 ^ 63 then trunc b else imp b)"

definition cfg_int :: "(float_num \<Rightarrow> int) \<Rightarrow> Obj \<Rightarrow> bytes \<Rightarrow> int option \<Rightarrow> (int \<times> Obj) option" where
  "cfg_int imp jc key def = do {
     jc \<leftarrow> noteKnownKey key jc;
     case map_of jc key of
       None \<Rightarrow> (case def of
           Some d \<Rightarrow> Some (d, jc)
         | None \<Rightarrow> do { jc \<leftarrow> appendError (MissingKey key KInt) jc; Some (0, jc) })
     | Some (VNum b) \<Rightarrow> Some (float_int imp b, jc)
     | Some _ \<Rightarrow> do { jc \<leftarrow> appendError (WrongType key KNumber) jc; Some (0, jc) } }"

definition RequiredInt :: "(float_num \<Rightarrow> int) \<Rightarrow> Obj \<Rightarrow> bytes \<Rightarrow> (int \<times> Obj) option" where
  "RequiredInt imp jc key = cfg_int imp jc key None"

definition OptionalInt :: "(float_num \<Rightarrow> int) \<Rightarrow> Obj \<Rightarrow> bytes \<Rightarrow> int \<Rightarrow> (int \<times> Obj) option" where
  "OptionalInt imp jc key def = cfg_int imp jc key (Some def)"

text \<open>\<open>int64\<close> repeats \<open>int\<close>, which is as wide on 64-bit systems.\<close>

definition cfg_int64 :: "(float_num \<Rightarrow> int) \<Rightarrow> Obj \<Rightarrow> bytes \<Rightarrow> int option \<Rightarrow> (int \<times> Obj) option" where
  "cfg_int64 imp jc key def = do {
     jc \<leftarrow> noteKnownKey key jc;
     case map_of jc key of
       None \<Rightarrow> (case def of
           Some d \<Rightarrow> Some (d, jc)
         | None \<Rightarrow> do { jc \<leftarrow> appendError (MissingKey key KInt) jc; Some (0, jc) })
     | Some (VNum b) \<Rightarrow> Some (float_int imp b, jc)
     | Some _ \<Rightarrow> do { jc \<leftarrow> appendError (WrongType key KNumber) jc; Some (0, jc) } }"

definition RequiredInt64 :: "(float_num \<Rightarrow> int) \<Rightarrow> Obj \<Rightarrow> bytes \<Rightarrow> (int \<times> Obj) option" where
  "RequiredInt64 imp jc key = cfg_int64 imp jc key None"

definition OptionalInt64 :: "(float_num \<Rightarrow> int) \<Rightarrow> Obj \<Rightarrow> bytes \<Rightarrow> int \<Rightarrow> (int \<times> Obj) option" where
  "OptionalInt64 imp jc key def = cfg_int64 imp jc key (Some def)"

text \<open>The loop of \<open>requiredList\<close>: the index of the first item that is not a string, or the strings.\<close>

primrec list_strings :: "val list \<Rightarrow> nat \<Rightarrow> nat + bytes list" where
  "list_strings [] i = Inr []"
| "list_strings (ei # eil) i = (case ei of
     VStr s \<Rightarrow> (case list_strings eil (Suc i) of Inl j \<Rightarrow> Inl j | Inr sl \<Rightarrow> Inr (s # sl))
   | _ \<Rightarrow> Inl i)"

text \<open>The result \<open>None\<close> is the slice \<open>nil\<close>.\<close>

definition requiredList :: "Obj \<Rightarrow> bytes \<Rightarrow> bool \<Rightarrow> (bytes list option \<times> Obj) option" where
  "requiredList jc key required = do {
     jc \<leftarrow> noteKnownKey key jc;
     case map_of jc key of
       None \<Rightarrow> if required then do { jc \<leftarrow> appendError (MissingKey key KList) jc; Some (None, jc) } else Some (None, jc)
     | Some (VList eil) \<Rightarrow> (case list_strings eil 0 of
           Inr sl \<Rightarrow> Some (Some sl, jc)
         | Inl i \<Rightarrow> do { jc \<leftarrow> appendError (BadItem key i) jc; Some (None, jc) })
     | Some _ \<Rightarrow> do { jc \<leftarrow> appendError (WrongType key KList) jc; Some (None, jc) } }"

definition RequiredList :: "Obj \<Rightarrow> bytes \<Rightarrow> (bytes list option \<times> Obj) option" where
  "RequiredList jc key = requiredList jc key True"

definition OptionalList :: "Obj \<Rightarrow> bytes \<Rightarrow> (bytes list option \<times> Obj) option" where
  "OptionalList jc key = requiredList jc key False"

section \<open>Validation\<close>

definition underscored :: "bytes \<Rightarrow> bool" where
  "underscored k \<longleftrightarrow> k \<noteq> [] \<and> hd k = 95"

definition UnknownKeys :: "Obj \<Rightarrow> bytes list option" where
  "UnknownKeys jc = do {
     known \<leftarrow> (case map_of jc knownkeys of None \<Rightarrow> Some (\<lambda>_. False) | Some (VKnown m) \<Rightarrow> Some m | _ \<Rightarrow> None);
     Some (sort (filter (\<lambda>k. \<not> known k \<and> \<not> underscored k) (map fst jc))) }"

primrec append_unknown :: "bytes list \<Rightarrow> Obj \<Rightarrow> Obj option" where
  "append_unknown [] jc = Some jc"
| "append_unknown (k # ks) jc = do { jc \<leftarrow> appendError (UnknownKey k) jc; append_unknown ks jc }"

text \<open>The errors that \<open>errors.Join\<close> joins; none is \<open>nil\<close>.\<close>

definition Validate :: "Obj \<Rightarrow> (cfg_error list \<times> Obj) option" where
  "Validate jc = do {
     unknown \<leftarrow> UnknownKeys jc;
     jc \<leftarrow> append_unknown unknown jc;
     case map_of jc errors_key of
       None \<Rightarrow> Some ([], jc)
     | Some (VErrors es) \<Rightarrow> Some (es, jc)
     | Some _ \<Rightarrow> None }"

section \<open>Sequences of calls\<close>

text \<open>A call of an accessor: the key and what makes it optional.\<close>

datatype call =
  CObject bytes bool | CString bytes "bytes option" | CStringOrObject bytes bool | CBool bytes "bool option"
| CInt bytes "int option" | CInt64 bytes "int option" | CList bytes bool

datatype answer = AObj Obj | AStr bytes | AVal val | ABool bool | AInt int | AStrs "bytes list option"

primrec key_of :: "call \<Rightarrow> bytes" where
  "key_of (CObject k b) = k"
| "key_of (CString k d) = k"
| "key_of (CStringOrObject k b) = k"
| "key_of (CBool k d) = k"
| "key_of (CInt k d) = k"
| "key_of (CInt64 k d) = k"
| "key_of (CList k b) = k"

primrec do_call :: "(float_num \<Rightarrow> int) \<Rightarrow> Obj \<Rightarrow> call \<Rightarrow> (answer \<times> Obj) option" where
  "do_call imp jc (CObject k b) = map_option (map_prod AObj id) (obj jc k b)"
| "do_call imp jc (CString k d) = map_option (map_prod AStr id) (cfg_string jc k d)"
| "do_call imp jc (CStringOrObject k b) = map_option (map_prod AVal id) (stringOrObject jc k b)"
| "do_call imp jc (CBool k d) = map_option (map_prod ABool id) (cfg_bool jc k d)"
| "do_call imp jc (CInt k d) = map_option (map_prod AInt id) (cfg_int imp jc k d)"
| "do_call imp jc (CInt64 k d) = map_option (map_prod AInt id) (cfg_int64 imp jc k d)"
| "do_call imp jc (CList k b) = map_option (map_prod AStrs id) (requiredList jc k b)"

primrec run_calls :: "(float_num \<Rightarrow> int) \<Rightarrow> call list \<Rightarrow> Obj \<Rightarrow> (answer list \<times> Obj) option" where
  "run_calls imp [] jc = Some ([], jc)"
| "run_calls imp (c # cs) jc = do { (a, jc) \<leftarrow> do_call imp jc c; (as, jc) \<leftarrow> run_calls imp cs jc; Some (a # as, jc) }"

text \<open>Specification: the answer to a call and its error, from the value of the key alone.\<close>

definition int_answer :: "(float_num \<Rightarrow> int) \<Rightarrow> bytes \<Rightarrow> int option \<Rightarrow> val option \<Rightarrow> answer \<times> cfg_error option" where
  "int_answer imp k d v = (case v of
     None \<Rightarrow> (case d of Some x \<Rightarrow> (AInt x, None) | None \<Rightarrow> (AInt 0, Some (MissingKey k KInt)))
   | Some (VNum b) \<Rightarrow> (AInt (float_int imp b), None)
   | Some _ \<Rightarrow> (AInt 0, Some (WrongType k KNumber)))"

primrec answer_of :: "(float_num \<Rightarrow> int) \<Rightarrow> (bytes \<rightharpoonup> val) \<Rightarrow> call \<Rightarrow> answer \<times> cfg_error option" where
  "answer_of imp m (CObject k b) = (case m k of
     None \<Rightarrow> (AObj [], if b then None else Some (MissingKey k KObject))
   | Some (VMap x) \<Rightarrow> (AObj x, None)
   | Some _ \<Rightarrow> (AObj [], Some (WrongType k KObject)))"
| "answer_of imp m (CString k d) = (case m k of
     None \<Rightarrow> (case d of Some x \<Rightarrow> (AStr x, None) | None \<Rightarrow> (AStr [], Some (MissingKey k KString)))
   | Some (VStr x) \<Rightarrow> (AStr x, None)
   | Some _ \<Rightarrow> (AStr [], Some (WrongType k KString)))"
| "answer_of imp m (CStringOrObject k b) = (case m k of
     None \<Rightarrow> if b then (AVal (VStr []), Some (MissingKey k KStringOrObject)) else (AVal VNull, None)
   | Some (VMap x) \<Rightarrow> (AVal (VMap x), None)
   | Some (VStr x) \<Rightarrow> (AVal (VStr x), None)
   | Some _ \<Rightarrow> (AVal (VStr []), Some (WrongType k KStringOrObject)))"
| "answer_of imp m (CBool k d) = (case m k of
     None \<Rightarrow> (case d of Some x \<Rightarrow> (ABool x, None) | None \<Rightarrow> (ABool False, Some (MissingKey k KBool)))
   | Some (VBool x) \<Rightarrow> (ABool x, None)
   | Some (VStr x) \<Rightarrow> (case ParseBool x of Some b \<Rightarrow> (ABool b, None) | None \<Rightarrow> (ABool False, Some (BadBool k x)))
   | Some _ \<Rightarrow> (ABool False, Some (WrongType k KBool)))"
| "answer_of imp m (CInt k d) = int_answer imp k d (m k)"
| "answer_of imp m (CInt64 k d) = int_answer imp k d (m k)"
| "answer_of imp m (CList k b) = (case m k of
     None \<Rightarrow> (AStrs None, if b then Some (MissingKey k KList) else None)
   | Some (VList xs) \<Rightarrow> (case list_strings xs 0 of Inr sl \<Rightarrow> (AStrs (Some sl), None) | Inl i \<Rightarrow> (AStrs None, Some (BadItem k i)))
   | Some _ \<Rightarrow> (AStrs None, Some (WrongType k KList)))"

text \<open>Every accessor notes its key, answers, and records the error of the answer if there is one.\<close>

definition record_error :: "cfg_error option \<Rightarrow> Obj \<Rightarrow> Obj option" where
  "record_error e jc = (case e of None \<Rightarrow> Some jc | Some e \<Rightarrow> appendError e jc)"

lemma map_append_error:
  "map_option (map_prod f id) (appendError e jc \<bind> (\<lambda>jc. Some (x, jc))) = appendError e jc \<bind> (\<lambda>jc. Some (f x, jc))"
  by (cases "appendError e jc") simp_all

lemma do_call_shape:
  "do_call imp jc c = do {
     jc \<leftarrow> noteKnownKey (key_of c) jc;
     jc' \<leftarrow> record_error (snd (answer_of imp (map_of jc) c)) jc;
     Some (fst (answer_of imp (map_of jc) c), jc') }"
proof (cases c)
  case (CObject k b)
  then show ?thesis
    by (cases "noteKnownKey k jc") (simp_all add: obj_def record_error_def map_append_error split: option.split val.split sum.split)
next
  case (CString k d)
  then show ?thesis
    by (cases "noteKnownKey k jc") (simp_all add: cfg_string_def record_error_def map_append_error split: option.split val.split sum.split)
next
  case (CStringOrObject k b)
  then show ?thesis
    by (cases "noteKnownKey k jc") (simp_all add: stringOrObject_def record_error_def map_append_error split: option.split val.split sum.split)
next
  case (CBool k d)
  then show ?thesis
    by (cases "noteKnownKey k jc") (simp_all add: cfg_bool_def record_error_def map_append_error split: option.split val.split sum.split)
next
  case (CInt k d)
  then show ?thesis
    by (cases "noteKnownKey k jc") (simp_all add: cfg_int_def int_answer_def record_error_def map_append_error split: option.split val.split sum.split)
next
  case (CInt64 k d)
  then show ?thesis
    by (cases "noteKnownKey k jc") (simp_all add: cfg_int64_def int_answer_def record_error_def map_append_error split: option.split val.split sum.split)
next
  case (CList k b)
  then show ?thesis
    by (cases "noteKnownKey k jc") (simp_all add: requiredList_def record_error_def map_append_error split: option.split val.split sum.split)
qed

text \<open>\<open>jc'\<close> is the object \<open>jc\<close> with the keys \<open>ks\<close> noted and the errors \<open>es\<close> recorded.\<close>

definition tracks :: "Obj \<Rightarrow> bytes list \<Rightarrow> cfg_error list \<Rightarrow> Obj \<Rightarrow> bool" where
  "tracks jc ks es jc' \<longleftrightarrow> distinct (map fst jc') \<and> (\<forall>k. k \<noteq> knownkeys \<and> k \<noteq> errors_key \<longrightarrow> map_of jc' k = map_of jc k) \<and>
     map_of jc' knownkeys = (if ks = [] then None else Some (VKnown (\<lambda>k. k \<in> set ks))) \<and>
     map_of jc' errors_key = (if es = [] then None else Some (VErrors es))"

lemma keys_differ [simp]: "knownkeys \<noteq> errors_key" "errors_key \<noteq> knownkeys"
  by (simp_all add: knownkeys_def errors_key_def ascii_def)

lemma tracks_note:
  assumes "tracks jc ks es jc'"
  shows "\<exists>jc2. noteKnownKey k jc' = Some jc2 \<and> tracks jc (ks @ [k]) es jc2"
proof -
  have "(\<lambda>x. x \<in> set ks)(k := True) = (\<lambda>x. x \<in> set (ks @ [k]))" "(\<lambda>x. x = k) = (\<lambda>x. x \<in> set [k])" by (auto simp: fun_eq_iff)
  then show ?thesis using assms
    by (auto simp: tracks_def noteKnownKey_def update_conv' distinct_update Let_def fun_upd_def split: if_splits)
qed

lemma tracks_error:
  assumes "tracks jc ks es jc'"
  shows "\<exists>jc2. record_error e jc' = Some jc2 \<and> tracks jc ks (es @ (case e of None \<Rightarrow> [] | Some x \<Rightarrow> [x])) jc2"
  using assms by (auto simp: tracks_def record_error_def appendError_def update_conv' distinct_update split: if_splits option.splits)

lemma answer_of_cong: "m (key_of c) = m' (key_of c) \<Longrightarrow> answer_of imp m c = answer_of imp m' c"
  by (cases c) auto

lemma tracks_call:
  assumes "tracks jc ks es jc'" "key_of c \<noteq> knownkeys" "key_of c \<noteq> errors_key"
  shows "\<exists>jc2. do_call imp jc' c = Some (fst (answer_of imp (map_of jc) c), jc2) \<and>
    tracks jc (ks @ [key_of c]) (es @ (case snd (answer_of imp (map_of jc) c) of None \<Rightarrow> [] | Some e \<Rightarrow> [e])) jc2"
proof -
  obtain jc1 where nk: "noteKnownKey (key_of c) jc' = Some jc1" "tracks jc (ks @ [key_of c]) es jc1" using tracks_note [OF assms(1)] by blast
  have same: "answer_of imp (map_of jc1) c = answer_of imp (map_of jc) c"
    using nk(2) assms(2,3) by (intro answer_of_cong) (simp add: tracks_def)
  obtain jc2 where "record_error (snd (answer_of imp (map_of jc) c)) jc1 = Some jc2"
    "tracks jc (ks @ [key_of c]) (es @ (case snd (answer_of imp (map_of jc) c) of None \<Rightarrow> [] | Some e \<Rightarrow> [e])) jc2"
    using tracks_error [OF nk(2)] by blast
  then show ?thesis using nk(1) same by (simp add: do_call_shape)
qed

text \<open>The errors of a sequence of calls.\<close>

definition call_errors :: "(float_num \<Rightarrow> int) \<Rightarrow> Obj \<Rightarrow> call list \<Rightarrow> cfg_error list" where
  "call_errors imp jc cs = concat (map (\<lambda>c. case snd (answer_of imp (map_of jc) c) of None \<Rightarrow> [] | Some e \<Rightarrow> [e]) cs)"

lemma tracks_calls:
  assumes "tracks jc ks es jc'" "\<forall>c \<in> set cs. key_of c \<noteq> knownkeys \<and> key_of c \<noteq> errors_key"
  shows "\<exists>jc2. run_calls imp cs jc' = Some (map (\<lambda>c. fst (answer_of imp (map_of jc) c)) cs, jc2) \<and>
    tracks jc (ks @ map key_of cs) (es @ call_errors imp jc cs) jc2"
  using assms
proof (induction cs arbitrary: ks es jc')
  case (Cons c cs)
  obtain jc1 where 1: "do_call imp jc' c = Some (fst (answer_of imp (map_of jc) c), jc1)"
    "tracks jc (ks @ [key_of c]) (es @ (case snd (answer_of imp (map_of jc) c) of None \<Rightarrow> [] | Some e \<Rightarrow> [e])) jc1"
    using tracks_call [OF Cons.prems(1), of c imp] Cons.prems(2) by auto
  from Cons.IH [OF 1(2)] Cons.prems(2) 1(1) show ?case by (auto simp: call_errors_def)
qed (simp add: call_errors_def)

lemma append_unknown_tracks:
  assumes "tracks jc ks es jc'"
  shows "\<exists>jc2. append_unknown us jc' = Some jc2 \<and> tracks jc ks (es @ map UnknownKey us) jc2"
  using assms
proof (induction us arbitrary: es jc')
  case (Cons u us)
  obtain jc1 where "appendError (UnknownKey u) jc' = Some jc1" "tracks jc ks (es @ [UnknownKey u]) jc1"
    using tracks_error [OF Cons.prems, of "Some (UnknownKey u)"] by (auto simp: record_error_def)
  then show ?case using Cons.IH [of "es @ [UnknownKey u]" jc1] by auto
qed auto

text \<open>The keys of an object that no call has asked for and that are not comments.\<close>

definition unasked :: "Obj \<Rightarrow> bytes list \<Rightarrow> bytes set" where
  "unasked jc ks = {k \<in> fst ` set jc. \<not> underscored k \<and> k \<notin> set ks}"

lemma reserved_underscored [simp]: "underscored knownkeys" "underscored errors_key"
  by (simp_all add: underscored_def knownkeys_def errors_key_def ascii_def of_char_def)

lemma UnknownKeys_tracks:
  assumes "tracks jc ks es jc'"
  shows "UnknownKeys jc' = Some (sorted_list_of_set (unasked jc ks))"
proof -
  have "k \<in> fst ` set jc' \<longleftrightarrow> k \<in> fst ` set jc" if "\<not> underscored k" for k
  proof -
    have "k \<noteq> knownkeys" "k \<noteq> errors_key" using that by auto
    then have "map_of jc' k = map_of jc k" using assms by (simp add: tracks_def)
    then show ?thesis by (metis map_of_eq_None_iff)
  qed
  then have set: "set (filter (\<lambda>k. k \<notin> set ks \<and> \<not> underscored k) (map fst jc')) = unasked jc ks"
    unfolding unasked_def set_filter set_map by blast
  have dist: "distinct (filter (\<lambda>k. k \<notin> set ks \<and> \<not> underscored k) (map fst jc'))" using assms by (simp add: tracks_def)
  have "sort (filter (\<lambda>k. k \<notin> set ks \<and> \<not> underscored k) (map fst jc')) = sorted_list_of_set (unasked jc ks)"
    unfolding set [symmetric] sorted_list_of_set_sort_remdups distinct_remdups_id [OF dist] ..
  then show ?thesis using assms by (cases "ks = []") (auto simp: UnknownKeys_def tracks_def)
qed

lemma jsonconfig_calls_parts:
  assumes "distinct (map fst jc)" "knownkeys \<notin> fst ` set jc" "errors_key \<notin> fst ` set jc"
    and "\<forall>c \<in> set cs. key_of c \<noteq> knownkeys \<and> key_of c \<noteq> errors_key"
  obtains jc1 jc2 where "run_calls imp cs jc = Some (map (\<lambda>c. fst (answer_of imp (map_of jc) c)) cs, jc1)"
    and "Validate jc1 = Some (call_errors imp jc cs @ map UnknownKey (sorted_list_of_set (unasked jc (map key_of cs))), jc2)"
    and "tracks jc (map key_of cs) (call_errors imp jc cs) jc1"
proof -
  have "tracks jc [] [] jc" using assms(1-3) map_of_eq_None_iff [of jc] by (simp add: tracks_def)
  then obtain jc1 where run: "run_calls imp cs jc = Some (map (\<lambda>c. fst (answer_of imp (map_of jc) c)) cs, jc1)"
    and t: "tracks jc (map key_of cs) (call_errors imp jc cs) jc1"
    using tracks_calls [OF _ assms(4), of jc "[]" "[]" jc imp] by auto
  obtain jc2 where "append_unknown (sorted_list_of_set (unasked jc (map key_of cs))) jc1 = Some jc2"
    and t2: "tracks jc (map key_of cs) (call_errors imp jc cs @ map UnknownKey (sorted_list_of_set (unasked jc (map key_of cs)))) jc2"
    using append_unknown_tracks [OF t] by blast
  then have "Validate jc1 = Some (call_errors imp jc cs @ map UnknownKey (sorted_list_of_set (unasked jc (map key_of cs))), jc2)"
    using UnknownKeys_tracks [OF t] by (auto simp: Validate_def tracks_def)
  with run t show thesis using that by blast
qed

text \<open>
  C17: For an object with keys of its own only (neither \<open>_knownkeys\<close> nor \<open>_errors\<close>), any sequence of calls
  of the accessors runs without a panic; each call answers from the original value of its key alone, whatever
  was called before; and \<open>Validate\<close> then reports exactly the errors of those answers, in
  order, followed by the keys nobody asked for and that do not start with an underscore, sorted.
\<close>

theorem jsonconfig_calls:
  assumes "distinct (map fst jc)" "knownkeys \<notin> fst ` set jc" "errors_key \<notin> fst ` set jc"
    and "\<forall>c \<in> set cs. key_of c \<noteq> knownkeys \<and> key_of c \<noteq> errors_key"
  shows "\<exists>jc1 jc2. run_calls imp cs jc = Some (map (\<lambda>c. fst (answer_of imp (map_of jc) c)) cs, jc1) \<and>
    (\<forall>k. k \<noteq> knownkeys \<and> k \<noteq> errors_key \<longrightarrow> map_of jc1 k = map_of jc k) \<and>
    Validate jc1 = Some (call_errors imp jc cs @ map UnknownKey (sorted_list_of_set (unasked jc (map key_of cs))), jc2)"
proof -
  obtain jc1 jc2 where "run_calls imp cs jc = Some (map (\<lambda>c. fst (answer_of imp (map_of jc) c)) cs, jc1)"
    and "Validate jc1 = Some (call_errors imp jc cs @ map UnknownKey (sorted_list_of_set (unasked jc (map key_of cs))), jc2)"
    and "tracks jc (map key_of cs) (call_errors imp jc cs) jc1"
    by (rule jsonconfig_calls_parts [OF assms, of imp])
  then show ?thesis by (intro exI [of _ jc1] exI [of _ jc2]) (simp add: tracks_def)
qed

theorem jsonconfig_calls_witness:
  "\<exists>jc1 jc2. run_calls trunc [CString [112] None, CInt [113] (Some 3), CBool [114] None] [([112], VStr [1]), ([114], VNum (Float 3 (- 1)))] =
      Some ([AStr [1], AInt 3, ABool False], jc1) \<and>
    Validate jc1 = Some ([WrongType [114] KBool], jc2)"
proof -
  let ?jc = "[([112], VStr [1]), ([114], VNum (Float 3 (- 1)))]" and ?cs = "[CString [112] None, CInt [113] (Some 3), CBool [114] None]"
  have ne: "knownkeys \<noteq> [x]" "errors_key \<noteq> [x]" "[x] \<noteq> knownkeys" "[x] \<noteq> errors_key" for x
    by (simp_all add: knownkeys_def errors_key_def ascii_def)
  have "unasked ?jc (map key_of ?cs) = {}" by (auto simp: unasked_def)
  with jsonconfig_calls [of ?jc ?cs trunc] show ?thesis
    by (simp add: ne call_errors_def int_answer_def) blast
qed

text \<open>
  If the configuration itself has the key \<open>_knownkeys\<close> (as any JSON value), every call of an accessor,
  \<open>UnknownKeys\<close> and \<open>Validate\<close> panics; if it has \<open>_errors\<close>, every call that finds an error panics, although
  keys with a leading underscore are meant to be comments.
\<close>

theorem reserved_keys_panic:
  assumes "\<And>m. v \<noteq> VKnown m" "\<And>es. v \<noteq> VErrors es"
  shows "(map_of jc knownkeys = Some v \<longrightarrow> do_call imp jc c = None \<and> UnknownKeys jc = None \<and> Validate jc = None) \<and>
    (map_of jc errors_key = Some v \<longrightarrow> appendError e jc = None)"
proof -
  have "do_call imp jc c = None" "UnknownKeys jc = None" if "map_of jc knownkeys = Some v"
    using that assms(1) by (auto simp: do_call_shape noteKnownKey_def UnknownKeys_def split: val.split)
  moreover have "appendError e jc = None" if "map_of jc errors_key = Some v"
    using that assms(2) by (auto simp: appendError_def split: val.split)
  ultimately show ?thesis by (simp add: Validate_def)
qed

theorem reserved_keys_panic_witness:
  "RequiredString [(knownkeys, VStr [])] [112] = None \<and> Validate [(knownkeys, VStr [])] = None \<and>
   appendError (UnknownKey []) [(errors_key, VStr [])] = None"
  using reserved_keys_panic [of "VStr []" "[(knownkeys, VStr [])]" trunc "CString [112] None"]
    reserved_keys_panic [of "VStr []" "[(errors_key, VStr [])]" trunc "CString [112] None" "UnknownKey []"]
  by (simp add: RequiredString_def)

end
