(* ===== verification/Go_Path.thy ===== *)
theory Go_Path
  imports Go4_Prelude
begin

text \<open>What the packages use of \<open>path/filepath\<close> on Unix.\<close>

definition slash :: byte where "slash = 47"

definition dot :: bytes where "dot = [46]"
definition dotdot :: bytes where "dotdot = [46, 46]"

text \<open>The parts of a text between occurrences of a byte.\<close>

primrec split_on :: "byte \<Rightarrow> bytes \<Rightarrow> bytes list" where
  "split_on x [] = [[]]"
| "split_on x (c # s) = (if c = x then [] # split_on x s else (c # hd (split_on x s)) # tl (split_on x s))"

fun join_with :: "byte \<Rightarrow> bytes list \<Rightarrow> bytes" where
  "join_with x [] = []"
| "join_with x [p] = p"
| "join_with x (p # q # ps) = p @ x # join_with x (q # ps)"

lemma split_on_nonempty [simp]: "split_on x s \<noteq> []"
  by (cases s) auto

lemma join_split [simp]: "join_with x (split_on x s) = s"
proof (induction s)
  case (Cons c s)
  obtain y ys where "split_on x s = y # ys" by (cases "split_on x s") auto
  with Cons show ?case by (cases ys) auto
qed simp

definition IsAbs :: "bytes \<Rightarrow> bool" where
  "IsAbs p \<longleftrightarrow> p \<noteq> [] \<and> hd p = slash"

text \<open>One element of a path, added to the elements kept so far.\<close>

definition clean_step :: "bool \<Rightarrow> bytes list \<Rightarrow> bytes \<Rightarrow> bytes list" where
  "clean_step rooted ps p =
     (if p = [] \<or> p = dot then ps
      else if p = dotdot then
        (if ps \<noteq> [] \<and> last ps \<noteq> dotdot then butlast ps else if rooted then ps else ps @ [dotdot])
      else ps @ [p])"

definition Clean :: "bytes \<Rightarrow> bytes" where
  "Clean p =
     (if p = [] then dot
      else let rooted = IsAbs p; ps = foldl (clean_step rooted) [] (split_on slash p) in
        if rooted then slash # join_with slash ps else if ps = [] then dot else join_with slash ps)"

definition Join :: "bytes list \<Rightarrow> bytes" where
  "Join elem = (case dropWhile (\<lambda>e. e = []) elem of [] \<Rightarrow> [] | es \<Rightarrow> Clean (join_with slash es))"

text \<open>\<open>Dir\<close>: all but the last element.\<close>

definition Dir_of :: "bytes \<Rightarrow> bytes" where
  "Dir_of p = Clean (rev (dropWhile (\<lambda>c. c \<noteq> slash) (rev p)))"

text \<open>\<open>Abs\<close>, given the working directory if it is known.\<close>

definition Abs_path :: "bytes option \<Rightarrow> bytes \<Rightarrow> bytes option" where
  "Abs_path wd p = (if IsAbs p then Some (Clean p) else map_option (\<lambda>w. Join [w, p]) wd)"

definition SplitList :: "bytes \<Rightarrow> bytes list" where
  "SplitList p = (if p = [] then [] else split_on 58 p)"

lemma IsAbs_Clean: "IsAbs p \<Longrightarrow> IsAbs (Clean p)"
  by (auto simp: Clean_def Let_def IsAbs_def)

lemma IsAbs_Join: "IsAbs w \<Longrightarrow> IsAbs (Join (w # ps))"
proof -
  assume w: "IsAbs w"
  then have "IsAbs (join_with slash (w # ps))" by (cases ps) (auto simp: IsAbs_def)
  then show ?thesis using w by (auto simp: Join_def IsAbs_def [of w] intro: IsAbs_Clean)
qed

lemma IsAbs_Abs_path: "Abs_path wd p = Some a \<Longrightarrow> (\<And>w. wd = Some w \<Longrightarrow> IsAbs w) \<Longrightarrow> IsAbs a"
  by (auto simp: Abs_path_def IsAbs_Join IsAbs_Clean split: if_splits)

end
