(* ===== verification/Jsonconfig_Eval.thy ===== *)
theory Jsonconfig_Eval
  imports Jsonconfig Go_Path
begin

text \<open>
  The package \<open>jsonconfig\<close>, second part (\<open>eval.go\<close>): reading a configuration file and evaluating the
  expressions in it, \<open>_env\<close>, \<open>_fileobj\<close> and registered ones. Evaluation of a list works in place, so
  every step returns the list as it is afterwards as well.
\<close>

section \<open>Environment and state\<close>

datatype ev_error =
  EmptyPath | AbsFailed bytes | IncludeCycle bytes | OpenFailed | JSONError | InFile ev_error
| ValueError "bytes list" ev_error | UnhandledType "bytes list"
| EnvArgs nat | EnvNotString | EnvBadDefault | EnvUnset bytes | EnvBadBool bytes
| FileArgs nat | NoInclude bytes | IncludedFrom bytes ev_error | FuncError string

text \<open>What opening and decoding a file gives; the JSON decoder is not part of the package.\<close>

datatype cfg_file = CannotOpen | NotJSON | JSON Obj

text \<open>
  The configuration and the system around it; \<open>env_Open\<close> says whether there is an \<open>Open\<close> hook. The functions that
  were registered see their arguments only, not the parser.
\<close>

record config_env =
  env_Open :: bool
  env_file :: "bytes \<Rightarrow> cfg_file"
  env_wd :: "bytes option"
  env_Stat :: "bytes \<Rightarrow> bool"
  env_Getenv :: "bytes \<Rightarrow> bytes"
  env_windows :: bool
  IncludeDirs :: "bytes list"
  regFunc :: "bytes \<rightharpoonup> (val list \<Rightarrow> ev_error + val)"

text \<open>The files read so far (\<open>None\<close> is the \<open>nil\<close> map of a new parser) and those being read.\<close>

record parser_state =
  touchedFiles :: "bytes set option"
  includeStack :: "bytes list"

datatype 'a outcome = Returns 'a | Panics | OutOfFuel

section \<open>The expression \<open>_env\<close>\<close>

definition name_byte :: "byte \<Rightarrow> bool" where
  "name_byte c \<longleftrightarrow> 65 \<le> c \<and> c \<le> 90 \<or> 97 \<le> c \<and> c \<le> 122 \<or> 48 \<le> c \<and> c \<le> 57 \<or> c = 95"

text \<open>\<open>envPattern\<close> at the start of a text: the name and what follows the match.\<close>

fun match_env :: "bytes \<Rightarrow> (bytes \<times> bytes) option" where
  "match_env (a # b # s) =
     (if a = 36 \<and> b = 123 then
        (case dropWhile name_byte s of
          c # r \<Rightarrow> if c = 125 \<and> takeWhile name_byte s \<noteq> [] then Some (takeWhile name_byte s, r) else None
        | [] \<Rightarrow> None)
      else None)"
| "match_env _ = None"

lemma match_env_shorter: "match_env s = Some (n, r) \<Longrightarrow> length r < length s"
proof (induction s rule: match_env.induct)
  case (1 a b s)
  then obtain c where "dropWhile name_byte s = c # r" by (auto split: if_splits list.splits)
  then have "length (c # r) \<le> length s" by (metis length_dropWhile_le)
  then show ?case by simp
qed auto

text \<open>The value of one variable, and the error if it has none.\<close>

definition env_value :: "config_env \<Rightarrow> bytes option \<Rightarrow> bytes \<Rightarrow> bytes \<times> ev_error option" where
  "env_value E def envVar =
     (let v = env_Getenv E envVar;
          v = (if v = [] \<and> envVar = ascii ''USER'' \<and> env_windows E then env_Getenv E (ascii ''USERNAME'') else v) in
      if v = [] then (case def of Some d \<Rightarrow> (d, None) | None \<Rightarrow> (v, Some (EnvUnset envVar))) else (v, None))"

text \<open>\<open>ReplaceAllStringFunc\<close>; the last error stays.\<close>

function expand_vars :: "config_env \<Rightarrow> bytes option \<Rightarrow> bytes \<Rightarrow> ev_error option \<Rightarrow> bytes \<times> ev_error option" where
  "expand_vars E def s err =
     (case match_env s of
       Some (envVar, r) \<Rightarrow>
         let (v, e) = env_value E def envVar; (t, err') = expand_vars E def r (case e of None \<Rightarrow> err | Some e \<Rightarrow> Some e) in (v @ t, err')
     | None \<Rightarrow> (case s of
           [] \<Rightarrow> ([], err)
         | c # r \<Rightarrow> let (t, err') = expand_vars E def r err in (c # t, err')))"
  by pat_completeness auto
termination
  by (relation "measure (\<lambda>(E, def, s, err). length s)") (auto dest: match_env_shorter)

declare expand_vars.simps [simp del]

definition expandEnv :: "config_env \<Rightarrow> val list \<Rightarrow> ev_error + val" where
  "expandEnv E v =
     (if length v < 1 \<or> length v > 2 then Inl (EnvArgs (length v))
      else case v ! 0 of
        VStr s \<Rightarrow>
          (case (if length v = 2 then (case v ! 1 of VStr d \<Rightarrow> Inr (Some d, None) | VBool b \<Rightarrow> Inr (Some [], Some b) | _ \<Rightarrow> Inl EnvBadDefault)
                 else Inr (None, None)) of
            Inl e \<Rightarrow> Inl e
          | Inr (def, boolDefault) \<Rightarrow>
              let (expanded, err) = expand_vars E def s None in
              (case boolDefault of
                Some b \<Rightarrow> if expanded = [] then Inr (VBool b)
                  else (case ParseBool expanded of Some x \<Rightarrow> Inr (VBool x) | None \<Rightarrow> Inl (EnvBadBool expanded))
              | None \<Rightarrow> (case err of None \<Rightarrow> Inr (VStr expanded) | Some e \<Rightarrow> Inl e)))
      | _ \<Rightarrow> Inl EnvNotString)"

section \<open>The expression \<open>_fileobj\<close>\<close>

definition ConfigFilePath :: "config_env \<Rightarrow> bytes \<Rightarrow> bytes option" where
  "ConfigFilePath E configFile =
     (if env_Stat E configFile then Some configFile
      else if IsAbs configFile then None
      else map_option (\<lambda>d. Join [d, configFile]) (find (\<lambda>d. env_Stat E (Join [d, configFile])) (IncludeDirs E)))"

type_synonym reader = "bytes \<Rightarrow> parser_state \<Rightarrow> ((ev_error + Obj) \<times> parser_state) outcome"

definition expandFile :: "config_env \<Rightarrow> reader \<Rightarrow> parser_state \<Rightarrow> val list \<Rightarrow> ((ev_error + val) \<times> parser_state) outcome" where
  "expandFile E rd st v =
     (if length v \<noteq> 1 then Returns (Inl (FileArgs (length v)), st)
      else case v ! 0 of
        VStr p \<Rightarrow> (case ConfigFilePath E p of
            None \<Rightarrow> Returns (Inl (NoInclude p), st)
          | Some incPath \<Rightarrow> (case rd incPath st of
                Returns (Inr x, st) \<Rightarrow> Returns (Inr (VMap x), st)
              | Returns (Inl e, st) \<Rightarrow> if includeStack st = [] then Panics else Returns (Inl (IncludedFrom (last (includeStack st)) e), st)
              | Panics \<Rightarrow> Panics
              | OutOfFuel \<Rightarrow> OutOfFuel))
      | _ \<Rightarrow> Panics)"

definition namedExpander :: "config_env \<Rightarrow> reader \<Rightarrow> bytes \<Rightarrow> (parser_state \<Rightarrow> val list \<Rightarrow> ((ev_error + val) \<times> parser_state) outcome) option" where
  "namedExpander E rd name =
     (if name = ascii ''_env'' then Some (\<lambda>st v. Returns (expandEnv E v, st))
      else if name = ascii ''_fileobj'' then Some (expandFile E rd)
      else map_option (\<lambda>f st v. Returns (f v, st)) (regFunc E name))"

text \<open>\<open>RegisterFunc\<close>: \<open>None\<close> is a panic.\<close>

definition RegisterFunc :: "bytes \<Rightarrow> (val list \<Rightarrow> ev_error + val) \<Rightarrow> config_env \<Rightarrow> config_env option" where
  "RegisterFunc name fn E =
     (if length name < 2 \<or> hd name \<noteq> 95 then None
      else if regFunc E name \<noteq> None then None
      else Some (E\<lparr>regFunc := (regFunc E)(name \<mapsto> fn)\<rparr>))"

section \<open>Evaluation\<close>

text \<open>The result, the value as it is afterwards, and the state.\<close>

fun evalValue :: "config_env \<Rightarrow> reader \<Rightarrow> parser_state \<Rightarrow> val \<Rightarrow> ((ev_error + val) \<times> val \<times> parser_state) outcome"
and evalItems :: "config_env \<Rightarrow> reader \<Rightarrow> parser_state \<Rightarrow> val list \<Rightarrow> (ev_error option \<times> val list \<times> parser_state) outcome" where
  "evalValue E rd st (VList []) = Panics"
| "evalValue E rd st (VList (v # vs)) =
     (case (case v of VStr name \<Rightarrow> namedExpander E rd name | _ \<Rightarrow> None) of
       Some expander \<Rightarrow> (case expander st vs of
           Returns (r, st) \<Rightarrow> Returns (r, VList (v # vs), st)
         | Panics \<Rightarrow> Panics
         | OutOfFuel \<Rightarrow> OutOfFuel)
     | None \<Rightarrow> (case evalItems E rd st (v # vs) of
           Returns (Some e, vs', st) \<Rightarrow> Returns (Inl e, VList vs', st)
         | Returns (None, vs', st) \<Rightarrow> Returns (Inr (VList vs'), VList vs', st)
         | Panics \<Rightarrow> Panics
         | OutOfFuel \<Rightarrow> OutOfFuel))"
| "evalValue E rd st v = Returns (Inr v, v, st)"
| "evalItems E rd st [] = Returns (None, [], st)"
| "evalItems E rd st (v # vs) =
     (case evalValue E rd st v of
       Returns (Inl e, v', st) \<Rightarrow> Returns (Some e, v' # vs, st)
     | Returns (Inr w, v', st) \<Rightarrow> (case evalItems E rd st vs of
           Returns (e, vs', st) \<Rightarrow> Returns (e, w # vs', st)
         | Panics \<Rightarrow> Panics
         | OutOfFuel \<Rightarrow> OutOfFuel)
     | Panics \<Rightarrow> Panics
     | OutOfFuel \<Rightarrow> OutOfFuel)"

text \<open>One entry of an object (the body of the loop), and the loop.\<close>

function evalEntry ::
  "config_env \<Rightarrow> reader \<Rightarrow> parser_state \<Rightarrow> val \<Rightarrow> bytes list \<Rightarrow> bool \<Rightarrow> (ev_error option \<times> val \<times> parser_state) outcome"
and evaluateExpressions ::
  "config_env \<Rightarrow> reader \<Rightarrow> parser_state \<Rightarrow> Obj \<Rightarrow> bytes list \<Rightarrow> bool \<Rightarrow> (ev_error option \<times> Obj \<times> parser_state) outcome" where
  "evalEntry E rd st ei thisPath testOnly = (case ei of
     VList subval \<Rightarrow>
       if subval = [] then Returns (None, ei, st)
       else (case evalValue E rd st ei of
         Returns (Inl e, v', st) \<Rightarrow> Returns (Some (ValueError thisPath e), v', st)
       | Returns (Inr evaled, v', st) \<Rightarrow> Returns (None, if testOnly then v' else evaled, st)
       | Panics \<Rightarrow> Panics
       | OutOfFuel \<Rightarrow> OutOfFuel)
   | VMap subval \<Rightarrow> (case evaluateExpressions E rd st subval thisPath testOnly of
         Returns (e, sub', st) \<Rightarrow> Returns (e, VMap sub', st)
       | Panics \<Rightarrow> Panics
       | OutOfFuel \<Rightarrow> OutOfFuel)
   | VKnown _ \<Rightarrow> Returns (Some (UnhandledType thisPath), ei, st)
   | VErrors _ \<Rightarrow> Returns (Some (UnhandledType thisPath), ei, st)
   | _ \<Rightarrow> Returns (None, ei, st))"
| "evaluateExpressions E rd st [] seenKeys testOnly = Returns (None, [], st)"
| "evaluateExpressions E rd st ((k, ei) # m) seenKeys testOnly =
     (case evalEntry E rd st ei (seenKeys @ [k]) testOnly of
       Returns (Some e, v, st) \<Rightarrow> Returns (Some e, (k, v) # m, st)
     | Returns (None, v, st) \<Rightarrow> (case evaluateExpressions E rd st m seenKeys testOnly of
           Returns (e, m', st) \<Rightarrow> Returns (e, (k, v) # m', st)
         | Panics \<Rightarrow> Panics
         | OutOfFuel \<Rightarrow> OutOfFuel)
     | Panics \<Rightarrow> Panics
     | OutOfFuel \<Rightarrow> OutOfFuel)"
  by pat_completeness auto
termination
  by (relation "measure (\<lambda>x. case x of Inl (E, rd, st, ei, _) \<Rightarrow> Suc (2 * size ei)
    | Inr (E, rd, st, m, _) \<Rightarrow> 2 * size_list (size_prod (\<lambda>_. 0) size) m)") auto

declare evalEntry.simps [simp del]

text \<open>Opening, decoding and evaluating, between the push and the deferred pop of the include stack.\<close>

definition read_body :: "config_env \<Rightarrow> reader \<Rightarrow> bytes \<Rightarrow> parser_state \<Rightarrow> ((ev_error + Obj) \<times> parser_state) outcome" where
  "read_body E rd configPath st = (case env_file E configPath of
     CannotOpen \<Rightarrow> Returns (Inl OpenFailed, st)
   | NotJSON \<Rightarrow> Returns (Inl JSONError, st)
   | JSON decodedObject \<Rightarrow> (case evaluateExpressions E rd st decodedObject [] False of
         Returns (Some e, _, st) \<Rightarrow> Returns (Inl (InFile e), st)
       | Returns (None, m, st) \<Rightarrow> Returns (Inr m, st)
       | Panics \<Rightarrow> Panics
       | OutOfFuel \<Rightarrow> OutOfFuel))"

text \<open>The whole of \<open>recursiveReadJSON\<close>, given the reader for the files it includes.\<close>

definition read_path :: "config_env \<Rightarrow> reader \<Rightarrow> reader" where
  "read_path E rd configPath st =
     (if configPath = [] then read_body E rd configPath st
      else (case Abs_path (env_wd E) configPath of
        None \<Rightarrow> Returns (Inl (AbsFailed configPath), st)
      | Some absConfigPath \<Rightarrow> (case touchedFiles st of
          None \<Rightarrow> Panics
        | Some touched \<Rightarrow>
            if absConfigPath \<in> touched then Returns (Inl (IncludeCycle absConfigPath), st)
            else (case read_body E rd configPath
                (st\<lparr>touchedFiles := Some (insert absConfigPath touched), includeStack := includeStack st @ [absConfigPath]\<rparr>) of
              Returns (r, st) \<Rightarrow> Returns (r, st\<lparr>includeStack := butlast (includeStack st)\<rparr>)
            | Panics \<Rightarrow> Panics
            | OutOfFuel \<Rightarrow> OutOfFuel))))"

text \<open>The fuel bounds the depth of inclusion.\<close>

primrec recursiveReadJSON :: "nat \<Rightarrow> config_env \<Rightarrow> reader" where
  "recursiveReadJSON 0 E = (\<lambda>configPath st. OutOfFuel)"
| "recursiveReadJSON (Suc fuel) E = read_path E (recursiveReadJSON fuel E)"

definition ReadFile :: "nat \<Rightarrow> config_env \<Rightarrow> bytes \<Rightarrow> parser_state \<Rightarrow> ((ev_error + Obj) \<times> parser_state) outcome" where
  "ReadFile fuel E path st =
     (if path = [] \<and> \<not> env_Open E then Returns (Inl EmptyPath, st)
      else recursiveReadJSON fuel E path (st\<lparr>touchedFiles := Some {}\<rparr>))"

definition CheckTypes :: "nat \<Rightarrow> config_env \<Rightarrow> parser_state \<Rightarrow> Obj \<Rightarrow> (ev_error option \<times> Obj \<times> parser_state) outcome" where
  "CheckTypes fuel E st m = evaluateExpressions E (recursiveReadJSON fuel E) st m [] True"

section \<open>Termination\<close>

text \<open>An outcome that is not lack of fuel and whose state, if there is one, satisfies \<open>P\<close>.\<close>

primrec safe :: "('a \<Rightarrow> parser_state) \<Rightarrow> (parser_state \<Rightarrow> bool) \<Rightarrow> 'a outcome \<Rightarrow> bool" where
  "safe get P (Returns x) \<longleftrightarrow> P (get x)"
| "safe get P Panics \<longleftrightarrow> True"
| "safe get P OutOfFuel \<longleftrightarrow> False"

text \<open>A reader that serves every nested inclusion from the states of \<open>P\<close>.\<close>

definition serves :: "reader \<Rightarrow> (parser_state \<Rightarrow> bool) \<Rightarrow> bool" where
  "serves rd P \<longleftrightarrow> (\<forall>p st. p \<noteq> [] \<and> P st \<longrightarrow> safe snd P (rd p st))"

lemma ConfigFilePath_Some: "ConfigFilePath E p = Some q \<Longrightarrow> env_Stat E q"
  by (auto simp: ConfigFilePath_def find_Some_iff split: if_splits)

lemma expandFile_safe:
  assumes "serves rd P" "\<not> env_Stat E []" "P st"
  shows "safe snd P (expandFile E rd st v)"
proof (cases "\<exists>p q. length v = 1 \<and> v ! 0 = VStr p \<and> ConfigFilePath E p = Some q")
  case True
  then obtain p q where v: "length v = 1" "v ! 0 = VStr p" "ConfigFilePath E p = Some q" by blast
  then have "q \<noteq> []" using assms(2) ConfigFilePath_Some by blast
  then have "safe snd P (rd q st)" using assms by (simp add: serves_def)
  then show ?thesis using v by (auto simp: expandFile_def split: outcome.splits sum.splits)
qed (use assms(3) in \<open>auto simp: expandFile_def split: val.splits option.splits\<close>)

lemma namedExpander_safe:
  assumes "serves rd P" "\<not> env_Stat E []" "P st" "namedExpander E rd name = Some f"
  shows "safe snd P (f st v)"
  using assms expandFile_safe [OF assms(1-3)] by (auto simp: namedExpander_def split: if_splits)

lemma evalValue_safe:
  "serves rd P \<Longrightarrow> \<not> env_Stat E [] \<Longrightarrow> P st \<Longrightarrow> safe (snd \<circ> snd) P (evalValue E rd st v)"
  "serves rd P \<Longrightarrow> \<not> env_Stat E [] \<Longrightarrow> P st \<Longrightarrow> safe (snd \<circ> snd) P (evalItems E rd st vs)"
proof (induction E rd st v and E rd st vs rule: evalValue_evalItems.induct)
  case (2 E rd st v vs)
  show ?case
  proof (cases "case v of VStr name \<Rightarrow> namedExpander E rd name | _ \<Rightarrow> None")
    case None
    then show ?thesis using 2 by (auto split: outcome.splits option.splits)
  next
    case (Some f)
    then obtain name where "namedExpander E rd name = Some f" by (auto split: val.splits)
    then have "safe snd P (f st vs)" using namedExpander_safe 2(2-4) by blast
    then show ?thesis using Some by (auto split: outcome.splits)
  qed
next
  case (5 E rd st v vs)
  show ?case
  proof (cases "evalValue E rd st v")
    case (Returns x)
    obtain r v' st' where x: "x = (r, v', st')" by (cases x) auto
    have st': "P st'" using 5(1,3-5) Returns x by simp
    have "safe (snd \<circ> snd) P (evalItems E rd st' vs)" if "r = Inr w" for w
      by (rule 5(2) [OF Returns x [symmetric] that refl 5(3,4) st'])
    then show ?thesis using st' Returns x by (cases r) (auto split: outcome.split)
  qed (use 5 in auto)
qed auto

lemma evaluateExpressions_safe:
  "serves rd P \<Longrightarrow> \<not> env_Stat E [] \<Longrightarrow> P st \<Longrightarrow> safe (snd \<circ> snd) P (evalEntry E rd st ei path testOnly)"
  "serves rd P \<Longrightarrow> \<not> env_Stat E [] \<Longrightarrow> P st \<Longrightarrow> safe (snd \<circ> snd) P (evaluateExpressions E rd st m path testOnly)"
proof (induction E rd st ei path testOnly and E rd st m path testOnly rule: evalEntry_evaluateExpressions.induct)
  case (1 E rd st ei path testOnly)
  show ?case
  proof (cases ei)
    case (VList vs)
    then show ?thesis using evalValue_safe(1) [OF 1(2-4), of "VList vs"] 1(4)
      by (auto simp: evalEntry.simps [of E rd st "VList vs"] split: outcome.splits sum.splits)
  next
    case (VMap m)
    then show ?thesis using 1(1) [OF VMap 1(2-4)] by (auto simp: evalEntry.simps [of E rd st "VMap m"] split: outcome.splits)
  qed (use 1 in \<open>auto simp: evalEntry.simps\<close>)
next
  case (3 E rd st k ei m path testOnly)
  then show ?case by (auto split: outcome.splits option.splits; blast)
qed auto

text \<open>The files that can be read, by their absolute path; and the states in which those of \<open>T\<close> are touched.\<close>

definition readable :: "config_env \<Rightarrow> bytes set" where
  "readable E = {a. \<exists>p x. Abs_path (env_wd E) p = Some a \<and> env_file E p = JSON x}"

definition touched :: "bytes set \<Rightarrow> parser_state \<Rightarrow> bool" where
  "touched T st \<longleftrightarrow> (\<exists>T'. touchedFiles st = Some T' \<and> T \<subseteq> T')"

lemma read_body_safe:
  assumes "\<And>x. env_file E p = JSON x \<Longrightarrow> serves rd P" "\<not> env_Stat E []" "P st"
  shows "safe snd P (read_body E rd p st)"
proof (cases "env_file E p")
  case (JSON x)
  then show ?thesis using evaluateExpressions_safe(2) [OF assms(1) [OF JSON] assms(2,3), of x "[]" False]
    by (auto simp: read_body_def split: outcome.splits option.splits)
qed (use assms(3) in \<open>simp_all add: read_body_def\<close>)

lemma recursiveReadJSON_safe:
  assumes "finite (readable E)" "\<not> env_Stat E []"
  shows "card (readable E - T) < fuel \<Longrightarrow> path \<noteq> [] \<Longrightarrow> touched T st \<Longrightarrow> safe snd (touched T) (recursiveReadJSON fuel E path st)"
proof (induction fuel arbitrary: T path st)
  case (Suc fuel)
  obtain T' where T': "touchedFiles st = Some T'" "T \<subseteq> T'" using Suc.prems(3) by (auto simp: touched_def)
  show ?case
  proof (cases "\<exists>a. Abs_path (env_wd E) path = Some a \<and> a \<notin> T'")
    case True
    then obtain a where a: "Abs_path (env_wd E) path = Some a" "a \<notin> T'" by blast
    let ?st = "st\<lparr>touchedFiles := Some (insert a T'), includeStack := includeStack st @ [a]\<rparr>"
    have serves: "serves (recursiveReadJSON fuel E) (touched (insert a T'))" if "env_file E path = JSON x" for x
    proof -
      have "a \<in> readable E" using a(1) that by (auto simp: readable_def)
      then have "readable E - insert a T' \<subset> readable E - T'" using a(2) by auto
      also have "\<dots> \<subseteq> readable E - T" using T'(2) by auto
      finally have "card (readable E - insert a T') < card (readable E - T)" using assms(1) by (intro psubset_card_mono) auto
      then show ?thesis unfolding serves_def using Suc.IH [of "insert a T'"] Suc.prems(1) by auto
    qed
    have "safe snd (touched (insert a T')) (read_body E (recursiveReadJSON fuel E) path ?st)"
      by (rule read_body_safe [OF serves assms(2)]) (auto simp: touched_def)
    then show ?thesis using Suc.prems(2) a T' by (auto simp: read_path_def touched_def split: outcome.split)
  qed (use Suc.prems T' in \<open>auto simp: read_path_def split: option.split\<close>)
qed simp

section \<open>More fuel changes nothing\<close>

text \<open>\<open>rd'\<close> returns what \<open>rd\<close> returns, and perhaps more.\<close>

definition extends :: "reader \<Rightarrow> reader \<Rightarrow> bool" where
  "extends rd rd' \<longleftrightarrow> (\<forall>p st. rd p st \<noteq> OutOfFuel \<longrightarrow> rd' p st = rd p st)"

lemma expandFile_extends:
  assumes "extends rd rd'" "expandFile E rd st v \<noteq> OutOfFuel"
  shows "expandFile E rd' st v = expandFile E rd st v"
proof (cases "\<exists>p q. length v = 1 \<and> v ! 0 = VStr p \<and> ConfigFilePath E p = Some q")
  case True
  then obtain p q where v: "length v = 1" "v ! 0 = VStr p" "ConfigFilePath E p = Some q" by blast
  then have "rd q st \<noteq> OutOfFuel" using assms(2) by (auto simp: expandFile_def)
  then have "rd' q st = rd q st" using assms(1) by (simp add: extends_def)
  then show ?thesis using v by (simp add: expandFile_def)
qed (auto simp: expandFile_def split: val.split option.split)

lemma namedExpander_extends:
  assumes "extends rd rd'" "namedExpander E rd name = Some f"
  obtains f' where "namedExpander E rd' name = Some f'" "\<And>st v. f st v \<noteq> OutOfFuel \<Longrightarrow> f' st v = f st v"
  using assms expandFile_extends [OF assms(1)] by (auto simp: namedExpander_def split: if_splits)

lemma namedExpander_None: "namedExpander E rd name = None \<longleftrightarrow> namedExpander E rd' name = None"
  by (simp add: namedExpander_def)

lemma evalValue_extends:
  "extends rd rd' \<Longrightarrow> evalValue E rd st v \<noteq> OutOfFuel \<Longrightarrow> evalValue E rd' st v = evalValue E rd st v"
  "extends rd rd' \<Longrightarrow> evalItems E rd st vs \<noteq> OutOfFuel \<Longrightarrow> evalItems E rd' st vs = evalItems E rd st vs"
proof (induction E rd st v and E rd st vs rule: evalValue_evalItems.induct)
  case (2 E rd st v vs)
  show ?case
  proof (cases "case v of VStr name \<Rightarrow> namedExpander E rd name | _ \<Rightarrow> None")
    case None
    then have "(case v of VStr name \<Rightarrow> namedExpander E rd' name | _ \<Rightarrow> None) = None"
      using namedExpander_None [of E rd _ rd'] by (auto split: val.splits)
    then show ?thesis using 2 None by (auto split: outcome.splits)
  next
    case (Some f)
    then obtain name where n: "v = VStr name" "namedExpander E rd name = Some f" by (auto split: val.splits)
    obtain f' where "namedExpander E rd' name = Some f'" "\<And>st v. f st v \<noteq> OutOfFuel \<Longrightarrow> f' st v = f st v"
      using namedExpander_extends [OF 2(2) n(2)] by metis
    then show ?thesis using n 2(3) by (auto split: outcome.splits)
  qed
next
  case (5 E rd st v vs)
  show ?case
  proof (cases "evalValue E rd st v")
    case (Returns x)
    obtain r v' st' where x: "x = (r, v', st')" by (cases x) auto
    have same: "evalValue E rd' st v = Returns x" using 5(1,3) Returns by simp
    show ?thesis
    proof (cases r)
      case (Inr w)
      have "evalItems E rd st' vs \<noteq> OutOfFuel" using 5(4) Returns x Inr by auto
      then have "evalItems E rd' st' vs = evalItems E rd st' vs" by (rule 5(2) [OF Returns x [symmetric] Inr refl 5(3)])
      then show ?thesis using same Returns x Inr by simp
    qed (use same Returns x in simp)
  qed (use 5 in auto)
qed auto

lemma evaluateExpressions_extends:
  "extends rd rd' \<Longrightarrow> evalEntry E rd st ei path testOnly \<noteq> OutOfFuel \<Longrightarrow>
    evalEntry E rd' st ei path testOnly = evalEntry E rd st ei path testOnly"
  "extends rd rd' \<Longrightarrow> evaluateExpressions E rd st m path testOnly \<noteq> OutOfFuel \<Longrightarrow>
    evaluateExpressions E rd' st m path testOnly = evaluateExpressions E rd st m path testOnly"
proof (induction E rd st ei path testOnly and E rd st m path testOnly rule: evalEntry_evaluateExpressions.induct)
  case (1 E rd st ei path testOnly)
  show ?case
  proof (cases ei)
    case (VList vs)
    then show ?thesis using evalValue_extends(1) [OF 1(2), of E st "VList vs"] 1(3)
      by (auto simp: evalEntry.simps [of E rd st "VList vs"] evalEntry.simps [of E rd' st "VList vs"] split: outcome.splits sum.splits if_splits)
  next
    case (VMap m)
    then show ?thesis using 1(1) [OF VMap 1(2)] 1(3)
      by (auto simp: evalEntry.simps [of E rd st "VMap m"] evalEntry.simps [of E rd' st "VMap m"] split: outcome.splits)
  qed (use 1 in \<open>auto simp: evalEntry.simps\<close>)
next
  case (3 E rd st k ei m path testOnly)
  show ?case
  proof (cases "evalEntry E rd st ei (path @ [k]) testOnly")
    case (Returns x)
    obtain r v' st' where x: "x = (r, v', st')" by (cases x) auto
    have same: "evalEntry E rd' st ei (path @ [k]) testOnly = Returns x" using 3(1,3) Returns by simp
    show ?thesis
    proof (cases r)
      case None
      have "evaluateExpressions E rd st' m path testOnly \<noteq> OutOfFuel" using 3(4) Returns x None by auto
      then have "evaluateExpressions E rd' st' m path testOnly = evaluateExpressions E rd st' m path testOnly"
        by (rule 3(2) [OF Returns x [symmetric] None refl 3(3)])
      then show ?thesis using same Returns x None by simp
    qed (use same Returns x in simp)
  qed (use 3 in auto)
qed auto

lemma read_body_extends: "extends rd rd' \<Longrightarrow> read_body E rd p st \<noteq> OutOfFuel \<Longrightarrow> read_body E rd' p st = read_body E rd p st"
  using evaluateExpressions_extends(2) [of rd rd' E st _ "[]" False] by (auto simp: read_body_def split: cfg_file.splits outcome.splits)

lemma read_path_extends:
  assumes "extends rd rd'"
  shows "extends (read_path E rd) (read_path E rd')"
  unfolding extends_def
proof (intro allI impI)
  fix p st
  assume fuel: "read_path E rd p st \<noteq> OutOfFuel"
  show "read_path E rd' p st = read_path E rd p st"
  proof (cases "\<exists>a T. p \<noteq> [] \<and> Abs_path (env_wd E) p = Some a \<and> touchedFiles st = Some T \<and> a \<notin> T")
    case True
    then obtain a T where a: "p \<noteq> []" "Abs_path (env_wd E) p = Some a" "touchedFiles st = Some T" "a \<notin> T" by auto
    then show ?thesis using fuel
        read_body_extends [OF assms, of E p "st\<lparr>touchedFiles := Some (insert a T), includeStack := includeStack st @ [a]\<rparr>"]
      by (auto simp: read_path_def split: outcome.splits)
  next
    case False
    then show ?thesis using fuel read_body_extends [OF assms, of E p st]
      by (auto simp: read_path_def split: option.splits)
  qed
qed

lemma recursiveReadJSON_Suc: "extends (recursiveReadJSON n E) (recursiveReadJSON (Suc n) E)"
proof (induction n)
  case (Suc n)
  then show ?case using read_path_extends [OF Suc] by simp
qed (simp add: extends_def)

lemma recursiveReadJSON_more: "n \<le> m \<Longrightarrow> recursiveReadJSON n E p st \<noteq> OutOfFuel \<Longrightarrow> recursiveReadJSON m E p st = recursiveReadJSON n E p st"
  by (induction m rule: dec_induct) (use recursiveReadJSON_Suc in \<open>auto simp: extends_def\<close>)

text \<open>
  C18: If finitely many files can be read (and no path is empty, so that the system finds no file of an
  empty name), \<open>ReadFile\<close> returns or panics for every path, however the files include each other: a depth of inclusion of two
  more than the number of files is never exceeded, and allowing more changes nothing.
\<close>

theorem ReadFile_terminates:
  assumes "finite (readable E)" "\<not> env_Stat E []" "card (readable E) + 1 < fuel"
  shows "ReadFile fuel E path st \<noteq> OutOfFuel \<and> (\<forall>m \<ge> fuel. ReadFile m E path st = ReadFile fuel E path st)"
proof -
  let ?st = "st\<lparr>touchedFiles := Some {}\<rparr>"
  have t: "touched {} ?st" by (simp add: touched_def)
  have "safe snd (touched {}) (recursiveReadJSON fuel E path ?st)"
  proof (cases "path = []")
    case False
    then show ?thesis using recursiveReadJSON_safe [OF assms(1,2), of "{}" fuel path ?st] t assms(3) by simp
  next
    case True
    obtain n where n: "fuel = Suc n" "card (readable E) < n" using assms(3) by (cases fuel) auto
    have "serves (recursiveReadJSON n E) (touched {})"
      using recursiveReadJSON_safe [OF assms(1,2), of "{}" n] n(2) by (auto simp: serves_def)
    then show ?thesis using read_body_safe [of E path "recursiveReadJSON n E" "touched {}" ?st] assms(2) t n(1) True
      by (simp add: read_path_def)
  qed
  then have returns: "recursiveReadJSON fuel E path ?st \<noteq> OutOfFuel" by auto
  show ?thesis
  proof (intro conjI allI impI)
    show "ReadFile fuel E path st \<noteq> OutOfFuel" using returns by (simp add: ReadFile_def)
    show "ReadFile m E path st = ReadFile fuel E path st" if "fuel \<le> m" for m
      using recursiveReadJSON_more [OF that returns] by (simp add: ReadFile_def)
  qed
qed

text \<open>A file that includes itself, and one that includes nothing.\<close>

definition loop_env :: config_env where
  "loop_env = \<lparr>env_Open = False, env_file = (\<lambda>p. if p = [47, 97] then JSON [([120], VList [VStr (ascii ''_fileobj''), VStr [47, 97]])] else CannotOpen),
     env_wd = None, env_Stat = (\<lambda>p. p = [47, 97]), env_Getenv = (\<lambda>_. []), env_windows = False, IncludeDirs = [], regFunc = Map.empty\<rparr>"

definition new_parser :: parser_state where
  "new_parser = \<lparr>touchedFiles = None, includeStack = []\<rparr>"

lemma readable_loop_env: "readable loop_env = {[47, 97]}"
proof -
  have "Abs_path None [47, 97] = Some [47, 97]"
    by (simp add: Abs_path_def IsAbs_def slash_def Clean_def clean_step_def dot_def dotdot_def)
  then show ?thesis by (auto simp: readable_def loop_env_def split: if_splits)
qed

theorem ReadFile_terminates_witness: "ReadFile 3 loop_env [47, 97] new_parser \<noteq> OutOfFuel"
proof -
  have "finite (readable loop_env)" "card (readable loop_env) + 1 < 3" by (simp_all add: readable_loop_env)
  moreover have "\<not> env_Stat loop_env []" by (simp add: loop_env_def)
  ultimately show ?thesis using ReadFile_terminates by blast
qed

section \<open>What evaluation does\<close>

text \<open>Values with no expression in them. An empty list inside a list is none.\<close>

fun plain_item :: "(bytes \<Rightarrow> bool) \<Rightarrow> val \<Rightarrow> bool" where
  "plain_item named (VList vs) \<longleftrightarrow> vs \<noteq> [] \<and> (\<forall>n. hd vs = VStr n \<longrightarrow> \<not> named n) \<and> (\<forall>v \<in> set vs. plain_item named v)"
| "plain_item named _ \<longleftrightarrow> True"

fun plain_entry :: "(bytes \<Rightarrow> bool) \<Rightarrow> val \<Rightarrow> bool" where
  "plain_entry named (VList vs) \<longleftrightarrow> vs = [] \<or> plain_item named (VList vs)"
| "plain_entry named (VMap m) \<longleftrightarrow> (\<forall>e \<in> set m. plain_entry named (snd e))"
| "plain_entry named (VKnown _) \<longleftrightarrow> False"
| "plain_entry named (VErrors _) \<longleftrightarrow> False"
| "plain_entry named _ \<longleftrightarrow> True"

abbreviation expands :: "config_env \<Rightarrow> reader \<Rightarrow> bytes \<Rightarrow> bool" where
  "expands E rd name \<equiv> namedExpander E rd name \<noteq> None"

lemma evalValue_plain:
  "plain_item (expands E rd) v \<Longrightarrow> evalValue E rd st v = Returns (Inr v, v, st)"
  "\<forall>v \<in> set vs. plain_item (expands E rd) v \<Longrightarrow> evalItems E rd st vs = Returns (None, vs, st)"
proof (induction E rd st v and E rd st vs rule: evalValue_evalItems.induct)
  case (2 E rd st v vs)
  have "(case v of VStr name \<Rightarrow> namedExpander E rd name | _ \<Rightarrow> None) = None" using 2(2) by (auto split: val.splits)
  then show ?case using 2 by simp
qed auto

lemma evalValue_items:
  "vs \<noteq> [] \<Longrightarrow> \<forall>n. hd vs = VStr n \<longrightarrow> \<not> expands E rd n \<Longrightarrow> evalItems E rd st vs = Panics \<Longrightarrow> evalValue E rd st (VList vs) = Panics"
  by (cases vs) (auto split: val.splits simp del: evalItems.simps)

lemma evalItems_empty_list:
  "\<forall>u \<in> set us. plain_item (expands E rd) u \<Longrightarrow> evalItems E rd st (us @ VList [] # vs) = Panics"
  by (induction us) (simp_all add: evalValue_plain(1))

lemma evaluate_plain_objects:
  "plain_entry (expands E rd) ei \<Longrightarrow> evalEntry E rd st ei path t = Returns (None, ei, st)"
  "\<forall>e \<in> set m. plain_entry (expands E rd) (snd e) \<Longrightarrow> evaluateExpressions E rd st m path t = Returns (None, m, st)"
proof (induction E rd st ei path t and E rd st m path t rule: evalEntry_evaluateExpressions.induct)
  case (1 E rd st ei path t)
  then show ?case using evalValue_plain(1) [of E rd ei st] by (cases ei) (auto simp: evalEntry.simps simp del: plain_item.simps)
qed auto

text \<open>
  C21: Evaluation leaves an object with no expression in it as it is, at any depth. But a list (not itself an
  expression) in which an empty list follows values without expressions makes it panic (and with it \<open>ReadFile\<close>, for a file such as \<open>{"a": [[]]}\<close>), as does a
  \<open>_fileobj\<close> expression whose argument is not a string.
\<close>

theorem evaluate_plain_or_panic:
  "((\<forall>e \<in> set m. plain_entry (expands E rd) (snd e)) \<longrightarrow> evaluateExpressions E rd st m path t = Returns (None, m, st)) \<and>
   ((\<forall>u \<in> set us. plain_item (expands E rd) u) \<and> (\<forall>n. us \<noteq> [] \<and> hd us = VStr n \<longrightarrow> \<not> expands E rd n) \<longrightarrow>
      evaluateExpressions E rd st ((k, VList (us @ VList [] # vs)) # m) path t = Panics) \<and>
   ((\<forall>s. v \<noteq> VStr s) \<longrightarrow> evaluateExpressions E rd st ((k, VList [VStr (ascii ''_fileobj''), v]) # m) path t = Panics)"
proof (intro conjI impI)
  show "evaluateExpressions E rd st ((k, VList (us @ VList [] # vs)) # m) path t = Panics"
    if "(\<forall>u \<in> set us. plain_item (expands E rd) u) \<and> (\<forall>n. us \<noteq> [] \<and> hd us = VStr n \<longrightarrow> \<not> expands E rd n)"
    using that evalItems_empty_list [of us E rd st vs] evalValue_items [of "us @ VList [] # vs" E rd st]
    by (cases us) (simp_all add: evalEntry.simps)
  show "evaluateExpressions E rd st ((k, VList [VStr (ascii ''_fileobj''), v]) # m) path t = Panics" if "\<forall>s. v \<noteq> VStr s"
    using that by (cases v) (simp_all add: evalEntry.simps namedExpander_def expandFile_def ascii_def)
qed (rule evaluate_plain_objects)

theorem evaluate_plain_or_panic_witness:
  "evaluateExpressions loop_env (recursiveReadJSON 0 loop_env) new_parser [([97], VList [VNull, VList [VBool True]])] [] False =
     Returns (None, [([97], VList [VNull, VList [VBool True]])], new_parser) \<and>
   evaluateExpressions loop_env (recursiveReadJSON 0 loop_env) new_parser [([97], VList [VStr (ascii ''_fileobj''), VNull])] [] False = Panics"
  using evaluate_plain_or_panic [of "[([97], VList [VNull, VList [VBool True]])]" loop_env "recursiveReadJSON 0 loop_env" new_parser "[]" False]
    evaluate_plain_or_panic [of "[]" loop_env "recursiveReadJSON 0 loop_env" new_parser "[]" False "[]" "[97]" "[]" VNull]
  by simp

text \<open>
  A file that has been read is refused as a cycle if it is included again, also when the first
  inclusion is complete, as for two files that include a third.
\<close>

lemma read_path_touches:
  assumes "read_path E rd p st = Returns (r, st')" "p \<noteq> []" "Abs_path (env_wd E) p = Some a" "serves rd (touched T)"
    and "touchedFiles st = Some S" "T \<subseteq> insert a S" "a \<in> T" "\<not> env_Stat E []"
  shows "\<exists>S'. touchedFiles st' = Some S' \<and> a \<in> S'"
proof (cases "a \<in> S")
  case False
  let ?st = "st\<lparr>touchedFiles := Some (insert a S), includeStack := includeStack st @ [a]\<rparr>"
  have "safe snd (touched T) (read_body E rd p ?st)"
    using assms(4,6,8) by (intro read_body_safe) (auto simp: touched_def)
  then show ?thesis using assms(1-3,5,7) False by (auto simp: read_path_def touched_def split: outcome.splits)
qed (use assms in \<open>auto simp: read_path_def\<close>)

lemma include_again_refused:
  "touchedFiles st = Some S \<Longrightarrow> a \<in> S \<Longrightarrow> p \<noteq> [] \<Longrightarrow> Abs_path (env_wd E) p = Some a \<Longrightarrow>
    recursiveReadJSON (Suc n) E p st = Returns (Inl (IncludeCycle a), st)"
  by (simp add: read_path_def)

section \<open>Environment variables\<close>

lemma expand_vars_literal:
  assumes "36 \<notin> set l"
  shows "expand_vars E def (l @ s) err = map_prod (append l) id (expand_vars E def s err)"
  using assms
proof (induction l)
  case (Cons c l)
  have "match_env ((c # l) @ s) = None" using Cons.prems by (cases "l @ s") auto
  then show ?case using Cons by (cases "expand_vars E def s err") (subst expand_vars.simps, simp)
qed (cases "expand_vars E def s err", simp)

text \<open>
  In an \<open>_env\<close> expression text without a dollar sign stands for itself and \<open>${NAME}\<close> for the value of the
  variable, or, if that is empty, for the default; without a default an empty variable is an error,
  and an error once found is not lost.
\<close>

theorem expand_vars_correct:
  assumes "36 \<notin> set l" "name \<noteq> []" "\<forall>c \<in> set name. name_byte c"
  shows "expand_vars E def l err = (l, err) \<and>
    expand_vars E def (l @ 36 # 123 # name @ 125 # s) err =
      (let (v, e) = env_value E def name; (t, err') = expand_vars E def s (case e of None \<Rightarrow> err | Some e \<Rightarrow> Some e) in (l @ v @ t, err'))"
proof
  have "expand_vars E def [] err = ([], err)" by (subst expand_vars.simps) simp
  then show "expand_vars E def l err = (l, err)" using expand_vars_literal [OF assms(1), of E def "[]" err] by simp
  have nb: "\<not> name_byte 125" by (simp add: name_byte_def)
  have "match_env (36 # 123 # name @ 125 # s) = Some (name, s)"
    using assms(2,3) nb by (simp add: takeWhile_append dropWhile_append)
  then have "expand_vars E def (36 # 123 # name @ 125 # s) err =
    (let (v, e) = env_value E def name; (t, err') = expand_vars E def s (case e of None \<Rightarrow> err | Some e \<Rightarrow> Some e) in (v @ t, err'))"
    by (subst expand_vars.simps) simp
  then show "expand_vars E def (l @ 36 # 123 # name @ 125 # s) err =
      (let (v, e) = env_value E def name; (t, err') = expand_vars E def s (case e of None \<Rightarrow> err | Some e \<Rightarrow> Some e) in (l @ v @ t, err'))"
    unfolding expand_vars_literal [OF assms(1)] by (auto split: prod.split)
qed

theorem expand_vars_correct_witness:
  "expand_vars loop_env (Some [49]) ([97] @ 36 # 123 # [72] @ 125 # []) None = ([97] @ [49] @ [], None)"
proof -
  have "expand_vars loop_env (Some [49]) [] None = ([], None)" by (subst expand_vars.simps) simp
  then show ?thesis using expand_vars_correct [of "[97]" "[72]" loop_env "Some [49]" None "[]"]
    by (simp add: name_byte_def env_value_def loop_env_def)
qed

end
