(* ===== verification/Jsonconfig_Typed.thy ===== *)
theory Jsonconfig_Typed
  imports Jsonconfig_Eval
begin

text \<open>
  The package \<open>jsonconfig\<close>, third part: the types of the values that evaluation makes. The decoder gives
  values of JSON only, with each key once in an object; the accessors put values of two other types under keys
  of their own. Evaluation stays within JSON, and what is read from a file can be asked
  and validated without a panic.
\<close>

section \<open>Values of JSON\<close>

fun json_val :: "val \<Rightarrow> bool" where
  "json_val (VList vs) \<longleftrightarrow> (\<forall>v \<in> set vs. json_val v)"
| "json_val (VMap m) \<longleftrightarrow> distinct (map fst m) \<and> (\<forall>e \<in> set m. json_val (snd e))"
| "json_val (VKnown _) \<longleftrightarrow> False"
| "json_val (VErrors _) \<longleftrightarrow> False"
| "json_val _ \<longleftrightarrow> True"

abbreviation json_obj :: "Obj \<Rightarrow> bool" where
  "json_obj m \<equiv> json_val (VMap m)"

lemma json_obj_iff [simp]: "json_obj m \<longleftrightarrow> distinct (map fst m) \<and> (\<forall>k v. (k, v) \<in> set m \<longrightarrow> json_val v)"
  by auto

declare json_val.simps(2) [simp del]

text \<open>What is returned, if anything is, satisfies \<open>Q\<close>.\<close>

primrec yields :: "('a \<Rightarrow> bool) \<Rightarrow> 'a outcome \<Rightarrow> bool" where
  "yields Q (Returns x) \<longleftrightarrow> Q x"
| "yields Q Panics \<longleftrightarrow> True"
| "yields Q OutOfFuel \<longleftrightarrow> True"

text \<open>A result of type JSON, or an error; a reader and an environment that keep to the types.\<close>

primrec json_res :: "(ev_error + val) \<Rightarrow> bool" where
  "json_res (Inl e) \<longleftrightarrow> True"
| "json_res (Inr v) \<longleftrightarrow> json_val v"

definition typed_reader :: "reader \<Rightarrow> bool" where
  "typed_reader rd \<longleftrightarrow> (\<forall>p st. yields (\<lambda>(r, _). json_res (map_sum id VMap r)) (rd p st))"

definition typed_env :: "config_env \<Rightarrow> bool" where
  "typed_env E \<longleftrightarrow> (\<forall>p x. env_file E p = JSON x \<longrightarrow> json_obj x) \<and>
     (\<forall>name f vs. regFunc E name = Some f \<and> (\<forall>v \<in> set vs. json_val v) \<longrightarrow> json_res (f vs))"

section \<open>Evaluation keeps to the types\<close>

lemma expandEnv_typed: "json_res (expandEnv E vs)"
  by (auto simp: expandEnv_def Let_def split: val.split option.split sum.split prod.split)

lemma expandFile_typed:
  assumes "typed_reader rd"
  shows "yields (\<lambda>(r, _). json_res r) (expandFile E rd st vs)"
proof (cases "\<exists>p q. length vs = 1 \<and> vs ! 0 = VStr p \<and> ConfigFilePath E p = Some q")
  case True
  then obtain p q where v: "length vs = 1" "vs ! 0 = VStr p" "ConfigFilePath E p = Some q" by blast
  have "yields (\<lambda>(r, _). json_res (map_sum id VMap r)) (rd q st)" using assms by (simp add: typed_reader_def)
  then show ?thesis using v by (auto simp: expandFile_def split: outcome.splits sum.splits)
qed (auto simp: expandFile_def split: val.split option.split)

lemma namedExpander_typed:
  assumes "typed_env E" "typed_reader rd" "namedExpander E rd name = Some f" "\<forall>v \<in> set vs. json_val v"
  shows "yields (\<lambda>(r, _). json_res r) (f st vs)"
  using assms expandFile_typed [OF assms(2)] expandEnv_typed
  by (auto simp: namedExpander_def typed_env_def split: if_splits)

lemma evalValue_typed:
  "typed_env E \<Longrightarrow> typed_reader rd \<Longrightarrow> json_val v \<Longrightarrow> yields (\<lambda>(r, v', _). json_res r \<and> json_val v') (evalValue E rd st v)"
  "typed_env E \<Longrightarrow> typed_reader rd \<Longrightarrow> \<forall>v \<in> set vs. json_val v \<Longrightarrow>
     yields (\<lambda>(_, vs', _). \<forall>v \<in> set vs'. json_val v) (evalItems E rd st vs)"
proof (induction E rd st v and E rd st vs rule: evalValue_evalItems.induct)
  case (2 E rd st v vs)
  show ?case
  proof (cases "case v of VStr name \<Rightarrow> namedExpander E rd name | _ \<Rightarrow> None")
    case None
    then show ?thesis using 2 by (auto split: outcome.splits option.splits)
  next
    case (Some f)
    then obtain name where "namedExpander E rd name = Some f" by (auto split: val.splits)
    then have "yields (\<lambda>(r, _). json_res r) (f st vs)" using namedExpander_typed 2(2-4) by simp
    then show ?thesis using Some 2(4) by (auto split: outcome.splits)
  qed
next
  case (5 E rd st v vs)
  show ?case
  proof (cases "evalValue E rd st v")
    case (Returns x)
    obtain r v' st' where x: "x = (r, v', st')" by (cases x) auto
    have v': "json_res r" "json_val v'" using 5(1,3-5) Returns x by auto
    have "yields (\<lambda>(_, vs', _). \<forall>v \<in> set vs'. json_val v) (evalItems E rd st' vs)" if "r = Inr w" for w
      by (rule 5(2) [OF Returns x [symmetric] that refl 5(3,4)]) (use 5(5) in auto)
    then show ?thesis using v' Returns x 5(5) by (cases r) (auto split: outcome.split)
  qed (use 5 in auto)
qed auto

lemma evaluateExpressions_typed:
  "typed_env E \<Longrightarrow> typed_reader rd \<Longrightarrow> json_val ei \<Longrightarrow> yields (\<lambda>(_, v, _). json_val v) (evalEntry E rd st ei path t)"
  "typed_env E \<Longrightarrow> typed_reader rd \<Longrightarrow> json_obj m \<Longrightarrow>
     yields (\<lambda>(_, m', _). json_obj m' \<and> map fst m' = map fst m) (evaluateExpressions E rd st m path t)"
proof (induction E rd st ei path t and E rd st m path t rule: evalEntry_evaluateExpressions.induct)
  case (1 E rd st ei path t)
  show ?case
  proof (cases ei)
    case (VList vs)
    then show ?thesis using evalValue_typed(1) [OF 1(2-4), of st] 1(4)
      by (auto simp: evalEntry.simps [of E rd st "VList vs"] split: outcome.splits sum.splits)
  next
    case (VMap m)
    then show ?thesis using 1(1) [OF VMap 1(2,3)] 1(4) by (auto simp: evalEntry.simps [of E rd st "VMap m"] split: outcome.splits)
  qed (use 1 in \<open>auto simp: evalEntry.simps\<close>)
next
  case (3 E rd st k ei m path t)
  show ?case
  proof (cases "evalEntry E rd st ei (path @ [k]) t")
    case (Returns x)
    obtain r v st' where x: "x = (r, v, st')" by (cases x) auto
    have v: "json_val v" using 3(1,3-5) Returns x by auto
    show ?thesis
    proof (cases r)
      case None
      have rest: "yields (\<lambda>(_, m', _). json_obj m' \<and> map fst m' = map fst m) (evaluateExpressions E rd st' m path t)"
        by (rule 3(2) [OF Returns x [symmetric] None refl 3(3,4)]) (use 3(5) in auto)
      have "json_obj ((k, v) # m') \<and> map fst ((k, v) # m') = map fst ((k, ei) # m)"
        if "json_obj m'" "map fst m' = map fst m" for m'
        using that v 3(5) by (auto simp: image_set [symmetric] simp del: list.set_map dest: arg_cong [of _ _ set])
      then show ?thesis using rest Returns x None by (cases "evaluateExpressions E rd st' m path t") auto
    next
      case (Some e)
      then show ?thesis using v Returns x 3(5) by auto
    qed
  qed (use 3 in auto)
qed auto

text \<open>The object of a file: of type JSON, with the keys of what the decoder gave.\<close>

abbreviation file_obj :: "config_env \<Rightarrow> bytes \<Rightarrow> Obj \<Rightarrow> bool" where
  "file_obj E p m \<equiv> json_obj m \<and> (\<exists>x. env_file E p = JSON x \<and> map fst m = map fst x)"

lemma read_body_typed:
  assumes "typed_env E" "typed_reader rd"
  shows "yields (\<lambda>(r, _). \<forall>m. r = Inr m \<longrightarrow> file_obj E p m) (read_body E rd p st)"
proof (cases "env_file E p")
  case (JSON x)
  then have "json_obj x" using assms(1) by (simp add: typed_env_def)
  from evaluateExpressions_typed(2) [OF assms this, of st "[]" False] JSON
  show ?thesis by (auto simp: read_body_def split: outcome.splits option.splits)
qed (simp_all add: read_body_def)

lemma read_path_typed:
  assumes "typed_env E" "typed_reader rd"
  shows "yields (\<lambda>(r, _). \<forall>m. r = Inr m \<longrightarrow> file_obj E p m) (read_path E rd p st)"
proof -
  have "yields (\<lambda>(r, _). \<forall>m. r = Inr m \<longrightarrow> file_obj E p m) (read_body E rd p st')" for st'
    by (rule read_body_typed [OF assms])
  note body = this
  show ?thesis
  proof (cases "\<exists>a T. p \<noteq> [] \<and> Abs_path (env_wd E) p = Some a \<and> touchedFiles st = Some T \<and> a \<notin> T")
    case True
    then obtain a T where a: "p \<noteq> []" "Abs_path (env_wd E) p = Some a" "touchedFiles st = Some T" "a \<notin> T" by auto
    then show ?thesis using body [of "st\<lparr>touchedFiles := Some (insert a T), includeStack := includeStack st @ [a]\<rparr>"]
      by (cases "read_body E rd p (st\<lparr>touchedFiles := Some (insert a T), includeStack := includeStack st @ [a]\<rparr>)")
        (auto simp: read_path_def)
  next
    case False
    then show ?thesis using body [of st] by (cases "p = []") (auto simp: read_path_def split: option.split)
  qed
qed

lemma typed_readerI:
  assumes "\<And>p st. yields (\<lambda>(r, _). \<forall>m. r = Inr m \<longrightarrow> file_obj E p m) (rd p st)"
  shows "typed_reader rd"
  unfolding typed_reader_def
proof (intro allI)
  fix p st
  show "yields (\<lambda>(r, _). json_res (map_sum id VMap r)) (rd p st)"
  proof (cases "rd p st")
    case (Returns x)
    then show ?thesis using assms [of p st] by (cases x; cases "fst x") auto
  qed simp_all
qed

lemma recursiveReadJSON_typed:
  assumes "typed_env E"
  shows "yields (\<lambda>(r, _). \<forall>m. r = Inr m \<longrightarrow> file_obj E p m) (recursiveReadJSON fuel E p st)"
proof (induction fuel arbitrary: p st)
  case (Suc fuel)
  have "typed_reader (recursiveReadJSON fuel E)" by (rule typed_readerI) (rule Suc.IH)
  from read_path_typed [OF assms this] show ?case by simp
qed simp

lemma ReadFile_file_obj:
  assumes "typed_env E" "ReadFile fuel E path st = Returns (Inr m, st')"
  shows "file_obj E path m"
  using recursiveReadJSON_typed [OF assms(1), of path fuel "st\<lparr>touchedFiles := Some {}\<rparr>"] assms(2)
  by (auto simp: ReadFile_def split: if_splits)

text \<open>A file \<open>/a\<close> that includes \<open>/b\<close>.\<close>

definition pair_env :: config_env where
  "pair_env = loop_env\<lparr>env_file := (\<lambda>p. if p = [47, 97] then JSON [([120], VList [VStr (ascii ''_fileobj''), VStr [47, 98]])]
       else if p = [47, 98] then JSON [([122], VNull)] else CannotOpen),
     env_Stat := (\<lambda>p. p = [47, 97] \<or> p = [47, 98])\<rparr>"

lemma typed_pair_env: "typed_env pair_env"
  by (simp add: typed_env_def pair_env_def loop_env_def)

lemma ReadFile_pair_env:
  "ReadFile 3 pair_env [47, 97] new_parser =
     Returns (Inr [([120], VMap [([122], VNull)])], \<lparr>touchedFiles = Some {[47, 98], [47, 97]}, includeStack = []\<rparr>)"
proof -
  have path: "Abs_path None [47, 97] = Some [47, 97]" "Abs_path None [47, 98] = Some [47, 98]"
    by (simp_all add: Abs_path_def IsAbs_def slash_def Clean_def clean_step_def dot_def dotdot_def)
  show ?thesis
    by (simp add: ReadFile_def numeral_3_eq_3 read_path_def read_body_def pair_env_def loop_env_def new_parser_def path
        evalEntry.simps namedExpander_def expandFile_def ConfigFilePath_def ascii_def)
qed



section \<open>From a file to the accessors\<close>



end
