(* ===== verification/Xdgdir.thy ===== *)
theory Xdgdir
  imports Go_Path
begin

text \<open>
  The package \<open>xdgdir\<close>: base directories from the environment. The system is a parameter: environment,
  home directory of the user, file information, and the outcomes of opening and creating.
\<close>

section \<open>Model\<close>

record Dir =
  dir_env :: bytes
  dirsEnv :: bytes
  fallback :: bytes
  dirsFallback :: "bytes list"
  userOwned :: bool

definition Data :: Dir where
  "Data = \<lparr>dir_env = ascii ''XDG_DATA_HOME'', dirsEnv = ascii ''XDG_DATA_DIRS'', fallback = ascii ''.local/share'',
     dirsFallback = [ascii ''/usr/local/share'', ascii ''/usr/share''], userOwned = False\<rparr>"

definition Config :: Dir where
  "Config = \<lparr>dir_env = ascii ''XDG_CONFIG_HOME'', dirsEnv = ascii ''XDG_CONFIG_DIRS'', fallback = ascii ''.config'',
     dirsFallback = [ascii ''/etc/xdg''], userOwned = False\<rparr>"

definition Cache :: Dir where
  "Cache = \<lparr>dir_env = ascii ''XDG_CACHE_HOME'', dirsEnv = [], fallback = ascii ''.cache'', dirsFallback = [], userOwned = False\<rparr>"

definition Runtime :: Dir where
  "Runtime = \<lparr>dir_env = ascii ''XDG_RUNTIME_DIR'', dirsEnv = [], fallback = [], dirsFallback = [], userOwned = True\<rparr>"

text \<open>What \<open>os.Stat\<close> tells of a path; \<open>fi_uid\<close> is \<open>None\<close> if the system does not report owners.\<close>

record file_info =
  fi_dir :: bool
  fi_perm :: nat
  fi_uid :: "int option"

datatype open_error = NotExist | OtherError string

record 'f system =
  getenv :: "bytes \<Rightarrow> bytes"
  user_home :: "bytes option"
  geteuid :: int
  os_Stat :: "bytes \<Rightarrow> file_info option"
  os_Open :: "bytes \<Rightarrow> open_error + 'f"
  os_MkdirAll :: "bytes \<Rightarrow> open_error option"
  os_Create :: "bytes \<Rightarrow> open_error + 'f"

datatype xdg_error = ZeroDir | NotSet bytes bytes | FirstError open_error | PathNotExist bytes | CreateError open_error

definition isValidPath :: "bytes \<Rightarrow> bool" where
  "isValidPath path \<longleftrightarrow> path \<noteq> [] \<and> IsAbs path"

definition findHome :: "('f, 'x) system_scheme \<Rightarrow> bytes" where
  "findHome S =
     (let h = getenv S (ascii ''HOME'') in
      if h \<noteq> [] then h else (case user_home S of None \<Rightarrow> [] | Some d \<Rightarrow> d))"

text \<open>\<open>None\<close> below is the panic on the zero \<open>Dir\<close>.\<close>

definition Dir_String :: "Dir \<Rightarrow> bytes option" where
  "Dir_String d = (if dir_env d = [] then None else Some (dir_env d))"

definition dir_path :: "('f, 'x) system_scheme \<Rightarrow> Dir \<Rightarrow> bytes" where
  "dir_path S d =
     (let e = getenv S (dir_env d) in
      if isValidPath e then e
      else if fallback d = [] then []
      else let home = findHome S in
        if home = [] then []
        else let p = Join [home, fallback d] in
          if \<not> isValidPath p then [] else p)"

definition Path :: "('f, 'x) system_scheme \<Rightarrow> Dir \<Rightarrow> bytes option" where
  "Path S d =
     (if dir_env d = [] then None
      else let p = dir_path S d in
        if p \<noteq> [] \<and> userOwned d then
          (case os_Stat S p of
            None \<Rightarrow> Some []
          | Some info \<Rightarrow>
              if \<not> fi_dir info \<or> fi_perm info \<noteq> 448 then Some []
              else if fi_uid info \<noteq> Some (geteuid S) then Some []
              else Some p)
        else Some p)"

definition SearchPaths :: "('f, 'x) system_scheme \<Rightarrow> Dir \<Rightarrow> bytes list option" where
  "SearchPaths S d =
     (if dir_env d = [] then None
      else do {
        p \<leftarrow> Path S d;
        let paths = (if p \<noteq> [] then [p] else []);
        if dirsEnv d = [] then Some paths
        else let e = getenv S (dirsEnv d) in
          if e = [] then Some (paths @ dirsFallback d)
          else Some (paths @ filter isValidPath (SplitList e)) })"

text \<open>The loop of \<open>Open\<close>: the file, or the error kept in \<open>firstErr\<close>.\<close>

primrec open_loop :: "('f, 'x) system_scheme \<Rightarrow> bytes \<Rightarrow> bytes list \<Rightarrow> open_error option \<Rightarrow> open_error option + 'f" where
  "open_loop S name [] firstErr = Inl firstErr"
| "open_loop S name (p # paths) firstErr = (case os_Open S (Join [p, name]) of
     Inr f \<Rightarrow> Inr f
   | Inl err \<Rightarrow> open_loop S name paths (if err \<noteq> NotExist then Some err else firstErr))"

definition Open :: "('f, 'x) system_scheme \<Rightarrow> Dir \<Rightarrow> bytes \<Rightarrow> (xdg_error + 'f) option" where
  "Open S d name =
     (if dir_env d = [] then Some (Inl ZeroDir)
      else do {
        paths \<leftarrow> SearchPaths S d;
        Some (if paths = [] then Inl (NotSet name (dir_env d))
          else (case open_loop S name paths None of
            Inr f \<Rightarrow> Inr f
          | Inl (Some e) \<Rightarrow> Inl (FirstError e)
          | Inl None \<Rightarrow> Inl (PathNotExist (Join [36 # dir_env d, name])))) })"

definition Create :: "('f, 'x) system_scheme \<Rightarrow> Dir \<Rightarrow> bytes \<Rightarrow> (xdg_error + 'f) option" where
  "Create S d name =
     (if dir_env d = [] then Some (Inl ZeroDir)
      else do {
        p \<leftarrow> Path S d;
        Some (if p = [] then Inl (NotSet name (dir_env d))
          else let fp = Join [p, name] in
            case os_MkdirAll S (Dir_of fp) of
              Some e \<Rightarrow> Inl (CreateError e)
            | None \<Rightarrow> (case os_Create S fp of Inl e \<Rightarrow> Inl (CreateError e) | Inr f \<Rightarrow> Inr f)) })"

text \<open>A system with two usable data directories; the file \<open>/b/x\<close> may not be read, others are absent.\<close>

definition sample_system :: "unit system" where
  "sample_system = \<lparr>getenv = (\<lambda>v. if v = ascii ''XDG_DATA_DIRS'' then ascii ''/b:c:/d'' else []), user_home = None, geteuid = 0,
     os_Stat = (\<lambda>_. None), os_Open = (\<lambda>p. Inl (if p = ascii ''/b/x'' then OtherError ''denied'' else NotExist)),
     os_MkdirAll = (\<lambda>_. None), os_Create = (\<lambda>_. Inl NotExist)\<rparr>"

section \<open>Properties\<close>

lemma dir_path_valid: "dir_path S d = [] \<or> isValidPath (dir_path S d)"
  by (simp add: dir_path_def Let_def)

lemma Path_cases: "dir_env d \<noteq> [] \<Longrightarrow> Path S d = Some [] \<or> Path S d = Some (dir_path S d)"
  by (simp add: Path_def Let_def split: option.split)

lemma SearchPaths_Some:
  "dir_env d \<noteq> [] \<Longrightarrow> Path S d = Some p \<Longrightarrow>
   SearchPaths S d = Some ((if p \<noteq> [] then [p] else []) @
     (if dirsEnv d = [] then [] else if getenv S (dirsEnv d) = [] then dirsFallback d
      else filter isValidPath (SplitList (getenv S (dirsEnv d)))))"
  by (simp add: SearchPaths_def Let_def)

text \<open>
  For any environment, the paths that \<open>SearchPaths\<close> gives for a directory whose fallbacks are absolute
  are absolute; the primary directory, if there is one, comes first and is the one \<open>Create\<close> writes to; and for
  a directory that must belong to the user, \<open>Path\<close> is empty unless it names a directory with mode 0700
  whose owner is the user.
\<close>

theorem SearchPaths_absolute:
  assumes "dir_env d \<noteq> []" "\<forall>p \<in> set (dirsFallback d). IsAbs p"
  shows "\<exists>p ps. Path S d = Some p \<and> SearchPaths S d = Some ps \<and> (\<forall>q \<in> set ps. IsAbs q) \<and> (p \<noteq> [] \<longrightarrow> ps \<noteq> [] \<and> hd ps = p) \<and>
    (userOwned d \<and> p \<noteq> [] \<longrightarrow> (\<exists>info. os_Stat S p = Some info \<and> fi_dir info \<and> fi_perm info = 448 \<and> fi_uid info = Some (geteuid S)))"
proof -
  obtain p where p: "Path S d = Some p" "p = [] \<or> IsAbs p"
    using Path_cases [OF assms(1), of S] dir_path_valid [of S d] by (auto simp: isValidPath_def)
  let ?dirs = "if dirsEnv d = [] then [] else if getenv S (dirsEnv d) = [] then dirsFallback d
    else filter isValidPath (SplitList (getenv S (dirsEnv d)))"
  note eq = SearchPaths_Some [OF assms(1) p(1)]
  have "\<forall>q \<in> set ?dirs. IsAbs q" using assms(2) by (simp add: isValidPath_def)
  then obtain ps where ps: "SearchPaths S d = Some ps" "\<forall>q \<in> set ps. IsAbs q" "p \<noteq> [] \<longrightarrow> ps \<noteq> [] \<and> hd ps = p"
    using eq p(2) by (cases "p = []") auto
  have "\<exists>info. os_Stat S p = Some info \<and> fi_dir info \<and> fi_perm info = 448 \<and> fi_uid info = Some (geteuid S)" if "userOwned d" "p \<noteq> []"
    using p(1) that assms(1) by (auto simp: Path_def Let_def split: if_splits option.splits)
  with p ps show ?thesis by blast
qed

theorem SearchPaths_absolute_witness:
  "\<exists>ps. SearchPaths sample_system Data = Some ps \<and> (\<forall>q \<in> set ps. IsAbs q)"
  using SearchPaths_absolute [of Data sample_system] by (simp add: Data_def IsAbs_def slash_def ascii_def) blast

subsection \<open>Opening\<close>

text \<open>What the attempts on a list of paths add up to.\<close>

fun loop_outcome :: "(bytes \<Rightarrow> open_error + 'f) \<Rightarrow> bytes list \<Rightarrow> open_error option + 'f \<Rightarrow> bool" where
  "loop_outcome opn ps (Inr f) \<longleftrightarrow> (\<exists>as p bs. ps = as @ p # bs \<and> (\<forall>a \<in> set as. \<exists>e. opn a = Inl e) \<and> opn p = Inr f)"
| "loop_outcome opn ps (Inl None) \<longleftrightarrow> (\<forall>p \<in> set ps. opn p = Inl NotExist)"
| "loop_outcome opn ps (Inl (Some e)) \<longleftrightarrow> e \<noteq> NotExist \<and> (\<exists>as p bs. ps = as @ p # bs \<and> (\<forall>a \<in> set as. \<exists>e. opn a = Inl e) \<and>
     opn p = Inl e \<and> (\<forall>b \<in> set bs. opn b = Inl NotExist))"

lemma outcome_Cons:
  assumes "opn p = Inl x" "loop_outcome opn ps r" "r = Inl None \<longrightarrow> x = NotExist"
  shows "loop_outcome opn (p # ps) r"
proof (cases r)
  case (Inr f)
  with assms obtain as q bs where "ps = as @ q # bs" "\<forall>a \<in> set as. \<exists>e. opn a = Inl e" "opn q = Inr f" by auto
  then have "p # ps = (p # as) @ q # bs \<and> (\<forall>a \<in> set (p # as). \<exists>e. opn a = Inl e) \<and> opn q = Inr f" using assms(1) by simp
  then show ?thesis unfolding Inr loop_outcome.simps by blast
next
  case (Inl o1)
  show ?thesis
  proof (cases o1)
    case None
    with Inl assms show ?thesis by simp
  next
    case (Some e)
    with Inl assms obtain as q bs where *: "ps = as @ q # bs" "\<forall>a \<in> set as. \<exists>e. opn a = Inl e" "opn q = Inl e"
      "\<forall>b \<in> set bs. opn b = Inl NotExist" "e \<noteq> NotExist" by auto
    have "p # ps = (p # as) @ q # bs \<and> (\<forall>a \<in> set (p # as). \<exists>e. opn a = Inl e) \<and> opn q = Inl e \<and> (\<forall>b \<in> set bs. opn b = Inl NotExist)"
      using * assms(1) by simp
    with *(5) show ?thesis unfolding Inl Some loop_outcome.simps by blast
  qed
qed

lemma outcome_error:
  "opn p = Inl x \<Longrightarrow> x \<noteq> NotExist \<Longrightarrow> \<forall>b \<in> set ps. opn b = Inl NotExist \<Longrightarrow> loop_outcome opn (p # ps) (Inl (Some x))"
  unfolding loop_outcome.simps by (rule conjI, assumption, rule exI [of _ "[]"]) simp

lemma open_loop_cases:
  "open_loop S name ps e = Inl e \<and> e \<noteq> None \<and> (\<forall>p \<in> set ps. os_Open S (Join [p, name]) = Inl NotExist) \<or>
   loop_outcome (\<lambda>p. os_Open S (Join [p, name])) ps (open_loop S name ps e) \<and> (open_loop S name ps e = Inl None \<longrightarrow> e = None)"
proof (induction ps arbitrary: e)
  case Nil
  show ?case by (cases e) simp_all
next
  case (Cons p ps)
  let ?o = "\<lambda>p. os_Open S (Join [p, name])"
  show ?case
  proof (cases "?o p")
    case (Inr f)
    have "p # ps = [] @ p # ps \<and> (\<forall>a \<in> set []. \<exists>e. ?o a = Inl e) \<and> ?o p = Inr f" using Inr by simp
    then have "loop_outcome ?o (p # ps) (Inr f)" unfolding loop_outcome.simps by blast
    with Inr show ?thesis by (simp del: loop_outcome.simps)
  next
    case (Inl x)
    show ?thesis
    proof (cases "x = NotExist")
      case True
      with Inl Cons.IH [of e] outcome_Cons [of ?o p x ps "open_loop S name ps e"] show ?thesis
        by (auto simp del: loop_outcome.simps)
    next
      case False
      with Inl Cons.IH [of "Some x"] outcome_Cons [of ?o p x ps "open_loop S name ps (Some x)"] outcome_error [of ?o p x ps]
      show ?thesis by (auto simp del: loop_outcome.simps)
    qed
  qed
qed

text \<open>
  \<open>Open\<close> tries the search paths in order and returns the file of the first one that opens. If none
  opens, the error is that of the last path that failed for another reason than absence (the variable that
  holds it is called \<open>firstErr\<close>), and a "does not exist" error exactly if every path reported absence; a
  directory with no search path is an error without an attempt.
\<close>

theorem Open_first:
  assumes "dir_env d \<noteq> []"
  shows "\<exists>ps r. SearchPaths S d = Some ps \<and> Open S d name = Some r \<and>
    (ps = [] \<longrightarrow> r = Inl (NotSet name (dir_env d))) \<and>
    (ps \<noteq> [] \<longrightarrow> (\<exists>q. loop_outcome (\<lambda>p. os_Open S (Join [p, name])) ps q \<and>
       r = (case q of Inr f \<Rightarrow> Inr f | Inl (Some e) \<Rightarrow> Inl (FirstError e) | Inl None \<Rightarrow> Inl (PathNotExist (Join [36 # dir_env d, name])))))"
proof -
  obtain ps where ps: "SearchPaths S d = Some ps"
    using Path_cases [OF assms, of S] SearchPaths_Some [OF assms, of S] by blast
  let ?q = "open_loop S name ps None"
  have q: "loop_outcome (\<lambda>p. os_Open S (Join [p, name])) ps ?q" using open_loop_cases [of S name ps None] by blast
  show ?thesis
  proof (cases "ps = []")
    case True
    with ps assms show ?thesis by (simp add: Open_def)
  next
    case False
    with ps assms q show ?thesis by (intro exI [of _ ps] exI conjI) (auto simp: Open_def simp del: loop_outcome.simps)
  qed
qed

theorem Open_first_witness:
  "SearchPaths sample_system Data = Some [ascii ''/b'', ascii ''/d''] \<and>
   Open sample_system Data (ascii ''x'') = Some (Inl (FirstError (OtherError ''denied'')))"
proof -
  have ps: "SearchPaths sample_system Data = Some [ascii ''/b'', ascii ''/d'']" by code_simp
  have j: "Join [ascii ''/b'', ascii ''x''] = ascii ''/b/x''" "Join [ascii ''/d'', ascii ''x''] = ascii ''/d/x''" by code_simp+
  have o: "os_Open sample_system (ascii ''/b/x'') = Inl (OtherError ''denied'')" "os_Open sample_system (ascii ''/d/x'') = Inl NotExist"
    by code_simp+
  have "dir_env Data \<noteq> []" by code_simp
  from Open_first [OF this, of sample_system "ascii ''x''"] obtain q where
    q: "loop_outcome (\<lambda>p. os_Open sample_system (Join [p, ascii ''x''])) [ascii ''/b'', ascii ''/d''] q"
    and r: "Open sample_system Data (ascii ''x'') = Some (case q of Inr f \<Rightarrow> Inr f | Inl (Some e) \<Rightarrow> Inl (FirstError e)
       | Inl None \<Rightarrow> Inl (PathNotExist (Join [36 # dir_env Data, ascii ''x''])))"
    using ps by auto
  have "q = Inl (Some (OtherError ''denied''))"
    using q j o by (cases q; cases "projl q") (auto simp: Cons_eq_append_conv)
  with r ps show ?thesis by simp
qed

end
