(* ===== verification/Singlereader.thy ===== *)
theory Singlereader
  imports Singleflight
begin

text \<open>
  The package \<open>readerutil/singlereader\<close>: open files shared by counting their handles. The group of calls is
  that of \<open>Singleflight\<close>: a goroutine inside \<open>openerGroup.Do\<close> takes the steps of \<open>flight_step\<close>, and the function
  it passes is spelled out here. Every section under \<open>openFileMu\<close> is one step.
\<close>

section \<open>Model\<close>

type_synonym path = bytes

text \<open>An \<open>openFile\<close>; \<open>of_closes\<close> counts the calls of \<open>Close\<close> on its file.\<close>

record openFile =
  of_path :: path
  refCount :: int
  of_closes :: nat

record openFileHandle =
  oh_closed :: bool
  oh_file :: nat

text \<open>
  At the start of \<open>Open\<close>; after the first look at the map, before or inside \<open>Do\<close>; in the function, with the file open,
  and after its entry in the map; the function done (\<open>winner\<close> is set); back from \<open>Do\<close> with the file of another
  goroutine; in \<open>Close\<close>, before the file is closed; and the panic of \<open>Close\<close>.
\<close>

datatype reader_pc =
  SIdle | SStart path | SChecked path | SOpened path nat | SInserted path nat | SWon path "string + nat" | SLost path nat | SClosing nat | SPanicked

record readers =
  openerGroup :: "(path, string + nat) flight"
  openFiles :: "path \<rightharpoonup> nat"
  files :: "nat \<rightharpoonup> openFile"
  next_file :: nat
  handles :: "nat \<rightharpoonup> openFileHandle"
  next_handle :: nat
  spc :: "nat \<Rightarrow> reader_pc"

definition readers_init :: readers where
  "readers_init = \<lparr>openerGroup = flight_init, openFiles = (\<lambda>_. None), files = (\<lambda>_. None), next_file = 0, handles = (\<lambda>_. None),
     next_handle = 0, spc = (\<lambda>_. SIdle)\<rparr>"

text \<open>A goroutine goes to another point; it returns a new handle.\<close>

definition go :: "nat \<Rightarrow> reader_pc \<Rightarrow> readers \<Rightarrow> readers" where
  "go i p s = s\<lparr>spc := (spc s)(i := p)\<rparr>"

definition new_handle :: "nat \<Rightarrow> nat \<Rightarrow> readers \<Rightarrow> readers" where
  "new_handle i a s =
     s\<lparr>handles := (handles s)(next_handle s \<mapsto> \<lparr>oh_closed = False, oh_file = a\<rparr>), next_handle := next_handle s + 1, spc := (spc s)(i := SIdle)\<rparr>"

definition add_ref :: "int \<Rightarrow> nat \<Rightarrow> openFile \<Rightarrow> readers \<Rightarrow> readers" where
  "add_ref n a f s = s\<lparr>files := (files s)(a \<mapsto> f\<lparr>refCount := refCount f + n\<rparr>)\<rparr>"

text \<open>The section of \<open>Close\<close> under the lock, for a handle that is not closed, and the branches after it.\<close>

definition Close_handle :: "nat \<Rightarrow> nat \<Rightarrow> nat \<Rightarrow> openFile \<Rightarrow> readers \<Rightarrow> readers" where
  "Close_handle i h a f s =
     (let n = refCount f - 1;
          s = add_ref (-1) a f s\<lparr>handles := (handles s)(h \<mapsto> \<lparr>oh_closed = True, oh_file = a\<rparr>)\<rparr> in
      if n < 0 then go i SPanicked s
      else if n = 0 then go i (SClosing a) s\<lparr>openFiles := (openFiles s)(of_path f := None)\<rparr>
      else go i SIdle s)"

text \<open>One goroutine takes a step inside \<open>Do\<close>.\<close>

definition Do_step :: "nat \<Rightarrow> (path, string + nat) flight_pc \<Rightarrow> readers \<Rightarrow> (path, string + nat) flight \<Rightarrow> bool" where
  "Do_step i p s g \<longleftrightarrow> flight_step (openerGroup s) g \<and> fpc g = (fpc (openerGroup s))(i := p)"

inductive reader_step :: "readers \<Rightarrow> readers \<Rightarrow> bool" where
  r_start: "spc s i = SIdle \<Longrightarrow> reader_step s (go i (SStart k) s)"
| r_hit: "spc s i = SStart k \<Longrightarrow> openFiles s k = Some a \<Longrightarrow> files s a = Some f \<Longrightarrow>
    reader_step s (new_handle i a (add_ref 1 a f s))"
| r_miss: "spc s i = SStart k \<Longrightarrow> openFiles s k = None \<Longrightarrow> reader_step s (go i (SChecked k) s)"
| r_enter: "spc s i = SChecked k \<Longrightarrow> fpc (openerGroup s) i = FIdle \<Longrightarrow> p = FWaiting k c \<or> p = FRunning k c \<Longrightarrow> Do_step i p s g \<Longrightarrow>
    reader_step s (s\<lparr>openerGroup := g\<rparr>)"
| r_open: "spc s i = SChecked k \<Longrightarrow> fpc (openerGroup s) i = FRunning k c \<Longrightarrow>
    reader_step s (go i (SOpened k (next_file s)) s\<lparr>files := (files s)(next_file s \<mapsto> \<lparr>of_path = k, refCount = 1, of_closes = 0\<rparr>),
      next_file := next_file s + 1\<rparr>)"
| r_insert: "spc s i = SOpened k a \<Longrightarrow> reader_step s (go i (SInserted k a) s\<lparr>openFiles := (openFiles s)(k \<mapsto> a)\<rparr>)"
| r_fn_return: "spc s i = SInserted k a \<and> r = Inr a \<or> spc s i = SChecked k \<and> r = Inl e \<Longrightarrow> fpc (openerGroup s) i = FRunning k c \<Longrightarrow>
    Do_step i (FStored k c) s g \<Longrightarrow> sf_calls g c = Some cl \<Longrightarrow> c_res cl = Some r \<Longrightarrow>
    reader_step s (go i (SWon k r) s\<lparr>openerGroup := g\<rparr>)"
| r_inside: "fpc (openerGroup s) i \<in> {FStored k c, FReleased k c, FWaiting k c} \<Longrightarrow> Do_step i p s g \<Longrightarrow> reader_step s (s\<lparr>openerGroup := g\<rparr>)"
| r_error: "fpc (openerGroup s) i = FReturned k c (Some (Inl e)) \<Longrightarrow> Do_step i FIdle s g \<Longrightarrow>
    reader_step s (go i SIdle s\<lparr>openerGroup := g\<rparr>)"
| r_won: "fpc (openerGroup s) i = FReturned k c (Some (Inr a)) \<Longrightarrow> spc s i = SWon k r \<Longrightarrow> Do_step i FIdle s g \<Longrightarrow>
    reader_step s (new_handle i a s\<lparr>openerGroup := g\<rparr>)"
| r_lost: "fpc (openerGroup s) i = FReturned k c (Some (Inr a)) \<Longrightarrow> spc s i = SChecked k \<Longrightarrow> Do_step i FIdle s g \<Longrightarrow>
    reader_step s (go i (SLost k a) s\<lparr>openerGroup := g\<rparr>)"
| r_retry: "spc s i = SLost k a \<Longrightarrow> files s a = Some f \<Longrightarrow> refCount f = 0 \<Longrightarrow> reader_step s (go i (SStart k) s)"
| r_share: "spc s i = SLost k a \<Longrightarrow> files s a = Some f \<Longrightarrow> refCount f \<noteq> 0 \<Longrightarrow> reader_step s (new_handle i a (add_ref 1 a f s))"
| r_close: "spc s i = SIdle \<Longrightarrow> handles s h = Some \<lparr>oh_closed = False, oh_file = a\<rparr> \<Longrightarrow> files s a = Some f \<Longrightarrow>
    reader_step s (Close_handle i h a f s)"
| r_close_again: "spc s i = SIdle \<Longrightarrow> handles s h = Some \<lparr>oh_closed = True, oh_file = a\<rparr> \<Longrightarrow> reader_step s s"
| r_file_close: "spc s i = SClosing a \<Longrightarrow> files s a = Some f \<Longrightarrow>
    reader_step s (go i SIdle s\<lparr>files := (files s)(a \<mapsto> f\<lparr>of_closes := of_closes f + 1\<rparr>)\<rparr>)"

section \<open>Invariant\<close>

text \<open>The file whose first reference a goroutine holds, until it is in its handle.\<close>

primrec token :: "reader_pc \<Rightarrow> nat option" where
  "token SIdle = None"
| "token (SStart k) = None"
| "token (SChecked k) = None"
| "token (SOpened k a) = Some a"
| "token (SInserted k a) = Some a"
| "token (SWon k r) = (case r of Inl _ \<Rightarrow> None | Inr a \<Rightarrow> Some a)"
| "token (SLost k a) = None"
| "token (SClosing a) = None"
| "token SPanicked = None"

abbreviation holders :: "readers \<Rightarrow> nat \<Rightarrow> nat set" where
  "holders s a \<equiv> {i. token (spc s i) = Some a}"

abbreviation closing :: "readers \<Rightarrow> nat \<Rightarrow> nat set" where
  "closing s a \<equiv> {i. spc s i = SClosing a}"

abbreviation open_handles :: "readers \<Rightarrow> nat \<Rightarrow> nat set" where
  "open_handles s a \<equiv> {h. handles s h = Some \<lparr>oh_closed = False, oh_file = a\<rparr>}"

definition counted :: "readers \<Rightarrow> nat \<Rightarrow> openFile \<Rightarrow> bool" where
  "counted s a f \<longleftrightarrow> finite (open_handles s a) \<and> finite (holders s a) \<and> finite (closing s a) \<and>
     refCount f = int (card (open_handles s a)) + int (card (holders s a)) \<and>
     of_closes f + card (closing s a) = (if refCount f = 0 then 1 else 0)"

text \<open>The results of the calls made so far.\<close>

definition results :: "('k, 'r) flight \<Rightarrow> (nat \<times> 'r) set" where
  "results g = {(c, r). \<exists>cl. sf_calls g c = Some cl \<and> c_res cl = Some r}"

text \<open>How far a goroutine is inside \<open>Do\<close>, and the objects it refers to.\<close>

fun in_Do :: "(nat \<times> (string + nat)) set \<Rightarrow> (path, string + nat) flight_pc \<Rightarrow> (nat \<rightharpoonup> path) \<Rightarrow> reader_pc \<Rightarrow> bool" where
  "in_Do R p A (SChecked k) \<longleftrightarrow> p = FIdle \<or> (\<exists>c r. p \<in> {FWaiting k c, FRunning k c, FReturned k c r})"
| "in_Do R p A (SOpened k a) \<longleftrightarrow> A a = Some k \<and> (\<exists>c. p = FRunning k c)"
| "in_Do R p A (SInserted k a) \<longleftrightarrow> a \<in> dom A \<and> (\<exists>c. p = FRunning k c)"
| "in_Do R p A (SWon k r) \<longleftrightarrow> (\<forall>a. r = Inr a \<longrightarrow> a \<in> dom A) \<and>
     (\<exists>c x. p \<in> {FStored k c, FReleased k c, FReturned k c x} \<and> (c, r) \<in> R)"
| "in_Do R p A (SLost k a) \<longleftrightarrow> a \<in> dom A \<and> p = FIdle"
| "in_Do R p A (SClosing a) \<longleftrightarrow> a \<in> dom A \<and> p = FIdle"
| "in_Do R p A SPanicked \<longleftrightarrow> False"
| "in_Do R p A _ \<longleftrightarrow> p = FIdle"

definition paths :: "readers \<Rightarrow> nat \<rightharpoonup> path" where
  "paths s a = map_option of_path (files s a)"

abbreviation at_point :: "readers \<Rightarrow> nat \<Rightarrow> bool" where
  "at_point s i \<equiv> in_Do (results (openerGroup s)) (fpc (openerGroup s) i) (paths s) (spc s i)"

definition files_inv :: "readers \<Rightarrow> bool" where
  "files_inv s \<longleftrightarrow> (\<forall>k a. openFiles s k = Some a \<longrightarrow> (\<exists>f. files s a = Some f \<and> of_path f = k \<and> refCount f > 0)) \<and>
     (\<forall>a f. files s a = Some f \<longrightarrow> a < next_file s \<and> counted s a f) \<and>
     (\<forall>h x. handles s h = Some x \<longrightarrow> h < next_handle s \<and> oh_file x \<in> dom (files s))"

definition Do_inv :: "readers \<Rightarrow> bool" where
  "Do_inv s \<longleftrightarrow> flight_inv (openerGroup s) \<and> (\<forall>c a. (c, Inr a) \<in> results (openerGroup s) \<longrightarrow> a \<in> dom (files s)) \<and> (\<forall>i. at_point s i)"

section \<open>Steps inside \<open>Do\<close>\<close>

lemma fpc_update_same: "(f(j := q)) = (f(i := p)) \<Longrightarrow> q \<noteq> f j \<Longrightarrow> i = j \<and> p = q"
  by (metis fun_upd_apply)

lemma results_kept:
  assumes "flight_step g g'" "flight_inv g" shows "results g \<subseteq> results g'"
  using assms
proof (cases rule: flight_step.cases)
  case (f_new i k)
  then show ?thesis using flight_invD(5) [OF assms(2), of "sf_next g"] by (auto simp: results_def)
next
  case (f_return i k a c r)
  then show ?thesis using flight_invD(1) [OF assms(2), of i] by (auto simp: results_def)
qed (auto simp: results_def)

lemma results_new:
  assumes "flight_step g g'" "fpc g' = (fpc g)(i := p)" "(c, r) \<in> results g'" "(c, r) \<notin> results g"
  shows "\<exists>k. fpc g i = FRunning k c \<and> p = FStored k c"
  using assms
  by (cases rule: flight_step.cases) (auto simp: results_def dest!: fpc_update_same split: if_splits)

lemma inside_moves:
  assumes "flight_step g g'" "fpc g' = (fpc g)(i := p)"
  shows "fpc g i = FStored k c \<Longrightarrow> p = FReleased k c"
    and "fpc g i = FReleased k c \<Longrightarrow> \<exists>r. p = FReturned k c r"
    and "fpc g i = FWaiting k c \<Longrightarrow> \<exists>r. p = FReturned k c r"
  using assms by (cases rule: flight_step.cases; auto dest!: fpc_update_same)+

lemma in_Do_mono: "in_Do R p A q \<Longrightarrow> R \<subseteq> R' \<Longrightarrow> A \<subseteq>\<^sub>m A' \<Longrightarrow> in_Do R' p A' q"
proof -
  assume "in_Do R p A q" "R \<subseteq> R'" and A: "A \<subseteq>\<^sub>m A'"
  moreover have "A a = Some k \<Longrightarrow> A' a = Some k" for a k using A by (metis domI map_le_def)
  moreover have "dom A \<subseteq> dom A'" using A by (rule map_le_implies_dom_le)
  ultimately show ?thesis by (cases q) auto
qed

lemma Do_inv_frame:
  assumes "Do_inv s" "flight_inv g" "results (openerGroup s) \<subseteq> results g" "fpc g = (fpc (openerGroup s))(i := p)"
    and "openerGroup s' = g" "spc s' = (spc s)(i := q)" "paths s \<subseteq>\<^sub>m paths s'" "in_Do (results g) p (paths s') q"
    and "\<And>c a. (c, Inr a) \<in> results g \<Longrightarrow> (c, Inr a) \<notin> results (openerGroup s) \<Longrightarrow> a \<in> dom (files s')"
  shows "Do_inv s'"
proof -
  have d: "dom (files s) \<subseteq> dom (files s')" using assms(7) by (auto simp: map_le_def paths_def dom_def) (metis option.map_disc_iff not_Some_eq)
  have "at_point s' j" for j
  proof (cases "j = i")
    case False
    have "at_point s j" using assms(1) by (simp add: Do_inv_def)
    then show ?thesis using in_Do_mono [OF _ assms(3,7)] False assms(4,5,6) by simp
  qed (use assms(4,5,6,8) in simp)
  moreover have "a \<in> dom (files s')" if "(c, Inr a) \<in> results g" for c a
    using assms(1) assms(9) [of c a] that d unfolding Do_inv_def by blast
  ultimately show ?thesis using assms(2,5) by (simp add: Do_inv_def)
qed

lemma Do_inv_go:
  assumes "Do_inv s" "openerGroup s' = openerGroup s" "spc s' = (spc s)(i := q)" "paths s \<subseteq>\<^sub>m paths s'"
    and "in_Do (results (openerGroup s)) (fpc (openerGroup s) i) (paths s') q"
  shows "Do_inv s'"
  using assms by (intro Do_inv_frame [of s "openerGroup s" i "fpc (openerGroup s) i" s' q]) (auto simp: Do_inv_def)

lemma Do_inv_step:
  assumes "Do_inv s" "Do_step i p s g" "openerGroup s' = g" "spc s' = (spc s)(i := q)" "paths s' = paths s"
    and "in_Do (results g) p (paths s) q" "\<And>k c. fpc (openerGroup s) i = FRunning k c \<Longrightarrow> p \<noteq> FStored k c"
  shows "Do_inv s'"
proof (rule Do_inv_frame [OF assms(1)])
  have f: "flight_step (openerGroup s) g" "fpc g = (fpc (openerGroup s))(i := p)" "flight_inv (openerGroup s)"
    using assms(1,2) by (simp_all add: Do_step_def Do_inv_def)
  show "flight_inv g" by (rule flight_inv_step [OF f(3,1)])
  show "results (openerGroup s) \<subseteq> results g" by (rule results_kept [OF f(1,3)])
  show "a \<in> dom (files s')" if "(c, Inr a) \<in> results g" "(c, Inr a) \<notin> results (openerGroup s)" for c a
    using results_new [OF f(1,2) that] assms(7) by blast
qed (use assms in \<open>simp_all add: Do_step_def\<close>)

lemmas point_defs = go_def new_handle_def add_ref_def

lemma at_pointD: "Do_inv s \<Longrightarrow> at_point s i"
  by (simp add: Do_inv_def)

lemma paths_same: "files s a = Some f \<Longrightarrow> of_path f' = of_path f \<Longrightarrow> files s' = (files s)(a \<mapsto> f') \<Longrightarrow> paths s' = paths s"
  by (auto simp: paths_def fun_eq_iff)

lemma Do_inv_returned:
  assumes "Do_inv s" "fpc (openerGroup s) i = FReturned k c (Some r)"
  shows "(c, r) \<in> results (openerGroup s)"
  using assms flight_invD(1) [of "openerGroup s" i] by (auto simp: Do_inv_def results_def)

lemma Do_inv_fn_return:
  assumes "Do_inv s" "spc s i = SInserted k a \<and> r = Inr a \<or> spc s i = SChecked k \<and> r = Inl e" "fpc (openerGroup s) i = FRunning k c"
    and "Do_step i (FStored k c) s g" "sf_calls g c = Some cl" "c_res cl = Some r"
  shows "Do_inv (go i (SWon k r) s\<lparr>openerGroup := g\<rparr>)"
proof (rule Do_inv_frame [OF assms(1), where i = i and p = "FStored k c" and q = "SWon k r" and g = g])
  have f: "flight_step (openerGroup s) g" "fpc g = (fpc (openerGroup s))(i := FStored k c)" "flight_inv (openerGroup s)"
    using assms(1,4) by (simp_all add: Do_step_def Do_inv_def)
  show "flight_inv g" by (rule flight_inv_step [OF f(3,1)])
  show "results (openerGroup s) \<subseteq> results g" by (rule results_kept [OF f(1,3)])
  show "fpc g = (fpc (openerGroup s))(i := FStored k c)" by (rule f(2))
  have a: "\<forall>b. r = Inr b \<longrightarrow> b \<in> dom (files s)"
    using at_pointD [OF assms(1), of i] assms(2) by (auto simp: paths_def)
  show "in_Do (results g) (FStored k c) (paths (go i (SWon k r) s\<lparr>openerGroup := g\<rparr>)) (SWon k r)"
    using a assms(5,6) by (auto simp: results_def paths_def go_def)
  fix c' b
  assume n: "(c', Inr b) \<in> results g" "(c', Inr b) \<notin> results (openerGroup s)"
  then have "c' = c" using results_new [OF f(1,2) n] assms(3) by simp
  then have "r = Inr b" using n(1) assms(5,6) by (simp add: results_def)
  then show "b \<in> dom (files (go i (SWon k r) s\<lparr>openerGroup := g\<rparr>))" using a by (simp add: go_def)
qed (simp_all add: go_def paths_def map_le_def)

section \<open>References\<close>

lemma files_invD:
  assumes "files_inv s"
  shows "openFiles s k = Some a \<Longrightarrow> \<exists>f. files s a = Some f \<and> of_path f = k \<and> refCount f > 0"
    and "files s a = Some f \<Longrightarrow> a < next_file s" "files s a = Some f \<Longrightarrow> counted s a f"
    and "handles s h = Some x \<Longrightarrow> h < next_handle s" "handles s h = Some x \<Longrightarrow> oh_file x \<in> dom (files s)"
  using assms unfolding files_inv_def by blast+

lemma open_handle_counts:
  assumes "files_inv s" "handles s h = Some \<lparr>oh_closed = False, oh_file = a\<rparr>" "files s a = Some f"
  shows "refCount f \<ge> 1 \<and> of_closes f = 0"
proof -
  have c: "counted s a f" by (rule files_invD(3) [OF assms(1,3)])
  have "h \<in> open_handles s a" using assms(2) by simp
  then have "card (open_handles s a) > 0" using c unfolding counted_def by (metis card_gt_0_iff empty_iff)
  then show ?thesis using c by (auto simp: counted_def split: if_splits)
qed

text \<open>The handles, the first references and the closing goroutines of a file after a step.\<close>

lemma holders_update: "{j. token ((p(i := q)) j) = Some a} = (if token q = Some a then insert i {j. token (p j) = Some a} else {j. token (p j) = Some a} - {i})"
  by auto

lemma closing_update: "{j. (p(i := q)) j = SClosing a} = (if q = SClosing a then insert i {j. p j = SClosing a} else {j. p j = SClosing a} - {i})"
  by auto

lemma open_handles_update: "{j. (m(h \<mapsto> x)) j = Some y} = (if x = y then insert h {j. m j = Some y} else {j. m j = Some y} - {h})"
  by auto

lemmas set_updates = holders_update closing_update open_handles_update

lemma files_inv_move:
  assumes "files_inv s" "files s' = files s" "next_file s' = next_file s" "handles s' = handles s" "next_handle s' = next_handle s"
    and "\<And>j. token (spc s' j) = token (spc s j)" "\<And>j a. spc s' j = SClosing a \<longleftrightarrow> spc s j = SClosing a"
    and "\<And>k a. openFiles s' k = Some a \<Longrightarrow> openFiles s k = Some a \<or> (\<exists>f. files s a = Some f \<and> of_path f = k \<and> refCount f > 0)"
  shows "files_inv s'"
proof -
  have "counted s' a f = counted s a f" for a f unfolding counted_def assms(4,6,7) ..
  then show ?thesis using assms(1,8) unfolding files_inv_def assms(2,3,4,5) by blast
qed

lemma files_inv_change:
  assumes "files_inv s" "files s' = (files s)(a \<mapsto> f)" "next_file s' \<ge> next_file s" "a < next_file s'" "counted s' a f"
    and "\<And>b. b \<noteq> a \<Longrightarrow> files s b \<noteq> None \<Longrightarrow> open_handles s' b = open_handles s b \<and> holders s' b = holders s b \<and> closing s' b = closing s b"
    and "\<And>h x. handles s' h = Some x \<Longrightarrow> h < next_handle s' \<and> (handles s h = Some x \<or> oh_file x = a)"
    and "\<And>k b. openFiles s' k = Some b \<Longrightarrow> openFiles s k = Some b \<and> (b = a \<longrightarrow> of_path f = k \<and> refCount f > 0)"
  shows "files_inv s'"
proof -
  note inv = files_invD [OF assms(1)]
  have "counted s' b g" if "b \<noteq> a" "files s b = Some g" for b g
    using inv(3) [OF that(2)] assms(6) [OF that(1)] that(2) unfolding counted_def by auto
  then have "\<forall>b g. files s' b = Some g \<longrightarrow> b < next_file s' \<and> counted s' b g"
    using assms(2-5) inv(2) by (metis fun_upd_apply less_le_trans option.inject)
  moreover have "\<forall>k b. openFiles s' k = Some b \<longrightarrow> (\<exists>g. files s' b = Some g \<and> of_path g = k \<and> refCount g > 0)"
    using assms(2,8) inv(1) by (metis fun_upd_apply)
  moreover have "\<forall>h x. handles s' h = Some x \<longrightarrow> h < next_handle s' \<and> oh_file x \<in> dom (files s')"
    using assms(2,7) inv(5) by (metis domIff fun_upd_apply insertCI dom_fun_upd option.distinct(1))
  ultimately show ?thesis unfolding files_inv_def by blast
qed

lemma paths_go [simp]: "paths (s\<lparr>spc := p\<rparr>) = paths s"
  by (simp add: paths_def fun_eq_iff)

lemma Do_inv_plain: "Do_inv s \<Longrightarrow> in_Do (results (openerGroup s)) (fpc (openerGroup s) i) (paths s) q \<Longrightarrow> Do_inv (go i q s)"
  by (rule Do_inv_go [of s _ i q]) (simp_all add: go_def)

lemma Do_inv_reader_step:
  assumes "reader_step s s'" "Do_inv s" "files_inv s"
  shows "Do_inv s'"
  using assms(1)
proof (cases rule: reader_step.cases)
  case (r_start i k)
  then show ?thesis using at_pointD [OF assms(2), of i] by (simp add: Do_inv_plain [OF assms(2)])
next
  case (r_miss i k)
  then show ?thesis using at_pointD [OF assms(2), of i] by (simp add: Do_inv_plain [OF assms(2)])
next
  case (r_retry i k a f)
  then show ?thesis using at_pointD [OF assms(2), of i] by (simp add: Do_inv_plain [OF assms(2)])
next
  case (r_hit i k a f)
  have p: "paths s' = paths s" by (rule paths_same [of s a f "f\<lparr>refCount := refCount f + 1\<rparr>"]) (use r_hit in \<open>simp_all add: point_defs\<close>)
  show ?thesis using r_hit at_pointD [OF assms(2), of i] p by (intro Do_inv_go [OF assms(2), of _ i SIdle]) (simp_all add: point_defs)
next
  case (r_enter i k p c g)
  then show ?thesis by (intro Do_inv_step [OF assms(2) r_enter(5), of _ "SChecked k"]) (auto simp: fun_upd_idem paths_def)
next
  case (r_open i k c)
  have "next_file s \<notin> dom (files s)" using assms(3) by (auto simp: files_inv_def)
  then have "paths s \<subseteq>\<^sub>m paths s'" "paths s' (next_file s) = Some k" using r_open(1) by (auto simp: map_le_def paths_def go_def)
  then show ?thesis using r_open by (intro Do_inv_go [OF assms(2), of _ i "SOpened k (next_file s)"]) (auto simp: go_def)
next
  case (r_insert i k a)
  have "paths s' = paths s" using r_insert(1) by (simp add: paths_def go_def fun_eq_iff)
  then show ?thesis using r_insert at_pointD [OF assms(2), of i] by (intro Do_inv_go [OF assms(2), of _ i "SInserted k a"]) (auto simp: go_def)
next
  case (r_fn_return i k a r e c g cl)
  then show ?thesis using Do_inv_fn_return [OF assms(2)] by blast
next
  case (r_inside i k c p g)
  have f: "flight_step (openerGroup s) g" "fpc g = (fpc (openerGroup s))(i := p)" using r_inside(3) by (simp_all add: Do_step_def)
  have R: "(c', x) \<in> results g" if "(c', x) \<in> results (openerGroup s)" for c' x
    using results_kept [OF f(1)] assms(2) that by (auto simp: Do_inv_def)
  have "in_Do (results g) p (paths s) (spc s i)"
    using at_pointD [OF assms(2), of i] r_inside(2) inside_moves [OF f, of k c] R by (cases "spc s i") auto
  then show ?thesis using r_inside by (intro Do_inv_step [OF assms(2) r_inside(3), of _ "spc s i"]) (auto simp: paths_def)
next
  case (r_error i k c e g)
  then show ?thesis by (intro Do_inv_step [OF assms(2) r_error(3), of _ SIdle]) (auto simp: go_def paths_def)
next
  case (r_won i k c a r g)
  then show ?thesis by (intro Do_inv_step [OF assms(2) r_won(4), of _ SIdle]) (auto simp: new_handle_def paths_def)
next
  case (r_lost i k c a g)
  have "a \<in> dom (files s)" using Do_inv_returned [OF assms(2) r_lost(2)] assms(2) by (simp add: Do_inv_def)
  then show ?thesis using r_lost by (intro Do_inv_step [OF assms(2) r_lost(4), of _ "SLost k a"]) (auto simp: go_def paths_def)
next
  case (r_share i k a f)
  have p: "paths s' = paths s" by (rule paths_same [of s a f "f\<lparr>refCount := refCount f + 1\<rparr>"]) (use r_share in \<open>simp_all add: point_defs\<close>)
  show ?thesis using r_share at_pointD [OF assms(2), of i] p by (intro Do_inv_go [OF assms(2), of _ i SIdle]) (simp_all add: point_defs)
next
  case (r_close i h a f)
  let ?q = "if refCount f = 1 then SClosing a else SIdle"
  have p: "paths s' = paths s"
    by (rule paths_same [of s a f "f\<lparr>refCount := refCount f - 1\<rparr>"]) (use r_close in \<open>simp_all add: point_defs Close_handle_def Let_def\<close>)
  moreover have "refCount f \<ge> 1" using open_handle_counts [OF assms(3) r_close(3,4)] by simp
  ultimately show ?thesis using r_close at_pointD [OF assms(2), of i]
    by (intro Do_inv_go [OF assms(2), of _ i ?q]) (auto simp: point_defs Close_handle_def Let_def paths_def)
next
  case (r_file_close i a f)
  have p: "paths s' = paths s" by (rule paths_same [of s a f "f\<lparr>of_closes := of_closes f + 1\<rparr>"]) (use r_file_close in \<open>simp_all add: point_defs\<close>)
  show ?thesis using r_file_close at_pointD [OF assms(2), of i] p by (intro Do_inv_go [OF assms(2), of _ i SIdle]) (simp_all add: point_defs)
qed (use assms(2) in simp)

lemma files_inv_new_handle:
  assumes "files_inv s" "token (spc s i) = None" "\<And>b. spc s i \<noteq> SClosing b" "files s a = Some f" "refCount f \<noteq> 0"
  shows "files_inv (new_handle i a (add_ref 1 a f s))" (is "files_inv ?s")
proof (rule files_inv_change [OF assms(1), of _ a "f\<lparr>refCount := refCount f + 1\<rparr>"])
  note inv = files_invD [OF assms(1)]
  have h: "handles s (next_handle s) = None" using inv(4) by (metis less_irrefl not_Some_eq)
  have c: "counted s a f" by (rule inv(3) [OF assms(4)])
  have sets: "open_handles ?s b = (if b = a then insert (next_handle s) (open_handles s b) else open_handles s b)"
    "holders ?s b = holders s b" "closing ?s b = closing s b" for b
    using h assms(2,3) by (auto simp: new_handle_def add_ref_def)
  show "counted ?s a (f\<lparr>refCount := refCount f + 1\<rparr>)"
    using c assms(5) h unfolding counted_def sets by (auto simp: card_insert_if split: if_splits)
  show "open_handles ?s b = open_handles s b \<and> holders ?s b = holders s b \<and> closing ?s b = closing s b" if "b \<noteq> a" for b
    using sets [of b] that by simp
  show "a < next_file ?s" using inv(2) [OF assms(4)] by (simp add: point_defs)
  show "h < next_handle ?s \<and> (handles s h = Some x \<or> oh_file x = a)" if "handles ?s h = Some x" for h x
    using that inv(4) [of h] by (auto simp: point_defs split: if_splits)
  show "openFiles s k = Some b \<and> (b = a \<longrightarrow> of_path (f\<lparr>refCount := refCount f + 1\<rparr>) = k \<and> 0 < refCount (f\<lparr>refCount := refCount f + 1\<rparr>))"
    if "openFiles ?s k = Some b" for k b
    using that inv(1) [of k b] assms(4) by (auto simp: point_defs)
qed (simp_all add: point_defs)

text \<open>The first reference becomes a handle.\<close>

lemma files_inv_won:
  assumes "files_inv s" "token (spc s i) = Some a" "files s a = Some f"
  shows "files_inv (new_handle i a s)" (is "files_inv ?s")
proof (rule files_inv_change [OF assms(1), of _ a f])
  note inv = files_invD [OF assms(1)]
  have h: "handles s (next_handle s) = None" using inv(4) by (metis less_irrefl not_Some_eq)
  have c: "counted s a f" by (rule inv(3) [OF assms(3)])
  have nc: "spc s i \<noteq> SClosing b" for b using assms(2) by auto
  have sets: "open_handles ?s b = (if b = a then insert (next_handle s) (open_handles s b) else open_handles s b)"
    "holders ?s b = (if b = a then holders s b - {i} else holders s b)" "closing ?s b = closing s b" for b
    using h assms(2) nc by (auto simp: new_handle_def)
  have "i \<in> holders s a" using assms(2) by simp
  then have "card (holders s a) = Suc (card (holders s a - {i}))"
    using c unfolding counted_def by (metis card_Suc_Diff1)
  then show "counted ?s a f"
    using c h unfolding counted_def sets by (auto simp: card_insert_if split: if_splits)
  show "open_handles ?s b = open_handles s b \<and> holders ?s b = holders s b \<and> closing ?s b = closing s b" if "b \<noteq> a" for b
    using sets [of b] that by simp
  show "a < next_file ?s" using inv(2) [OF assms(3)] by (simp add: point_defs)
  show "h < next_handle ?s \<and> (handles s h = Some x \<or> oh_file x = a)" if "handles ?s h = Some x" for h x
    using that inv(4) [of h] by (auto simp: point_defs split: if_splits)
  show "openFiles s k = Some b \<and> (b = a \<longrightarrow> of_path f = k \<and> 0 < refCount f)" if "openFiles ?s k = Some b" for k b
    using that inv(1) [of k b] assms(3) by (auto simp: point_defs)
qed (use assms(3) in \<open>simp_all add: point_defs fun_upd_idem\<close>)

lemma files_inv_open:
  assumes "files_inv s" "spc s i = SChecked k" "\<And>j. token (spc s j) \<noteq> Some (next_file s)" "\<And>j. spc s j \<noteq> SClosing (next_file s)"
  shows "files_inv (go i (SOpened k (next_file s)) s\<lparr>files := (files s)(next_file s \<mapsto> \<lparr>of_path = k, refCount = 1, of_closes = 0\<rparr>),
    next_file := next_file s + 1\<rparr>)" (is "files_inv ?s")
proof (rule files_inv_change [OF assms(1), of _ "next_file s" "\<lparr>of_path = k, refCount = 1, of_closes = 0\<rparr>"])
  note inv = files_invD [OF assms(1)]
  have n: "files s (next_file s) = None" using inv(2) by (metis less_irrefl not_Some_eq)
  have oh: "open_handles s (next_file s) = {}" using inv(5) n by fastforce
  have sets: "open_handles ?s b = open_handles s b" "holders ?s b = (if b = next_file s then {i} else holders s b)" "closing ?s b = closing s b" for b
    using assms(2,3) by (auto simp: go_def)
  show "counted ?s (next_file s) \<lparr>of_path = k, refCount = 1, of_closes = 0\<rparr>"
    using assms(4) unfolding counted_def sets oh by simp
  show "open_handles ?s b = open_handles s b \<and> holders ?s b = holders s b \<and> closing ?s b = closing s b" if "b \<noteq> next_file s" for b
    using sets [of b] that by simp
  show "openFiles s k' = Some b \<and> (b = next_file s \<longrightarrow> of_path \<lparr>of_path = k, refCount = 1, of_closes = 0\<rparr> = k' \<and> 0 < refCount \<lparr>of_path = k, refCount = 1, of_closes = 0\<rparr>)"
    if "openFiles ?s k' = Some b" for k' b
    using that inv(1) [of k' b] n by (auto simp: go_def)
qed (use files_invD(4) [OF assms(1)] in \<open>simp_all add: go_def\<close>)

lemma files_inv_file_close:
  assumes "files_inv s" "spc s i = SClosing a" "files s a = Some f"
  shows "files_inv (go i SIdle s\<lparr>files := (files s)(a \<mapsto> f\<lparr>of_closes := of_closes f + 1\<rparr>)\<rparr>)" (is "files_inv ?s")
proof (rule files_inv_change [OF assms(1), of _ a "f\<lparr>of_closes := of_closes f + 1\<rparr>"])
  note inv = files_invD [OF assms(1)]
  have c: "counted s a f" by (rule inv(3) [OF assms(3)])
  have sets: "open_handles ?s b = open_handles s b" "holders ?s b = holders s b" "closing ?s b = (if b = a then closing s b - {i} else closing s b)" for b
    using assms(2) by (auto simp: go_def)
  have "i \<in> closing s a" using assms(2) by simp
  then have "card (closing s a) = Suc (card (closing s a - {i}))"
    using c unfolding counted_def by (metis card_Suc_Diff1)
  then show "counted ?s a (f\<lparr>of_closes := of_closes f + 1\<rparr>)"
    using c unfolding counted_def sets by (auto split: if_splits)
  show "open_handles ?s b = open_handles s b \<and> holders ?s b = holders s b \<and> closing ?s b = closing s b" if "b \<noteq> a" for b
    using sets [of b] that by simp
  show "a < next_file ?s" using inv(2) [OF assms(3)] by (simp add: point_defs)
  show "openFiles s k = Some b \<and> (b = a \<longrightarrow> of_path (f\<lparr>of_closes := of_closes f + 1\<rparr>) = k \<and> 0 < refCount (f\<lparr>of_closes := of_closes f + 1\<rparr>))"
    if "openFiles ?s k = Some b" for k b
    using that inv(1) [of k b] assms(3) by (auto simp: point_defs)
qed (use files_invD(4) [OF assms(1)] in \<open>simp_all add: go_def\<close>)

lemma files_inv_close:
  assumes "files_inv s" "spc s i = SIdle" "handles s h = Some \<lparr>oh_closed = False, oh_file = a\<rparr>" "files s a = Some f"
  shows "files_inv (Close_handle i h a f s)" (is "files_inv ?s")
proof (rule files_inv_change [OF assms(1), of _ a "f\<lparr>refCount := refCount f - 1\<rparr>"])
  note inv = files_invD [OF assms(1)]
  have r: "refCount f \<ge> 1" "of_closes f = 0" using open_handle_counts [OF assms(1,3,4)] by simp_all
  have c: "counted s a f" by (rule inv(3) [OF assms(4)])
  have sets: "open_handles ?s b = (if b = a then open_handles s b - {h} else open_handles s b)" "holders ?s b = holders s b"
    "closing ?s b = (if b = a \<and> refCount f = 1 then insert i (closing s b) else closing s b)" for b
    using assms(2,3) r by (auto simp: Close_handle_def Let_def point_defs)
  have "h \<in> open_handles s a" using assms(3) by simp
  then have "card (open_handles s a) = Suc (card (open_handles s a - {h}))"
    using c unfolding counted_def by (metis card_Suc_Diff1)
  then show "counted ?s a (f\<lparr>refCount := refCount f - 1\<rparr>)"
    using c r assms(2) unfolding counted_def sets by (auto simp: card_insert_if split: if_splits)
  show "open_handles ?s b = open_handles s b \<and> holders ?s b = holders s b \<and> closing ?s b = closing s b" if "b \<noteq> a" for b
    using sets [of b] that by simp
  show "a < next_file ?s" using inv(2) [OF assms(4)] by (simp add: Close_handle_def Let_def point_defs)
  show "h' < next_handle ?s \<and> (handles s h' = Some x \<or> oh_file x = a)" if "handles ?s h' = Some x" for h' x
    using that inv(4) [of h'] inv(4) [OF assms(3)] by (auto simp: Close_handle_def Let_def point_defs split: if_splits)
  show "openFiles s k = Some b \<and> (b = a \<longrightarrow> of_path (f\<lparr>refCount := refCount f - 1\<rparr>) = k \<and> 0 < refCount (f\<lparr>refCount := refCount f - 1\<rparr>))"
    if "openFiles ?s k = Some b" for k b
    using that inv(1) [of k b] assms(4) r by (auto simp: Close_handle_def Let_def point_defs split: if_splits)
qed (simp_all add: Close_handle_def Let_def point_defs)

lemma files_inv_go:
  assumes "files_inv s" "token q = token (spc s i)" "\<And>a. q = SClosing a \<longleftrightarrow> spc s i = SClosing a"
  shows "files_inv (s\<lparr>spc := (spc s)(i := q)\<rparr>)" "files_inv (s\<lparr>spc := (spc s)(i := q), openerGroup := g\<rparr>)" "files_inv (s\<lparr>openerGroup := g\<rparr>)"
  by (rule files_inv_move [OF assms(1)]; use assms(2,3) in simp)+

lemma files_inv_reader_step:
  assumes "reader_step s s'" "Do_inv s" "files_inv s"
  shows "files_inv s'"
  using assms(1)
proof (cases rule: reader_step.cases)
  case (r_hit i k a f)
  then show ?thesis using files_invD(1) [OF assms(3) r_hit(3)] by (auto intro!: files_inv_new_handle [OF assms(3)])
next
  case (r_open i k c)
  have "next_file s \<notin> dom (files s)" using files_invD(2) [OF assms(3)] by auto
  then have "token (spc s j) \<noteq> Some (next_file s)" "spc s j \<noteq> SClosing (next_file s)" for j
    using at_pointD [OF assms(2), of j] by (cases "spc s j"; auto simp: paths_def split: sum.splits)+
  then show ?thesis using files_inv_open [OF assms(3) r_open(2)] r_open(1) by simp
next
  case (r_insert i k a)
  obtain f where f: "files s a = Some f" "of_path f = k" using at_pointD [OF assms(2), of i] r_insert(2) by (auto simp: paths_def)
  have c: "counted s a f" by (rule files_invD(3) [OF assms(3) f(1)])
  have "i \<in> holders s a" using r_insert(2) by simp
  then have "card (holders s a) > 0" using c unfolding counted_def by (metis card_gt_0_iff empty_iff)
  then have "refCount f > 0" using c by (simp add: counted_def)
  then show ?thesis using f r_insert by (intro files_inv_move [OF assms(3)]) (auto simp: go_def split: if_splits)
next
  case (r_fn_return i k a r e c g cl)
  then show ?thesis by (intro files_inv_move [OF assms(3)]) (auto simp: go_def)
next
  case (r_error i k c e g)
  have "(c, Inl e) \<in> results (openerGroup s)" by (rule Do_inv_returned [OF assms(2) r_error(2)])
  then have "token (spc s i) = None" "spc s i \<noteq> SClosing b" for b
    using at_pointD [OF assms(2), of i] r_error(2) by (cases "spc s i"; auto simp: results_def split: sum.splits)+
  then show ?thesis using r_error by (intro files_inv_move [OF assms(3)]) (auto simp: go_def)
next
  case (r_won i k c a r g)
  have "(c, Inr a) \<in> results (openerGroup s)" by (rule Do_inv_returned [OF assms(2) r_won(2)])
  then have r: "r = Inr a" "a \<in> dom (files s)"
    using at_pointD [OF assms(2), of i] r_won(2,3) by (auto simp: results_def paths_def)
  then have w: "files_inv (new_handle i a s)" using files_inv_won [OF assms(3), of i a] r_won(3) by auto
  show ?thesis unfolding r_won(1) by (rule files_inv_move [OF w]) (simp_all add: new_handle_def)
next
  case (r_share i k a f)
  then show ?thesis by (auto intro!: files_inv_new_handle [OF assms(3)])
next
  case (r_close i h a f)
  then show ?thesis using files_inv_close [OF assms(3)] by simp
next
  case (r_file_close i a f)
  then show ?thesis using files_inv_file_close [OF assms(3)] by simp
qed (use assms(3) in \<open>auto simp: go_def intro!: files_inv_go\<close>)

definition reader_inv :: "readers \<Rightarrow> bool" where
  "reader_inv s \<longleftrightarrow> Do_inv s \<and> files_inv s"

interpretation readers: invariant readers_init reader_step reader_inv
proof unfold_locales
  show "reader_inv readers_init"
    using flight.initially by (simp add: reader_inv_def Do_inv_def files_inv_def readers_init_def results_def flight_init_def)
qed (simp add: reader_inv_def Do_inv_reader_step files_inv_reader_step)

section \<open>Properties\<close>

text \<open>A call of \<open>Open\<close> that found no entry, with no call for the path in flight, runs to its end.\<close>

lemma winner_opens:
  assumes "spc s i = SChecked k" "fpc (openerGroup s) i = FIdle" "sf_m (openerGroup s) k = None"
  shows "\<exists>s'. reachable s reader_step s' \<and> spc s' = (spc s)(i := SIdle) \<and> fpc (openerGroup s') = fpc (openerGroup s) \<and>
    sf_m (openerGroup s') = sf_m (openerGroup s) \<and> openFiles s' = (openFiles s)(k \<mapsto> next_file s) \<and>
    files s' = (files s)(next_file s \<mapsto> \<lparr>of_path = k, refCount = 1, of_closes = 0\<rparr>) \<and> next_file s' = next_file s + 1 \<and>
    handles s' = (handles s)(next_handle s \<mapsto> \<lparr>oh_closed = False, oh_file = next_file s\<rparr>) \<and> next_handle s' = next_handle s + 1"
proof -
  let ?a = "next_file s" and ?g = "openerGroup s"
  let ?c = "sf_next ?g"
  define g1 where "g1 = ?g\<lparr>sf_m := (sf_m ?g)(k \<mapsto> ?c), sf_calls := (sf_calls ?g)(?c \<mapsto> \<lparr>c_wg = 1, c_res = None, c_key = k\<rparr>),
      sf_next := ?c + 1, fpc := (fpc ?g)(i := FRunning k ?c)\<rparr>"
  define g2 where "g2 = g1\<lparr>sf_calls := (sf_calls g1)(?c \<mapsto> \<lparr>c_wg = 1, c_res = Some (Inr ?a), c_key = k\<rparr>), fpc := (fpc g1)(i := FStored k ?c)\<rparr>"
  define g3 where "g3 = g2\<lparr>sf_calls := (sf_calls g2)(?c \<mapsto> \<lparr>c_wg = 0, c_res = Some (Inr ?a), c_key = k\<rparr>), fpc := (fpc g2)(i := FReleased k ?c)\<rparr>"
  define g4 where "g4 = g3\<lparr>sf_m := (sf_m g3)(k := None), fpc := (fpc g3)(i := FReturned k ?c (Some (Inr ?a)))\<rparr>"
  define g5 where "g5 = g4\<lparr>fpc := (fpc g4)(i := FIdle)\<rparr>"
  define s1 where "s1 = s\<lparr>openerGroup := g1\<rparr>"
  define s2 where "s2 = go i (SOpened k ?a) s1\<lparr>files := (files s1)(?a \<mapsto> \<lparr>of_path = k, refCount = 1, of_closes = 0\<rparr>), next_file := ?a + 1\<rparr>"
  define s3 where "s3 = go i (SInserted k ?a) s2\<lparr>openFiles := (openFiles s2)(k \<mapsto> ?a)\<rparr>"
  define s4 where "s4 = go i (SWon k (Inr ?a)) s3\<lparr>openerGroup := g2\<rparr>"
  define s5 where "s5 = s4\<lparr>openerGroup := g3\<rparr>"
  define s6 where "s6 = s5\<lparr>openerGroup := g4\<rparr>"
  define s7 where "s7 = new_handle i ?a s6\<lparr>openerGroup := g5\<rparr>"
  note d = s1_def s2_def s3_def s4_def s5_def s6_def s7_def point_defs
  have g: "flight_step ?g g1" "flight_step g1 g2" "flight_step g2 g3" "flight_step g3 g4" "flight_step g4 g5"
    using f_new [of ?g i k] f_return [of g1 i k ?c _ "Inr ?a"] f_done [of g2 i k ?c] f_delete [of g3 i k ?c] f_again [of g4 i k ?c "Some (Inr ?a)"] assms(2,3)
    by (simp_all add: g1_def g2_def g3_def g4_def g5_def)
  have "reader_step s s1" unfolding s1_def
    by (rule r_enter [OF assms(1,2), of _ ?c]) (use g(1) in \<open>simp_all add: Do_step_def g1_def\<close>)
  moreover have "reader_step s1 s2" using r_open [of s1 i k ?c] assms(1) by (simp add: d g1_def)
  moreover have "reader_step s2 s3" using r_insert [of s2 i k ?a] by (simp add: d)
  moreover have "reader_step s3 s4" unfolding s4_def
    by (rule r_fn_return [of _ _ _ ?a]) (use g(2) in \<open>auto simp: Do_step_def g1_def g2_def d\<close>)
  moreover have "reader_step s4 s5" unfolding s5_def
    by (rule r_inside [of _ i k ?c]) (use g(3) in \<open>simp_all add: Do_step_def g1_def g2_def g3_def d\<close>)
  moreover have "reader_step s5 s6" unfolding s6_def
    by (rule r_inside [of _ i k ?c]) (use g(4) in \<open>simp_all add: Do_step_def g1_def g2_def g3_def g4_def d\<close>)
  moreover have "reader_step s6 s7" unfolding s7_def
    by (rule r_won [of _ i k ?c]) (use g(5) in \<open>simp_all add: Do_step_def g4_def g5_def d\<close>)
  ultimately have "reachable s reader_step s7" by (meson start next_state)
  then show ?thesis
    using assms by (intro exI [of _ s7]) (simp add: d g1_def g2_def g3_def g4_def g5_def fun_upd_idem)
qed

text \<open>
  C26: Whatever the interleaving of calls of \<open>Open\<close> and \<open>Close\<close>: the reference count of a file is the number of its open handles and of
  handles about to be returned; it is never negative, so the panic of \<open>Close\<close> does not occur; a file with an open handle is not
  closed; no file is closed twice; and a file without handles (and not about to be returned) is closed, or
  the goroutine that let go of the last handle is about to close it.
\<close>

theorem singlereader_safe:
  assumes "reachable readers_init reader_step s" "files s a = Some f"
  shows "refCount f = int (card (open_handles s a)) + int (card (holders s a)) \<and> (\<forall>i. spc s i \<noteq> SPanicked) \<and>
    (open_handles s a \<noteq> {} \<longrightarrow> of_closes f = 0 \<and> closing s a = {}) \<and> of_closes f \<le> 1 \<and>
    (open_handles s a = {} \<and> holders s a = {} \<longrightarrow> of_closes f = 1 \<or> (\<exists>i. closing s a = {i}))"
proof -
  have inv: "Do_inv s" "files_inv s" using readers.always [OF assms(1)] by (simp_all add: reader_inv_def)
  have c: "finite (open_handles s a)" "finite (holders s a)" "finite (closing s a)" "refCount f = int (card (open_handles s a)) + int (card (holders s a))"
    "of_closes f + card (closing s a) = (if refCount f = 0 then 1 else 0)"
    using files_invD(3) [OF inv(2) assms(2)] by (simp_all add: counted_def)
  have "spc s i \<noteq> SPanicked" for i using at_pointD [OF inv(1), of i] by auto
  moreover have "of_closes f = 0 \<and> closing s a = {}" if "open_handles s a \<noteq> {}"
  proof -
    have "card (open_handles s a) > 0" using that c(1) card_gt_0_iff by blast
    then have "of_closes f + card (closing s a) = 0" using c(4,5) by simp
    then show ?thesis using c(3) by simp
  qed
  moreover have "of_closes f \<le> 1" using c(5) by (simp split: if_splits)
  moreover have "of_closes f = 1 \<or> (\<exists>i. closing s a = {i})" if e: "open_handles s a = {}" "holders s a = {}"
  proof (cases "of_closes f")
    case 0
    have "card (closing s a) = 1" using c(4,5) 0 unfolding e by simp
    then show ?thesis by (auto simp: card_1_singleton_iff)
  qed (use c(4,5) in \<open>simp add: e\<close>)
  ultimately show ?thesis using c(4) by blast
qed

text \<open>Two goroutines have looked at the map before either has opened the file.\<close>

lemma both_miss:
  "\<exists>s. reachable readers_init reader_step s \<and> spc s = (\<lambda>_. SIdle)(0 := SChecked k, 1 := SChecked k) \<and> openerGroup s = flight_init \<and>
     openFiles s = Map.empty \<and> files s = Map.empty \<and> next_file s = 0 \<and> handles s = Map.empty \<and> next_handle s = 0"
proof -
  let ?s1 = "go 0 (SStart k) readers_init"
  let ?s2 = "go 0 (SChecked k) ?s1"
  let ?s3 = "go 1 (SStart k) ?s2"
  let ?s4 = "go 1 (SChecked k) ?s3"
  have "reader_step readers_init ?s1" "reader_step ?s1 ?s2" "reader_step ?s2 ?s3" "reader_step ?s3 ?s4"
    by (rule r_start, simp add: readers_init_def, rule r_miss, simp add: go_def, simp add: go_def readers_init_def,
      rule r_start, simp add: go_def readers_init_def, rule r_miss, simp add: go_def, simp add: go_def readers_init_def)
  then have "reachable readers_init reader_step ?s4" by (meson start next_state)
  then show ?thesis by (intro exI [of _ ?s4]) (auto simp: go_def readers_init_def)
qed

theorem singlereader_safe_witness:
  "\<exists>s f. reachable readers_init reader_step s \<and> files s 0 = Some f \<and> open_handles s 0 = {0} \<and> refCount f = 1 \<and> of_closes f = 0"
proof -
  obtain s0 where s0: "reachable readers_init reader_step s0" "spc s0 0 = SChecked [120]" "openerGroup s0 = flight_init"
      "files s0 = Map.empty" "next_file s0 = 0" "handles s0 = Map.empty" "next_handle s0 = 0"
    using both_miss [of "[120]"] by auto
  obtain s where s: "reachable s0 reader_step s" "files s = [0 \<mapsto> \<lparr>of_path = [120], refCount = 1, of_closes = 0\<rparr>]"
      "handles s = [0 \<mapsto> \<lparr>oh_closed = False, oh_file = 0\<rparr>]"
    using winner_opens [OF s0(2)] s0 by (auto simp: flight_init_def)
  have r: "reachable readers_init reader_step s" by (rule reachable_trans [OF s(1) s0(1)])
  have "open_handles s 0 = {0}" using s(3) by auto
  moreover from this have "of_closes \<lparr>of_path = [120], refCount = 1, of_closes = 0\<rparr> = 0"
    using singlereader_safe [OF r, of 0] s(2) by simp
  ultimately show ?thesis using r s(2) by (intro exI [of _ s] exI [of _ "\<lparr>of_path = [120], refCount = 1, of_closes = 0\<rparr>"]) simp
qed

text \<open>
  If two goroutines find no entry for a path before either has opened it, and the second calls \<open>Do\<close> after the first has
  returned from it, the file is opened twice. The second entry replaces the first, and closing the first file removes the
  entry of the second, which stays open: the next \<open>Open\<close> does not find it.
\<close>

theorem singlereader_entry_lost:
  "\<exists>s f. reachable readers_init reader_step s \<and> openFiles s k = None \<and> handles s 1 = Some \<lparr>oh_closed = False, oh_file = 1\<rparr> \<and>
     files s 1 = Some f \<and> of_path f = k \<and> refCount f = 1 \<and> of_closes f = 0 \<and> spc s = (\<lambda>_. SIdle)(0 := SClosing 0)"
proof -
  obtain s0 where s0: "reachable readers_init reader_step s0" "spc s0 = (\<lambda>_. SIdle)(0 := SChecked k, 1 := SChecked k)" "openerGroup s0 = flight_init"
      "files s0 = Map.empty" "next_file s0 = 0" "handles s0 = Map.empty" "next_handle s0 = 0"
    using both_miss by blast
  obtain s1 where s1: "reachable s0 reader_step s1" "spc s1 = (\<lambda>_. SIdle)(1 := SChecked k)" "fpc (openerGroup s1) = (\<lambda>_. FIdle)" "sf_m (openerGroup s1) = Map.empty"
      "files s1 = [0 \<mapsto> \<lparr>of_path = k, refCount = 1, of_closes = 0\<rparr>]" "next_file s1 = 1"
      "handles s1 = [0 \<mapsto> \<lparr>oh_closed = False, oh_file = 0\<rparr>]" "next_handle s1 = 1"
    using winner_opens [of s0 0 k] s0(2-) by (auto simp: flight_init_def fun_upd_idem)
  obtain s2 where s2: "reachable s1 reader_step s2" "spc s2 = (\<lambda>_. SIdle)" "openFiles s2 k = Some 1"
      "files s2 0 = Some \<lparr>of_path = k, refCount = 1, of_closes = 0\<rparr>" "files s2 1 = Some \<lparr>of_path = k, refCount = 1, of_closes = 0\<rparr>"
      "handles s2 0 = Some \<lparr>oh_closed = False, oh_file = 0\<rparr>" "handles s2 1 = Some \<lparr>oh_closed = False, oh_file = 1\<rparr>"
    using winner_opens [of s1 1 k] s1(2-) by (auto simp: fun_upd_idem)
  have "reader_step s2 (Close_handle 0 0 0 \<lparr>of_path = k, refCount = 1, of_closes = 0\<rparr> s2)"
    by (rule r_close) (simp_all add: s2)
  moreover have "reachable readers_init reader_step s2" by (meson reachable_trans s0(1) s1(1) s2(1))
  ultimately have r: "reachable readers_init reader_step (Close_handle 0 0 0 \<lparr>of_path = k, refCount = 1, of_closes = 0\<rparr> s2)" by (rule next_state [rotated])
  show ?thesis
    by (rule exI [of _ "Close_handle 0 0 0 \<lparr>of_path = k, refCount = 1, of_closes = 0\<rparr> s2"], rule exI [of _ "\<lparr>of_path = k, refCount = 1, of_closes = 0\<rparr>"])
      (use r s2 in \<open>auto simp: Close_handle_def Let_def point_defs\<close>)
qed

end
