(* ===== verification/Lock.thy ===== *)
theory Lock
  imports Go_Path Transitions
begin

text \<open>
  The package \<open>lock\<close>: the lock of a process (\<open>lock.go\<close>) over the portable implementation and those of Unix,
  Plan 9 and Windows, first as functions on a disk, then the portable lock as steps of several processes. What \<open>Lock\<close> needs of
  an implementation is the locale \<open>lock_impl\<close>.
\<close>

section \<open>The disk and the system\<close>

record disk =
  names :: "bytes \<rightharpoonup> nat"
  contents :: "nat \<Rightarrow> bytes"
  next_inode :: nat

text \<open>
  What the system answers: whether operations on a path succeed, whether a process is found and takes the signal
  zero, and the JSON coding of \<open>pidLockMeta\<close>.
\<close>

record lock_env =
  wd :: "bytes option"
  can_stat :: "bytes \<Rightarrow> bool"
  can_open :: "bytes \<Rightarrow> bool"
  can_create :: "bytes \<Rightarrow> bool"
  write_ok :: "bytes \<Rightarrow> bool"
  close_ok :: "bytes \<Rightarrow> bool"
  remove_ok :: "bytes \<Rightarrow> bool"
  fcntl_ok :: "bytes \<Rightarrow> bool"
  FindProcess :: "int \<Rightarrow> bool"
  signalZero :: "(int \<Rightarrow> bool) option"
  Getpid :: int
  encode_meta :: "int \<Rightarrow> bytes"
  decode_meta :: "bytes \<Rightarrow> int option"

datatype lock_error = AbsError | AlreadyLocked bytes | InvalidContents bytes | NonZeroSize bytes | CreateFailed bytes | WriteFailed | FcntlFailed bytes
  | CannotAcquire lock_error

datatype lockStatus = statusInvalid | statusLocked | statusUnlocked | statusStale

datatype close_error = CloseFailed | RemoveFailed

record unlocker =
  portable :: bool
  u_abs :: bytes
  once_done :: bool
  u_err :: "close_error option"

record 'd lock_process =
  locked :: "bytes set"
  the_disk :: 'd

definition Remove :: "lock_env \<Rightarrow> bytes \<Rightarrow> disk \<Rightarrow> disk" where
  "Remove E name d = (if remove_ok E name then d\<lparr>names := (names d)(name := None)\<rparr> else d)"

definition remove_fails :: "lock_env \<Rightarrow> bytes \<Rightarrow> disk \<Rightarrow> bool" where
  "remove_fails E name d \<longleftrightarrow> \<not> remove_ok E name \<or> names d name = None"

definition file_size :: "lock_env \<Rightarrow> bytes \<Rightarrow> disk \<Rightarrow> nat option" where
  "file_size E name d = (if can_stat E name then map_option (\<lambda>n. length (contents d n)) (names d name) else None)"

text \<open>A new empty file under the name.\<close>

definition create_file :: "bytes \<Rightarrow> disk \<Rightarrow> disk" where
  "create_file name d = d\<lparr>names := (names d)(name \<mapsto> next_inode d), contents := (contents d)(next_inode d := []), next_inode := next_inode d + 1\<rparr>"

section \<open>The functions\<close>

definition portableLockStatus :: "lock_env \<Rightarrow> bytes \<Rightarrow> disk \<Rightarrow> lockStatus" where
  "portableLockStatus E path d =
     (case (if can_open E path then names d path else None) of
       None \<Rightarrow> statusUnlocked
     | Some n \<Rightarrow> (case decode_meta E (contents d n) of
         None \<Rightarrow> statusInvalid
       | Some OwnerPID \<Rightarrow>
           if OwnerPID = 0 then statusInvalid
           else if \<not> FindProcess E OwnerPID then statusStale
           else (case signalZero E of
             Some signal \<Rightarrow> if signal OwnerPID then statusLocked else statusStale
           | None \<Rightarrow> statusLocked)))"

text \<open>The creation of the file, after the checks.\<close>

definition portable_create :: "lock_env \<Rightarrow> bytes \<Rightarrow> disk \<Rightarrow> (lock_error + unlocker) \<times> disk" where
  "portable_create E name d =
     (if \<not> can_create E name \<or> names d name \<noteq> None then (Inl (CreateFailed name), d)
      else let n = next_inode d; d = create_file name d in
        if write_ok E name
        then (Inr \<lparr>portable = True, u_abs = name, once_done = False, u_err = None\<rparr>, d\<lparr>contents := (contents d)(n := encode_meta E (Getpid E))\<rparr>)
        else (Inl WriteFailed, d))"

definition lockPortable :: "lock_env \<Rightarrow> bytes \<Rightarrow> disk \<Rightarrow> (lock_error + unlocker) \<times> disk" where
  "lockPortable E name d =
     (case file_size E name d of
       Some (Suc _) \<Rightarrow> (case portableLockStatus E name d of
           statusLocked \<Rightarrow> (Inl (AlreadyLocked name), d)
         | statusStale \<Rightarrow> portable_create E name (Remove E name d)
         | statusInvalid \<Rightarrow> (Inl (InvalidContents name), d)
         | statusUnlocked \<Rightarrow> portable_create E name d)
     | _ \<Rightarrow> portable_create E name d)"

text \<open>\<open>os.Create\<close> truncates a file that exists.\<close>

definition lockFcntl :: "lock_env \<Rightarrow> bytes \<Rightarrow> disk \<Rightarrow> (lock_error + unlocker) \<times> disk" where
  "lockFcntl E name d =
     (case file_size E name d of
       Some (Suc _) \<Rightarrow> (Inl (NonZeroSize name), d)
     | _ \<Rightarrow>
         if \<not> can_create E name then (Inl (CreateFailed name), d)
         else let d = (case names d name of None \<Rightarrow> create_file name d | Some n \<Rightarrow> d\<lparr>contents := (contents d)(n := [])\<rparr>) in
           if fcntl_ok E name then (Inr \<lparr>portable = False, u_abs = name, once_done = False, u_err = None\<rparr>, d)
           else (Inl (FcntlFailed name), d))"

definition lockPlan9 :: "lock_env \<Rightarrow> bytes \<Rightarrow> disk \<Rightarrow> (lock_error + unlocker) \<times> disk" where
  "lockPlan9 E name d =
     (case file_size E name d of
       Some (Suc _) \<Rightarrow> (Inl (NonZeroSize name), d)
     | _ \<Rightarrow>
         if \<not> can_create E name then (Inl (CreateFailed name), d)
         else let d = (case names d name of None \<Rightarrow> create_file name d | Some n \<Rightarrow> d) in
           (Inr \<lparr>portable = False, u_abs = name, once_done = False, u_err = None\<rparr>, d))"

text \<open>\<open>Lock\<close> over the implementation of the system (the variable \<open>lockFn\<close>), given the working directory.\<close>

definition Lock ::
  "(bytes \<Rightarrow> 'd \<Rightarrow> (lock_error + 'u) \<times> 'd) \<Rightarrow> bytes option \<Rightarrow> bytes \<Rightarrow> 'd lock_process \<Rightarrow> (lock_error + 'u) \<times> 'd lock_process" where
  "Lock lockFn wdir name s =
     (case Abs_path wdir name of
       None \<Rightarrow> (Inl AbsError, s)
     | Some absName \<Rightarrow>
         if absName \<in> locked s then (Inl (AlreadyLocked absName), s)
         else (case lockFn absName (the_disk s) of
           (Inl err, d) \<Rightarrow> (Inl (CannotAcquire err), s\<lparr>the_disk := d\<rparr>)
         | (Inr c, d) \<Rightarrow> (Inr c, s\<lparr>the_disk := d, locked := insert absName (locked s)\<rparr>)))"

definition unlocker_close :: "lock_env \<Rightarrow> unlocker \<Rightarrow> disk lock_process \<Rightarrow> unlocker \<times> disk lock_process" where
  "unlocker_close E u s =
     (let s = s\<lparr>locked := locked s - {u_abs u}\<rparr>; d = the_disk s;
          cerr = (if close_ok E (u_abs u) then None else Some CloseFailed) in
      if portable u then
        let err = (case cerr of None \<Rightarrow> u_err u | Some e \<Rightarrow> Some e);
            err = (if remove_fails E (u_abs u) d then Some RemoveFailed else err) in
        (u\<lparr>u_err := err\<rparr>, s\<lparr>the_disk := Remove E (u_abs u) d\<rparr>)
      else (u\<lparr>u_err := cerr\<rparr>, s\<lparr>the_disk := Remove E (u_abs u) d\<rparr>))"

definition Close :: "lock_env \<Rightarrow> unlocker \<Rightarrow> disk lock_process \<Rightarrow> close_error option \<times> unlocker \<times> disk lock_process" where
  "Close E u s =
     (if once_done u then (u_err u, u, s)
      else let (u, s) = unlocker_close E (u\<lparr>once_done := True\<rparr>) s in (u_err u, u, s))"

section \<open>Windows\<close>

text \<open>
  What is used of the interface of Windows, on the state \<open>'w\<close> of the system: \<open>os.Stat\<close>, \<open>CreateFile\<close> (with its
  access, sharing mode, disposition and attributes) and \<open>CloseHandle\<close>.
\<close>

record ('w, 'h) win_api =
  win_Stat :: "bytes \<Rightarrow> 'w \<Rightarrow> nat option"
  CreateFile :: "bytes \<Rightarrow> nat \<Rightarrow> nat \<Rightarrow> nat \<Rightarrow> nat \<Rightarrow> 'w \<Rightarrow> 'h option \<times> 'w"
  CloseHandle :: "'h \<Rightarrow> 'w \<Rightarrow> bool \<times> 'w"
  OPEN_ALWAYS :: nat

record 'h winUnlocker =
  win_h :: 'h
  win_abs :: bytes
  win_err :: "close_error option"
  win_once :: bool

definition winCreateEphemeral :: "('w, 'h) win_api \<Rightarrow> bytes \<Rightarrow> 'w \<Rightarrow> 'h option \<times> 'w" where
  "winCreateEphemeral A name w = CreateFile A name 0 0 (OPEN_ALWAYS A) (0x100 + 0x04000000) w"

definition lockWindows :: "('w, 'h) win_api \<Rightarrow> bytes \<Rightarrow> 'w \<Rightarrow> (lock_error + 'h winUnlocker) \<times> 'w" where
  "lockWindows A name w =
     (case win_Stat A name w of
       Some (Suc _) \<Rightarrow> (Inl (NonZeroSize name), w)
     | _ \<Rightarrow> (case winCreateEphemeral A name w of
         (None, w) \<Rightarrow> (Inl (CreateFailed name), w)
       | (Some handle, w) \<Rightarrow> (Inr \<lparr>win_h = handle, win_abs = name, win_err = None, win_once = False\<rparr>, w)))"

definition winUnlocker_close :: "('w, 'h) win_api \<Rightarrow> 'h winUnlocker \<Rightarrow> 'w lock_process \<Rightarrow> 'h winUnlocker \<times> 'w lock_process" where
  "winUnlocker_close A u s =
     (let s = s\<lparr>locked := locked s - {win_abs u}\<rparr>; (closed, w) = CloseHandle A (win_h u) (the_disk s) in
      (u\<lparr>win_err := (if closed then None else Some CloseFailed)\<rparr>, s\<lparr>the_disk := w\<rparr>))"

definition winUnlocker_Close :: "('w, 'h) win_api \<Rightarrow> 'h winUnlocker \<Rightarrow> 'w lock_process \<Rightarrow> close_error option \<times> 'h winUnlocker \<times> 'w lock_process" where
  "winUnlocker_Close A u s =
     (if win_once u then (win_err u, u, s)
      else let (u, s) = winUnlocker_close A (u\<lparr>win_once := True\<rparr>) s in (win_err u, u, s))"

section \<open>One process after the other\<close>

lemma portable_create_Inr:
  assumes "portable_create E name d = (Inr u, d')"
  shows "names d name = None" "u = \<lparr>portable = True, u_abs = name, once_done = False, u_err = None\<rparr>"
    "names d' = (names d)(name \<mapsto> next_inode d)" "contents d' = (contents d)(next_inode d := encode_meta E (Getpid E))"
  using assms by (auto simp: portable_create_def create_file_def Let_def split: if_splits)

lemma lockPortable_Inr:
  assumes "lockPortable E name d = (Inr u, d')"
  obtains d0 where "portable_create E name d0 = (Inr u, d')" "d0 = d \<or> d0 = Remove E name d"
  using assms by (auto simp: lockPortable_def split: option.splits nat.splits lockStatus.splits)

text \<open>
  What \<open>Lock\<close> needs of an implementation: a new closer is for the path asked for, and closing it takes that path from the
  locked ones, once.
\<close>

locale lock_impl =
  fixes lockFn :: "bytes \<Rightarrow> 'd \<Rightarrow> (lock_error + 'u) \<times> 'd"
    and closer :: "'u \<Rightarrow> 'd lock_process \<Rightarrow> 'e \<times> 'u \<times> 'd lock_process"
    and target :: "'u \<Rightarrow> bytes" and fresh :: "'u \<Rightarrow> bool"
  assumes new: "lockFn name d = (Inr u, d') \<Longrightarrow> target u = name \<and> fresh u"
    and closes: "fresh u \<Longrightarrow> closer u s = (r, u1, s1) \<Longrightarrow> locked s1 = locked s - {target u} \<and> closer u1 s' = (r, u1, s')"
begin

lemma in_process:
  assumes "Lock lockFn wdir name s = (Inr u, s1)"
  shows "\<exists>a. Abs_path wdir name = Some a \<and> target u = a \<and>
    (\<forall>name'. Abs_path wdir name' = Some a \<longrightarrow> Lock lockFn wdir name' s1 = (Inl (AlreadyLocked a), s1)) \<and>
    (\<exists>r u1 s2. closer u s1 = (r, u1, s2) \<and> locked s2 = locked s \<and> (\<forall>x. closer u1 x = (r, u1, x)))"
proof -
  obtain a d where a: "Abs_path wdir name = Some a" "a \<notin> locked s" "lockFn a (the_disk s) = (Inr u, d)"
      "s1 = s\<lparr>the_disk := d, locked := insert a (locked s)\<rparr>"
    using assms by (auto simp: Lock_def split: option.splits if_splits sum.splits prod.splits)
  have u: "target u = a" "fresh u" using new [OF a(3)] by simp_all
  have "Lock lockFn wdir name' s1 = (Inl (AlreadyLocked a), s1)" if "Abs_path wdir name' = Some a" for name'
    using that a(4) by (simp add: Lock_def)
  moreover obtain r u1 s2 where c: "closer u s1 = (r, u1, s2)" by (metis prod_cases3)
  then have "locked s2 = locked s" "\<forall>x. closer u1 x = (r, u1, x)" using closes [OF u(2) c] a(2,4) u(1) by auto
  ultimately show ?thesis using a(1) u(1) c by blast
qed

end

lemma Close_once:
  "\<not> once_done u \<Longrightarrow> Close E u s = (r, u1, s1) \<Longrightarrow> locked s1 = locked s - {u_abs u} \<and> Close E u1 s' = (r, u1, s')"
  by (auto simp: Close_def unlocker_close_def Let_def split: if_splits)

lemma lock_functions_name:
  "lockPortable E name d = (Inr u, d') \<Longrightarrow> u_abs u = name \<and> \<not> once_done u"
  "lockFcntl E name d = (Inr u, d') \<Longrightarrow> u_abs u = name \<and> \<not> once_done u"
  "lockPlan9 E name d = (Inr u, d') \<Longrightarrow> u_abs u = name \<and> \<not> once_done u"
proof -
  show "lockPortable E name d = (Inr u, d') \<Longrightarrow> u_abs u = name \<and> \<not> once_done u"
    using lockPortable_Inr portable_create_Inr(2) by (metis unlocker.select_convs(2,3))
qed (auto simp: lockFcntl_def lockPlan9_def Let_def split: if_splits option.splits nat.splits)

lemma winUnlocker_Close_once:
  "\<not> win_once u \<Longrightarrow> winUnlocker_Close A u s = (r, u1, s1) \<Longrightarrow> locked s1 = locked s - {win_abs u} \<and> winUnlocker_Close A u1 s' = (r, u1, s')"
  by (auto simp: winUnlocker_Close_def winUnlocker_close_def Let_def split: prod.splits)

lemma lockWindows_name: "lockWindows A name w = (Inr u, w') \<Longrightarrow> win_abs u = name \<and> \<not> win_once u"
  by (auto simp: lockWindows_def split: prod.splits option.splits nat.splits)

interpretation portable_impl: lock_impl "lockPortable E" "Close E" u_abs "\<lambda>u. \<not> once_done u" for E
  by (rule lock_impl.intro [OF lock_functions_name(1) Close_once])

interpretation fcntl_impl: lock_impl "lockFcntl E" "Close E" u_abs "\<lambda>u. \<not> once_done u" for E
  by (rule lock_impl.intro [OF lock_functions_name(2) Close_once])

interpretation plan9_impl: lock_impl "lockPlan9 E" "Close E" u_abs "\<lambda>u. \<not> once_done u" for E
  by (rule lock_impl.intro [OF lock_functions_name(3) Close_once])

interpretation windows_impl: lock_impl "lockWindows A" "winUnlocker_Close A" win_abs "\<lambda>u. \<not> win_once u" for A
  by (rule lock_impl.intro [OF lockWindows_name winUnlocker_Close_once])

text \<open>
  After a successful \<open>Lock\<close>, whatever the implementation, the process is refused the same file under any name for it, with nothing
  changed; \<open>Close\<close> takes back exactly this lock of the process, and closing again gives the same answer and does nothing.
\<close>

theorem Lock_in_process:
  assumes "lockFn \<in> {lockPortable E, lockFcntl E, lockPlan9 E}" "Lock lockFn wdir name s = (Inr u, s1)"
  shows "\<exists>a. Abs_path wdir name = Some a \<and> u_abs u = a \<and>
    (\<forall>name'. Abs_path wdir name' = Some a \<longrightarrow> Lock lockFn wdir name' s1 = (Inl (AlreadyLocked a), s1)) \<and>
    (\<exists>r u1 s2. Close E u s1 = (r, u1, s2) \<and> locked s2 = locked s \<and> (\<forall>x. Close E u1 x = (r, u1, x)))"
proof -
  consider "lockFn = lockPortable E" | "lockFn = lockFcntl E" | "lockFn = lockPlan9 E" using assms(1) by blast
  then show ?thesis
  proof cases
    case 1
    show ?thesis unfolding 1 by (rule portable_impl.in_process [OF assms(2) [unfolded 1]])
  next
    case 2
    show ?thesis unfolding 2 by (rule fcntl_impl.in_process [OF assms(2) [unfolded 2]])
  next
    case 3
    show ?thesis unfolding 3 by (rule plan9_impl.in_process [OF assms(2) [unfolded 3]])
  qed
qed

theorem Lock_in_process_windows:
  assumes "Lock (lockWindows A) wdir name s = (Inr u, s1)"
  shows "\<exists>a. Abs_path wdir name = Some a \<and> win_abs u = a \<and>
    (\<forall>name'. Abs_path wdir name' = Some a \<longrightarrow> Lock (lockWindows A) wdir name' s1 = (Inl (AlreadyLocked a), s1)) \<and>
    (\<exists>r u1 s2. winUnlocker_Close A u s1 = (r, u1, s2) \<and> locked s2 = locked s \<and> (\<forall>x. winUnlocker_Close A u1 x = (r, u1, x)))"
  by (rule windows_impl.in_process [OF assms])

text \<open>
  While a process that has taken the portable lock is alive, no process can take it (all see the same files and the coding of the
  owner can be read back), and the disk stays as it is; once it has been closed, the name is free and another process gets it. A
  lock whose owner is dead is taken over.
\<close>

theorem portable_exclusive:
  assumes "lockPortable E name d = (Inr u, d1)" "Getpid E \<noteq> 0"
    and "decode_meta E' (encode_meta E (Getpid E)) = Some (Getpid E)" "encode_meta E (Getpid E) \<noteq> []" "can_stat E' name" "can_open E' name"
  shows "(FindProcess E' (Getpid E) \<and> (\<forall>f. signalZero E' = Some f \<longrightarrow> f (Getpid E)) \<longrightarrow> lockPortable E' name d1 = (Inl (AlreadyLocked name), d1)) \<and>
    ((\<exists>f. signalZero E' = Some f \<and> \<not> f (Getpid E)) \<and> remove_ok E' name \<and> can_create E' name \<and> write_ok E' name \<longrightarrow>
       (\<exists>u' d2. lockPortable E' name d1 = (Inr u', d2))) \<and>
    (remove_ok E name \<and> can_create E' name \<and> write_ok E' name \<and> the_disk s = d1 \<longrightarrow>
       (\<exists>r u1 s2. Close E u s = (r, u1, s2) \<and> names (the_disk s2) name = None \<and> (\<exists>u' d2. lockPortable E' name (the_disk s2) = (Inr u', d2))))"
proof -
  obtain d0 where d0: "portable_create E name d0 = (Inr u, d1)" using lockPortable_Inr [OF assms(1)] by blast
  note p = portable_create_Inr [OF d0]
  obtain m where size: "file_size E' name d1 = Some (Suc m)"
    using assms(4,5) p(3,4) by (cases "encode_meta E (Getpid E)") (auto simp: file_size_def)
  have gets: "\<exists>u' d2. portable_create E' name dx = (Inr u', d2)" if "names dx name = None" "can_create E' name" "write_ok E' name" for dx
    using that by (simp add: portable_create_def Let_def)
  have "portableLockStatus E' name d1 = (if \<not> FindProcess E' (Getpid E) then statusStale
      else (case signalZero E' of Some f \<Rightarrow> if f (Getpid E) then statusLocked else statusStale | None \<Rightarrow> statusLocked))"
    using assms(2,3,6) p(3,4) by (simp add: portableLockStatus_def)
  then have st: "FindProcess E' (Getpid E) \<and> (\<forall>f. signalZero E' = Some f \<longrightarrow> f (Getpid E)) \<Longrightarrow> portableLockStatus E' name d1 = statusLocked"
    "\<exists>f. signalZero E' = Some f \<and> \<not> f (Getpid E) \<Longrightarrow> portableLockStatus E' name d1 = statusStale"
    by (auto split: option.split)
  have closed: "\<exists>r u1 s2. Close E u s = (r, u1, s2) \<and> the_disk s2 = Remove E name (the_disk s)"
    using p(2) by (simp add: Close_def unlocker_close_def Let_def)
  have free: "\<exists>u' d2. lockPortable E' name dx = (Inr u', d2)" if "names dx name = None" "can_create E' name" "write_ok E' name" for dx
    using gets [OF that] that(1) by (simp add: lockPortable_def file_size_def)
  have first: "FindProcess E' (Getpid E) \<and> (\<forall>f. signalZero E' = Some f \<longrightarrow> f (Getpid E)) \<longrightarrow> lockPortable E' name d1 = (Inl (AlreadyLocked name), d1)"
    using size st(1) by (auto simp: lockPortable_def)
  have "(\<exists>f. signalZero E' = Some f \<and> \<not> f (Getpid E)) \<and> remove_ok E' name \<and> can_create E' name \<and> write_ok E' name \<longrightarrow>
       (\<exists>u' d2. lockPortable E' name d1 = (Inr u', d2))"
    using size st(2) gets [of "Remove E' name d1"] by (auto simp: lockPortable_def Remove_def)
  with first closed free show ?thesis by (fastforce simp: Remove_def)
qed

text \<open>Systems on which everything succeeds, in which a process has the given number; its coding is one byte.\<close>

definition sample_env :: "int \<Rightarrow> lock_env" where
  "sample_env p = \<lparr>wd = Some [47], can_stat = (\<lambda>_. True), can_open = (\<lambda>_. True), can_create = (\<lambda>_. True), write_ok = (\<lambda>_. True),
     close_ok = (\<lambda>_. True), remove_ok = (\<lambda>_. True), fcntl_ok = (\<lambda>_. True), FindProcess = (\<lambda>_. True), signalZero = Some (\<lambda>_. True),
     Getpid = p, encode_meta = (\<lambda>p. [word_of_int p]), decode_meta = (\<lambda>c. if c = [] then None else Some (uint (hd c)))\<rparr>"

definition empty_disk :: disk where
  "empty_disk = \<lparr>names = (\<lambda>_. None), contents = (\<lambda>_. []), next_inode = 0\<rparr>"

lemma sample_locks: "\<exists>u d. lockPortable (sample_env p) name empty_disk = (Inr u, d)"
  by (simp add: lockPortable_def file_size_def empty_disk_def portable_create_def Let_def sample_env_def)

theorem Lock_in_process_witness:
  "\<exists>u s1. Lock (lockPortable (sample_env 7)) (wd (sample_env 7)) [97] \<lparr>locked = {}, the_disk = empty_disk\<rparr> = (Inr u, s1) \<and>
     Lock (lockPortable (sample_env 7)) (wd (sample_env 7)) [46, 47, 97] s1 = (Inl (AlreadyLocked [47, 97]), s1)"
proof -
  have a: "Abs_path (wd (sample_env 7)) [97] = Some [47, 97]" "Abs_path (wd (sample_env 7)) [46, 47, 97] = Some [47, 97]"
    by (simp_all add: sample_env_def Abs_path_def IsAbs_def Join_def slash_def Clean_def clean_step_def dot_def dotdot_def)
  obtain u s1 where l: "Lock (lockPortable (sample_env 7)) (wd (sample_env 7)) [97] \<lparr>locked = {}, the_disk = empty_disk\<rparr> = (Inr u, s1)"
    using a(1) sample_locks [of 7 "[47, 97]"] by (auto simp: Lock_def)
  then show ?thesis using Lock_in_process [of "lockPortable (sample_env 7)" "sample_env 7" "wd (sample_env 7)" "[97]" _ u s1] a by auto
qed

theorem portable_exclusive_witness:
  "\<exists>u d. lockPortable (sample_env 7) [97] empty_disk = (Inr u, d) \<and> lockPortable (sample_env 8) [97] d = (Inl (AlreadyLocked [97]), d)"
proof -
  obtain u d where l: "lockPortable (sample_env 7) [97] empty_disk = (Inr u, d)"
    using sample_locks by blast
  then show ?thesis using portable_exclusive [OF l, of "sample_env 8"] by (simp add: sample_env_def)
qed

text \<open>
  The portable lock refuses a file that exists and is empty, although the description of \<open>Lock\<close> asks for exactly that of a
  file that exists; the lock of Unix takes it. So an empty file left behind by a failed write of the owner, which neither closes nor removes
  it, keeps everybody out.
\<close>

theorem portable_empty_file:
  assumes "names d name = Some n" "contents d n = []"
  shows "lockPortable E name d = (Inl (CreateFailed name), d) \<and>
    (can_create E name \<and> fcntl_ok E name \<longrightarrow> (\<exists>u d1. lockFcntl E name d = (Inr u, d1))) \<and>
    (names d0 name = None \<and> can_create E' name \<and> \<not> write_ok E' name \<longrightarrow>
       (\<exists>d1 m. lockPortable E' name d0 = (Inl WriteFailed, d1) \<and> names d1 name = Some m \<and> contents d1 m = []))"
proof -
  have size: "file_size E name d = (if can_stat E name then Some 0 else None)" using assms by (simp add: file_size_def)
  have "lockPortable E name d = (Inl (CreateFailed name), d)"
    using assms(1) by (simp add: lockPortable_def size portable_create_def)
  moreover have "can_create E name \<and> fcntl_ok E name \<longrightarrow> (\<exists>u d1. lockFcntl E name d = (Inr u, d1))"
    using assms(1) by (simp add: lockFcntl_def size Let_def)
  moreover have "names d0 name = None \<and> can_create E' name \<and> \<not> write_ok E' name \<longrightarrow>
       (\<exists>d1 m. lockPortable E' name d0 = (Inl WriteFailed, d1) \<and> names d1 name = Some m \<and> contents d1 m = [])"
    by (auto simp: lockPortable_def file_size_def portable_create_def create_file_def Let_def)
  ultimately show ?thesis by blast
qed

theorem portable_empty_file_witness:
  "lockPortable (sample_env 7) [97] (empty_disk\<lparr>names := [[97] \<mapsto> 0]\<rparr>) = (Inl (CreateFailed [97]), empty_disk\<lparr>names := [[97] \<mapsto> 0]\<rparr>)"
  using portable_empty_file [of "empty_disk\<lparr>names := [[97] \<mapsto> 0]\<rparr>" "[97]" 0] by (simp add: empty_disk_def)

section \<open>Processes at the same time\<close>

text \<open>
  \<open>lockPortable\<close> cut at its calls of the system, which is where the steps of other processes come between: after
  \<open>os.Stat\<close>, found nonempty; before \<open>os.Remove\<close> of a stale file; before the exclusive creation; before the number of the
  owner is written to the file created; and holding the lock, until \<open>Close\<close>. Processes have different numbers.
\<close>

datatype lock_pc = LIdle | LStatus | LStale | LCreate | LWrite nat | LHeld nat | LDead

text \<open>The file under the name, the owner in each file (\<open>None\<close> if it is empty), and the processes.\<close>

record lock_world =
  lw_file :: "nat option"
  lw_owner :: "nat \<Rightarrow> nat option"
  lw_next :: nat
  lpc :: "nat \<Rightarrow> lock_pc"

definition lock_init :: lock_world where
  "lock_init = \<lparr>lw_file = None, lw_owner = (\<lambda>_. None), lw_next = 0, lpc = (\<lambda>_. LIdle)\<rparr>"

definition at_lock :: "nat \<Rightarrow> lock_pc \<Rightarrow> lock_world \<Rightarrow> lock_world" where
  "at_lock p c w = w\<lparr>lpc := (lpc w)(p := c)\<rparr>"

text \<open>The next step of a process; a refusal leads back to the start.\<close>

definition lock_next :: "nat \<Rightarrow> lock_world \<Rightarrow> lock_world option" where
  "lock_next p w = (case lpc w p of
     LIdle \<Rightarrow> Some (at_lock p (case lw_file w of None \<Rightarrow> LCreate | Some n \<Rightarrow> if lw_owner w n = None then LCreate else LStatus) w)
   | LStatus \<Rightarrow> Some (at_lock p (case lw_file w of
         None \<Rightarrow> LCreate
       | Some n \<Rightarrow> (case lw_owner w n of None \<Rightarrow> LIdle | Some q \<Rightarrow> if lpc w q = LDead then LStale else LIdle)) w)
   | LStale \<Rightarrow> Some (at_lock p LCreate w\<lparr>lw_file := None\<rparr>)
   | LCreate \<Rightarrow> Some (case lw_file w of
         None \<Rightarrow> at_lock p (LWrite (lw_next w)) w\<lparr>lw_file := Some (lw_next w), lw_owner := (lw_owner w)(lw_next w := None), lw_next := lw_next w + 1\<rparr>
       | Some _ \<Rightarrow> at_lock p LIdle w)
   | LWrite n \<Rightarrow> Some (at_lock p (LHeld n) w\<lparr>lw_owner := (lw_owner w)(n := Some p)\<rparr>)
   | LHeld n \<Rightarrow> Some (at_lock p LIdle w\<lparr>lw_file := None\<rparr>)
   | LDead \<Rightarrow> None)"

inductive lock_step :: "lock_world \<Rightarrow> lock_world \<Rightarrow> bool" where
  l_next: "lock_next p w = Some w' \<Longrightarrow> lock_step w w'"

inductive crash_step :: "lock_world \<Rightarrow> lock_world \<Rightarrow> bool" where
  c_next: "lock_next p w = Some w' \<Longrightarrow> crash_step w w'"
| c_crash: "crash_step w (at_lock p LDead w)"

primrec in_possession :: "lock_pc \<Rightarrow> nat option" where
  "in_possession LIdle = None"
| "in_possession LStatus = None"
| "in_possession LStale = None"
| "in_possession LCreate = None"
| "in_possession (LWrite n) = Some n"
| "in_possession (LHeld n) = Some n"
| "in_possession LDead = None"

definition lock_inv :: "lock_world \<Rightarrow> bool" where
  "lock_inv w \<longleftrightarrow> (\<forall>p. lpc w p \<noteq> LDead \<and> lpc w p \<noteq> LStale) \<and> (\<forall>p n. in_possession (lpc w p) = Some n \<longrightarrow> lw_file w = Some n) \<and>
     (\<forall>p q. in_possession (lpc w p) \<noteq> None \<and> in_possession (lpc w q) \<noteq> None \<longrightarrow> p = q)"

lemma lock_inv_step:
  assumes "lock_inv w" "lock_step w w'"
  shows "lock_inv w'"
  using assms(2,1)
proof cases
  case (l_next p)
  have inv: "lpc w q \<noteq> LDead" "lpc w q \<noteq> LStale" "in_possession (lpc w q) = Some n \<Longrightarrow> lw_file w = Some n"
    "in_possession (lpc w q) \<noteq> None \<Longrightarrow> in_possession (lpc w r) \<noteq> None \<Longrightarrow> q = r" for q r n
    using assms(1) unfolding lock_inv_def by blast+
  have none: "in_possession (lpc w q) = None" if "lw_file w = None" for q using inv(3) [of q] that by (cases "in_possession (lpc w q)") auto
  show ?thesis
  proof (cases "lpc w p")
    case (LHeld n)
    then have others: "in_possession (lpc w q) = None" if "q \<noteq> p" for q
      using inv(4) [of q p] that by (cases "in_possession (lpc w q)") auto
    show ?thesis using l_next LHeld inv(1,2) others by (auto simp: lock_next_def lock_inv_def at_lock_def split: if_splits)
  next
    case (LWrite n)
    then show ?thesis using l_next inv inv(3) [of p n] inv(4) [of p]
      by (auto simp: lock_next_def lock_inv_def at_lock_def split: if_splits)
  next
    case LCreate
    then show ?thesis using l_next inv none by (auto simp: lock_next_def lock_inv_def at_lock_def split: if_splits option.splits)
  qed (use l_next inv in \<open>auto simp: lock_next_def lock_inv_def at_lock_def split: if_splits option.splits\<close>)
qed

interpretation portable_lock: invariant lock_init lock_step lock_inv
  by unfold_locales (simp add: lock_inv_def lock_init_def, rule lock_inv_step)

text \<open>Processes that take their next steps in the order given.\<close>

primrec schedule :: "nat list \<Rightarrow> lock_world \<Rightarrow> lock_world option" where
  "schedule [] w = Some w"
| "schedule (p # ps) w = do { w \<leftarrow> lock_next p w; schedule ps w }"

lemma schedule_steps: "schedule ps w = Some w' \<Longrightarrow> reachable w lock_step w'"
  by (induction ps arbitrary: w) (auto intro: start reachable_trans [OF _ reachable_step] l_next split: bind_splits)

lemma schedule_crash_steps: "schedule ps w = Some w' \<Longrightarrow> reachable w crash_step w'"
  by (induction ps arbitrary: w) (auto intro: start reachable_trans [OF _ reachable_step] c_next split: bind_splits)

text \<open>
  C27: As long as no process dies, at most one process at a time holds the portable lock or is writing its number to the lock file, for every
  interleaving of the processes, and the lock file is the one it created.
\<close>

theorem portable_mutual_exclusion:
  assumes "reachable lock_init lock_step w" "lpc w p = LHeld n" "lpc w q = LHeld m"
  shows "p = q \<and> n = m \<and> lw_file w = Some n"
proof -
  have "lock_inv w" by (rule portable_lock.always [OF assms(1)])
  then have "p = q" "lw_file w = Some n" unfolding lock_inv_def using assms(2,3) by (metis in_possession.simps(6) option.distinct(1))+
  then show ?thesis using assms(2,3) by simp
qed

theorem portable_mutual_exclusion_witness:
  "\<exists>w. schedule [0, 1, 0, 1, 0, 1] lock_init = Some w \<and> lpc w 0 = LHeld 0 \<and> lw_file w = Some 0 \<and> (\<forall>q m. lpc w q = LHeld m \<longrightarrow> q = 0)"
proof -
  obtain w where w: "schedule [0, 1, 0, 1, 0, 1] lock_init = Some w" "lpc w 0 = LHeld 0"
    by (simp add: lock_next_def lock_init_def at_lock_def)
  note x = portable_mutual_exclusion [OF schedule_steps [OF w(1)] w(2)]
  have "lw_file w = Some 0" using x [OF w(2)] by simp
  moreover have "q = 0" if "lpc w q = LHeld m" for q m using x [OF that] by simp
  ultimately show ?thesis using w by blast
qed

text \<open>
  If a process dies with the lock, two others can take it over at the same time: both find the lock stale, the first removes the file and
  creates its own, and the second removes that one. Both then hold the lock.
\<close>

theorem portable_stale_race:
  "\<exists>w n m. reachable lock_init crash_step w \<and> lpc w 1 = LHeld n \<and> lpc w 2 = LHeld m"
proof -
  obtain w where w: "schedule [0, 0, 0] lock_init = Some w" "w = lock_init\<lparr>lw_file := Some 0, lw_owner := (\<lambda>_. None)(0 := Some 0), lw_next := 1, lpc := (\<lambda>_. LIdle)(0 := LHeld 0)\<rparr>"
    by (simp add: lock_next_def lock_init_def at_lock_def)
  have c: "reachable lock_init crash_step (at_lock 0 LDead w)"
    by (rule next_state [OF schedule_crash_steps [OF w(1)] c_crash])
  obtain w' where w': "schedule [1, 1, 2, 2, 1, 1, 1, 2, 2, 2] (at_lock 0 LDead w) = Some w'" "lpc w' 1 = LHeld 1" "lpc w' 2 = LHeld 2"
    using w(2) by (simp add: lock_next_def lock_init_def at_lock_def)
  then show ?thesis using reachable_trans [OF schedule_crash_steps [OF w'(1)] c] by blast
qed

end
