(* ===== verification/Small_Packages.thy ===== *)
theory Small_Packages
  imports Go4_Prelude
begin

text \<open>
  Packages of a few lines: \<open>errorutil\<close> (the place of an error in a text), \<open>fault\<close>, \<open>must\<close>, \<open>legal\<close> and \<open>ctxutil\<close>. A panic is \<open>None\<close>.
\<close>

section \<open>\<open>errorutil\<close>\<close>

text \<open>Decimal digits, and the verb \<open>%5d\<close>.\<close>

fun decimal :: "nat \<Rightarrow> bytes" where
  "decimal n = (if n < 10 then [of_nat (48 + n)] else decimal (n div 10) @ [of_nat (48 + n mod 10)])"

declare decimal.simps [simp del]

definition pad5 :: "nat \<Rightarrow> bytes" where
  "pad5 n = (let d = decimal n in replicate (5 - length d) 32 @ d)"

record highlight_state =
  h_line :: nat
  h_col :: nat
  lastLine :: bytes
  thisLine :: bytes

definition highlight_start :: highlight_state where
  "highlight_start = \<lparr>h_line = 1, h_col = 0, lastLine = [], thisLine = []\<rparr>"

definition highlight_byte :: "highlight_state \<Rightarrow> byte \<Rightarrow> highlight_state" where
  "highlight_byte h b =
     (if b = 10 then \<lparr>h_line = h_line h + 1, h_col = 1, lastLine = thisLine h, thisLine = []\<rparr>
      else h\<lparr>h_col := h_col h + 1, thisLine := thisLine h @ [b]\<rparr>)"

text \<open>The loop: up to \<open>pos\<close> bytes, or to the end of the text.\<close>

fun highlight_loop :: "bytes \<Rightarrow> int \<Rightarrow> int \<Rightarrow> highlight_state \<Rightarrow> highlight_state" where
  "highlight_loop [] n pos h = h"
| "highlight_loop (b # f) n pos h = (if n < pos then highlight_loop f (n + 1) pos (highlight_byte h b) else h)"

definition HighlightBytePosition :: "bytes \<Rightarrow> int \<Rightarrow> nat \<times> nat \<times> bytes" where
  "HighlightBytePosition f pos =
     (let h = highlight_loop f 0 pos highlight_start in
      (h_line h, h_col h,
       (if h_line h > 1 then pad5 (h_line h - 1) @ [58, 32] @ lastLine h @ [10] else []) @
       pad5 (h_line h) @ [58, 32] @ thisLine h @ [10] @ replicate (h_col h + 5) 32 @ [94, 10]))"

text \<open>The lines of a text.\<close>

fun lines :: "bytes \<Rightarrow> bytes list" where
  "lines [] = [[]]"
| "lines (b # f) = (if b = 10 then [] # lines f else (b # hd (lines f)) # tl (lines f))"

lemma lines_nonempty [simp]: "lines f \<noteq> []"
  by (cases f) simp_all

lemma lines_snoc: "lines (f @ [b]) = (if b = 10 then lines f @ [[]] else butlast (lines f) @ [last (lines f) @ [b]])"
proof (induction f)
  case (Cons c f)
  obtain x xs where x: "lines f = x # xs" by (cases "lines f") auto
  then show ?case using Cons by (cases xs rule: rev_cases) (auto simp: butlast_append)
qed simp

lemma highlight_loop_foldl: "highlight_loop f n pos h = foldl highlight_byte h (take (nat (pos - n)) f)"
proof (induction f arbitrary: n h)
  case (Cons b f)
  show ?case
  proof (cases "n < pos")
    case True
    then have "nat (pos - n) = Suc (nat (pos - (n + 1)))" by simp
    then show ?thesis using Cons True by simp
  qed simp
qed simp

lemma highlight_lines:
  "foldl highlight_byte highlight_start t =
     \<lparr>h_line = length (lines t), h_col = length (last (lines t)) + (if length (lines t) > 1 then 1 else 0),
      lastLine = (if length (lines t) > 1 then last (butlast (lines t)) else []), thisLine = last (lines t)\<rparr>"
proof (induction t rule: rev_induct)
  case (snoc b t)
  show ?case using snoc by (cases "lines t" rule: rev_cases) (auto simp: lines_snoc highlight_byte_def butlast_append)
qed (simp add: highlight_start_def)

text \<open>
  \<open>HighlightBytePosition\<close> gives the number of the line at which the first \<open>pos\<close> bytes end (all of the text if it is shorter, none if
  \<open>pos\<close> is negative), and shows what those bytes have of this line, and before it the whole line above. The column is the number of bytes of
  the line on the first line, but one more on every other line, and the marker follows the column.
\<close>

theorem HighlightBytePosition_lines:
  "HighlightBytePosition f pos =
     (let ls = lines (take (nat pos) f); col = length (last ls) + (if length ls > 1 then 1 else 0) in
      (length ls, col,
       (if length ls > 1 then pad5 (length ls - 1) @ [58, 32] @ last (butlast ls) @ [10] else []) @
       pad5 (length ls) @ [58, 32] @ last ls @ [10] @ replicate (col + 5) 32 @ [94, 10]))"
  by (simp add: HighlightBytePosition_def highlight_loop_foldl highlight_lines Let_def)

section \<open>\<open>fault\<close>\<close>

record Injector =
  failPercent :: int

text \<open>
  The value of \<open>strconv.Atoi\<close>, without its error: zero for a text that is no number, and the nearest integer of 64 bits for a number
  out of range.
\<close>

fun digits_value :: "int \<Rightarrow> bytes \<Rightarrow> int option" where
  "digits_value acc [] = Some acc"
| "digits_value acc (c # s) = (if 48 \<le> c \<and> c \<le> 57 then digits_value (10 * acc + (uint c - 48)) s else None)"

definition Atoi_value :: "bytes \<Rightarrow> int" where
  "Atoi_value s =
     (let (neg, t) = (case s of c # r \<Rightarrow> if c = 45 then (True, r) else if c = 43 then (False, r) else (False, s) | [] \<Rightarrow> (False, s)) in
      if t = [] then 0
      else (case digits_value 0 t of
        None \<Rightarrow> 0
      | Some n \<Rightarrow> if neg then max (- (2 ^ 63)) (- n) else min (2 ^ 63 - 1) n))"

text \<open>\<open>strings.ToUpper\<close> on ASCII text.\<close>

definition ToUpper_ascii :: "bytes \<Rightarrow> bytes" where
  "ToUpper_ascii = map (\<lambda>c. if 97 \<le> c \<and> c \<le> 122 then c - 32 else c)"

definition NewInjector :: "(bytes \<Rightarrow> bytes) \<Rightarrow> bytes \<Rightarrow> Injector" where
  "NewInjector Getenv name = \<lparr>failPercent = Atoi_value (Getenv (ascii ''FAULT_'' @ ToUpper_ascii name @ ascii ''_FAIL_PERCENT''))\<rparr>"

text \<open>The random number below 100 is a parameter.\<close>

definition ShouldFail :: "Injector \<Rightarrow> int \<Rightarrow> bool" where
  "ShouldFail injector r \<longleftrightarrow> failPercent injector > 0 \<and> failPercent injector > r"

definition FailErr :: "Injector \<Rightarrow> int \<Rightarrow> string option \<Rightarrow> bool \<times> string option" where
  "FailErr injector r err = (if \<not> ShouldFail injector r then (False, err) else (True, Some ''fake injected error for testing''))"

lemma FailErr_percentage:
  "0 \<le> p \<Longrightarrow> p \<le> 100 \<Longrightarrow> card {r. 0 \<le> r \<and> r < 100 \<and> fst (FailErr \<lparr>failPercent = p\<rparr> r err)} = nat p"
proof -
  assume "0 \<le> p" "p \<le> 100"
  then have "{r. 0 \<le> r \<and> r < 100 \<and> fst (FailErr \<lparr>failPercent = p\<rparr> r err)} = {0..<p}"
    by (auto simp: FailErr_def ShouldFail_def)
  then show ?thesis by simp
qed

section \<open>\<open>must\<close>, \<open>legal\<close>, \<open>ctxutil\<close>\<close>

definition must_Close :: "('w \<Rightarrow> 'e option \<times> 'w) \<Rightarrow> 'w \<Rightarrow> 'w option" where
  "must_Close c w = (case c w of (None, w) \<Rightarrow> Some w | (Some err, w) \<Rightarrow> None)"

definition must_Do :: "('w \<Rightarrow> 'e option \<times> 'w) \<Rightarrow> 'w \<Rightarrow> 'w option" where
  "must_Do fn w = (case fn w of (None, w) \<Rightarrow> Some w | (Some err, w) \<Rightarrow> None)"

definition RegisterLicense :: "bytes \<Rightarrow> bytes list \<Rightarrow> bytes list" where
  "RegisterLicense t licenses = licenses @ [t]"

definition Licenses :: "bytes list \<Rightarrow> bytes list" where
  "Licenses licenses = licenses"

text \<open>A context is the value it has for \<open>HTTPClient\<close>, if any, or \<open>nil\<close>; the value may be of another type.\<close>

definition Client :: "'c \<Rightarrow> (('c + 'v) option) option \<Rightarrow> 'c" where
  "Client DefaultClient ctx = (case ctx of Some (Some (Inl hc)) \<Rightarrow> hc | _ \<Rightarrow> DefaultClient)"

lemma Licenses_registered: "Licenses (foldl (\<lambda>ls t. RegisterLicense t ls) [] ts) = ts"
proof -
  have "foldl (\<lambda>ls t. RegisterLicense t ls) xs ts = xs @ ts" for xs
    by (induction ts arbitrary: xs) (simp_all add: RegisterLicense_def)
  then show ?thesis by (simp add: Licenses_def)
qed

end
