(* ===== verification/Syncdebug.thy ===== *)
theory Syncdebug
  imports Strutil Small_Packages Transitions
begin

text \<open>
  The package \<open>syncutil/syncdebug\<close>: the number of a goroutine, read from its stack trace, and a read-write lock that counts who waits for it and who has
  it. Logging has no effect on the lock and is left out; the text of the stack is a parameter.
\<close>

section \<open>Goroutine numbers\<close>

definition goroutineSpace :: bytes where
  "goroutineSpace = ascii ''goroutine ''"

text \<open>\<open>None\<close> is a panic; \<open>b\<close> is what \<open>runtime.Stack\<close> wrote.\<close>

definition GoroutineID :: "bytes \<Rightarrow> int option" where
  "GoroutineID b =
     (let b = (if take (length goroutineSpace) b = goroutineSpace then drop (length goroutineSpace) b else b) in
      if 32 \<notin> set b then None
      else case ParseUintBytes (takeWhile (\<lambda>c. c \<noteq> 32) b) 10 64 of
        (n, None) \<Rightarrow> Some (sint n)
      | (n, Some err) \<Rightarrow> None)"

lemma decimal_digits:
  "decimal n \<noteq> [] \<and> (\<forall>d \<in> set (decimal n). is_digit 10 d \<and> d \<noteq> 32) \<and> horner 10 0 (decimal n) = n"
proof (induction n rule: decimal.induct)
  case (1 n)
  have d: "is_digit 10 (of_nat (48 + m)) \<and> (of_nat (48 + m) :: byte) \<noteq> 32 \<and> digit (of_nat (48 + m)) = Some m" if "m < 10" for m
  proof -
    have "m \<in> {0, 1, 2, 3, 4, 5, 6, 7, 8, 9}" using that by auto
    then show ?thesis by (elim insertE emptyE) (simp_all add: is_digit_def digit_def digit_value_def)
  qed
  show ?case
  proof (cases "n < 10")
    case True
    then have "decimal n = [of_nat (48 + n)]" by (simp add: decimal.simps)
    then show ?thesis using d [OF True] by simp
  next
    case False
    have "decimal n = decimal (n div 10) @ [of_nat (48 + n mod 10)]" using False by (simp add: decimal.simps)
    then show ?thesis using 1 [OF False] d [of "n mod 10"] by (simp add: horner_def)
  qed
qed

text \<open>
  From a stack trace that begins with \<open>goroutine\<close> and a number, followed by a space, \<open>GoroutineID\<close> reads this number, for all numbers
  below $2^{63}$; a text without a space makes it panic.
\<close>

theorem GoroutineID_reads:
  "(n < 2 ^ 63 \<longrightarrow> GoroutineID (goroutineSpace @ decimal n @ 32 # rest) = Some (int n)) \<and> (32 \<notin> set b \<longrightarrow> GoroutineID b = None)"
proof (intro conjI impI)
  assume n: "n < 2 ^ 63"
  have "ParseUintBytes (decimal n) 10 64 = (of_nat n, None)"
    using ParseUintBytes_correct_parts(1) [of 64 64 10 "decimal n"] decimal_digits [of n] n by simp
  moreover have "takeWhile (\<lambda>c. c \<noteq> 32) (decimal n @ 32 # rest) = decimal n"
    using decimal_digits [of n] by (simp add: takeWhile_append2)
  moreover have "sint (of_nat n :: 64 word) = int n" using n by (simp add: signed_of_nat signed_take_bit_int_eq_self)
  ultimately show "GoroutineID (goroutineSpace @ decimal n @ 32 # rest) = Some (int n)" by (simp add: GoroutineID_def)
next
  assume b: "32 \<notin> set b"
  have "32 \<notin> set (drop k b)" for k using b by (meson in_set_dropD)
  then show "GoroutineID b = None" using b by (simp add: GoroutineID_def Let_def)
qed

theorem GoroutineID_reads_witness: "GoroutineID (goroutineSpace @ decimal 4707 @ 32 # [91]) = Some 4707"
  using GoroutineID_reads [of 4707 "[91]" "[]"] by simp

section \<open>The lock\<close>

text \<open>
  The points of \<open>Lock\<close> and \<open>Unlock\<close>, and of \<open>RLock\<close> and \<open>RUnlock\<close>, between their effects: counted as waiting; lock acquired; no longer counted
  as waiting; counted as having it; recorded as holder; and the same backwards. \<open>TFatal\<close> is \<open>log.Fatalf\<close>.
\<close>

datatype track_pc =
  TIdle | TWaitW | TGotW | TLeftW | THaveW | TWriting | TNoHolder | TReleaseW
| TWaitR | TGotR | TLeftR | THaveR | TReading | TUncounted | TReleaseR | TFatal

text \<open>The lock \<open>mu\<close> with the goroutines that have it, the counters and the holders recorded.\<close>

record RWMutexTracker =
  mu_writer :: "nat option"
  mu_readers :: "nat set"
  nwaitr :: int
  nwaitw :: int
  nhaver :: int
  nhavew :: int
  holder :: "nat option"
  holdr :: "nat set"
  tpc :: "nat \<Rightarrow> track_pc"

definition track_init :: RWMutexTracker where
  "track_init = \<lparr>mu_writer = None, mu_readers = {}, nwaitr = 0, nwaitw = 0, nhaver = 0, nhavew = 0, holder = None, holdr = {}, tpc = (\<lambda>_. TIdle)\<rparr>"

definition at_track :: "nat \<Rightarrow> track_pc \<Rightarrow> RWMutexTracker \<Rightarrow> RWMutexTracker" where
  "at_track i p m = m\<lparr>tpc := (tpc m)(i := p)\<rparr>"

text \<open>The next step of a goroutine, \<open>None\<close> if it is blocked; an idle one locks for writing or for reading.\<close>

definition track_next :: "nat \<Rightarrow> bool \<Rightarrow> RWMutexTracker \<Rightarrow> RWMutexTracker option" where
  "track_next i exclusive m = (case tpc m i of
     TIdle \<Rightarrow> if exclusive then Some (at_track i TWaitW m\<lparr>nwaitw := nwaitw m + 1\<rparr>) else Some (at_track i TWaitR m\<lparr>nwaitr := nwaitr m + 1\<rparr>)
   | TWaitW \<Rightarrow> if mu_writer m = None \<and> mu_readers m = {} then Some (at_track i TGotW m\<lparr>mu_writer := Some i\<rparr>) else None
   | TGotW \<Rightarrow> Some (at_track i TLeftW m\<lparr>nwaitw := nwaitw m - 1\<rparr>)
   | TLeftW \<Rightarrow> Some (at_track i THaveW m\<lparr>nhavew := nhavew m + 1\<rparr>)
   | THaveW \<Rightarrow> Some (at_track i TWriting m\<lparr>holder := Some i\<rparr>)
   | TWriting \<Rightarrow> Some (at_track i TNoHolder m\<lparr>holder := None\<rparr>)
   | TNoHolder \<Rightarrow> Some (at_track i TReleaseW m\<lparr>nhavew := nhavew m - 1\<rparr>)
   | TReleaseW \<Rightarrow> Some (at_track i TIdle m\<lparr>mu_writer := None\<rparr>)
   | TWaitR \<Rightarrow> if mu_writer m = None then Some (at_track i TGotR m\<lparr>mu_readers := insert i (mu_readers m)\<rparr>) else None
   | TGotR \<Rightarrow> Some (at_track i TLeftR m\<lparr>nwaitr := nwaitr m - 1\<rparr>)
   | TLeftR \<Rightarrow> Some (at_track i THaveR m\<lparr>nhaver := nhaver m + 1\<rparr>)
   | THaveR \<Rightarrow> if i \<in> holdr m then Some (at_track i TFatal m) else Some (at_track i TReading m\<lparr>holdr := insert i (holdr m)\<rparr>)
   | TReading \<Rightarrow> Some (at_track i TUncounted m\<lparr>nhaver := nhaver m - 1\<rparr>)
   | TUncounted \<Rightarrow> Some (at_track i TReleaseR m\<lparr>holdr := holdr m - {i}\<rparr>)
   | TReleaseR \<Rightarrow> Some (at_track i TIdle m\<lparr>mu_readers := mu_readers m - {i}\<rparr>)
   | TFatal \<Rightarrow> None)"

definition Holder :: "RWMutexTracker \<Rightarrow> nat option" where
  "Holder m = holder m"

inductive track_step :: "RWMutexTracker \<Rightarrow> RWMutexTracker \<Rightarrow> bool" where
  t_next: "track_next i exclusive m = Some m' \<Longrightarrow> track_step m m'"

text \<open>The goroutines at one of several points.\<close>

definition at_points :: "track_pc set \<Rightarrow> RWMutexTracker \<Rightarrow> nat set" where
  "at_points P m = {i. tpc m i \<in> P}"

definition writing :: "track_pc set" where
  "writing = {TGotW, TLeftW, THaveW, TWriting, TNoHolder, TReleaseW}"

definition reading :: "track_pc set" where
  "reading = {TGotR, TLeftR, THaveR, TReading, TUncounted, TReleaseR}"

definition counts :: "int \<Rightarrow> track_pc set \<Rightarrow> RWMutexTracker \<Rightarrow> bool" where
  "counts n P m \<longleftrightarrow> finite (at_points P m) \<and> n = int (card (at_points P m))"

definition track_inv :: "RWMutexTracker \<Rightarrow> bool" where
  "track_inv m \<longleftrightarrow> counts (nwaitw m) {TWaitW, TGotW} m \<and> counts (nhavew m) {THaveW, TWriting, TNoHolder} m \<and>
     counts (nwaitr m) {TWaitR, TGotR} m \<and> counts (nhaver m) {THaveR, TReading} m \<and>
     (\<forall>i. tpc m i \<in> writing \<longleftrightarrow> mu_writer m = Some i) \<and> mu_readers m = at_points reading m \<and> (mu_writer m \<noteq> None \<longrightarrow> mu_readers m = {}) \<and>
     (\<forall>i. holder m = Some i \<longleftrightarrow> tpc m i = TWriting) \<and> holdr m = at_points {TReading, TUncounted} m \<and> (\<forall>i. tpc m i \<noteq> TFatal)"

lemma counts_move:
  assumes "counts n P m" "tpc m' = (tpc m)(i := p)" "k = n + (if p \<in> P then 1 else 0) - (if tpc m i \<in> P then 1 else 0)"
  shows "counts k P m'"
proof -
  have a: "at_points P m' = (if p \<in> P then insert i (at_points P m) else at_points P m - {i})"
    using assms(2) by (auto simp: at_points_def)
  have i: "i \<in> at_points P m \<longleftrightarrow> tpc m i \<in> P" by (simp add: at_points_def)
  have f: "finite (at_points P m)" "n = int (card (at_points P m))" using assms(1) by (simp_all add: counts_def)
  have d: "int (card (at_points P m)) = int (card (at_points P m - {i})) + 1" if "i \<in> at_points P m"
    using card_Suc_Diff1 [OF f(1) that] by linarith
  have c: "int (card (insert i (at_points P m))) = int (card (at_points P m)) + 1" if "i \<notin> at_points P m"
    using card_insert_disjoint [OF f(1) that] by linarith
  consider "p \<in> P" "i \<in> at_points P m" | "p \<in> P" "i \<notin> at_points P m" | "p \<notin> P" "i \<in> at_points P m" | "p \<notin> P" "i \<notin> at_points P m"
    by blast
  then show ?thesis
  proof cases
    case 1
    then show ?thesis unfolding counts_def a using f assms(3) i by (simp add: insert_absorb)
  next
    case 2
    then have e: "at_points P m' = insert i (at_points P m)" "k = n + 1" using a i assms(3) by simp_all
    show ?thesis unfolding counts_def e using f c [OF 2(2)] by (intro conjI finite.insertI) linarith+
  next
    case 3
    then have e: "at_points P m' = at_points P m - {i}" "k = n - 1" using a i assms(3) by simp_all
    show ?thesis unfolding counts_def e using f d [OF 3(2)] by (intro conjI finite_Diff) linarith+
  next
    case 4
    then show ?thesis unfolding counts_def a using f assms(3) i by simp
  qed
qed

lemma track_inv_move:
  assumes "track_inv m" "tpc m' = (tpc m)(i := p)" "tpc m i = q" "p \<noteq> TFatal"
    and "nwaitw m' = nwaitw m + (if p \<in> {TWaitW, TGotW} then 1 else 0) - (if q \<in> {TWaitW, TGotW} then 1 else 0)"
    and "nhavew m' = nhavew m + (if p \<in> {THaveW, TWriting, TNoHolder} then 1 else 0) - (if q \<in> {THaveW, TWriting, TNoHolder} then 1 else 0)"
    and "nwaitr m' = nwaitr m + (if p \<in> {TWaitR, TGotR} then 1 else 0) - (if q \<in> {TWaitR, TGotR} then 1 else 0)"
    and "nhaver m' = nhaver m + (if p \<in> {THaveR, TReading} then 1 else 0) - (if q \<in> {THaveR, TReading} then 1 else 0)"
    and "mu_writer m' = (if p \<in> writing then Some i else if q \<in> writing then None else mu_writer m)" "q \<in> writing \<or> p \<notin> writing \<or> mu_writer m = None \<and> mu_readers m = {}"
    and "mu_readers m' = (if p \<in> reading then insert i (mu_readers m) else mu_readers m - {i})" "p \<in> reading \<longrightarrow> q \<in> reading \<or> mu_writer m = None"
    and "holder m' = (if p = TWriting then Some i else if q = TWriting then None else holder m)"
    and "holdr m' = (if p \<in> {TReading, TUncounted} then insert i (holdr m) else holdr m - {i})"
  shows "track_inv m'"
proof -
  have inv: "counts (nwaitw m) {TWaitW, TGotW} m" "counts (nhavew m) {THaveW, TWriting, TNoHolder} m" "counts (nwaitr m) {TWaitR, TGotR} m"
    "counts (nhaver m) {THaveR, TReading} m" "\<And>j. tpc m j \<in> writing \<longleftrightarrow> mu_writer m = Some j" "mu_readers m = at_points reading m"
    "mu_writer m \<noteq> None \<longrightarrow> mu_readers m = {}" "\<And>j. holder m = Some j \<longleftrightarrow> tpc m j = TWriting" "holdr m = at_points {TReading, TUncounted} m"
    "\<And>j. tpc m j \<noteq> TFatal"
    using assms(1) unfolding track_inv_def by blast+
  have c: "counts (nwaitw m') {TWaitW, TGotW} m'" "counts (nhavew m') {THaveW, TWriting, TNoHolder} m'" "counts (nwaitr m') {TWaitR, TGotR} m'"
    "counts (nhaver m') {THaveR, TReading} m'"
    by (rule counts_move [OF _ assms(2)], rule inv, simp only: assms(3) assms(5-8))+
  have disj: "p \<in> writing \<Longrightarrow> p \<notin> reading" "q \<in> writing \<Longrightarrow> q \<notin> reading" by (auto simp: writing_def reading_def)
  have w: "tpc m' j \<in> writing \<longleftrightarrow> mu_writer m' = Some j" for j
    using inv(5) [of j] inv(5) [of i] assms(2,3,9,10) by (cases "j = i") auto
  have sets: "mu_readers m' = at_points reading m'" "holdr m' = at_points {TReading, TUncounted} m'"
    using inv(6,9) assms(2,11,14) by (auto simp: at_points_def)
  have ex: "mu_writer m' \<noteq> None \<longrightarrow> mu_readers m' = {}"
    using inv(5) [of i] inv(6,7) assms(3,9-12) disj by (auto simp: at_points_def split: if_splits)
  have h: "holder m' = Some j \<longleftrightarrow> tpc m' j = TWriting" for j
  proof -
    have "TWriting \<in> writing" by (simp add: writing_def)
    then have "tpc m j \<noteq> TWriting" if "p = TWriting" "j \<noteq> i" using inv(5) [of j] inv(5) [of i] assms(3,10) that by auto
    then show ?thesis using inv(8) [of j] inv(8) [of i] assms(2,3,13) by (cases "j = i") auto
  qed
  show ?thesis unfolding track_inv_def using c w sets ex h assms(2,4) inv(10) by auto
qed

lemmas track_defs = track_next_def at_track_def writing_def reading_def

lemma track_inv_step:
  assumes "track_inv m" "track_step m m'"
  shows "track_inv m'"
  using assms(2)
proof cases
  case (t_next i wr)
  have inv: "tpc m i \<in> writing \<longleftrightarrow> mu_writer m = Some i" "mu_readers m = at_points reading m" "holder m = Some i \<longleftrightarrow> tpc m i = TWriting"
    "holdr m = at_points {TReading, TUncounted} m" "tpc m i \<noteq> TFatal"
    using assms(1) unfolding track_inv_def by blast+
  have r: "i \<in> mu_readers m \<longleftrightarrow> tpc m i \<in> reading" "i \<in> holdr m \<longleftrightarrow> tpc m i \<in> {TReading, TUncounted}"
    using inv(2,4) by (simp_all add: at_points_def)
  define p where "p = tpc m' i"
  have t: "tpc m' = (tpc m)(i := p)"
    using t_next by (cases "tpc m i") (auto simp: p_def track_next_def at_track_def split: if_splits)
  show ?thesis
    by (insert t_next inv(1,3,5) r, rule track_inv_move [OF assms(1) t refl]; cases "tpc m i"; auto simp: p_def track_defs split: if_splits)
qed

interpretation tracker: invariant track_init track_step track_inv
proof unfold_locales
  show "track_inv track_init"
    by (simp add: track_inv_def track_init_def counts_def at_points_def writing_def reading_def)
qed (rule track_inv_step)

text \<open>
  C28: For every interleaving of goroutines that lock and unlock in turn: the four counters are the numbers of goroutines that wait for the lock or have it
  (as far as they have said so), at most one has it for writing, and none for reading at the same time; the holder is the one goroutine that is writing, and
  a goroutine that does not lock for reading twice is never reported as doing so.
\<close>

theorem tracker_counts:
  assumes "reachable track_init track_step m"
  shows "nwaitw m = int (card (at_points {TWaitW, TGotW} m)) \<and> nhavew m = int (card (at_points {THaveW, TWriting, TNoHolder} m)) \<and>
    nwaitr m = int (card (at_points {TWaitR, TGotR} m)) \<and> nhaver m = int (card (at_points {THaveR, TReading} m)) \<and>
    nhavew m \<le> 1 \<and> (nhavew m = 1 \<longrightarrow> nhaver m = 0) \<and> (\<forall>i. Holder m = Some i \<longleftrightarrow> tpc m i = TWriting) \<and> (\<forall>i. tpc m i \<noteq> TFatal)"
proof -
  have inv: "track_inv m" by (rule tracker.always [OF assms])
  let ?W = "at_points {THaveW, TWriting, TNoHolder} m" and ?R = "at_points {THaveR, TReading} m"
  have c: "nhavew m = int (card ?W)" "nhaver m = int (card ?R)" using inv by (simp_all add: track_inv_def counts_def)
  have w: "mu_writer m = Some i" if "i \<in> ?W" for i using that inv by (auto simp: track_inv_def at_points_def writing_def)
  have "card ?W \<le> 1"
  proof (cases "?W = {}")
    case False
    then obtain i where "i \<in> ?W" by blast
    then have "?W \<subseteq> {i}" using w by (metis option.inject singletonI subsetI)
    then show ?thesis using card_mono [of "{i}" ?W] by simp
  qed simp
  moreover have "card ?R = 0" if "card ?W = 1"
  proof -
    obtain i where "i \<in> ?W" using \<open>card ?W = 1\<close> by (metis card_1_singletonE insertI1)
    then have "mu_writer m \<noteq> None" using w [of i] by simp
    then have "at_points reading m = {}" using inv unfolding track_inv_def by metis
    then have "?R = {}" by (auto simp: at_points_def reading_def)
    then show ?thesis by simp
  qed
  ultimately show ?thesis using inv c by (auto simp: track_inv_def counts_def Holder_def)
qed

primrec track_run :: "(nat \<times> bool) list \<Rightarrow> RWMutexTracker \<Rightarrow> RWMutexTracker option" where
  "track_run [] m = Some m"
| "track_run (x # xs) m = do { m \<leftarrow> track_next (fst x) (snd x) m; track_run xs m }"

lemma track_run_reachable: "track_run xs m = Some m' \<Longrightarrow> reachable m track_step m'"
  by (induction xs arbitrary: m) (auto intro: start reachable_trans [OF _ reachable_step] t_next split: bind_splits)

theorem tracker_counts_witness:
  "\<exists>m. track_run [(0, True), (1, False), (0, True), (0, True), (0, True), (0, True)] track_init = Some m \<and> nhavew m = 1 \<and> nhaver m = 0 \<and> Holder m = Some 0"
proof -
  obtain m where m: "track_run [(0, True), (1, False), (0, True), (0, True), (0, True), (0, True)] track_init = Some m" "nhavew m = 1" "tpc m 0 = TWriting"
    by (simp add: track_next_def track_init_def at_track_def)
  note t = tracker_counts [OF track_run_reachable [OF m(1)]]
  have "nhaver m = 0" "Holder m = Some 0" using t m(2,3) by blast+
  then show ?thesis using m(1,2) by blast
qed

end
