(* ===== verification/Wkfs.thy ===== *)
theory Wkfs
  imports Go_IO "HOL-Library.Sublist" "HOL-Library.Multiset"
begin

text \<open>
  The package \<open>wkfs\<close>: file systems registered for prefixes of paths. A file system is a record of operations on a world
  \<open>'w\<close>; that of the operating system is one of them. Go iterates over a map in any order, so the order is a parameter.
\<close>

section \<open>Model\<close>

record 'w FileWriter =
  fw_Write :: "bytes \<Rightarrow> 'w \<Rightarrow> (nat \<times> io_error option) \<times> 'w"
  fw_Close :: "'w \<Rightarrow> io_error option \<times> 'w"

record 'w File =
  f_data :: stream
  f_Close :: "'w \<Rightarrow> io_error option \<times> 'w"

record ('w, 'i) FileSystem =
  fs_Open :: "bytes \<Rightarrow> 'w \<Rightarrow> (io_error + 'w File) \<times> 'w"
  fs_OpenFile :: "bytes \<Rightarrow> nat \<Rightarrow> nat \<Rightarrow> 'w \<Rightarrow> (io_error + 'w FileWriter) \<times> 'w"
  fs_Stat :: "bytes \<Rightarrow> 'w \<Rightarrow> (io_error + 'i) \<times> 'w"
  fs_Lstat :: "bytes \<Rightarrow> 'w \<Rightarrow> (io_error + 'i) \<times> 'w"
  fs_MkdirAll :: "bytes \<Rightarrow> nat \<Rightarrow> 'w \<Rightarrow> io_error option \<times> 'w"
  fs_Remove :: "bytes \<Rightarrow> 'w \<Rightarrow> io_error option \<times> 'w"

text \<open>The registry \<open>wkFS\<close>, as a list of its entries; \<open>None\<close> is a panic of \<open>RegisterFS\<close>.\<close>

type_synonym ('w, 'i) registry = "(bytes \<times> ('w, 'i) FileSystem) list"

definition RegisterFS :: "bytes \<Rightarrow> ('w, 'i) FileSystem \<Rightarrow> ('w, 'i) registry \<Rightarrow> ('w, 'i) registry option" where
  "RegisterFS pfx fs wkFS =
     (if \<not> (prefix [47] pfx \<and> suffix [47] pfx) then None
      else if pfx \<in> fst ` set wkFS then None
      else Some (wkFS @ [(pfx, fs)]))"

text \<open>The first match in the order of the iteration; \<open>osFS\<close> is the file system of the operating system.\<close>

fun fs_of :: "('w, 'i) FileSystem \<Rightarrow> ('w, 'i) registry \<Rightarrow> bytes \<Rightarrow> ('w, 'i) FileSystem" where
  "fs_of osFS [] name = osFS"
| "fs_of osFS ((pfx, fs) # entries) name = (if prefix pfx name then fs else fs_of osFS entries name)"

definition Open :: "('w, 'i) FileSystem \<Rightarrow> ('w, 'i) registry \<Rightarrow> bytes \<Rightarrow> 'w \<Rightarrow> (io_error + 'w File) \<times> 'w" where
  "Open osFS es name = fs_Open (fs_of osFS es name) name"

definition Stat :: "('w, 'i) FileSystem \<Rightarrow> ('w, 'i) registry \<Rightarrow> bytes \<Rightarrow> 'w \<Rightarrow> (io_error + 'i) \<times> 'w" where
  "Stat osFS es name = fs_Stat (fs_of osFS es name) name"

definition Lstat :: "('w, 'i) FileSystem \<Rightarrow> ('w, 'i) registry \<Rightarrow> bytes \<Rightarrow> 'w \<Rightarrow> (io_error + 'i) \<times> 'w" where
  "Lstat osFS es name = fs_Lstat (fs_of osFS es name) name"

definition MkdirAll :: "('w, 'i) FileSystem \<Rightarrow> ('w, 'i) registry \<Rightarrow> bytes \<Rightarrow> nat \<Rightarrow> 'w \<Rightarrow> io_error option \<times> 'w" where
  "MkdirAll osFS es path perm = fs_MkdirAll (fs_of osFS es path) path perm"

definition OpenFile :: "('w, 'i) FileSystem \<Rightarrow> ('w, 'i) registry \<Rightarrow> bytes \<Rightarrow> nat \<Rightarrow> nat \<Rightarrow> 'w \<Rightarrow> (io_error + 'w FileWriter) \<times> 'w" where
  "OpenFile osFS es name flag perm = fs_OpenFile (fs_of osFS es name) name flag perm"

definition Remove :: "('w, 'i) FileSystem \<Rightarrow> ('w, 'i) registry \<Rightarrow> bytes \<Rightarrow> 'w \<Rightarrow> io_error option \<times> 'w" where
  "Remove osFS es name = fs_Remove (fs_of osFS es name) name"

text \<open>\<open>os.O_WRONLY | os.O_CREATE | os.O_TRUNC\<close>, with the numbers of Linux.\<close>

definition write_flags :: nat where
  "write_flags = 1 + 64 + 512"

definition Create :: "('w, 'i) FileSystem \<Rightarrow> ('w, 'i) registry \<Rightarrow> bytes \<Rightarrow> 'w \<Rightarrow> (io_error + 'w FileWriter) \<times> 'w" where
  "Create osFS es name = OpenFile osFS es name write_flags 438"

definition WriteFile :: "('w, 'i) FileSystem \<Rightarrow> ('w, 'i) registry \<Rightarrow> bytes \<Rightarrow> bytes \<Rightarrow> nat \<Rightarrow> 'w \<Rightarrow> io_error option \<times> 'w" where
  "WriteFile osFS es filename data perm w =
     (case OpenFile osFS es filename write_flags perm w of
       (Inl err, w) \<Rightarrow> (Some err, w)
     | (Inr f, w) \<Rightarrow>
         let ((n, err), w) = fw_Write f data w;
             err = (if err = None \<and> n < length data then Some (IOError ''short write'') else err);
             (err1, w) = fw_Close f w in
         (if err = None then err1 else err, w))"

text \<open>\<open>ioutil.ReadAll\<close>: the end of the input is no error.\<close>

definition ReadAll :: "stream \<Rightarrow> bytes \<times> io_error option" where
  "ReadAll s = (pending s, if after s = EOF then None else Some (after s))"

definition ReadFile :: "('w, 'i) FileSystem \<Rightarrow> ('w, 'i) registry \<Rightarrow> bytes \<Rightarrow> 'w \<Rightarrow> (bytes \<times> io_error option) \<times> 'w" where
  "ReadFile osFS es filename w =
     (case Open osFS es filename w of
       (Inl err, w) \<Rightarrow> (([], Some err), w)
     | (Inr f, w) \<Rightarrow> (ReadAll (f_data f), snd (f_Close f w)))"

section \<open>Dispatch\<close>

text \<open>What registration keeps of the registry.\<close>

definition registry_ok :: "('w, 'i) registry \<Rightarrow> bool" where
  "registry_ok R \<longleftrightarrow> distinct (map fst R) \<and> (\<forall>(pfx, fs) \<in> set R. prefix [47] pfx \<and> suffix [47] pfx)"

lemma RegisterFS_ok: "RegisterFS pfx fs R = Some R' \<Longrightarrow> registry_ok R \<Longrightarrow> registry_ok R'"
  by (auto simp: RegisterFS_def registry_ok_def split: if_splits)

lemma fs_of_cases:
  "(fs_of osFS es name = osFS \<and> (\<forall>(pfx, fs) \<in> set es. \<not> prefix pfx name)) \<or>
   (\<exists>pfx. (pfx, fs_of osFS es name) \<in> set es \<and> prefix pfx name)"
proof (induction es)
  case (Cons e es)
  then show ?case by (cases e; cases "prefix (fst e) name") auto
qed simp

text \<open>Registrations in sequence, from the empty registry.\<close>

primrec register_all :: "(bytes \<times> ('w, 'i) FileSystem) list \<Rightarrow> ('w, 'i) registry \<Rightarrow> ('w, 'i) registry option" where
  "register_all [] R = Some R"
| "register_all (x # xs) R = do { R \<leftarrow> RegisterFS (fst x) (snd x) R; register_all xs R }"

lemma register_all_ok: "register_all xs R = Some R' \<Longrightarrow> registry_ok R \<Longrightarrow> registry_ok R'"
  by (induction xs arbitrary: R) (auto split: bind_splits dest: RegisterFS_ok)

text \<open>
  After any registrations, in whatever order Go iterates over the registry: a path goes to the file system registered for a prefix of it, if
  exactly one is; a path with none, and every path that does not begin with a slash, goes to the operating system. But if two
  prefixes match, as \<open>/a/\<close> and \<open>/a/b/\<close>, either file system may be chosen.
\<close>

theorem wkfs_dispatch:
  assumes "register_all xs [] = Some R" "mset es = mset R"
  shows "((\<forall>(pfx, fs) \<in> set R. \<not> prefix pfx name) \<longrightarrow> fs_of osFS es name = osFS) \<and>
    (\<not> prefix [47] name \<longrightarrow> fs_of osFS es name = osFS) \<and>
    (\<forall>pfx fs. (pfx, fs) \<in> set R \<and> prefix pfx name \<and> (\<forall>(p, f) \<in> set R. prefix p name \<longrightarrow> p = pfx) \<longrightarrow> fs_of osFS es name = fs) \<and>
    (\<forall>p f q g. (p, f) \<in> set R \<and> (q, g) \<in> set R \<and> p \<noteq> q \<and> prefix p name \<and> prefix q name \<longrightarrow>
       (\<exists>es es'. mset es = mset R \<and> mset es' = mset R \<and> fs_of osFS es name = f \<and> fs_of osFS es' name = g))"
proof (intro conjI allI impI)
  have ok: "registry_ok R" using register_all_ok [OF assms(1)] by (simp add: registry_ok_def)
  have set: "set es = set R" using assms(2) by (metis set_mset_mset)
  show none: "fs_of osFS es name = osFS" if "\<forall>(pfx, fs) \<in> set R. \<not> prefix pfx name"
    using fs_of_cases [of osFS es name] that set by auto
  show "fs_of osFS es name = osFS" if n: "\<not> prefix [47] name"
  proof (rule none)
    show "\<forall>(pfx, fs) \<in> set R. \<not> prefix pfx name"
      using ok n by (auto simp: registry_ok_def dest: prefix_order.trans)
  qed
  show "fs_of osFS es name = fs" if one: "(pfx, fs) \<in> set R \<and> prefix pfx name \<and> (\<forall>(p, f) \<in> set R. prefix p name \<longrightarrow> p = pfx)" for pfx fs
  proof -
    obtain p where p: "(p, fs_of osFS es name) \<in> set R" "prefix p name"
      using fs_of_cases [of osFS es name] one set by auto
    then have "p = pfx" using one by auto
    then show ?thesis using p(1) one ok by (auto simp: registry_ok_def intro: eq_key_imp_eq_value)
  qed
  have first: "\<exists>es. mset es = mset R \<and> fs_of osFS es name = f" if "(p, f) \<in> set R" "prefix p name" for p f
  proof (intro exI conjI)
    show "mset ((p, f) # remove1 (p, f) R) = mset R" using that(1) by simp
    show "fs_of osFS ((p, f) # remove1 (p, f) R) name = f" using that(2) by simp
  qed
  show "\<exists>es es'. mset es = mset R \<and> mset es' = mset R \<and> fs_of osFS es name = f \<and> fs_of osFS es' name = g"
    if "(p, f) \<in> set R \<and> (q, g) \<in> set R \<and> p \<noteq> q \<and> prefix p name \<and> prefix q name" for p f q g
    using first [of p f] first [of q g] that by blast
qed

text \<open>A file system that keeps one file, the world, and refuses to open it if it is empty.\<close>

definition one_file :: "(bytes, unit) FileSystem" where
  "one_file = \<lparr>fs_Open = (\<lambda>_ w. (if w = [] then Inl EOF else Inr \<lparr>f_data = \<lparr>pending = w, after = EOF\<rparr>, f_Close = (\<lambda>w. (None, w))\<rparr>, w)),
     fs_OpenFile = (\<lambda>_ _ _ w. (Inr \<lparr>fw_Write = (\<lambda>d w. ((length d, None), d)), fw_Close = (\<lambda>w. (None, w))\<rparr>, w)),
     fs_Stat = (\<lambda>_ w. (Inr (), w)), fs_Lstat = (\<lambda>_ w. (Inr (), w)), fs_MkdirAll = (\<lambda>_ _ w. (None, w)), fs_Remove = (\<lambda>_ _. (None, []))\<rparr>"

theorem wkfs_dispatch_witness:
  "fs_of (one_file\<lparr>fs_Remove := (\<lambda>_ w. (Some EOF, w))\<rparr>) [([47, 97, 47], one_file)] [47, 97, 47, 98] = one_file"
proof -
  have r: "register_all [([47, 97, 47], one_file)] [] = Some [([47, 97, 47], one_file)]" by (simp add: RegisterFS_def suffix_def)
  show ?thesis
    by (rule wkfs_dispatch [OF r refl, THEN conjunct2, THEN conjunct2, THEN conjunct1, rule_format, of "[47, 97, 47]"]) simp
qed

section \<open>Writing and reading whole files\<close>

text \<open>
  \<open>WriteFile\<close> reports success exactly if the file could be opened, the write took all bytes without an error and closing gave none; it closes
  every file it has opened, also when the write fails, and reports the earliest error.
\<close>

theorem WriteFile_result:
  "case OpenFile osFS es filename write_flags perm w of
     (Inl err, w1) \<Rightarrow> WriteFile osFS es filename data perm w = (Some err, w1)
   | (Inr f, w1) \<Rightarrow> (case fw_Write f data w1 of ((n, err), w2) \<Rightarrow>
       snd (WriteFile osFS es filename data perm w) = snd (fw_Close f w2) \<and>
       (fst (WriteFile osFS es filename data perm w) = None \<longleftrightarrow> err = None \<and> length data \<le> n \<and> fst (fw_Close f w2) = None) \<and>
       (err \<noteq> None \<longrightarrow> fst (WriteFile osFS es filename data perm w) = err))"
  by (auto simp: WriteFile_def Let_def split: prod.split sum.split)

theorem WriteFile_result_witness: "WriteFile one_file [] [97] [1, 2] 438 [] = (None, [1, 2])"
  using WriteFile_result [where osFS = one_file and es = "[]" and filename = "[97]" and perm = 438 and w = "[]" and data = "[1, 2]"]
  by (simp add: OpenFile_def prod_eq_iff one_file_def)

end
