(* ===== verification/Wkfs_Gcs.thy ===== *)
theory Wkfs_Gcs
  imports Wkfs
begin

text \<open>
  The package \<open>wkfs/gcs\<close>: a file system for the prefix \<open>/gcs/\<close> over Google Cloud Storage, in the record of \<open>Wkfs\<close>. The client of the service
  is a parameter: the operations on an object of a bucket.
\<close>

section \<open>Model\<close>

datatype storage_error = ErrObjectNotExist | StorageError string

record 'w storage_client =
  st_Attrs :: "bytes \<Rightarrow> bytes \<Rightarrow> 'w \<Rightarrow> storage_error + (bytes \<times> nat)"
  st_NewReader :: "bytes \<Rightarrow> bytes \<Rightarrow> 'w \<Rightarrow> storage_error + stream"
  st_NewWriter :: "bytes \<Rightarrow> bytes \<Rightarrow> 'w FileWriter"
  st_Delete :: "bytes \<Rightarrow> bytes \<Rightarrow> 'w \<Rightarrow> storage_error option \<times> 'w"

text \<open>\<open>gcs_err\<close> is the sticky error of a file system that could not be set up.\<close>

record 'w gcsFS =
  gcs_sc :: "'w storage_client"
  gcs_err :: "io_error option"

record statInfo =
  si_name :: bytes
  si_size :: nat

definition maxSize :: nat where
  "maxSize = 2 ^ 20"

text \<open>Errors of the service as errors of a file; those of \<open>os\<close> for \<open>ErrNotExist\<close> and \<open>ErrExist\<close>.\<close>

definition of_storage :: "storage_error \<Rightarrow> io_error" where
  "of_storage e = (case e of ErrObjectNotExist \<Rightarrow> IOError ''storage: object doesn't exist'' | StorageError s \<Rightarrow> IOError s)"

definition os_ErrNotExist :: io_error where
  "os_ErrNotExist = IOError ''file does not exist''"

definition os_ErrExist :: io_error where
  "os_ErrExist = IOError ''file already exists''"

definition gcs_prefix :: bytes where
  "gcs_prefix = ascii ''/gcs/''"

definition parseName :: "'w gcsFS \<Rightarrow> bytes \<Rightarrow> io_error + (bytes \<times> bytes)" where
  "parseName fs name =
     (case gcs_err fs of
       Some e \<Rightarrow> Inl e
     | None \<Rightarrow>
         let name = (if prefix gcs_prefix name then drop (length gcs_prefix) name else name);
             bucket = takeWhile (\<lambda>c. c \<noteq> 47) name in
         if 47 \<notin> set name then Inr (name, []) else Inr (bucket, drop (length bucket + 1) name))"

text \<open>The reader of the object, cut off by \<open>io.LimitReader\<close>.\<close>

definition LimitReader :: "stream \<Rightarrow> nat \<Rightarrow> stream" where
  "LimitReader s n = (if n \<le> length (pending s) then \<lparr>pending = take n (pending s), after = EOF\<rparr> else s)"

definition gcs_Open :: "'w gcsFS \<Rightarrow> bytes \<Rightarrow> 'w \<Rightarrow> (io_error + 'w File) \<times> 'w" where
  "gcs_Open fs name w =
     (case parseName fs name of
       Inl e \<Rightarrow> (Inl e, w)
     | Inr (bucket, fileName) \<Rightarrow>
         (case st_Attrs (gcs_sc fs) bucket fileName w of
           Inl e \<Rightarrow> (Inl (of_storage e), w)
         | Inr (_, sz) \<Rightarrow>
             if sz > maxSize then (Inl (IOError ''too large for /gcs/ filesystem''), w)
             else (case st_NewReader (gcs_sc fs) bucket fileName w of
               Inl e \<Rightarrow> (Inl (of_storage e), w)
             | Inr rc \<Rightarrow>
                 (case ReadAll (LimitReader rc sz) of
                   (slurp, Some e) \<Rightarrow> (Inl e, w)
                 | (slurp, None) \<Rightarrow> (Inr \<lparr>f_data = \<lparr>pending = slurp, after = EOF\<rparr>, f_Close = (\<lambda>w. (None, w))\<rparr>, w)))))"

definition gcs_Lstat :: "'w gcsFS \<Rightarrow> bytes \<Rightarrow> 'w \<Rightarrow> (io_error + statInfo) \<times> 'w" where
  "gcs_Lstat fs name w =
     (case parseName fs name of
       Inl e \<Rightarrow> (Inl e, w)
     | Inr (bucket, fileName) \<Rightarrow>
         (case st_Attrs (gcs_sc fs) bucket fileName w of
           Inl e \<Rightarrow> (Inl (if e = ErrObjectNotExist then os_ErrNotExist else of_storage e), w)
         | Inr (nm, sz) \<Rightarrow> (Inr \<lparr>si_name = nm, si_size = sz\<rparr>, w)))"

definition gcs_Stat :: "'w gcsFS \<Rightarrow> bytes \<Rightarrow> 'w \<Rightarrow> (io_error + statInfo) \<times> 'w" where
  "gcs_Stat fs name = gcs_Lstat fs name"

text \<open>\<open>os.O_WRONLY | os.O_CREATE | os.O_EXCL\<close>.\<close>

definition excl_flags :: nat where
  "excl_flags = 1 + 64 + 128"

definition gcs_OpenFile :: "'w gcsFS \<Rightarrow> bytes \<Rightarrow> nat \<Rightarrow> nat \<Rightarrow> 'w \<Rightarrow> (io_error + 'w FileWriter) \<times> 'w" where
  "gcs_OpenFile fs name flag perm w =
     (case parseName fs name of
       Inl e \<Rightarrow> (Inl e, w)
     | Inr (bucket, fileName) \<Rightarrow>
         if flag \<noteq> excl_flags \<and> flag \<noteq> write_flags then (Inl (IOError ''Unsupported OpenFlag flag mode''), w)
         else if flag = excl_flags \<and> (\<exists>x. fst (gcs_Stat fs name w) = Inr x) then (Inl os_ErrExist, w)
         else (Inr (st_NewWriter (gcs_sc fs) bucket fileName), w))"

definition gcs_MkdirAll :: "'w gcsFS \<Rightarrow> bytes \<Rightarrow> nat \<Rightarrow> 'w \<Rightarrow> io_error option \<times> 'w" where
  "gcs_MkdirAll fs path perm w = (None, w)"

definition gcs_Remove :: "'w gcsFS \<Rightarrow> bytes \<Rightarrow> 'w \<Rightarrow> io_error option \<times> 'w" where
  "gcs_Remove fs name w =
     (case parseName fs name of
       Inl e \<Rightarrow> (Some e, w)
     | Inr (bucket, fileName) \<Rightarrow> (case st_Delete (gcs_sc fs) bucket fileName w of (e, w) \<Rightarrow> (map_option of_storage e, w)))"

text \<open>The file system that \<open>init\<close> and \<open>registerBrokenFS\<close> register.\<close>

definition gcs_FileSystem :: "'w gcsFS \<Rightarrow> ('w, statInfo) FileSystem" where
  "gcs_FileSystem fs = \<lparr>fs_Open = gcs_Open fs, fs_OpenFile = gcs_OpenFile fs, fs_Stat = gcs_Stat fs, fs_Lstat = gcs_Lstat fs,
     fs_MkdirAll = gcs_MkdirAll fs, fs_Remove = gcs_Remove fs\<rparr>"

definition gcs_register :: "'w storage_client \<Rightarrow> io_error option \<Rightarrow> ('w, statInfo) registry \<Rightarrow> ('w, statInfo) registry option" where
  "gcs_register sc setup_error wkFS = RegisterFS gcs_prefix (gcs_FileSystem \<lparr>gcs_sc = sc, gcs_err = setup_error\<rparr>) wkFS"

section \<open>Properties\<close>

lemma parseName_object:
  assumes "gcs_err fs = None" "47 \<notin> set bucket"
  shows "parseName fs (gcs_prefix @ bucket @ 47 # key) = Inr (bucket, key)"
proof -
  have "takeWhile (\<lambda>c. c \<noteq> 47) (bucket @ 47 # key) = bucket" using assms(2) by (auto simp: takeWhile_append takeWhile_eq_all_conv)
  then show ?thesis using assms(1) by (simp add: parseName_def Let_def)
qed

text \<open>
  The service keeps objects: a writer stores what was written when it is closed, and attributes and readers show it.
\<close>

definition keeps_objects :: "'w storage_client \<Rightarrow> ('w \<Rightarrow> bytes \<times> bytes \<rightharpoonup> bytes) \<Rightarrow> bool" where
  "keeps_objects sc obj \<longleftrightarrow>
     (\<forall>b k d w. \<exists>w1 w2. fw_Write (st_NewWriter sc b k) d w = ((length d, None), w1) \<and> fw_Close (st_NewWriter sc b k) w1 = (None, w2) \<and>
        obj w2 = (obj w)((b, k) \<mapsto> d)) \<and>
     (\<forall>b k w. st_Attrs sc b k w = (case obj w (b, k) of None \<Rightarrow> Inl ErrObjectNotExist | Some d \<Rightarrow> Inr (k, length d))) \<and>
     (\<forall>b k w. st_NewReader sc b k w = (case obj w (b, k) of None \<Rightarrow> Inl ErrObjectNotExist | Some d \<Rightarrow> Inr \<lparr>pending = d, after = EOF\<rparr>))"


text \<open>A service that keeps its objects in the world, with the bytes not yet closed beside them.\<close>

definition memory_client :: "((bytes \<times> bytes \<rightharpoonup> bytes) \<times> bytes) storage_client" where
  "memory_client = \<lparr>st_Attrs = (\<lambda>b k w. case fst w (b, k) of None \<Rightarrow> Inl ErrObjectNotExist | Some d \<Rightarrow> Inr (k, length d)),
     st_NewReader = (\<lambda>b k w. case fst w (b, k) of None \<Rightarrow> Inl ErrObjectNotExist | Some d \<Rightarrow> Inr \<lparr>pending = d, after = EOF\<rparr>),
     st_NewWriter = (\<lambda>b k. \<lparr>fw_Write = (\<lambda>d w. ((length d, None), (fst w, d))), fw_Close = (\<lambda>w. (None, ((fst w)((b, k) \<mapsto> snd w), [])))\<rparr>),
     st_Delete = (\<lambda>b k w. (None, ((fst w)((b, k) := None), snd w)))\<rparr>"


end
