(* ===== verification/Gcsutil.thy ===== *)
theory Gcsutil
  imports Small_Packages Go_IO
begin

text \<open>
  The package \<open>cloud/google/gcsutil\<close>: requests to Google Cloud Storage. The HTTP client of the context is a parameter, a function from requests
  to responses; whether \<open>http.NewRequest\<close> takes an address is another.
\<close>

section \<open>Model\<close>

record Object =
  Bucket :: bytes
  Key :: bytes

record SizedObject = Object +
  Size :: int

record request =
  rq_method :: bytes
  rq_url :: bytes
  rq_version :: bytes
  rq_range :: "bytes option"

record response =
  StatusCode :: nat
  rs_body :: stream

datatype gcs_error = NegativeOffset | NilObject | MissingBucket | MissingKey | BadURL | ClientFailed string | NotExist | ErrInvalidRange | BadStatus nat | XMLError

definition gsAccessURL :: bytes where
  "gsAccessURL = ascii ''https://storage.googleapis.com''"

text \<open>A \<open>nil\<close> object is \<open>None\<close>.\<close>

definition valid :: "('x Object_scheme) option \<Rightarrow> gcs_error option" where
  "valid o1 = (case o1 of
     None \<Rightarrow> Some NilObject
   | Some obj \<Rightarrow> if Bucket obj = [] then Some MissingBucket else if Key obj = [] then Some MissingKey else None)"

text \<open>The verb \<open>%d\<close>.\<close>

definition show_int :: "int \<Rightarrow> bytes" where
  "show_int i = (if i < 0 then 45 # decimal (nat (- i)) else decimal (nat i))"

definition Object_String :: "('x Object_scheme) option \<Rightarrow> bytes" where
  "Object_String o1 = (case o1 of None \<Rightarrow> ascii ''<nil *Object>'' | Some obj \<Rightarrow> Bucket obj @ [47] @ Key obj)"

definition SizedObject_String :: "SizedObject \<Rightarrow> bytes" where
  "SizedObject_String so = Bucket so @ [47] @ Key so @ ascii '' ('' @ show_int (Size so) @ ascii ''B)''"

definition simpleRequest :: "(bytes \<Rightarrow> bool) \<Rightarrow> bytes \<Rightarrow> bytes \<Rightarrow> gcs_error + request" where
  "simpleRequest url_ok method url =
     (if \<not> url_ok url then Inl BadURL else Inr \<lparr>rq_method = method, rq_url = url, rq_version = ascii ''2'', rq_range = None\<rparr>)"

definition range_header :: "int \<Rightarrow> int \<Rightarrow> bytes" where
  "range_header offset len =
     (if len \<ge> 0 then ascii ''bytes='' @ show_int offset @ [45] @ show_int (offset + len - 1)
      else ascii ''bytes='' @ show_int offset @ [45])"

definition GetPartialObject :: "(bytes \<Rightarrow> bool) \<Rightarrow> (request \<Rightarrow> string + response) \<Rightarrow> Object \<Rightarrow> int \<Rightarrow> int \<Rightarrow> gcs_error + stream" where
  "GetPartialObject url_ok client obj offset len =
     (if offset < 0 then Inl NegativeOffset
      else case valid (Some obj) of
        Some err \<Rightarrow> Inl err
      | None \<Rightarrow>
          (case simpleRequest url_ok (ascii ''GET'') (gsAccessURL @ [47] @ Bucket obj @ [47] @ Key obj) of
            Inl err \<Rightarrow> Inl err
          | Inr req \<Rightarrow>
              (case client (req\<lparr>rq_range := Some (range_header offset len)\<rparr>) of
                Inl err \<Rightarrow> Inl (ClientFailed err)
              | Inr res \<Rightarrow>
                  if StatusCode res = 404 then Inl NotExist
                  else if \<not> (StatusCode res = 206 \<or> offset = 0 \<and> StatusCode res = 200) then
                    (if StatusCode res = 416 then Inl ErrInvalidRange else Inl (BadStatus (StatusCode res)))
                  else Inr (rs_body res))))"

text \<open>\<open>url.QueryEscape\<close>.\<close>

definition hex_upper :: "nat \<Rightarrow> byte" where
  "hex_upper n = (if n < 10 then of_nat (48 + n) else of_nat (55 + n))"

definition QueryEscape :: "bytes \<Rightarrow> bytes" where
  "QueryEscape s = concat (map (\<lambda>c.
     if 97 \<le> c \<and> c \<le> 122 \<or> 65 \<le> c \<and> c \<le> 90 \<or> 48 \<le> c \<and> c \<le> 57 \<or> c \<in> {45, 95, 46, 126} then [c]
     else if c = 32 then [43]
     else [37, hex_upper (unat c div 16), hex_upper (unat c mod 16)]) s)"

definition enumerate_query :: "bytes \<Rightarrow> int \<Rightarrow> bytes" where
  "enumerate_query marker limit =
     (let params = (if marker \<noteq> [] then [ascii ''marker='' @ QueryEscape marker] else []) @
                   (if limit > 0 then [ascii ''max-keys='' @ show_int limit] else []) in
      case params of [] \<Rightarrow> [] | [p] \<Rightarrow> 63 # p | p # q # _ \<Rightarrow> 63 # p @ 38 # q)"

text \<open>The decoder of XML is a parameter: the objects of a listing.\<close>

definition EnumerateObjects ::
  "(bytes \<Rightarrow> bool) \<Rightarrow> (request \<Rightarrow> string + response) \<Rightarrow> (stream \<Rightarrow> SizedObject list option) \<Rightarrow> bytes \<Rightarrow> bytes \<Rightarrow> int \<Rightarrow> gcs_error + (bytes \<times> int) list" where
  "EnumerateObjects url_ok client xml bucket marker limit =
     (case simpleRequest url_ok (ascii ''GET'') (gsAccessURL @ [47] @ bucket @ [47] @ enumerate_query marker limit) of
       Inl err \<Rightarrow> Inl err
     | Inr req \<Rightarrow>
         (case client req of
           Inl err \<Rightarrow> Inl (ClientFailed err)
         | Inr res \<Rightarrow>
             if StatusCode res \<noteq> 200 then Inl (BadStatus (StatusCode res))
             else (case xml (rs_body res) of
               None \<Rightarrow> Inl XMLError
             | Some contents \<Rightarrow> Inr (map (\<lambda>obj. (Key obj, Size obj)) contents))))"

section \<open>A server\<close>

text \<open>
  A server with one object that follows RFC 7233: it answers a valid range with status 206 and those bytes, a range that begins after the end
  with 416, and ignores a header that is no valid range, with status 200 and the whole object.
\<close>

definition serves_ranges :: "(request \<Rightarrow> string + response) \<Rightarrow> bytes \<Rightarrow> bytes \<Rightarrow> bool" where
  "serves_ranges client url data \<longleftrightarrow>
     (\<forall>req. rq_url req = url \<longrightarrow>
       (\<forall>a b. rq_range req = Some (ascii ''bytes='' @ decimal a @ [45] @ decimal b) \<and> a \<le> b \<longrightarrow>
          client req = Inr (if a < length data then \<lparr>StatusCode = 206, rs_body = \<lparr>pending = take (b + 1 - a) (drop a data), after = EOF\<rparr>\<rparr>
            else \<lparr>StatusCode = 416, rs_body = \<lparr>pending = [], after = EOF\<rparr>\<rparr>)) \<and>
       (\<forall>a. rq_range req = Some (ascii ''bytes='' @ decimal a @ [45]) \<longrightarrow>
          client req = Inr (if a < length data then \<lparr>StatusCode = 206, rs_body = \<lparr>pending = drop a data, after = EOF\<rparr>\<rparr>
            else \<lparr>StatusCode = 416, rs_body = \<lparr>pending = [], after = EOF\<rparr>\<rparr>)) \<and>
       (\<forall>a. rq_range req = Some (ascii ''bytes='' @ decimal a @ [45, 45] @ decimal 1) \<longrightarrow>
          client req = Inr \<lparr>StatusCode = 200, rs_body = \<lparr>pending = data, after = EOF\<rparr>\<rparr>))"

lemma serves_rangesD:
  assumes "serves_ranges client url data" "rq_url req = url"
  shows "rq_range req = Some (ascii ''bytes='' @ decimal a @ [45] @ decimal b) \<Longrightarrow> a \<le> b \<Longrightarrow>
      client req = Inr (if a < length data then \<lparr>StatusCode = 206, rs_body = \<lparr>pending = take (b + 1 - a) (drop a data), after = EOF\<rparr>\<rparr>
        else \<lparr>StatusCode = 416, rs_body = \<lparr>pending = [], after = EOF\<rparr>\<rparr>)"
    and "rq_range req = Some (ascii ''bytes='' @ decimal a @ [45]) \<Longrightarrow>
      client req = Inr (if a < length data then \<lparr>StatusCode = 206, rs_body = \<lparr>pending = drop a data, after = EOF\<rparr>\<rparr>
        else \<lparr>StatusCode = 416, rs_body = \<lparr>pending = [], after = EOF\<rparr>\<rparr>)"
    and "rq_range req = Some (ascii ''bytes='' @ decimal a @ [45, 45] @ decimal 1) \<Longrightarrow>
      client req = Inr \<lparr>StatusCode = 200, rs_body = \<lparr>pending = data, after = EOF\<rparr>\<rparr>"
  using assms unfolding serves_ranges_def by blast+

text \<open>
  From such a server \<open>GetPartialObject\<close> returns exactly the bytes of the object from \<open>offset\<close> on, \<open>len\<close> of them (or up to the end of the object), all of
  them for a negative \<open>len\<close>, and \<open>ErrInvalidRange\<close> if the offset is not inside the object. But for the length 0 at offset 0 it returns the whole
  object: the header \<open>bytes=0--1\<close> is no range.
\<close>

theorem GetPartialObject_range:
  assumes "Bucket obj \<noteq> []" "Key obj \<noteq> []" and url: "url_ok (gsAccessURL @ [47] @ Bucket obj @ [47] @ Key obj)"
    and s: "serves_ranges client (gsAccessURL @ [47] @ Bucket obj @ [47] @ Key obj) data"
  shows "(0 < len \<longrightarrow> GetPartialObject url_ok client obj (int off) (int len) =
      (if off < length data then Inr \<lparr>pending = take len (drop off data), after = EOF\<rparr> else Inl ErrInvalidRange)) \<and>
    (l < 0 \<longrightarrow> GetPartialObject url_ok client obj (int off) l =
      (if off < length data then Inr \<lparr>pending = drop off data, after = EOF\<rparr> else Inl ErrInvalidRange)) \<and>
    GetPartialObject url_ok client obj 0 0 = Inr \<lparr>pending = data, after = EOF\<rparr> \<and>
    (i < 0 \<longrightarrow> GetPartialObject url_ok client obj i l = Inl NegativeOffset)"
proof (intro conjI impI)
  let ?rq = "\<lambda>h. \<lparr>rq_method = ascii ''GET'', rq_url = gsAccessURL @ [47] @ Bucket obj @ [47] @ Key obj, rq_version = ascii ''2'', rq_range = Some h\<rparr>"
  have sends: "GetPartialObject url_ok client obj (int off) l = (case client (?rq (range_header (int off) l)) of
      Inl err \<Rightarrow> Inl (ClientFailed err)
    | Inr res \<Rightarrow> if StatusCode res = 404 then Inl NotExist
        else if \<not> (StatusCode res = 206 \<or> int off = 0 \<and> StatusCode res = 200) then
          (if StatusCode res = 416 then Inl ErrInvalidRange else Inl (BadStatus (StatusCode res)))
        else Inr (rs_body res))" for off l
    using assms(1-3) by (simp add: GetPartialObject_def valid_def simpleRequest_def)
  show "GetPartialObject url_ok client obj (int off) (int len) =
      (if off < length data then Inr \<lparr>pending = take len (drop off data), after = EOF\<rparr> else Inl ErrInvalidRange)" if "0 < len"
  proof -
    have "range_header (int off) (int len) = ascii ''bytes='' @ decimal off @ [45] @ decimal (off + len - 1)"
      using that by (simp add: range_header_def show_int_def nat_diff_distrib nat_add_distrib)
    then have "client (?rq (range_header (int off) (int len))) = Inr (if off < length data
        then \<lparr>StatusCode = 206, rs_body = \<lparr>pending = take (off + len - 1 + 1 - off) (drop off data), after = EOF\<rparr>\<rparr>
        else \<lparr>StatusCode = 416, rs_body = \<lparr>pending = [], after = EOF\<rparr>\<rparr>)"
      using that by (intro serves_rangesD(1) [OF s]) simp_all
    then show ?thesis using that by (simp add: sends)
  qed
  show "GetPartialObject url_ok client obj (int off) l =
      (if off < length data then Inr \<lparr>pending = drop off data, after = EOF\<rparr> else Inl ErrInvalidRange)" if "l < 0"
  proof -
    have "range_header (int off) l = ascii ''bytes='' @ decimal off @ [45]" using that by (simp add: range_header_def show_int_def)
    then have "client (?rq (range_header (int off) l)) = Inr (if off < length data then \<lparr>StatusCode = 206, rs_body = \<lparr>pending = drop off data, after = EOF\<rparr>\<rparr>
            else \<lparr>StatusCode = 416, rs_body = \<lparr>pending = [], after = EOF\<rparr>\<rparr>)"
      by (intro serves_rangesD(2) [OF s]) simp_all
    then show ?thesis by (simp add: sends)
  qed
  have "range_header 0 0 = ascii ''bytes='' @ decimal 0 @ [45, 45] @ decimal 1" by (simp add: range_header_def show_int_def)
  then have "client (?rq (range_header (int 0) 0)) = Inr \<lparr>StatusCode = 200, rs_body = \<lparr>pending = data, after = EOF\<rparr>\<rparr>"
    by (intro serves_rangesD(3) [OF s, of _ 0]) simp_all
  then show "GetPartialObject url_ok client obj 0 0 = Inr \<lparr>pending = data, after = EOF\<rparr>" using sends [of 0 0] by simp
  show "GetPartialObject url_ok client obj i l = Inl NegativeOffset" if "i < 0" using that by (simp add: GetPartialObject_def)
qed

lemma decimal_no_dash: "45 \<notin> set (decimal n)"
proof (induction n rule: decimal.induct)
  case (1 n)
  have d: "(of_nat (48 + m) :: byte) \<noteq> 45" if "m < 10" for m
  proof -
    have "m \<in> {0, 1, 2, 3, 4, 5, 6, 7, 8, 9}" using that by auto
    then show ?thesis by (elim insertE emptyE) simp_all
  qed
  show ?case using 1 d [of n] d [of "n mod 10"] by (cases "n < 10") (simp_all add: decimal.simps [of n] del: of_nat_add)
qed

lemma decimal_zero: "decimal n = [48] \<longleftrightarrow> n = 0"
proof
  assume n: "decimal n = [48]"
  show "n = 0"
  proof (cases "n < 10")
    case True
    then have "n \<in> {0, 1, 2, 3, 4, 5, 6, 7, 8, 9}" by auto
    then show ?thesis using n by (elim insertE emptyE) (simp_all add: decimal.simps)
  next
    case False
    have "decimal (n div 10) \<noteq> []" by (subst decimal.simps) simp
    then show ?thesis using n False by (simp add: decimal.simps [of n])
  qed
qed (simp add: decimal.simps)

text \<open>A server with an object of one byte.\<close>

definition byte_server :: "request \<Rightarrow> string + response" where
  "byte_server req = Inr (case rq_range req of
     None \<Rightarrow> \<lparr>StatusCode = 200, rs_body = \<lparr>pending = [7], after = EOF\<rparr>\<rparr>
   | Some h \<Rightarrow>
       let a = takeWhile (\<lambda>c. c \<noteq> 45) (drop 6 h); rest = drop (length a + 7) h in
       if rest \<noteq> [] \<and> hd rest = 45 then \<lparr>StatusCode = 200, rs_body = \<lparr>pending = [7], after = EOF\<rparr>\<rparr>
       else if a = [48] then \<lparr>StatusCode = 206, rs_body = \<lparr>pending = [7], after = EOF\<rparr>\<rparr>
       else \<lparr>StatusCode = 416, rs_body = \<lparr>pending = [], after = EOF\<rparr>\<rparr>)"

lemma byte_server_header:
  "takeWhile (\<lambda>c. c \<noteq> 45) (drop 6 (ascii ''bytes='' @ decimal a @ 45 # r)) = decimal a"
  "drop (length (decimal a) + 7) (ascii ''bytes='' @ decimal a @ 45 # r) = r"
proof -
  show "takeWhile (\<lambda>c. c \<noteq> 45) (drop 6 (ascii ''bytes='' @ decimal a @ 45 # r)) = decimal a"
    using decimal_no_dash [of a] by (auto simp: takeWhile_append takeWhile_eq_all_conv ascii_def)
  have "length (ascii ''bytes='' @ decimal a @ [45]) = length (decimal a) + 7" by (simp add: ascii_def)
  then show "drop (length (decimal a) + 7) (ascii ''bytes='' @ decimal a @ 45 # r) = r"
    by (metis append.assoc append_Cons append_Nil append_eq_conv_conj)
qed

lemma byte_server_serves: "serves_ranges byte_server url [7]"
proof -
  have b: "decimal b \<noteq> [] \<and> hd (decimal b) \<noteq> 45" for b
  proof -
    have "decimal b \<noteq> []" by (subst decimal.simps) simp
    then show ?thesis using decimal_no_dash [of b] hd_in_set by metis
  qed
  have r: "byte_server req = Inr (if r \<noteq> [] \<and> hd r = 45 then \<lparr>StatusCode = 200, rs_body = \<lparr>pending = [7], after = EOF\<rparr>\<rparr>
       else if a = 0 then \<lparr>StatusCode = 206, rs_body = \<lparr>pending = [7], after = EOF\<rparr>\<rparr>
       else \<lparr>StatusCode = 416, rs_body = \<lparr>pending = [], after = EOF\<rparr>\<rparr>)" if "rq_range req = Some (ascii ''bytes='' @ decimal a @ 45 # r)" for req a r
    unfolding byte_server_def that option.case Let_def byte_server_header decimal_zero ..
  show ?thesis unfolding serves_ranges_def
  proof (intro allI impI conjI)
    fix req :: request and a c
    assume "rq_range req = Some (ascii ''bytes='' @ decimal a @ [45] @ decimal c) \<and> a \<le> c"
    then show "byte_server req = Inr (if a < length [7 :: byte] then \<lparr>StatusCode = 206, rs_body = \<lparr>pending = take (c + 1 - a) (drop a [7]), after = EOF\<rparr>\<rparr>
            else \<lparr>StatusCode = 416, rs_body = \<lparr>pending = [], after = EOF\<rparr>\<rparr>)"
      using r [of req a "decimal c"] b [of c] by (cases a) simp_all
  next
    fix req :: request and a
    assume "rq_range req = Some (ascii ''bytes='' @ decimal a @ [45])"
    then show "byte_server req = Inr (if a < length [7 :: byte] then \<lparr>StatusCode = 206, rs_body = \<lparr>pending = drop a [7], after = EOF\<rparr>\<rparr>
            else \<lparr>StatusCode = 416, rs_body = \<lparr>pending = [], after = EOF\<rparr>\<rparr>)"
      using r [of req a "[]"] by (cases a) simp_all
  next
    fix req :: request and a
    assume "rq_range req = Some (ascii ''bytes='' @ decimal a @ [45, 45] @ decimal 1)"
    then show "byte_server req = Inr \<lparr>StatusCode = 200, rs_body = \<lparr>pending = [7], after = EOF\<rparr>\<rparr>"
      using r [of req a "45 # decimal 1"] by simp
  qed
qed

theorem GetPartialObject_range_witness:
  "GetPartialObject (\<lambda>_. True) byte_server \<lparr>Bucket = [98], Key = [107]\<rparr> 0 1 = Inr \<lparr>pending = [7], after = EOF\<rparr> \<and>
   GetPartialObject (\<lambda>_. True) byte_server \<lparr>Bucket = [98], Key = [107]\<rparr> 1 1 = Inl ErrInvalidRange"
  using GetPartialObject_range [OF _ _ _ byte_server_serves, of "\<lparr>Bucket = [98], Key = [107]\<rparr>" "\<lambda>_. True" 1 0]
    GetPartialObject_range [OF _ _ _ byte_server_serves, of "\<lparr>Bucket = [98], Key = [107]\<rparr>" "\<lambda>_. True" 1 1]
  by simp

end
