(* ===== verification/Cloud.thy ===== *)
theory Cloud
  imports Wkfs
begin

text \<open>
  Helpers for cloud services: \<open>oauthutil\<close> (tokens cached in a file of \<open>wkfs\<close>) and \<open>cloud/google/gceutil\<close> (images and instance groups). The services
  and the coding of tokens as JSON are parameters.
\<close>

section \<open>\<open>oauthutil\<close>\<close>

datatype token_error = ErrNoAuthCode | ExchangeFailed string | MarshalFailed | CacheFailed io_error

datatype cache_error = CacheRead io_error | CacheDecode | errExpiredToken | InvalidToken

record ('t, 'w) oauth_env =
  tok_Valid :: "'t \<Rightarrow> bool"
  tok_expired :: "'t \<Rightarrow> bool"
  tok_Unmarshal :: "bytes \<Rightarrow> 't option"
  tok_Marshal :: "'t \<Rightarrow> bytes option"
  Exchange :: "bytes \<Rightarrow> 'w \<Rightarrow> (string + 't) \<times> 'w"

record 'w TokenSource =
  CacheFile :: bytes
  AuthCode :: "('w \<Rightarrow> bytes \<times> 'w) option"

definition cachedToken ::
  "('t, 'w) oauth_env \<Rightarrow> ('w, 'i) FileSystem \<Rightarrow> ('w, 'i) registry \<Rightarrow> bytes \<Rightarrow> 'w \<Rightarrow> (cache_error + 't) \<times> 'w" where
  "cachedToken E osFS es cacheFile w =
     (case ReadFile osFS es cacheFile w of
       ((_, Some err), w) \<Rightarrow> (Inl (CacheRead err), w)
     | ((tokenData, None), w) \<Rightarrow>
         (case tok_Unmarshal E tokenData of
           None \<Rightarrow> (Inl CacheDecode, w)
         | Some tok \<Rightarrow>
             if \<not> tok_Valid E tok then (Inl (if tok_expired E tok then errExpiredToken else InvalidToken), w)
             else (Inr tok, w)))"

text \<open>A new token, and its way into the cache.\<close>

definition new_token ::
  "('t, 'w) oauth_env \<Rightarrow> ('w, 'i) FileSystem \<Rightarrow> ('w, 'i) registry \<Rightarrow> 'w TokenSource \<Rightarrow> 'w \<Rightarrow> (token_error + 't) \<times> 'w" where
  "new_token E osFS es src w =
     (case AuthCode src of
       None \<Rightarrow> (Inl ErrNoAuthCode, w)
     | Some code \<Rightarrow>
         let (c, w) = code w in
         (case Exchange E c w of
           (Inl err, w) \<Rightarrow> (Inl (ExchangeFailed err), w)
         | (Inr tok, w) \<Rightarrow>
             if CacheFile src = [] then (Inr tok, w)
             else (case tok_Marshal E tok of
               None \<Rightarrow> (Inl MarshalFailed, w)
             | Some tokenData \<Rightarrow>
                 (case WriteFile osFS es (CacheFile src) tokenData 384 w of
                   (Some err, w) \<Rightarrow> (Inl (CacheFailed err), w)
                 | (None, w) \<Rightarrow> (Inr tok, w)))))"

definition Token ::
  "('t, 'w) oauth_env \<Rightarrow> ('w, 'i) FileSystem \<Rightarrow> ('w, 'i) registry \<Rightarrow> 'w TokenSource \<Rightarrow> 'w \<Rightarrow> (token_error + 't) \<times> 'w" where
  "Token E osFS es src w =
     (if CacheFile src \<noteq> [] then
        (case cachedToken E osFS es (CacheFile src) w of
          (Inr tok, w) \<Rightarrow> (Inr tok, w)
        | (Inl err, w) \<Rightarrow> new_token E osFS es src w)
      else new_token E osFS es src w)"

text \<open>
  A token that was fetched and cached is the answer of the next call of \<open>Token\<close>, without asking for another authorization code, if it is valid, its JSON form
  can be read back, and the file gives back what was written to it. Without a cached token and without \<open>AuthCode\<close> the answer is \<open>ErrNoAuthCode\<close>. But a
  token that cannot be written to the cache is lost, although the authorization code has been spent.
\<close>

theorem Token_cached:
  assumes "CacheFile src \<noteq> []"
  shows "(new_token E osFS es src w = (Inr tok, w1) \<and> tok_Valid E tok \<and> tok_Marshal E tok = Some d \<and> tok_Unmarshal E d = Some tok \<and>
      ReadFile osFS es (CacheFile src) w1 = ((d, None), w2) \<longrightarrow> Token E osFS es src w1 = (Inr tok, w2)) \<and>
    (AuthCode src = None \<and> cachedToken E osFS es (CacheFile src) w = (Inl e, w1) \<longrightarrow> Token E osFS es src w = (Inl ErrNoAuthCode, w1)) \<and>
    (AuthCode src = Some code \<and> Exchange E (fst (code w)) (snd (code w)) = (Inr tok, w1) \<and> tok_Marshal E tok = Some d \<and>
      WriteFile osFS es (CacheFile src) d 384 w1 = (Some err, w2) \<longrightarrow> new_token E osFS es src w = (Inl (CacheFailed err), w2))"
  using assms by (auto simp: Token_def cachedToken_def new_token_def split: prod.split)

section \<open>\<open>gceutil\<close>\<close>

text \<open>Times are in nanoseconds since the zero time.\<close>

record osImage =
  SelfLink :: bytes
  CreationTimestamp :: int
  im_Name :: bytes

datatype image_error = GetFailed string | BadImageList | NoImages | NoStableImage bool

primrec image_loop :: "bytes \<Rightarrow> osImage list \<Rightarrow> bytes \<Rightarrow> int \<Rightarrow> bytes" where
  "image_loop imgPrefix [] imageURL mx = imageURL"
| "image_loop imgPrefix (v # vs) imageURL mx =
     (if \<not> prefix imgPrefix (im_Name v) then image_loop imgPrefix vs imageURL mx
      else if CreationTimestamp v > mx then image_loop imgPrefix vs (SelfLink v) (CreationTimestamp v)
      else image_loop imgPrefix vs imageURL mx)"

text \<open>The client is given the project; its answer is decoded JSON, if it could be decoded.\<close>

definition osImageURL :: "(bytes \<Rightarrow> string + osImage list option) \<Rightarrow> bool \<Rightarrow> image_error + bytes" where
  "osImageURL get cos =
     (case get (if cos then ascii ''cos-cloud'' else ascii ''coreos-cloud'') of
       Inl err \<Rightarrow> Inl (GetFailed err)
     | Inr None \<Rightarrow> Inl BadImageList
     | Inr (Some items) \<Rightarrow>
         if items = [] then Inl NoImages
         else let imageURL = image_loop (if cos then ascii ''cos-stable'' else ascii ''coreos-stable'') items [] 0 in
           if imageURL = [] then Inl (NoStableImage cos) else Inr imageURL)"

definition CoreOSImageURL :: "(bytes \<Rightarrow> string + osImage list option) \<Rightarrow> image_error + bytes" where
  "CoreOSImageURL get = osImageURL get False"

definition COSImageURL :: "(bytes \<Rightarrow> string + osImage list option) \<Rightarrow> image_error + bytes" where
  "COSImageURL get = osImageURL get True"

text \<open>An instance group and a manager have the address that identifies the group; a list may have a token for a next page.\<close>

datatype group_error = ManagersFailed string | TooManyManagers | GroupsFailed string | TooManyGroups

definition InstanceGroups ::
  "string + ((bytes \<times> 'm) list \<times> bytes) \<Rightarrow> string + ((bytes \<times> 'g) list \<times> bytes) \<Rightarrow> group_error + (bytes \<rightharpoonup> 'g \<times> 'm option)" where
  "InstanceGroups managers groups =
     (case managers of
       Inl err \<Rightarrow> Inl (ManagersFailed err)
     | Inr (ms, mtoken) \<Rightarrow>
         if mtoken \<noteq> [] then Inl TooManyManagers
         else let managedBy = foldl (\<lambda>m it. m(fst it \<mapsto> snd it)) Map.empty ms in
           (case groups of
             Inl err \<Rightarrow> Inl (GroupsFailed err)
           | Inr (gs, gtoken) \<Rightarrow>
               if gtoken \<noteq> [] then Inl TooManyGroups
               else Inr (foldl (\<lambda>m it. m(fst it \<mapsto> (snd it, managedBy (fst it)))) Map.empty gs)))"

text \<open>The newest image with the prefix, made after \<open>mx\<close>; the first of those made at the same time.\<close>

definition newest :: "bytes \<Rightarrow> osImage list \<Rightarrow> int \<Rightarrow> osImage \<Rightarrow> bool" where
  "newest p items mx v \<longleftrightarrow> prefix p (im_Name v) \<and> CreationTimestamp v > mx \<and>
     (\<exists>as bs. items = as @ v # bs \<and> (\<forall>u \<in> set as. prefix p (im_Name u) \<longrightarrow> CreationTimestamp u < CreationTimestamp v) \<and>
       (\<forall>u \<in> set bs. prefix p (im_Name u) \<longrightarrow> CreationTimestamp u \<le> CreationTimestamp v))"

lemma newest_Cons:
  assumes "newest p items m v" "mx \<le> m" "prefix p (im_Name x) \<longrightarrow> CreationTimestamp x < CreationTimestamp v"
  shows "newest p (x # items) mx v"
proof -
  obtain as bs where "items = as @ v # bs" "\<forall>u \<in> set as. prefix p (im_Name u) \<longrightarrow> CreationTimestamp u < CreationTimestamp v"
    "\<forall>u \<in> set bs. prefix p (im_Name u) \<longrightarrow> CreationTimestamp u \<le> CreationTimestamp v"
    using assms(1) unfolding newest_def by blast
  then have "\<exists>as bs. x # items = as @ v # bs \<and> (\<forall>u \<in> set as. prefix p (im_Name u) \<longrightarrow> CreationTimestamp u < CreationTimestamp v) \<and>
       (\<forall>u \<in> set bs. prefix p (im_Name u) \<longrightarrow> CreationTimestamp u \<le> CreationTimestamp v)"
    using assms(3) by (intro exI [of _ "x # as"] exI [of _ bs]) simp
  then show ?thesis using assms(1,2) unfolding newest_def by auto
qed

lemma newest_hd:
  assumes "prefix p (im_Name x)" "CreationTimestamp x > mx" "\<forall>u \<in> set items. prefix p (im_Name u) \<longrightarrow> CreationTimestamp u \<le> CreationTimestamp x"
  shows "newest p (x # items) mx x"
  unfolding newest_def using assms by (intro conjI exI [of _ "[]"] exI [of _ items]) simp_all

lemma image_loop_result:
  "(\<exists>v. newest p items mx v \<and> image_loop p items url mx = SelfLink v) \<or>
   image_loop p items url mx = url \<and> (\<forall>u \<in> set items. prefix p (im_Name u) \<longrightarrow> CreationTimestamp u \<le> mx)"
proof (induction items arbitrary: url mx)
  case (Cons x items)
  show ?case
  proof (cases "prefix p (im_Name x) \<and> CreationTimestamp x > mx")
    case True
    then have eq: "image_loop p (x # items) url mx = image_loop p items (SelfLink x) (CreationTimestamp x)" by simp
    have "newest p (x # items) mx v" if "newest p items (CreationTimestamp x) v" for v
      using that True by (intro newest_Cons [OF that]) (auto simp: newest_def)
    then show ?thesis unfolding eq using Cons [of "CreationTimestamp x" "SelfLink x"] True newest_hd [of p x mx items] by blast
  next
    case False
    then have eq: "image_loop p (x # items) url mx = image_loop p items url mx" by auto
    have "newest p (x # items) mx v" if "newest p items mx v" for v
      using that False by (intro newest_Cons [OF that]) (auto simp: newest_def)
    then show ?thesis unfolding eq using Cons [of mx url] False by auto
  qed
qed simp

text \<open>
  \<open>COSImageURL\<close> and \<open>CoreOSImageURL\<close> return the address of the newest of the images whose name has the prefix of the stable ones, the first of those
  made at the same time; it is an error if the service fails, lists nothing, or lists no stable image (with a date, and whose newest has an address).
\<close>

theorem osImageURL_newest:
  assumes "get (if cos then ascii ''cos-cloud'' else ascii ''coreos-cloud'') = Inr (Some items)"
    and "p = (if cos then ascii ''cos-stable'' else ascii ''coreos-stable'')"
  shows "(\<exists>v. newest p items 0 v \<and> osImageURL get cos = (if SelfLink v = [] then Inl (NoStableImage cos) else Inr (SelfLink v))) \<or>
    (\<forall>u \<in> set items. prefix p (im_Name u) \<longrightarrow> CreationTimestamp u \<le> 0) \<and> osImageURL get cos = Inl (if items = [] then NoImages else NoStableImage cos)"
proof -
  have eq: "osImageURL get cos = (if items = [] then Inl NoImages else let u = image_loop p items [] 0 in if u = [] then Inl (NoStableImage cos) else Inr u)"
    using assms by (simp add: osImageURL_def Let_def)
  show ?thesis
  proof (cases "items = []")
    case False
    then show ?thesis using image_loop_result [of p items 0 "[]"] unfolding eq by (auto simp: Let_def)
  qed (simp add: eq)
qed

theorem osImageURL_newest_witness:
  "osImageURL (\<lambda>_. Inr (Some [\<lparr>SelfLink = [1], CreationTimestamp = 5, im_Name = ascii ''cos-stable-1''\<rparr>, \<lparr>SelfLink = [2], CreationTimestamp = 9, im_Name = ascii ''cos-dev''\<rparr>])) True = Inr [1]"
proof -
  let ?v = "\<lparr>SelfLink = [1], CreationTimestamp = 5, im_Name = ascii ''cos-stable-1''\<rparr>" and ?w = "\<lparr>SelfLink = [2], CreationTimestamp = 9, im_Name = ascii ''cos-dev''\<rparr>"
  have "\<not> (\<forall>u \<in> set [?v, ?w]. prefix (ascii ''cos-stable'') (im_Name u) \<longrightarrow> CreationTimestamp u \<le> 0)" by (simp add: ascii_def)
  moreover have "SelfLink v = [1]" if "newest (ascii ''cos-stable'') [?v, ?w] 0 v" for v
  proof -
    have "v \<in> set [?v, ?w]" "prefix (ascii ''cos-stable'') (im_Name v)" using that unfolding newest_def by (metis in_set_conv_decomp)+
    then show ?thesis by (auto simp: ascii_def)
  qed
  ultimately show ?thesis using osImageURL_newest [of "\<lambda>_. Inr (Some [?v, ?w])" True "[?v, ?w]" "ascii ''cos-stable''"] by force
qed

lemma foldl_groups:
  "foldl (\<lambda>m it. m(fst it \<mapsto> f (snd it) (h (fst it)))) m0 gs = m0 ++ (\<lambda>k. map_option (\<lambda>g. f g (h k)) (map_of (rev gs) k))"
proof (induction gs arbitrary: m0)
  case (Cons x gs)
  show ?case unfolding foldl_Cons Cons by (rule ext) (auto simp: map_add_def split: option.split)
qed (simp add: map_add_def)

text \<open>Every group of the list is in the result, with the manager that names it, if there is one; of entries with the same address the last counts.\<close>

lemma InstanceGroups_result:
  "InstanceGroups (Inr (ms, [])) (Inr (gs, [])) = Inr (\<lambda>k. map_option (\<lambda>g. (g, map_of (rev ms) k)) (map_of (rev gs) k))"
  using foldl_groups [of "\<lambda>m _. m" "\<lambda>_. ()" Map.empty ms] foldl_groups [of Pair _ Map.empty gs]
  by (simp add: InstanceGroups_def Let_def option.map_ident map_add_def split: option.split)

end
