(* ===== verification/Cloudlaunch.thy ===== *)
theory Cloudlaunch
  imports Cloud Go_Path
begin

text \<open>
  The package \<open>cloud/cloudlaunch\<close>: a binary that copies itself to a storage bucket and makes an instance of Compute
  Engine that runs it, and that restarts when the copy changes. The services are parameters; their answers may depend on the requests
  made before, which are recorded. \<open>log.Fatal\<close> and \<open>os.Exit\<close> end the process with a code.
  The pauses between polls (\<open>time.Sleep\<close>, 15 and 2 seconds) change no state and are left out: a poll is numbered, not timed.
\<close>

section \<open>What the package uses of the standard library\<close>

text \<open>The encodings of the runes for which \<open>unicode.IsSpace\<close> holds, and \<open>strings.TrimSpace\<close>.\<close>

definition space_runes :: "bytes list" where
  "space_runes = [[9], [10], [11], [12], [13], [32], [194, 133], [194, 160], [225, 154, 128]] @
     map (\<lambda>b. [226, 128, b]) [128, 129, 130, 131, 132, 133, 134, 135, 136, 137, 138, 168, 169, 175] @ [[226, 129, 159], [227, 128, 128]]"

function trim_left :: "bytes list \<Rightarrow> bytes \<Rightarrow> bytes" where
  "trim_left sp s = (case find (\<lambda>r. r \<noteq> [] \<and> s \<noteq> [] \<and> prefix r s) sp of None \<Rightarrow> s | Some r \<Rightarrow> trim_left sp (drop (length r) s))"
  by pat_completeness auto
termination
  by (relation "measure (\<lambda>(sp, s). length s)") (auto simp: find_Some_iff)

declare trim_left.simps [simp del]

definition TrimSpace :: "bytes \<Rightarrow> bytes" where
  "TrimSpace s = rev (trim_left (map rev space_runes) (rev (trim_left space_runes s)))"

text \<open>\<open>path.Base\<close>.\<close>

definition path_Base :: "bytes \<Rightarrow> bytes" where
  "path_Base p =
     (if p = [] then dot
      else let q = rev (dropWhile (\<lambda>c. c = slash) (rev p)); b = rev (takeWhile (\<lambda>c. c \<noteq> slash) (rev q)) in
        if b = [] then [slash] else b)"

text \<open>\<open>strings.NewReplacer(\<dots>).Replace\<close>, for old strings that are not empty: the first of them, in the order of the arguments, that matches.\<close>

function replacer :: "(bytes \<times> bytes) list \<Rightarrow> bytes \<Rightarrow> bytes" where
  "replacer ps [] = []"
| "replacer ps (c # s) =
     (case find (\<lambda>(old, _). old \<noteq> [] \<and> prefix old (c # s)) ps of
       Some (old, new) \<Rightarrow> new @ replacer ps (drop (length old) (c # s))
     | None \<Rightarrow> c # replacer ps s)"
  by pat_completeness auto
termination
  by (relation "measure (\<lambda>(ps, s). length s)") (auto simp: find_Some_iff drop_Cons' split: if_splits)

section \<open>Configurations\<close>

datatype RestartPolicy = RestartOnUpdates | RestartNever

record Config =
  Name :: bytes
  Restart_Policy :: RestartPolicy
  UpdateStrategy :: bytes
  BinaryBucket :: bytes
  BinaryObject :: bytes
  GCEProjectID :: bytes
  Zone :: bytes
  SSD :: bool
  Scopes :: "bytes list"
  MachineType :: bytes
  InstanceName :: bytes

definition strDefault :: "bytes \<Rightarrow> bytes \<Rightarrow> bytes" where
  "strDefault a b = (if a \<noteq> [] then a else b)"

definition instName :: "Config \<Rightarrow> bytes" where "instName c = Name c"
definition cl_zone :: "Config \<Rightarrow> bytes" where "cl_zone c = strDefault (Zone c) (ascii ''us-central1-f'')"
definition machineType :: "Config \<Rightarrow> bytes" where "machineType c = strDefault (MachineType c) (ascii ''g1-small'')"
definition binaryObject :: "Config \<Rightarrow> bytes" where "binaryObject c = strDefault (BinaryObject c) (Name c)"
definition updateStrategy :: "Config \<Rightarrow> bytes" where "updateStrategy c = strDefault (UpdateStrategy c) (ascii ''best-effort'')"

definition binaryURL :: "Config \<Rightarrow> bytes" where
  "binaryURL c = ascii ''https://storage.googleapis.com/'' @ BinaryBucket c @ ascii ''/'' @ binaryObject c"

definition projectAPIURL :: "Config \<Rightarrow> bytes" where
  "projectAPIURL c = ascii ''https://www.googleapis.com/compute/v1/projects/'' @ GCEProjectID c"

definition machineTypeURL :: "Config \<Rightarrow> bytes" where
  "machineTypeURL c = projectAPIURL c @ ascii ''/zones/'' @ cl_zone c @ ascii ''/machineTypes/'' @ machineType c"

text \<open>The \<open>cloud-config\<close> of the instance, line by line.\<close>

definition baseConfig :: bytes where
  "baseConfig = concat (map (\<lambda>l. l @ [10])
     [ascii ''#cloud-config'',
      ascii ''coreos:'',
      ascii ''  update:'',
      ascii ''    group: stable'',
      ascii ''    reboot-strategy: $REBOOT'',
      ascii ''  units:'',
      ascii ''    - name: $NAME.service'',
      ascii ''      command: start'',
      ascii ''      content: |'',
      ascii ''        [Unit]'',
      ascii ''        Description=$NAME service'',
      ascii ''        After=network.target'',
      ascii ''        '',
      ascii ''        [Service]'',
      ascii ''        Type=simple'',
      ascii ''        ExecStartPre=/bin/sh -c '' @ [39] @ ascii ''mkdir -p /opt/bin && /usr/bin/curl --silent -f -o /opt/bin/$NAME $URL?$(date +%s) && chmod +x /opt/bin/$NAME'' @ [39],
      ascii ''        ExecStart=/opt/bin/$NAME'',
      ascii ''        RestartSec=10'',
      ascii ''        Restart=always'',
      ascii ''        StartLimitInterval=0'',
      ascii ''        '',
      ascii ''        [Install]'',
      ascii ''        WantedBy=network-online.target''])"

definition cloudConfig :: "Config \<Rightarrow> bytes" where
  "cloudConfig c = replacer
     [(ascii ''$NAME'', Name c), (ascii ''$URL'', binaryURL c), (ascii ''$REBOOT'', updateStrategy c)] baseConfig"

section \<open>Requests\<close>

datatype acl_entity = ProjectOwners bytes | AllUsers
datatype acl_role = RoleOwner | RoleReader

record AttachedDisk =
  AutoDelete :: bool
  Boot :: bool
  disk_Type :: bytes
  DiskName :: bytes
  SourceImage :: bytes
  DiskSizeGb :: nat
  DiskType :: bytes

text \<open>An instance: one disk, one network interface with one access configuration, one service account.\<close>

record Instance =
  inst_Name :: bytes
  Description :: bytes
  inst_MachineType :: bytes
  Disks :: "AttachedDisk list"
  Tags :: "bytes list"
  Metadata :: "(bytes \<times> bytes) list"
  access_Type :: bytes
  access_Name :: bytes
  NatIP :: bytes
  Network :: bytes
  account_Email :: bytes
  account_Scopes :: "bytes list"

record Address =
  addr_Name :: bytes
  addr_Status :: bytes
  addr_Region :: bytes
  addr_Address :: bytes

record Operation =
  op_Status :: bytes
  op_failed :: bool

datatype request =
  Upload bytes bytes "(acl_entity \<times> acl_role) list" bytes bytes
| GetInstance bytes bytes bytes
| ListAddresses bytes
| InsertInstance bytes bytes Instance
| GetOperation bytes bytes bytes

datatype get_result = Found | ApiError int | OtherError

text \<open>
  The services and the system. An answer depends on the requests before it where it may change over time; the numbered answers are
  those of \<open>http.Head\<close> (the ETag, empty if there is none) and of the clock in \<open>restartLoop\<close>.
\<close>

record launch_env =
  le_doLaunch :: bool
  le_linux :: bool
  le_amd64 :: bool
  le_HOME :: bytes
  le_readFile :: "bytes \<Rightarrow> bytes option"
  le_DevstorageFullControlScope :: bytes
  le_ComputeScope :: bytes
  le_JWTConfigFromJSON :: "bytes \<Rightarrow> bytes list \<Rightarrow> bool"
  le_NewClient :: bool
  le_Readlink :: "bytes option"
  le_open :: "bytes \<Rightarrow> bytes option"
  le_copy :: "bytes \<Rightarrow> bool"
  le_close :: "bytes \<Rightarrow> bool"
  le_instance :: "request list \<Rightarrow> get_result"
  le_addresses :: "bytes \<Rightarrow> Address list list option"
  le_images :: "bytes \<Rightarrow> string + osImage list option"
  le_insert :: "Instance \<Rightarrow> bytes option"
  le_operation :: "request list \<Rightarrow> Operation option"
  le_OnGCE :: bool
  le_Unix :: "nat \<Rightarrow> nat"
  le_head :: "nat \<Rightarrow> bytes \<Rightarrow> bytes option"

text \<open>How a piece of code ends, after which requests.\<close>

datatype 'a ending = Value 'a | Exit nat | Panic

type_synonym 'a launch = "request list \<Rightarrow> 'a ending \<times> request list"

abbreviation fatal :: "'a launch" where
  "fatal tr \<equiv> (Exit 1, tr)"

section \<open>Restarting\<close>

text \<open>The loop, from the \<open>n\<close>th request on: the number of the request after which the process exits, or \<open>None\<close> if it never does.\<close>

partial_function (option) restart_loop :: "(nat \<Rightarrow> bytes option) \<Rightarrow> nat \<Rightarrow> bytes \<Rightarrow> nat option" where
  "restart_loop head n lastEtag =
     (case head n of
       None \<Rightarrow> restart_loop head (Suc n) lastEtag
     | Some etag \<Rightarrow>
         if etag = [] then restart_loop head (Suc n) lastEtag
         else if lastEtag \<noteq> [] \<and> etag \<noteq> lastEtag then Some n
         else restart_loop head (Suc n) etag)"

datatype restart_result = NoLoop | Polls "nat option"

definition restartLoop :: "launch_env \<Rightarrow> Config \<Rightarrow> restart_result" where
  "restartLoop E c =
     (if \<not> le_OnGCE E then NoLoop
      else if Restart_Policy c = RestartNever then NoLoop
      else Polls (restart_loop (\<lambda>n. le_head E n (binaryURL c @ ascii ''?'' @ decimal (le_Unix E n))) 0 []))"

section \<open>Uploading\<close>

definition getSelfPath :: "launch_env \<Rightarrow> bytes launch" where
  "getSelfPath E tr =
     (if \<not> le_linux E then (Panic, tr)
      else case le_Readlink E of None \<Rightarrow> fatal tr | Some v \<Rightarrow> (Value v, tr))"

definition uploadBinary :: "launch_env \<Rightarrow> Config \<Rightarrow> unit launch" where
  "uploadBinary E c tr =
     (if BinaryBucket c = [] then fatal tr
      else if \<not> le_NewClient E then fatal tr
      else case getSelfPath E tr of
        (Exit n, tr) \<Rightarrow> (Exit n, tr)
      | (Panic, tr) \<Rightarrow> (Panic, tr)
      | (Value selfPath, tr) \<Rightarrow>
          (case le_open E selfPath of
            None \<Rightarrow> fatal tr
          | Some f \<Rightarrow>
              if \<not> le_copy E f then fatal tr
              else if \<not> le_close E f then fatal tr
              else (Value (), tr @ [Upload (BinaryBucket c) (binaryObject c)
                [(ProjectOwners (GCEProjectID c), RoleOwner), (AllUsers, RoleReader)] (ascii ''no-cache'') f])))"

section \<open>Making the instance\<close>

text \<open>\<open>None\<close> is a panic.\<close>

definition zoneInRegion :: "bytes \<Rightarrow> bytes \<Rightarrow> bool option" where
  "zoneInRegion zone regionURL =
     (if zone = [] then None
      else if regionURL = [] then None
      else let region = path_Base regionURL in
        if region = [] then None else Some (prefix region zone))"

text \<open>The addresses of one scope; \<open>Some None\<close> if none of them fits.\<close>

primrec scope_loop :: "Config \<Rightarrow> Address list \<Rightarrow> bytes option option" where
  "scope_loop c [] = Some None"
| "scope_loop c (a # as) =
     (if addr_Name a = Name c @ ascii ''-ip'' \<and> addr_Status a = ascii ''RESERVED'' then
        (case zoneInRegion (cl_zone c) (addr_Region a) of
          None \<Rightarrow> None
        | Some True \<Rightarrow> Some (Some (addr_Address a))
        | Some False \<Rightarrow> scope_loop c as)
      else scope_loop c as)"

primrec ip_loop :: "Config \<Rightarrow> Address list list \<Rightarrow> bytes option" where
  "ip_loop c [] = Some []"
| "ip_loop c (as # ass) = (case scope_loop c as of None \<Rightarrow> None | Some (Some ip) \<Rightarrow> Some ip | Some None \<Rightarrow> ip_loop c ass)"

text \<open>The scopes come in the order in which the map of the answer is iterated.\<close>

definition findIP :: "launch_env \<Rightarrow> Config \<Rightarrow> bytes launch" where
  "findIP E c tr =
     (let tr = tr @ [ListAddresses (GCEProjectID c)] in
      case le_addresses E (GCEProjectID c) of
        None \<Rightarrow> fatal tr
      | Some items \<Rightarrow> (case ip_loop c items of None \<Rightarrow> (Panic, tr) | Some ip \<Rightarrow> (Value ip, tr)))"

definition get_request :: "Config \<Rightarrow> request" where
  "get_request c = GetInstance (GCEProjectID c) (cl_zone c) (instName c)"

text \<open>Whether the instance exists.\<close>

definition lookupInstance :: "launch_env \<Rightarrow> Config \<Rightarrow> bool launch" where
  "lookupInstance E c tr =
     (let tr = tr @ [get_request c] in
      case le_instance E tr of
        Found \<Rightarrow> (Value True, tr)
      | ApiError code \<Rightarrow> if code = 404 then (Value False, tr) else fatal tr
      | OtherError \<Rightarrow> fatal tr)"

definition instanceDisk :: "launch_env \<Rightarrow> Config \<Rightarrow> AttachedDisk launch" where
  "instanceDisk E c tr =
     (case CoreOSImageURL (le_images E) of
       Inl err \<Rightarrow> fatal tr
     | Inr imageURL \<Rightarrow> (Value
         \<lparr>AutoDelete = True, Boot = True, disk_Type = ascii ''PERSISTENT'',
          DiskName = instName c @ ascii ''-coreos-stateless-pd'', SourceImage = imageURL, DiskSizeGb = 50,
          DiskType = (if SSD c then projectAPIURL c @ ascii ''/zones/'' @ cl_zone c @ ascii ''/diskTypes/pd-ssd'' else [])\<rparr>, tr))"

definition new_instance :: "Config \<Rightarrow> bytes \<Rightarrow> AttachedDisk \<Rightarrow> Instance" where
  "new_instance c ip disk =
     \<lparr>inst_Name = instName c, Description = Name c, inst_MachineType = machineTypeURL c, Disks = [disk],
      Tags = [ascii ''http-server'', ascii ''https-server''], Metadata = [(ascii ''user-data'', cloudConfig c)],
      access_Type = ascii ''ONE_TO_ONE_NAT'', access_Name = ascii ''External NAT'', NatIP = ip,
      Network = projectAPIURL c @ ascii ''/global/networks/default'',
      account_Email = ascii ''default'', account_Scopes = Scopes c\<rparr>"

text \<open>Waiting for the operation (every two seconds); \<open>None\<close> if it never ends.\<close>

partial_function (option) op_loop :: "launch_env \<Rightarrow> request \<Rightarrow> request list \<Rightarrow> (unit ending \<times> request list) option" where
  "op_loop E rq tr =
     (case le_operation E (tr @ [rq]) of
       None \<Rightarrow> Some (fatal (tr @ [rq]))
     | Some op \<Rightarrow>
         if op_Status op = ascii ''PENDING'' \<or> op_Status op = ascii ''RUNNING'' then op_loop E rq (tr @ [rq])
         else if op_Status op = ascii ''DONE'' then
           (if op_failed op then Some (fatal (tr @ [rq])) else Some (Value (), tr @ [rq]))
         else Some (fatal (tr @ [rq])))"

text \<open>After the instance has been inserted.\<close>

definition await_instance :: "launch_env \<Rightarrow> Config \<Rightarrow> bytes \<Rightarrow> request list \<Rightarrow> (unit ending \<times> request list) option" where
  "await_instance E c opName tr =
     (case op_loop E (GetOperation (GCEProjectID c) (cl_zone c) opName) tr of
       None \<Rightarrow> None
     | Some (Value _, tr) \<Rightarrow>
         let tr = tr @ [get_request c] in
         Some (if le_instance E tr = Found then (Exit 0, tr) else fatal tr)
     | Some r \<Rightarrow> Some r)"

definition createInstance :: "launch_env \<Rightarrow> Config \<Rightarrow> request list \<Rightarrow> (unit ending \<times> request list) option" where
  "createInstance E c tr =
     (case lookupInstance E c tr of
       (Exit n, tr) \<Rightarrow> Some (Exit n, tr)
     | (Panic, tr) \<Rightarrow> Some (Panic, tr)
     | (Value True, tr) \<Rightarrow> Some (Value (), tr)
     | (Value False, tr) \<Rightarrow>
         (case findIP E c tr of
           (Exit n, tr) \<Rightarrow> Some (Exit n, tr)
         | (Panic, tr) \<Rightarrow> Some (Panic, tr)
         | (Value ip, tr) \<Rightarrow>
             (case instanceDisk E c tr of
               (Exit n, tr) \<Rightarrow> Some (Exit n, tr)
             | (Panic, tr) \<Rightarrow> Some (Panic, tr)
             | (Value disk, tr) \<Rightarrow>
                 let inst = new_instance c ip disk; tr = tr @ [InsertInstance (GCEProjectID c) (cl_zone c) inst] in
                 (case le_insert E inst of
                   None \<Rightarrow> Some (fatal tr)
                 | Some opName \<Rightarrow> await_instance E c opName tr))))"

section \<open>Deploying\<close>

text \<open>\<open>None\<close> is the end of the process.\<close>

definition readFile :: "launch_env \<Rightarrow> bytes \<Rightarrow> bytes option" where
  "readFile E v = map_option TrimSpace (le_readFile E v)"

definition cloud_platform_scopes :: "launch_env \<Rightarrow> Config \<Rightarrow> bytes list" where
  "cloud_platform_scopes E c =
     [le_DevstorageFullControlScope E, le_ComputeScope E, ascii ''https://www.googleapis.com/auth/cloud-platform''] @ Scopes c"

text \<open>
  Without the flag the call returns, with \<open>restartLoop\<close> in the background. With it, the process ends, or waits for ever; a panic runs the deferred
  \<open>os.Exit(1)\<close>.
\<close>

datatype deploy_result = Serves restart_result | Exits nat "request list" | Waits

definition MaybeDeploy :: "launch_env \<Rightarrow> Config \<Rightarrow> deploy_result" where
  "MaybeDeploy E c =
     (if \<not> le_doLaunch E then Serves (restartLoop E c)
      else if \<not> le_linux E \<or> \<not> le_amd64 E then Exits 1 []
      else if GCEProjectID c = [] then Exits 1 []
      else case readFile E (Join [le_HOME E, ascii ''keys'', GCEProjectID c @ ascii ''.key.json'']) of
        None \<Rightarrow> Exits 1 []
      | Some key \<Rightarrow>
          if \<not> le_JWTConfigFromJSON E key (cloud_platform_scopes E c) then Exits 1 []
          else (case uploadBinary E c [] of
            (Exit n, tr) \<Rightarrow> Exits n tr
          | (Panic, tr) \<Rightarrow> Exits 1 tr
          | (Value _, tr) \<Rightarrow>
              (case createInstance E c tr of
                None \<Rightarrow> Waits
              | Some (Exit n, tr) \<Rightarrow> Exits n tr
              | Some (Panic, tr) \<Rightarrow> Exits 1 tr
              | Some (Value _, tr) \<Rightarrow> Exits 0 tr)))"

section \<open>The restart\<close>

text \<open>The \<open>m\<close>th answer has another ETag than one before.\<close>

definition changed :: "(nat \<Rightarrow> bytes option) \<Rightarrow> nat \<Rightarrow> bool" where
  "changed head m \<longleftrightarrow> (\<exists>e. head m = Some e \<and> e \<noteq> [] \<and> (\<exists>i<m. \<exists>d. head i = Some d \<and> d \<noteq> [] \<and> d \<noteq> e))"

text \<open>What \<open>lastEtag\<close> is before the \<open>n\<close>th request.\<close>

definition last_etag :: "(nat \<Rightarrow> bytes option) \<Rightarrow> nat \<Rightarrow> bytes \<Rightarrow> bool" where
  "last_etag head n l \<longleftrightarrow> (l \<noteq> [] \<longrightarrow> (\<exists>i<n. head i = Some l)) \<and> (\<forall>i<n. \<forall>d. head i = Some d \<and> d \<noteq> [] \<longrightarrow> d = l)"

lemma last_etag_0: "last_etag head 0 []"
  by (simp add: last_etag_def)

lemma last_etag_skip: "last_etag head n l \<Longrightarrow> head n = None \<or> head n = Some [] \<Longrightarrow> last_etag head (Suc n) l"
  unfolding last_etag_def by (metis less_Suc_eq option.distinct(1) option.inject)

lemma last_etag_keep: "last_etag head n l \<Longrightarrow> head n = Some e \<Longrightarrow> e \<noteq> [] \<Longrightarrow> l = [] \<or> e = l \<Longrightarrow> last_etag head (Suc n) e"
  unfolding last_etag_def by (auto simp: less_Suc_eq)

lemma last_etag_changed: "last_etag head n l \<Longrightarrow> changed head n \<longleftrightarrow> (\<exists>e. head n = Some e \<and> e \<noteq> [] \<and> l \<noteq> [] \<and> e \<noteq> l)"
  unfolding last_etag_def changed_def by metis

lemma restart_loop_unchanged:
  assumes "last_etag head n l" "\<not> changed head n"
  obtains l' where "last_etag head (Suc n) l'" "restart_loop head n l = restart_loop head (Suc n) l'"
proof -
  consider "head n = None \<or> head n = Some []" | e where "head n = Some e" "e \<noteq> []" "l = [] \<or> e = l"
    using assms last_etag_changed [OF assms(1)] by (metis not_None_eq)
  then show thesis
  proof cases
    case 1
    then show thesis using that [OF last_etag_skip [OF assms(1) 1]] by (auto simp: restart_loop.simps [of head n])
  next
    case 2
    then show thesis using that [OF last_etag_keep [OF assms(1) 2]] by (auto simp: restart_loop.simps [of head n])
  qed
qed

lemma restart_loop_changed: "last_etag head n l \<Longrightarrow> changed head n \<Longrightarrow> restart_loop head n l = Some n"
  using last_etag_changed [of head n l] by (auto simp: restart_loop.simps [of head n])

lemma restart_loop_finds:
  assumes "changed head m" "\<forall>i<m. \<not> changed head i"
  shows "n \<le> m \<Longrightarrow> last_etag head n l \<Longrightarrow> restart_loop head n l = Some m"
proof (induction "m - n" arbitrary: n l)
  case 0
  then show ?case using restart_loop_changed assms(1) by simp
next
  case (Suc k)
  then have "n < m" by simp
  with assms(2) obtain l' where "last_etag head (Suc n) l'" "restart_loop head n l = restart_loop head (Suc n) l'"
    using restart_loop_unchanged [OF Suc.prems(2)] by blast
  then show ?case using Suc.hyps \<open>n < m\<close> by simp
qed

lemma restart_loop_Some:
  assumes "restart_loop head n l = Some m"
  shows "last_etag head n l \<longrightarrow> changed head m"
proof (rule restart_loop.raw_induct [OF _ assms, where P = "\<lambda>head n l m. last_etag head n l \<longrightarrow> changed head m"])
  fix loop head n l m
  assume IH: "\<And>head n l m. loop head n l = Some m \<Longrightarrow> last_etag head n l \<longrightarrow> changed head m"
    and body: "(case head n of None \<Rightarrow> loop head (Suc n) l
      | Some etag \<Rightarrow> if etag = [] then loop head (Suc n) l
          else if l \<noteq> [] \<and> etag \<noteq> l then Some n else loop head (Suc n) etag) = Some m"
  show "last_etag head n l \<longrightarrow> changed head m"
  proof
    assume inv: "last_etag head n l"
    show "changed head m"
    proof (cases "changed head n")
      case True
      then have "m = n" using last_etag_changed [OF inv] body by auto
      then show ?thesis using True by simp
    next
      case False
      then show ?thesis
        using last_etag_changed [OF inv] body IH last_etag_skip [OF inv] last_etag_keep [OF inv]
        by (cases "head n") (auto split: if_splits)
    qed
  qed
qed

text \<open>
  C38: In the background of a running binary, \<open>restartLoop\<close> ends the process after exactly the first answer whose ETag
  differs from one seen before; failed requests and answers without an ETag are passed over; if there never is a
  different one, the loop runs for ever. It does not poll at all outside Compute Engine or with \<open>RestartNever\<close>.
\<close>

theorem restartLoop_first_change:
  "restartLoop E c =
    (if le_OnGCE E \<and> Restart_Policy c = RestartOnUpdates then
       (let head = (\<lambda>n. le_head E n (binaryURL c @ ascii ''?'' @ decimal (le_Unix E n))) in
        Polls (if \<exists>m. changed head m then Some (LEAST m. changed head m) else None))
     else NoLoop)"
proof -
  have "restart_loop head 0 [] = (if \<exists>m. changed head m then Some (LEAST m. changed head m) else None)" for head
  proof (cases "\<exists>m. changed head m")
    case True
    have "restart_loop head 0 [] = Some (LEAST m. changed head m)"
      by (rule restart_loop_finds [OF LeastI_ex [OF True] _ _ last_etag_0]) (auto dest: not_less_Least)
    then show ?thesis using True by simp
  next
    case False
    then show ?thesis using restart_loop_Some [of head 0 "[]"] last_etag_0 by (cases "restart_loop head 0 []") auto
  qed
  then show ?thesis by (cases "Restart_Policy c") (simp_all add: restartLoop_def Let_def)
qed

section \<open>The operation\<close>

text \<open>The operation is not over, and it is over without an error, as of the last request.\<close>

definition op_pending :: "launch_env \<Rightarrow> request list \<Rightarrow> bool" where
  "op_pending E tr \<longleftrightarrow> (\<exists>op. le_operation E tr = Some op \<and> (op_Status op = ascii ''PENDING'' \<or> op_Status op = ascii ''RUNNING''))"

definition op_done :: "launch_env \<Rightarrow> request list \<Rightarrow> bool" where
  "op_done E tr \<longleftrightarrow> (\<exists>op. le_operation E tr = Some op \<and> op_Status op = ascii ''DONE'' \<and> \<not> op_failed op)"

lemma op_loop_step:
  "op_loop E rq tr =
    (if op_pending E (tr @ [rq]) then op_loop E rq (tr @ [rq])
     else Some (if op_done E (tr @ [rq]) then Value () else Exit 1, tr @ [rq]))"
  by (auto simp: op_loop.simps [of E rq tr] op_pending_def op_done_def ascii_def split: option.split)

lemma op_loop_ends:
  "\<forall>j<k. op_pending E (tr @ replicate (Suc j) rq) \<Longrightarrow> \<not> op_pending E (tr @ replicate (Suc k) rq) \<Longrightarrow>
    op_loop E rq tr = Some (if op_done E (tr @ replicate (Suc k) rq) then Value () else Exit 1, tr @ replicate (Suc k) rq)"
proof (induction k arbitrary: tr)
  case 0
  then show ?case by (simp add: op_loop_step [of E rq tr])
next
  case (Suc k)
  have "op_pending E (tr @ [rq])" using Suc.prems(1) by force
  moreover have "op_pending E ((tr @ [rq]) @ replicate (Suc j) rq)" if "j < k" for j
    using Suc.prems(1) [rule_format, of "Suc j"] that by simp
  ultimately show ?case using Suc.IH [of "tr @ [rq]"] Suc.prems(2) by (simp add: op_loop_step [of E rq tr])
qed

lemma op_loop_Some:
  assumes "op_loop E rq tr = Some x"
  shows "\<exists>k. \<not> op_pending E (tr @ replicate (Suc k) rq)"
proof (rule op_loop.raw_induct [OF _ assms, where P = "\<lambda>E rq tr x. \<exists>k. \<not> op_pending E (tr @ replicate (Suc k) rq)"])
  fix loop E rq tr and x :: "unit ending \<times> request list"
  assume IH: "\<And>E rq tr x. loop E rq tr = Some x \<Longrightarrow> \<exists>k. \<not> op_pending E (tr @ replicate (Suc k) rq)"
    and body: "(case le_operation E (tr @ [rq]) of
       None \<Rightarrow> Some (fatal (tr @ [rq]))
     | Some op \<Rightarrow>
         if op_Status op = ascii ''PENDING'' \<or> op_Status op = ascii ''RUNNING'' then loop E rq (tr @ [rq])
         else if op_Status op = ascii ''DONE'' then
           (if op_failed op then Some (fatal (tr @ [rq])) else Some (Value (), tr @ [rq]))
         else Some (fatal (tr @ [rq]))) = Some x"
  show "\<exists>k. \<not> op_pending E (tr @ replicate (Suc k) rq)"
  proof (cases "op_pending E (tr @ [rq])")
    case True
    then have "loop E rq (tr @ [rq]) = Some x" using body by (auto simp: op_pending_def split: option.splits)
    then obtain k where "\<not> op_pending E ((tr @ [rq]) @ replicate (Suc k) rq)" using IH by blast
    then show ?thesis by (intro exI [of _ "Suc k"]) simp
  next
    case False
    then show ?thesis by (intro exI [of _ 0]) simp
  qed
qed

lemma op_loop_cases:
  obtains (never) "op_loop E rq tr = None" "\<forall>k. op_pending E (tr @ replicate (Suc k) rq)"
  | (ends) k where "op_loop E rq tr = Some (if op_done E (tr @ replicate (Suc k) rq) then Value () else Exit 1, tr @ replicate (Suc k) rq)"
    "\<not> op_pending E (tr @ replicate (Suc k) rq)"
proof (cases "\<exists>k. \<not> op_pending E (tr @ replicate (Suc k) rq)")
  case True
  then obtain k where "\<not> op_pending E (tr @ replicate (Suc k) rq)" "\<forall>j<k. op_pending E (tr @ replicate (Suc j) rq)"
    using exists_least_iff [of "\<lambda>k. \<not> op_pending E (tr @ replicate (Suc k) rq)"] by blast
  then show thesis using op_loop_ends ends by blast
next
  case False
  then have "op_loop E rq tr = None" using op_loop_Some [of E rq tr] by (metis not_None_eq)
  then show thesis using False never by blast
qed

section \<open>What a deployment does\<close>

text \<open>The requests of a deployment.\<close>

definition upload_request :: "Config \<Rightarrow> bytes \<Rightarrow> request" where
  "upload_request c f = Upload (BinaryBucket c) (binaryObject c)
     [(ProjectOwners (GCEProjectID c), RoleOwner), (AllUsers, RoleReader)] (ascii ''no-cache'') f"

definition insert_request :: "Config \<Rightarrow> bytes \<Rightarrow> AttachedDisk \<Rightarrow> request" where
  "insert_request c ip disk = InsertInstance (GCEProjectID c) (cl_zone c) (new_instance c ip disk)"

definition poll_request :: "Config \<Rightarrow> bytes \<Rightarrow> request" where
  "poll_request c opName = GetOperation (GCEProjectID c) (cl_zone c) opName"

text \<open>The ways in which \<open>createInstance\<close> can end after the requests \<open>tr\<close>, and go on for ever.\<close>

inductive created :: "launch_env \<Rightarrow> Config \<Rightarrow> request list \<Rightarrow> unit ending \<Rightarrow> request list \<Rightarrow> bool" for E c tr where
  exists: "le_instance E (tr @ [get_request c]) = Found \<Longrightarrow> created E c tr (Value ()) [get_request c]"
| unknown: "le_instance E (tr @ [get_request c]) \<notin> {Found, ApiError 404} \<Longrightarrow> created E c tr (Exit 1) [get_request c]"
| no_address: "le_instance E (tr @ [get_request c]) = ApiError 404 \<Longrightarrow> r \<in> {Exit 1, Panic} \<Longrightarrow>
    created E c tr r [get_request c, ListAddresses (GCEProjectID c)]"
| refused: "le_instance E (tr @ [get_request c]) = ApiError 404 \<Longrightarrow>
    created E c tr (Exit 1) [get_request c, ListAddresses (GCEProjectID c), insert_request c ip disk]"
| failed: "le_instance E (tr @ [get_request c]) = ApiError 404 \<Longrightarrow>
    ts = [get_request c, ListAddresses (GCEProjectID c), insert_request c ip disk] @ replicate (Suc k) (poll_request c opName) \<Longrightarrow>
    \<not> op_done E (tr @ ts) \<Longrightarrow> created E c tr (Exit 1) ts"
| finished: "le_instance E (tr @ [get_request c]) = ApiError 404 \<Longrightarrow>
    ts = [get_request c, ListAddresses (GCEProjectID c), insert_request c ip disk] @ replicate (Suc k) (poll_request c opName) \<Longrightarrow>
    op_done E (tr @ ts) \<Longrightarrow> r = (if le_instance E (tr @ ts @ [get_request c]) = Found then Exit 0 else Exit 1) \<Longrightarrow>
    created E c tr r (ts @ [get_request c])"

lemma await_instance_created:
  assumes "await_instance E c opName (tr @ [get_request c, ListAddresses (GCEProjectID c), insert_request c ip disk]) = Some (r, tr')"
    and "le_instance E (tr @ [get_request c]) = ApiError 404"
  shows "\<exists>ts. tr' = tr @ ts \<and> created E c tr r ts"
proof -
  let ?rq = "poll_request c opName" and ?pre = "[get_request c, ListAddresses (GCEProjectID c), insert_request c ip disk]"
  show ?thesis
  proof (cases rule: op_loop_cases [of E ?rq "tr @ ?pre"])
    case never
    then show ?thesis using assms(1) by (simp add: await_instance_def poll_request_def)
  next
    case (ends k)
    let ?ts = "?pre @ replicate (Suc k) ?rq"
    show ?thesis
    proof (cases "op_done E (tr @ ?ts)")
      case True
      then have "tr' = tr @ ?ts @ [get_request c]" "r = (if le_instance E (tr @ ?ts @ [get_request c]) = Found then Exit 0 else Exit 1)"
        using ends(1) assms(1) by (auto simp: await_instance_def poll_request_def Let_def split: if_splits)
      then show ?thesis using finished [OF assms(2) refl True] by blast
    next
      case False
      then have "tr' = tr @ ?ts" "r = Exit 1" using ends(1) assms(1) by (auto simp: await_instance_def poll_request_def)
      then show ?thesis using failed [OF assms(2) refl False] by blast
    qed
  qed
qed

lemma findIP_result:
  "(\<exists>ip. findIP E c tr = (Value ip, tr @ [ListAddresses (GCEProjectID c)])) \<or>
   findIP E c tr \<in> {(Exit 1, tr @ [ListAddresses (GCEProjectID c)]), (Panic, tr @ [ListAddresses (GCEProjectID c)])}"
  by (simp add: findIP_def Let_def split: option.split)

lemma createInstance_created:
  assumes "createInstance E c tr = Some (r, tr')"
  shows "\<exists>ts. tr' = tr @ ts \<and> created E c tr r ts"
proof (cases "le_instance E (tr @ [get_request c]) = ApiError 404")
  case True
  then have look: "lookupInstance E c tr = (Value False, tr @ [get_request c])" by (simp add: lookupInstance_def)
  let ?tr = "tr @ [get_request c, ListAddresses (GCEProjectID c)]"
  consider r0 where "findIP E c (tr @ [get_request c]) = (r0, ?tr)" "r0 \<in> {Exit 1, Panic}"
    | ip where "findIP E c (tr @ [get_request c]) = (Value ip, ?tr)"
    using findIP_result [of E c "tr @ [get_request c]"] by auto
  then show ?thesis
  proof cases
    case 1
    then have "tr' = ?tr" "r \<in> {Exit 1, Panic}" using assms look by (auto simp: createInstance_def)
    then show ?thesis using no_address [OF True] by blast
  next
    case 2
    show ?thesis
    proof (cases "CoreOSImageURL (le_images E)")
      case (Inl e)
      then have "tr' = ?tr" "r = Exit 1" using assms look 2 by (auto simp: createInstance_def instanceDisk_def)
      then show ?thesis using no_address [OF True] by blast
    next
      case (Inr url)
      then obtain disk where disk: "instanceDisk E c ?tr = (Value disk, ?tr)" by (simp add: instanceDisk_def)
      show ?thesis
      proof (cases "le_insert E (new_instance c ip disk)")
        case None
        then have "tr' = tr @ [get_request c, ListAddresses (GCEProjectID c), insert_request c ip disk]" "r = Exit 1"
          using assms look 2 disk by (auto simp: createInstance_def insert_request_def Let_def)
        then show ?thesis using refused [OF True] by blast
      next
        case (Some opName)
        then show ?thesis using assms look 2 disk await_instance_created [OF _ True, of opName ip disk r tr']
          by (simp add: createInstance_def insert_request_def)
      qed
    qed
  qed
next
  case False
  then show ?thesis using assms exists [of E tr c] unknown [of E tr c]
    by (cases "le_instance E (tr @ [get_request c])") (auto simp: createInstance_def lookupInstance_def Let_def split: if_splits)
qed

lemma createInstance_waits:
  assumes "createInstance E c tr = None"
  shows "\<exists>ip disk opName. le_instance E (tr @ [get_request c]) = ApiError 404 \<and>
    (\<forall>k. op_pending E (tr @ [get_request c, ListAddresses (GCEProjectID c), insert_request c ip disk] @ replicate (Suc k) (poll_request c opName)))"
proof -
  from assms obtain ip disk opName where "le_instance E (tr @ [get_request c]) = ApiError 404" and
    aw: "await_instance E c opName (tr @ [get_request c, ListAddresses (GCEProjectID c), insert_request c ip disk]) = None"
    by (fastforce simp: createInstance_def lookupInstance_def findIP_def instanceDisk_def insert_request_def Let_def
        split: get_result.splits option.splits sum.splits ending.splits if_splits)
  moreover have "\<forall>k. op_pending E (tr @ [get_request c, ListAddresses (GCEProjectID c), insert_request c ip disk] @ replicate (Suc k) (poll_request c opName))"
    by (cases rule: op_loop_cases [of E "poll_request c opName" "tr @ [get_request c, ListAddresses (GCEProjectID c), insert_request c ip disk]"])
      (use aw in \<open>auto simp: await_instance_def poll_request_def Let_def split: if_splits\<close>)
  ultimately show ?thesis by blast
qed

lemma uploadBinary_result:
  "(\<exists>f. uploadBinary E c tr = (Value (), tr @ [upload_request c f])) \<or> uploadBinary E c tr \<in> {(Exit 1, tr), (Panic, tr)}"
  by (simp add: uploadBinary_def getSelfPath_def upload_request_def split: option.split)

text \<open>The requests that make an instance.\<close>

primrec inserts :: "request \<Rightarrow> bool" where
  "inserts (Upload _ _ _ _ _) \<longleftrightarrow> False"
| "inserts (GetInstance _ _ _) \<longleftrightarrow> False"
| "inserts (ListAddresses _) \<longleftrightarrow> False"
| "inserts (InsertInstance _ _ _) \<longleftrightarrow> True"
| "inserts (GetOperation _ _ _) \<longleftrightarrow> False"

lemma inserts_request [simp]:
  "\<not> inserts (upload_request c f)" "\<not> inserts (get_request c)" "\<not> inserts (poll_request c opName)" "inserts (insert_request c ip disk)"
  by (simp_all add: upload_request_def get_request_def poll_request_def insert_request_def)

lemma created_inserts:
  "created E c tr r ts \<Longrightarrow>
    filter inserts ts = [] \<or> le_instance E (tr @ [get_request c]) = ApiError 404 \<and> (\<exists>ip disk. filter inserts ts = [insert_request c ip disk])"
  by (induction rule: created.induct) auto

lemma created_ok:
  "created E c tr r ts \<Longrightarrow> r \<in> {Value (), Exit 0} \<Longrightarrow> le_instance E (tr @ ts) = Found"
  by (induction rule: created.induct) (auto split: if_splits)

lemma created_code: "created E c tr (Exit n) ts \<Longrightarrow> n \<le> 1"
  by (erule created.cases) (auto split: if_splits)

lemma MaybeDeploy_cases:
  assumes "le_doLaunch E"
  obtains "MaybeDeploy E c = Exits 1 []"
  | f r ts where "created E c [upload_request c f] r ts"
      "MaybeDeploy E c = Exits (case r of Value _ \<Rightarrow> 0 | Exit n \<Rightarrow> n | Panic \<Rightarrow> 1) (upload_request c f # ts)"
  | f where "createInstance E c [upload_request c f] = None" "MaybeDeploy E c = Waits"
proof -
  have "MaybeDeploy E c = Exits 1 [] \<or> MaybeDeploy E c = (case uploadBinary E c [] of
      (Exit n, tr) \<Rightarrow> Exits n tr
    | (Panic, tr) \<Rightarrow> Exits 1 tr
    | (Value _, tr) \<Rightarrow> (case createInstance E c tr of None \<Rightarrow> Waits
        | Some (Exit n, tr) \<Rightarrow> Exits n tr | Some (Panic, tr) \<Rightarrow> Exits 1 tr | Some (Value _, tr) \<Rightarrow> Exits 0 tr))"
    using assms by (simp add: MaybeDeploy_def split: option.split)
  then consider "MaybeDeploy E c = Exits 1 []" | f where "uploadBinary E c [] = (Value (), [upload_request c f])"
    "MaybeDeploy E c = (case createInstance E c [upload_request c f] of None \<Rightarrow> Waits
      | Some (Exit n, tr) \<Rightarrow> Exits n tr | Some (Panic, tr) \<Rightarrow> Exits 1 tr | Some (Value _, tr) \<Rightarrow> Exits 0 tr)"
    using uploadBinary_result [of E c "[]"] by auto
  then show thesis
  proof cases
    case (2 f)
    show thesis
    proof (cases "createInstance E c [upload_request c f]")
      case (Some x)
      obtain r tr' where x: "x = (r, tr')" by (cases x)
      with Some obtain ts where "tr' = upload_request c f # ts" "created E c [upload_request c f] r ts"
        using createInstance_created by force
      then show thesis using that(2) 2(2) Some x by (cases r) auto
    qed (use that(3) 2(2) in simp)
  qed (use that(1) in blast)
qed

lemma created_deploys:
  assumes cr: "created E c [upload_request c f] r ts"
    and n: "n = (case r of Value _ \<Rightarrow> 0 | Exit n \<Rightarrow> n | Panic \<Rightarrow> 1)" and tr: "tr = upload_request c f # ts"
  shows "n \<le> 1 \<and> (filter inserts tr = [] \<or>
        (\<exists>f ip disk. take 2 tr = [upload_request c f, get_request c] \<and> le_instance E (take 2 tr) = ApiError 404 \<and>
          filter inserts tr = [insert_request c ip disk])) \<and>
      (n = 0 \<longrightarrow> (\<exists>f ts. tr = upload_request c f # ts @ [get_request c]) \<and> le_instance E tr = Found)"
proof (intro conjI impI)
  show "n \<le> 1" using created_code cr unfolding n by (auto split: ending.split)
  have "\<exists>us. ts = get_request c # us" using cr by (cases rule: created.cases) auto
  then have two: "take 2 tr = [upload_request c f, get_request c]" unfolding tr by auto
  show "filter inserts tr = [] \<or>
      (\<exists>f ip disk. take 2 tr = [upload_request c f, get_request c] \<and> le_instance E (take 2 tr) = ApiError 404 \<and>
        filter inserts tr = [insert_request c ip disk])"
    unfolding two using created_inserts [OF cr] tr by simp blast
next
  assume "n = 0"
  then have r: "r \<in> {Value (), Exit 0}" using n by (cases r) auto
  have "\<exists>us. ts = us @ [get_request c]" using cr r by (cases rule: created.cases) auto
  then show "\<exists>f ts. tr = upload_request c f # ts @ [get_request c]" using tr by blast
  show "le_instance E tr = Found" using created_ok [OF cr r] tr by simp
qed


text \<open>A deployment of a service whose instance exists.\<close>

definition demo_config :: Config where
  "demo_config = \<lparr>Name = [115], Restart_Policy = RestartOnUpdates, UpdateStrategy = [], BinaryBucket = [98], BinaryObject = [],
     GCEProjectID = [112], Zone = [], SSD = False, Scopes = [], MachineType = [], InstanceName = []\<rparr>"

definition demo_env :: launch_env where
  "demo_env = \<lparr>le_doLaunch = True, le_linux = True, le_amd64 = True, le_HOME = [], le_readFile = (\<lambda>_. Some []),
     le_DevstorageFullControlScope = [], le_ComputeScope = [], le_JWTConfigFromJSON = (\<lambda>_ _. True), le_NewClient = True,
     le_Readlink = Some [97], le_open = (\<lambda>_. Some [1, 2]), le_copy = (\<lambda>_. True), le_close = (\<lambda>_. True),
     le_instance = (\<lambda>_. Found), le_addresses = (\<lambda>_. None), le_images = (\<lambda>_. Inr None), le_insert = (\<lambda>_. None),
     le_operation = (\<lambda>_. None), le_OnGCE = False, le_Unix = id, le_head = (\<lambda>_ _. None)\<rparr>"


section \<open>Addresses and zones\<close>

lemma path_Base_nonempty [simp]: "path_Base p \<noteq> []"
  by (simp add: path_Base_def dot_def Let_def)

lemma cl_zone_nonempty [simp]: "cl_zone c \<noteq> []"
  by (simp add: cl_zone_def strDefault_def ascii_def)

text \<open>
  \<open>findIP\<close> takes the first address, in the order of the answer, that is reserved, has the name of the service followed by \<open>-ip\<close> and
  whose region is a prefix of the zone, and none if there is no such address. But if an address of that name without a region (a global one)
  comes first, it panics.
\<close>

theorem findIP_first:
  "ip_loop c items =
    (case find (\<lambda>a. addr_Name a = Name c @ ascii ''-ip'' \<and> addr_Status a = ascii ''RESERVED'' \<and>
        (addr_Region a = [] \<or> prefix (path_Base (addr_Region a)) (cl_zone c))) (concat items) of
      None \<Rightarrow> Some []
    | Some a \<Rightarrow> if addr_Region a = [] then None else Some (addr_Address a))"
proof -
  let ?fits = "\<lambda>a. addr_Name a = Name c @ ascii ''-ip'' \<and> addr_Status a = ascii ''RESERVED'' \<and>
        (addr_Region a = [] \<or> prefix (path_Base (addr_Region a)) (cl_zone c))"
  have scope: "scope_loop c as = (case find ?fits as of None \<Rightarrow> Some None
      | Some a \<Rightarrow> if addr_Region a = [] then None else Some (Some (addr_Address a)))" for as
    by (induction as) (auto simp: zoneInRegion_def Let_def split: bool.split)
  have find_append: "find P (xs @ ys) = (case find P xs of None \<Rightarrow> find P ys | Some a \<Rightarrow> Some a)" for P :: "Address \<Rightarrow> bool" and xs ys
    by (induction xs) auto
  show ?thesis by (induction items) (auto simp: scope find_append split: option.split)
qed

text \<open>
  The region is compared as a prefix of the text: the zone \<open>europe-west10-a\<close> counts as one of the region
  \<open>europe-west1\<close>, so that an address of the wrong region may be used.
\<close>

theorem zone_of_other_region:
  "zoneInRegion (ascii ''europe-west10-a'') (ascii ''https://www.googleapis.com/compute/v1/projects/p/regions/europe-west1'') = Some True"
  by (simp add: zoneInRegion_def path_Base_def slash_def ascii_def)

section \<open>The configuration of the instance\<close>

lemma ascii_Cons: "ascii (a # t) = of_char a # ascii t"
  by (simp add: ascii_def)

lemma of_char_dollar: "a \<noteq> CHR ''$'' \<Longrightarrow> of_char a \<noteq> (36 :: byte)"
  by (cases a) (auto simp: of_char_def split: if_splits)

lemma find_none: "\<forall>x \<in> set xs. \<not> P x \<Longrightarrow> find P xs = None"
  by (simp add: find_None_iff)

lemma replacer_literal:
  assumes "\<forall>p \<in> set ps. fst p \<noteq> [] \<longrightarrow> hd (fst p) = 36"
  shows "b \<noteq> 36 \<Longrightarrow> replacer ps (b # s) = b # replacer ps s"
    and "list_all (\<lambda>a. a \<noteq> CHR ''$'') t \<Longrightarrow> replacer ps (ascii t @ s) = ascii t @ replacer ps s"
proof -
  have byte: "replacer ps (b # s) = b # replacer ps s" if "b \<noteq> 36" for b s
    using that assms by (subst replacer.simps, subst find_none) (auto simp: prefix_Cons)
  then show "b \<noteq> 36 \<Longrightarrow> replacer ps (b # s) = b # replacer ps s" .
  show "list_all (\<lambda>a. a \<noteq> CHR ''$'') t \<Longrightarrow> replacer ps (ascii t @ s) = ascii t @ replacer ps s"
    by (induction t) (simp_all add: ascii_Cons ascii_def [of "[]"] byte of_char_dollar del: replacer.simps)
qed

text \<open>
  The text given to the instance: \<open>baseConfig\<close> with the name, the address of the binary and the update strategy in the places of the variables, and
  nothing else replaced.
\<close>

lemma cloudConfig_text:
  "cloudConfig c = concat (map (\<lambda>l. l @ [10])
     [ascii ''#cloud-config'',
      ascii ''coreos:'',
      ascii ''  update:'',
      ascii ''    group: stable'',
      ascii ''    reboot-strategy: '' @ updateStrategy c,
      ascii ''  units:'',
      ascii ''    - name: '' @ Name c @ ascii ''.service'',
      ascii ''      command: start'',
      ascii ''      content: |'',
      ascii ''        [Unit]'',
      ascii ''        Description='' @ Name c @ ascii '' service'',
      ascii ''        After=network.target'',
      ascii ''        '',
      ascii ''        [Service]'',
      ascii ''        Type=simple'',
      ascii ''        ExecStartPre=/bin/sh -c '' @ [39] @ ascii ''mkdir -p /opt/bin && /usr/bin/curl --silent -f -o /opt/bin/'' @ Name c @
        ascii '' '' @ binaryURL c @ ascii ''?$(date +%s) && chmod +x /opt/bin/'' @ Name c @ [39],
      ascii ''        ExecStart=/opt/bin/'' @ Name c,
      ascii ''        RestartSec=10'',
      ascii ''        Restart=always'',
      ascii ''        StartLimitInterval=0'',
      ascii ''        '',
      ascii ''        [Install]'',
      ascii ''        WantedBy=network-online.target''])"
proof -
  let ?rep = "replacer [(ascii ''$NAME'', Name c), (ascii ''$URL'', binaryURL c), (ascii ''$REBOOT'', updateStrategy c)]"
  have "\<forall>p \<in> set [(ascii ''$NAME'', Name c), (ascii ''$URL'', binaryURL c), (ascii ''$REBOOT'', updateStrategy c)].
      fst p \<noteq> [] \<longrightarrow> hd (fst p) = 36"
    by (simp add: ascii_def)
  note lit = replacer_literal(2) [OF this] and ten = replacer_literal(1) [OF this, of 10] replacer_literal(1) [OF this, of 39]
  have vars: "?rep (ascii ''$NAME'' @ s) = Name c @ ?rep s" "?rep (ascii ''$URL'' @ s) = binaryURL c @ ?rep s"
    "?rep (ascii ''$REBOOT'' @ s) = updateStrategy c @ ?rep s" "?rep (ascii ''$(date'' @ s) = ascii ''$(date'' @ ?rep s" for s
    by (simp_all add: ascii_def)
  have split: "ascii ''    reboot-strategy: $REBOOT'' = ascii ''    reboot-strategy: '' @ ascii ''$REBOOT''"
    "ascii ''    - name: $NAME.service'' = ascii ''    - name: '' @ ascii ''$NAME'' @ ascii ''.service''"
    "ascii ''        Description=$NAME service'' = ascii ''        Description='' @ ascii ''$NAME'' @ ascii '' service''"
    "ascii ''mkdir -p /opt/bin && /usr/bin/curl --silent -f -o /opt/bin/$NAME $URL?$(date +%s) && chmod +x /opt/bin/$NAME'' =
      ascii ''mkdir -p /opt/bin && /usr/bin/curl --silent -f -o /opt/bin/'' @ ascii ''$NAME'' @ ascii '' '' @ ascii ''$URL'' @
      ascii ''?'' @ ascii ''$(date'' @ ascii '' +%s) && chmod +x /opt/bin/'' @ ascii ''$NAME''"
    "ascii ''        ExecStart=/opt/bin/$NAME'' = ascii ''        ExecStart=/opt/bin/'' @ ascii ''$NAME''"
    "ascii ''?$(date +%s) && chmod +x /opt/bin/'' = ascii ''?'' @ ascii ''$(date'' @ ascii '' +%s) && chmod +x /opt/bin/''"
    by (simp_all add: ascii_def)
  show ?thesis unfolding cloudConfig_def baseConfig_def split
    by (simp add: lit ten vars del: replacer.simps(2))
qed

end
