(* ===== verification/Serve_On_Cloud.thy ===== *)
theory Serve_On_Cloud
  imports Cloudlaunch
begin

text \<open>
  The program \<open>go4test/cloudlaunch\<close> (\<open>serve_on_cloud.go\<close>): away from Compute Engine it deploys itself with \<open>cloudlaunch\<close>; on an instance
  it finds the bucket of its own binary in the \<open>cloud-config\<close> that \<open>cloudlaunch\<close> gave the instance, and serves the files of that
  bucket through \<open>wkfs\<close>.
\<close>

section \<open>The program\<close>

definition storage_url :: bytes where
  "storage_url = ascii ''https://storage.googleapis.com/''"

definition service_path :: bytes where
  "service_path = ascii ''/serveoncloud''"

text \<open>
  \<open>FindStringSubmatch\<close> of the pattern \<open>https://storage.googleapis.com/(.+?)/serveoncloud.*\<close>: at the first place with a match, the
  shortest text, not empty and without a newline, that the group can match.
\<close>

primrec submatch :: "bytes \<Rightarrow> bytes \<Rightarrow> bytes option" where
  "submatch acc [] = None"
| "submatch acc (c # s) =
     (if acc \<noteq> [] \<and> prefix service_path (c # s) then Some acc else if c = 10 then None else submatch (acc @ [c]) s)"

primrec find_bucket :: "bytes \<Rightarrow> bytes option" where
  "find_bucket [] = None"
| "find_bucket (c # s) =
     (case (if prefix storage_url (c # s) then submatch [] (drop (length storage_url) (c # s)) else None) of
       Some b \<Rightarrow> Some b
     | None \<Rightarrow> find_bucket s)"

text \<open>The configuration of the deployment; the fields that are not given are zero.\<close>

definition serve_config :: "launch_env \<Rightarrow> bytes \<Rightarrow> bytes \<Rightarrow> Config" where
  "serve_config E bucket projectID =
     \<lparr>Name = ascii ''serveoncloud'', Restart_Policy = RestartOnUpdates, UpdateStrategy = [], BinaryBucket = bucket, BinaryObject = [],
      GCEProjectID = projectID, Zone = [], SSD = False, Scopes = [le_DevstorageFullControlScope E, le_ComputeScope E],
      MachineType = [], InstanceName = []\<rparr>"

datatype serve_result = Fails | Deploys deploy_result | Listens bytes

text \<open>\<open>main\<close>, given the environment variables and the attribute \<open>user-data\<close> of the instance, if it can be read.\<close>

definition serve_main :: "launch_env \<Rightarrow> (bytes \<Rightarrow> bytes) \<Rightarrow> bytes option \<Rightarrow> serve_result" where
  "serve_main E getenv user_data =
     (if \<not> le_OnGCE E then
        (let bucket = getenv (ascii ''GCSBUCKET''); projectID = getenv (ascii ''GCEPROJECTID'') in
         if bucket = [] then Fails
         else if projectID = [] then Fails
         else Deploys (MaybeDeploy E (serve_config E bucket projectID)))
      else (case user_data of
        None \<Rightarrow> Fails
      | Some config \<Rightarrow>
          if config = [] then Fails
          else (case find_bucket config of None \<Rightarrow> Fails | Some gcsBucket \<Rightarrow> Listens gcsBucket)))"

datatype 'w response = Status500 | Serves_content "'w File"

definition serveHTTP ::
  "('w, 'i) FileSystem \<Rightarrow> ('w, 'i) registry \<Rightarrow> bytes \<Rightarrow> bytes \<Rightarrow> 'w \<Rightarrow> 'w response \<times> 'w" where
  "serveHTTP osFS es gcsBucket urlPath w =
     (case Open osFS es (Join [ascii ''/gcs'', gcsBucket, urlPath]) w of
       (Inl err, w) \<Rightarrow> (Status500, w)
     | (Inr rc, w) \<Rightarrow> (Serves_content rc, snd (f_Close rc w)))"

section \<open>The bucket comes back\<close>

text \<open>A text in which no address can start, whatever follows it.\<close>

fun no_ht :: "bytes \<Rightarrow> bool" where
  "no_ht (a # b # s) \<longleftrightarrow> \<not> (a = 104 \<and> b = 116) \<and> no_ht (b # s)"
| "no_ht [a] \<longleftrightarrow> a \<noteq> 104"
| "no_ht [] \<longleftrightarrow> True"

lemma find_bucket_skip: "no_ht l \<Longrightarrow> find_bucket (l @ s) = find_bucket s"
  by (induction l rule: no_ht.induct) (auto simp: storage_url_def ascii_def)

lemma submatch_bucket:
  assumes "47 \<notin> set b" "10 \<notin> set b" "b \<noteq> [] \<or> acc \<noteq> []"
  shows "submatch acc (b @ service_path @ rest) = Some (acc @ b)"
  using assms
proof (induction b arbitrary: acc)
  case Nil
  then show ?case by (simp add: service_path_def ascii_def)
next
  case (Cons c b)
  then have "\<not> prefix service_path (c # b @ service_path @ rest)" by (simp add: service_path_def ascii_def)
  then show ?case using Cons by simp
qed

lemma find_bucket_url:
  assumes "47 \<notin> set b" "10 \<notin> set b" "b \<noteq> []"
  shows "find_bucket (storage_url @ b @ service_path @ rest) = Some b"
proof -
  obtain c u where u: "storage_url = c # u" by (cases storage_url) (simp_all add: storage_url_def ascii_def)
  have "submatch [] (b @ service_path @ rest) = Some b" using submatch_bucket [OF assms(1,2), of "[]" rest] assms(3) by simp
  then show ?thesis unfolding u append_Cons find_bucket.simps by (simp add: u)
qed

text \<open>
  C39: What \<open>cloudlaunch\<close> writes is what the program on the instance reads: from the configuration made for a bucket, whose name has
  no slash and no newline, the program finds exactly that bucket, and serves from it.
\<close>

theorem bucket_roundtrip:
  assumes "47 \<notin> set bucket" "10 \<notin> set bucket" "bucket \<noteq> []" "le_OnGCE E"
  shows "serve_main E getenv (Some (cloudConfig (serve_config E' bucket projectID))) = Listens bucket"
proof -
  let ?c = "serve_config E' bucket projectID"
  define l where "l = concat (map (\<lambda>l. l @ [10])
     [ascii ''#cloud-config'', ascii ''coreos:'', ascii ''  update:'', ascii ''    group: stable'', ascii ''    reboot-strategy: best-effort'',
      ascii ''  units:'', ascii ''    - name: serveoncloud.service'', ascii ''      command: start'', ascii ''      content: |'',
      ascii ''        [Unit]'', ascii ''        Description=serveoncloud service'', ascii ''        After=network.target'', ascii ''        '',
      ascii ''        [Service]'', ascii ''        Type=simple'']) @ ascii ''        ExecStartPre=/bin/sh -c '' @ [39] @
      ascii ''mkdir -p /opt/bin && /usr/bin/curl --silent -f -o /opt/bin/serveoncloud ''"
  have "no_ht l" unfolding l_def by code_simp
  moreover have "\<exists>rest. cloudConfig ?c = l @ storage_url @ bucket @ service_path @ rest"
    unfolding cloudConfig_text l_def
    by (simp add: serve_config_def binaryURL_def binaryObject_def updateStrategy_def strDefault_def storage_url_def service_path_def ascii_def)
  ultimately have "find_bucket (cloudConfig ?c) = Some bucket" using find_bucket_skip find_bucket_url [OF assms(1-3)] by auto
  then show ?thesis using assms(4) by (auto simp: serve_main_def)
qed

theorem bucket_roundtrip_witness:
  "serve_main (demo_env\<lparr>le_OnGCE := True\<rparr>) (\<lambda>_. []) (Some (cloudConfig (serve_config demo_env [98] [112]))) = Listens [98]"
  by (rule bucket_roundtrip) simp_all

end
