(* ===== verification/Types.thy ===== *)
theory Types
  imports Sort_Model
begin

text \<open>
  The package \<open>types\<close>: times as JSON, slices of times, and closers. A time is an instant in nanoseconds since the Go zero time; its
  location plays no part, since it is printed in UTC. Printing and parsing in the format RFC 3339 and the quoting of JSON strings are
  parameters.
\<close>

section \<open>Times\<close>

type_synonym Time3339 = int

text \<open>The Unix time is counted from 1970.\<close>

definition Unix :: "Time3339 \<Rightarrow> int" where
  "Unix t = t div 1000000000 - 62135596800"

definition IsZero :: "Time3339 \<Rightarrow> bool" where
  "IsZero t \<longleftrightarrow> t = 0"

record time_format =
  Format :: "Time3339 \<Rightarrow> bytes"
  Parse :: "bytes \<Rightarrow> string + Time3339"
  json_Marshal :: "bytes \<Rightarrow> bytes"

datatype unmarshal_error = NotAString bytes | ParseError string

definition null_b :: bytes where
  "null_b = ascii ''null''"

definition Time_String :: "time_format \<Rightarrow> Time3339 \<Rightarrow> bytes" where
  "Time_String F t = Format F t"

definition MarshalJSON :: "time_format \<Rightarrow> Time3339 \<Rightarrow> bytes" where
  "MarshalJSON F t = (if IsZero t then null_b else json_Marshal F (Time_String F t))"

definition zero_prefix :: bytes where
  "zero_prefix = ascii ''0000-00-00T00:00:00''"

text \<open>The new value of \<open>*t\<close>, or an error that leaves it alone.\<close>

definition UnmarshalJSON :: "time_format \<Rightarrow> bytes \<Rightarrow> unmarshal_error + Time3339" where
  "UnmarshalJSON F b =
     (if b = null_b then Inr 0
      else if length b < 2 \<or> b ! 0 \<noteq> 34 \<or> b ! (length b - 1) \<noteq> 34 then Inl (NotAString b)
      else let s = take (length b - 2) (drop 1 b) in
        if s = [] then Inr 0
        else (case Parse F s of
          Inr tm \<Rightarrow> Inr tm
        | Inl err \<Rightarrow> if take (length zero_prefix) s = zero_prefix then Inr 0 else Inl (ParseError err)))"

definition ParseTime3339OrZero :: "time_format \<Rightarrow> bytes \<Rightarrow> Time3339" where
  "ParseTime3339OrZero F v = (case Parse F v of Inl err \<Rightarrow> 0 | Inr t \<Rightarrow> t)"

definition ParseTime3339OrNil :: "time_format \<Rightarrow> bytes \<Rightarrow> Time3339 option" where
  "ParseTime3339OrNil F v = (case Parse F v of Inl err \<Rightarrow> None | Inr t \<Rightarrow> Some t)"

definition IsAnyZero :: "Time3339 option \<Rightarrow> bool" where
  "IsAnyZero t \<longleftrightarrow> (case t of None \<Rightarrow> True | Some t \<Rightarrow> IsZero t \<or> Unix t = 0)"

definition ByTime :: "Time3339 list Interface" where
  "ByTime = slice_Interface (\<lambda>s t. s < t)"

section \<open>Closers\<close>

text \<open>A closer acts on a world; the wrapper forgets it after the first call.\<close>

record ('w, 'e) onceCloser =
  oc_c :: "('w \<Rightarrow> 'e option \<times> 'w) option"

definition NewOnceCloser :: "('w \<Rightarrow> 'e option \<times> 'w) \<Rightarrow> ('w, 'e) onceCloser" where
  "NewOnceCloser c = \<lparr>oc_c = Some c\<rparr>"

definition once_Close :: "('w, 'e) onceCloser \<Rightarrow> 'w \<Rightarrow> 'e option \<times> ('w, 'e) onceCloser \<times> 'w" where
  "once_Close c w = (case oc_c c of None \<Rightarrow> (None, c, w) | Some cl \<Rightarrow> let (err, w) = cl w in (err, c\<lparr>oc_c := None\<rparr>, w))"

definition NopCloser :: "'w \<Rightarrow> 'e option \<times> 'w" where
  "NopCloser w = (None, w)"

text \<open>A sequence of calls of \<open>Close\<close>.\<close>

primrec close_times :: "nat \<Rightarrow> ('w, 'e) onceCloser \<Rightarrow> 'w \<Rightarrow> 'e option list \<times> 'w" where
  "close_times 0 c w = ([], w)"
| "close_times (Suc n) c w = (let (err, c, w) = once_Close c w; (errs, w) = close_times n c w in (err # errs, w))"

lemma close_times_closed: "close_times n \<lparr>oc_c = None\<rparr> w = (replicate n None, w)"
  by (induction n) (simp_all add: once_Close_def)

lemma once_closer: "close_times (Suc n) (NewOnceCloser c) w = (fst (c w) # replicate n None, snd (c w))"
  by (simp add: NewOnceCloser_def once_Close_def close_times_closed Let_def split: prod.split)

section \<open>Properties\<close>

text \<open>
  A time that is printed so that it can be parsed back (and is not printed as the empty text) comes back unchanged from its JSON form, which is a string
  of JSON, or \<open>null\<close> for the zero time. What is no JSON string and not \<open>null\<close> is an error; the empty string, and a text that does not
  parse and begins with zeros for year, month and day, mean the zero time.
\<close>

theorem Time3339_JSON:
  assumes "Parse F (Format F t) = Inr t" "Format F t \<noteq> []" "json_Marshal F (Format F t) = 34 # Format F t @ [34]"
  shows "UnmarshalJSON F (MarshalJSON F t) = Inr t \<and> (MarshalJSON F t = null_b \<longleftrightarrow> t = 0) \<and> UnmarshalJSON F [34, 34] = Inr 0 \<and>
    (\<forall>c s. c \<noteq> 34 \<and> c # s \<noteq> null_b \<longrightarrow> UnmarshalJSON F (c # s) = Inl (NotAString (c # s))) \<and>
    (\<forall>s e. Parse F (zero_prefix @ s) = Inl e \<longrightarrow> UnmarshalJSON F (34 # zero_prefix @ s @ [34]) = Inr 0)"
proof -
  have n: "34 # s \<noteq> null_b" for s by (simp add: null_b_def ascii_def)
  have "UnmarshalJSON F (MarshalJSON F t) = Inr t"
    using assms n by (auto simp: MarshalJSON_def Time_String_def IsZero_def UnmarshalJSON_def Let_def nth_append)
  moreover have "MarshalJSON F t = null_b \<longleftrightarrow> t = 0"
    using assms(3) n by (simp add: MarshalJSON_def Time_String_def IsZero_def)
  moreover have "UnmarshalJSON F [34, 34] = Inr 0" using n by (simp add: UnmarshalJSON_def)
  moreover have "UnmarshalJSON F (c # s) = Inl (NotAString (c # s))" if "c \<noteq> 34 \<and> c # s \<noteq> null_b" for c s
    using that by (simp add: UnmarshalJSON_def)
  moreover have "UnmarshalJSON F (34 # zero_prefix @ s @ [34]) = Inr 0" if "Parse F (zero_prefix @ s) = Inl e" for s e
    using that n [of "zero_prefix @ s @ [34]"] by (simp add: UnmarshalJSON_def nth_append Let_def)
  ultimately show ?thesis by blast
qed

text \<open>Times of one byte.\<close>

definition byte_time :: time_format where
  "byte_time = \<lparr>Format = (\<lambda>t. [word_of_int t]), Parse = (\<lambda>s. if length s = 1 then Inr (uint (hd s)) else Inl ''bad time''), json_Marshal = (\<lambda>s. 34 # s @ [34])\<rparr>"

theorem Time3339_JSON_witness: "UnmarshalJSON byte_time (MarshalJSON byte_time 65) = Inr 65"
  using Time3339_JSON [of byte_time 65] by (simp add: byte_time_def)

end
