(* ===== verification/Throttle.thy ===== *)
theory Throttle
  imports Go_IO
begin

text \<open>
  The package \<open>net/throttle\<close>: connections with a limited rate. Times are in nanoseconds; a connection is the state of the world with its
  \<open>Read\<close>, \<open>Write\<close> and \<open>Close\<close>, and the time spent in \<open>time.Sleep\<close> is added up.
\<close>

section \<open>Model\<close>

record Rate =
  KBps :: int
  Latency :: int

definition second :: int where
  "second = 1000000000"

definition unitSize :: nat where
  "unitSize = 1400"

text \<open>
  \<open>float64(n) / 1024 / float64(r.KBps)\<close> is truncated when it is converted to a \<open>Duration\<close>, before the multiplication.
\<close>

definition byteTime :: "Rate \<Rightarrow> nat \<Rightarrow> int" where
  "byteTime r n = (if KBps r = 0 then 0 else sgn (KBps r) * (int n div (1024 * \<bar>KBps r\<bar>)) * second)"

text \<open>The connection below.\<close>

record 'w Conn =
  cn_Write :: "bytes \<Rightarrow> 'w \<Rightarrow> (nat \<times> io_error option) \<times> 'w"
  cn_Read :: "nat \<Rightarrow> 'w \<Rightarrow> (bytes \<times> io_error option) \<times> 'w"
  cn_Close :: "'w \<Rightarrow> io_error option \<times> 'w"

record conn =
  Down :: Rate
  Up :: Rate
  wchan_closed :: bool
  close_done :: bool
  closeErr :: "io_error option"

text \<open>A negative duration does not sleep.\<close>

definition sleep :: "int \<Rightarrow> int \<Rightarrow> int" where
  "sleep d slept = slept + max 0 d"

text \<open>
  The inner loop of \<open>writeLoop\<close>: the bytes written and the error, the time slept and the world. A \<open>Write\<close> that claims more than it was
  given makes \<open>req.p[n:]\<close> panic if there are not so many bytes; both that and a loop without end are \<open>None\<close>.
\<close>

partial_function (option) write_chunks ::
  "'w Conn \<Rightarrow> Rate \<Rightarrow> bytes \<Rightarrow> nat \<Rightarrow> int \<Rightarrow> 'w \<Rightarrow> (nat \<times> io_error option \<times> int \<times> 'w) option" where
  "write_chunks C up p resn slept w =
     (if p = [] then Some (resn, None, slept, w)
      else let writep = take unitSize p;
               ((n, err), w) = cn_Write C writep w;
               slept = sleep (byteTime up (length writep)) slept in
        if n > length p then None
        else if err \<noteq> None then Some (resn + n, err, slept, w)
        else write_chunks C up (drop n p) (resn + n) slept w)"

text \<open>
  \<open>Write\<close>, with the request served by \<open>writeLoop\<close> after the latency. Sending on the closed channel panics; the deferred function turns
  this into an error made of \<open>err\<close>, which is \<open>nil\<close>, and not of the panic \<open>e\<close>.
\<close>

definition conn_Write :: "'w Conn \<Rightarrow> conn \<Rightarrow> bytes \<Rightarrow> int \<Rightarrow> 'w \<Rightarrow> (nat \<times> io_error option \<times> int \<times> 'w) option" where
  "conn_Write C c p slept w =
     (if wchan_closed c then Some (0, Some (IOError ''<nil>''), slept, w)
      else write_chunks C (Up c) p 0 (sleep (Latency (Up c)) slept) w)"

definition conn_Read :: "'w Conn \<Rightarrow> conn \<Rightarrow> nat \<Rightarrow> int \<Rightarrow> 'w \<Rightarrow> (bytes \<times> io_error option) \<times> int \<times> 'w" where
  "conn_Read C c plen slept w =
     (let ((b, err), w) = cn_Read C (if plen > 1024 then 1024 else plen) w in
      ((b, err), sleep (byteTime (Down c) (length b)) slept, w))"

definition conn_Close :: "'w Conn \<Rightarrow> conn \<Rightarrow> 'w \<Rightarrow> io_error option \<times> conn \<times> 'w" where
  "conn_Close C c w =
     (if close_done c then (closeErr c, c, w)
      else let (err, w) = cn_Close C w in (err, c\<lparr>close_done := True, wchan_closed := True, closeErr := err\<rparr>, w))"

record Listener =
  ln_Down :: Rate
  ln_Up :: Rate

text \<open>\<open>Accept\<close>, given what the listener below returned.\<close>

definition Accept :: "Listener \<Rightarrow> io_error option \<Rightarrow> int \<Rightarrow> (io_error + conn) \<times> int" where
  "Accept ln err slept =
     (case err of
       Some e \<Rightarrow> (Inl e, sleep (Latency (ln_Up ln)) slept)
     | None \<Rightarrow> (Inr \<lparr>Down = ln_Down ln, Up = ln_Up ln, wchan_closed = False, close_done = False, closeErr = None\<rparr>, sleep (Latency (ln_Up ln)) slept))"

section \<open>Properties\<close>

text \<open>The contract of \<open>io.Writer\<close>: it takes at most what it is given, and less only with an error.\<close>

definition writer_contract :: "'w Conn \<Rightarrow> ('w \<Rightarrow> bytes) \<Rightarrow> bool" where
  "writer_contract C sent \<longleftrightarrow> (\<forall>p w n err w'. cn_Write C p w = ((n, err), w') \<longrightarrow>
     n \<le> length p \<and> (n < length p \<longrightarrow> err \<noteq> None) \<and> sent w' = sent w @ take n p)"

lemma write_chunks_sends:
  assumes "writer_contract C sent"
  shows "\<exists>n err slept' w'. write_chunks C up p k slept w = Some (k + n, err, slept', w') \<and> n \<le> length p \<and>
    sent w' = sent w @ take n p \<and> (err = None \<longrightarrow> n = length p)"
proof (induction "length p" arbitrary: p k slept w rule: less_induct)
  case less
  show ?case
  proof (cases "p = []")
    case False
    let ?q = "take unitSize p" and ?s = "sleep (byteTime up (length (take unitSize p))) slept"
    obtain n err w1 where w: "cn_Write C ?q w = ((n, err), w1)" by (metis prod.exhaust)
    have c: "n \<le> length ?q" "n < length ?q \<longrightarrow> err \<noteq> None" "sent w1 = sent w @ take n ?q"
      using assms w unfolding writer_contract_def by blast+
    have q: "length ?q > 0" using False by (simp add: unitSize_def)
    have t: "take n ?q = take n p" using c(1) by (simp add: min_absorb1)
    have np: "n \<le> length p" using c(1) by simp
    show ?thesis
    proof (cases err)
      case None
      then have n: "n = length ?q" using c(1,2) le_neq_implies_less by blast
      then have "length (drop n p) < length p" using q by simp
      from less [OF this, of "k + n" ?s w1] obtain m e s2 w2 where
        r: "write_chunks C up (drop n p) (k + n) ?s w1 = Some (k + n + m, e, s2, w2)" "m \<le> length p - n"
          "sent w2 = sent w1 @ take m (drop n p)" "e = None \<longrightarrow> m = length p - n"
        by auto
      have "write_chunks C up p k slept w = Some (k + (n + m), e, s2, w2)"
        using r(1) w False None np by (subst write_chunks.simps) (simp add: Let_def add.assoc)
      moreover have "sent w2 = sent w @ take (n + m) p" using r(3) c(3) t by (simp add: take_add)
      ultimately show ?thesis using r(2,4) np by (intro exI conjI) auto
    next
      case (Some e)
      then have "write_chunks C up p k slept w = Some (k + n, err, ?s, w1)"
        using w False np by (subst write_chunks.simps) (simp add: Let_def)
      then show ?thesis using Some c(3) t np by auto
    qed
  qed (subst write_chunks.simps, simp)
qed

text \<open>
  Over a connection that keeps the contract of \<open>io.Writer\<close>, \<open>Write\<close> returns; it has sent, in order, as many bytes as it says, all of them if it
  reports no error. After \<open>Close\<close> it sends nothing and reports the error \<open><nil>\<close>; \<open>Close\<close> closes the connection once.
\<close>

theorem conn_Write_sends:
  assumes "writer_contract C sent"
  shows "(\<exists>n err slept' w'. conn_Write C c p slept w = Some (n, err, slept', w') \<and> n \<le> length p \<and> sent w' = sent w @ take n p \<and> (err = None \<longrightarrow> n = length p)) \<and>
    (case conn_Close C c w of (err, c', w') \<Rightarrow> (close_done c \<longrightarrow> w' = w \<and> c' = c) \<and> conn_Close C c' w'' = (err, c', w'') \<and>
       (close_done c = wchan_closed c \<longrightarrow> conn_Write C c' p slept w' = Some (0, Some (IOError ''<nil>''), slept, w')))"
proof
  show "\<exists>n err slept' w'. conn_Write C c p slept w = Some (n, err, slept', w') \<and> n \<le> length p \<and> sent w' = sent w @ take n p \<and> (err = None \<longrightarrow> n = length p)"
    using write_chunks_sends [OF assms, of "Up c" p 0 "sleep (Latency (Up c)) slept" w] by (cases "wchan_closed c") (auto simp: conn_Write_def)
  show "case conn_Close C c w of (err, c', w') \<Rightarrow> (close_done c \<longrightarrow> w' = w \<and> c' = c) \<and> conn_Close C c' w'' = (err, c', w'') \<and>
       (close_done c = wchan_closed c \<longrightarrow> conn_Write C c' p slept w' = Some (0, Some (IOError ''<nil>''), slept, w'))"
    by (auto simp: conn_Close_def conn_Write_def split: prod.split)
qed

text \<open>A connection that keeps what is sent.\<close>

definition pipe :: "bytes Conn" where
  "pipe = \<lparr>cn_Write = (\<lambda>p w. ((length p, None), w @ p)), cn_Read = (\<lambda>n w. ((take n w, None), drop n w)), cn_Close = (\<lambda>w. (None, w))\<rparr>"

definition slow :: conn where
  "slow = \<lparr>Down = \<lparr>KBps = 1, Latency = 0\<rparr>, Up = \<lparr>KBps = 1, Latency = 0\<rparr>, wchan_closed = False, close_done = False, closeErr = None\<rparr>"

theorem conn_Write_sends_witness:
  "\<exists>n err slept' w'. conn_Write pipe slow [1, 2, 3] 0 [] = Some (n, err, slept', w') \<and> w' = take n [1, 2, 3]"
proof -
  have "writer_contract pipe (\<lambda>w. w)" by (simp add: writer_contract_def pipe_def)
  from conn_Write_sends [OF this, of slow "[1, 2, 3]" 0 "[]", THEN conjunct1] show ?thesis by auto
qed

text \<open>
  A rate of two or more kilobytes per second is no limit at all: the time for one chunk, at most 1400 bytes written or 1024 read, is less than a
  second and is truncated to zero. A rate of one kilobyte per second sleeps one second for a chunk of 1024 bytes or more, and not at all for a
  smaller one.
\<close>

theorem throttle_truncates:
  assumes "n \<le> unitSize"
  shows "(2 \<le> KBps r \<longrightarrow> byteTime r n = 0) \<and> (KBps r = 1 \<longrightarrow> byteTime r n = (if n < 1024 then 0 else second))"
proof -
  have "int n div (1024 * KBps r) = 0" if "2 \<le> KBps r"
  proof (rule div_pos_pos_trivial)
    have "int n \<le> 1400" using assms by (simp add: unitSize_def)
    then show "int n < 1024 * KBps r" using that by linarith
  qed simp
  moreover have "int n div 1024 = 1" if "1024 \<le> n" using assms that by (simp add: unitSize_def)
  ultimately show ?thesis by (auto simp: byteTime_def)
qed

theorem throttle_truncates_witness: "byteTime \<lparr>KBps = 2, Latency = 0\<rparr> 1400 = 0"
  using throttle_truncates [of 1400 "\<lparr>KBps = 2, Latency = 0\<rparr>"] by (simp add: unitSize_def)

end
