(* ===== verification/Functest.thy ===== *)
theory Functest
  imports Go4_Prelude "HOL-Library.Sublist"
begin

text \<open>
  The package \<open>testing/functest\<close>: tests of a function by cases. A value of type \<open>interface{}\<close> is \<open>'v option\<close>, \<open>None\<close> the
  \<open>nil\<close>. What \<open>reflect\<close> and \<open>fmt\<close> do with values is a parameter: the call, deep equality and formatting.
\<close>

section \<open>Functions\<close>

datatype 'v call_result = Rets "'v option list" | Panicked "'v option"

text \<open>A function as \<open>reflect\<close> sees it. Arguments of the wrong type make the call panic.\<close>

record 'v fn =
  NumIn :: nat
  IsVariadic :: bool
  NumOut :: nat
  fn_call :: "'v option list \<Rightarrow> 'v call_result"

record 'v Func =
  Name :: bytes
  fv :: "'v fn"

text \<open>\<open>strings.LastIndex\<close>; \<open>None\<close> is \<open>-1\<close>.\<close>

definition LastIndex :: "bytes \<Rightarrow> bytes \<Rightarrow> nat option" where
  "LastIndex s sub = find (\<lambda>i. prefix sub (drop i s)) (rev [0..<length s + 1])"

definition removePunc :: "bytes \<Rightarrow> bytes" where
  "removePunc s = filter (\<lambda>c. c \<notin> {40, 41, 42}) s"

text \<open>The name from that of the runtime, if it has one.\<close>

definition func_name :: "bytes option \<Rightarrow> bytes" where
  "func_name rf = (case rf of
     None \<Rightarrow> ascii ''f''
   | Some name \<Rightarrow> (case LastIndex name (ascii ''.('') of
       Some methType \<Rightarrow> removePunc (drop (methType + 2) name)
     | None \<Rightarrow> (case LastIndex name (ascii ''.'') of
         Some lastDot \<Rightarrow> let name = drop (lastDot + 1) name in if prefix (ascii ''func'') name then ascii ''f'' else name
       | None \<Rightarrow> name)))"

text \<open>\<open>New\<close>: the argument is a function or not, \<open>None\<close> is a panic.\<close>

definition New :: "'v fn option \<Rightarrow> bytes option \<Rightarrow> 'v Func option" where
  "New f rf = map_option (\<lambda>fv. \<lparr>Name = func_name rf, fv = fv\<rparr>) f"

section \<open>Cases\<close>

record 'v Result =
  Result_values :: "'v option list option"
  Result_Panic :: "'v option"
  Result_Panicked :: bool

text \<open>The expected values are \<open>None\<close> for a \<open>nil\<close> slice; a check returns the text of its error.\<close>

record 'v Case =
  c_f :: "'v Func"
  c_in :: "'v option list"
  c_name :: bytes
  c_want :: "'v option list option"
  c_checkRes :: "('v Result \<Rightarrow> bytes option) list"

definition Func_Case :: "'v Func \<Rightarrow> bytes \<Rightarrow> 'v Case" where
  "Func_Case f name = \<lparr>c_f = f, c_in = [], c_name = name, c_want = None, c_checkRes = []\<rparr>"

definition Func_In :: "'v Func \<Rightarrow> 'v option list \<Rightarrow> 'v Case" where
  "Func_In f args = \<lparr>c_f = f, c_in = args, c_name = [], c_want = None, c_checkRes = []\<rparr>"

definition Case_In :: "'v option list \<Rightarrow> 'v Case \<Rightarrow> 'v Case" where
  "Case_In args c = c\<lparr>c_in := args\<rparr>"

text \<open>\<open>Want\<close>, given the slice of its arguments (\<open>nil\<close> if there are none); \<open>None\<close> is a panic.\<close>

definition Want :: "'v option list option \<Rightarrow> 'v Case \<Rightarrow> 'v Case option" where
  "Want result c =
     (if c_want c \<noteq> None then None
      else let c = c\<lparr>c_want := result\<rparr>; numOut = NumOut (fv (c_f c)) in
        if length (case result of None \<Rightarrow> [] | Some r \<Rightarrow> r) \<noteq> numOut then None else Some c)"

definition Check :: "('v Result \<Rightarrow> bytes option) \<Rightarrow> 'v Case \<Rightarrow> 'v Case" where
  "Check checker c = c\<lparr>c_checkRes := c_checkRes c @ [checker]\<rparr>"

section \<open>Running the cases\<close>

text \<open>Deep equality of two values, and the formats \<open>%#v\<close> and \<open>%v\<close>.\<close>

record 'v reflection =
  DeepEqual :: "'v option \<Rightarrow> 'v option \<Rightarrow> bool"
  format_go :: "'v option \<Rightarrow> bytes"
  format_v :: "'v option \<Rightarrow> bytes"

fun formatValues :: "'v reflection \<Rightarrow> 'v option list \<Rightarrow> bytes" where
  "formatValues F [] = []"
| "formatValues F [v] = format_go F v"
| "formatValues F (v # w # vs) = format_go F v @ ascii '', '' @ formatValues F (w # vs)"

definition formatRes :: "'v reflection \<Rightarrow> 'v option list \<Rightarrow> bytes" where
  "formatRes F res =
     (if length res \<noteq> 1 then ascii ''('' else []) @ formatValues F res @ (if length res \<noteq> 1 then ascii '')'' else [])"

text \<open>The message of an error, given what is formatted after the call.\<close>

definition errorf :: "'v reflection \<Rightarrow> 'v Case \<Rightarrow> bytes \<Rightarrow> bytes" where
  "errorf F c msg =
     (if c_name c \<noteq> [] then c_name c @ ascii '': '' else []) @ Name (c_f c) @ ascii ''('' @ formatValues F (c_in c) @ ascii '')'' @ msg"

definition checkCall :: "'v Func \<Rightarrow> 'v option list \<Rightarrow> 'v option list option \<times> bool \<times> 'v option" where
  "checkCall f args = (case fn_call (fv f) args of Rets out \<Rightarrow> (Some out, False, None) | Panicked p \<Rightarrow> (None, True, p))"

text \<open>\<open>reflect.DeepEqual\<close> of two slices of values, each of which may be \<open>nil\<close>.\<close>

fun slices_equal :: "'v reflection \<Rightarrow> 'v option list option \<Rightarrow> 'v option list option \<Rightarrow> bool" where
  "slices_equal F (Some xs) (Some ys) \<longleftrightarrow> list_all2 (DeepEqual F) xs ys"
| "slices_equal F None None \<longleftrightarrow> True"
| "slices_equal F _ _ \<longleftrightarrow> False"

text \<open>The errors after the call.\<close>

definition check_result :: "'v reflection \<Rightarrow> 'v Case \<Rightarrow> 'v option list option \<Rightarrow> bool \<Rightarrow> 'v option \<Rightarrow> bytes list" where
  "check_result F c goti didPanic panicValue =
     (let vals = (\<lambda>r. case r of None \<Rightarrow> [] | Some vs \<Rightarrow> vs);
          res = \<lparr>Result_values = goti, Result_Panic = panicValue, Result_Panicked = didPanic\<rparr> in
      (if c_want c \<noteq> None \<and> \<not> slices_equal F goti (c_want c)
       then [errorf F c (ascii '' = '' @ formatRes F (vals goti) @ ascii ''; want '' @ formatRes F (vals (c_want c)))] else []) @
      concat (map (\<lambda>checkRes. case checkRes res of None \<Rightarrow> [] | Some err \<Rightarrow> [errorf F c (ascii '': '' @ err)]) (c_checkRes c)) @
      (if didPanic \<and> c_checkRes c = [] then [errorf F c (ascii '': panicked with '' @ format_v F panicValue)] else []))"

text \<open>The errors of one case.\<close>

definition testCase :: "'v reflection \<Rightarrow> 'v Func \<Rightarrow> 'v Case \<Rightarrow> bytes list" where
  "testCase F f c =
     (let ft = fv f in
      if IsVariadic ft \<and> length (c_in c) < NumIn ft - 1 then
        [errorf F c (ascii '': input has '' @ decimal (length (c_in c)) @ ascii '' arguments; func requires at least '' @ decimal (NumIn ft - 1))]
      else if \<not> IsVariadic ft \<and> length (c_in c) \<noteq> NumIn ft then
        [errorf F c (ascii '': input has '' @ decimal (length (c_in c)) @ ascii '' arguments; func takes '' @ decimal (NumIn ft))]
      else let (got, didPanic, panicValue) = checkCall f (c_in c) in check_result F c got didPanic panicValue)"

definition Test :: "'v reflection \<Rightarrow> 'v Func \<Rightarrow> 'v Case list \<Rightarrow> bytes list" where
  "Test F f cases = concat (map (testCase F f) cases)"

section \<open>Properties\<close>

text \<open>What it means for the function to pass a case.\<close>

fun passes_with :: "'v reflection \<Rightarrow> 'v Case \<Rightarrow> 'v call_result \<Rightarrow> bool" where
  "passes_with F c (Rets vs) \<longleftrightarrow> (case c_want c of None \<Rightarrow> True | Some ws \<Rightarrow> list_all2 (DeepEqual F) vs ws) \<and>
     list_all (\<lambda>chk. chk \<lparr>Result_values = Some vs, Result_Panic = None, Result_Panicked = False\<rparr> = None) (c_checkRes c)"
| "passes_with F c (Panicked p) \<longleftrightarrow> c_want c = None \<and> c_checkRes c \<noteq> [] \<and>
     list_all (\<lambda>chk. chk \<lparr>Result_values = None, Result_Panic = p, Result_Panicked = True\<rparr> = None) (c_checkRes c)"

definition passes :: "'v reflection \<Rightarrow> 'v fn \<Rightarrow> 'v Case \<Rightarrow> bool" where
  "passes F g c \<longleftrightarrow> (if IsVariadic g then NumIn g - 1 \<le> length (c_in c) else length (c_in c) = NumIn g) \<and>
     passes_with F c (fn_call g (c_in c))"

lemma checks_none:
  "concat (map (\<lambda>chk. case chk r of None \<Rightarrow> [] | Some err \<Rightarrow> [g err]) cs) = [] \<longleftrightarrow> list_all (\<lambda>chk. chk r = None) cs"
  by (auto simp: list_all_iff split: option.splits)

lemma check_result_empty:
  "check_result F c (Some vs) False None = [] \<longleftrightarrow> passes_with F c (Rets vs)"
  "check_result F c None True p = [] \<longleftrightarrow> passes_with F c (Panicked p)"
  unfolding check_result_def Let_def append_is_Nil_conv checks_none by (cases "c_want c", simp, simp)+

lemma testCase_empty: "testCase F f c = [] \<longleftrightarrow> passes F (fv f) c"
  by (cases "fn_call (fv f) (c_in c)") (auto simp: testCase_def passes_def checkCall_def check_result_empty Let_def)

text \<open>
  C40: \<open>Test\<close> reports no error exactly if the function passes every case: the number of arguments fits, and the call returns values
  deeply equal to the expected ones, if there are any, or panics where no values are expected and at least one check is
  there to see it, and every check accepts the result. A case that fails is reported with its own name and input, in the order of the cases.
\<close>

theorem Test_passes:
  "(Test F f cases = [] \<longleftrightarrow> (\<forall>c \<in> set cases. passes F (fv f) c)) \<and>
   (\<forall>msg \<in> set (Test F f cases). \<exists>c \<in> set cases. \<not> passes F (fv f) c \<and> (\<exists>rest. msg = errorf F c rest))"
proof (intro conjI ballI)
  show "Test F f cases = [] \<longleftrightarrow> (\<forall>c \<in> set cases. passes F (fv f) c)" by (auto simp: Test_def testCase_empty)
  fix msg
  assume "msg \<in> set (Test F f cases)"
  then obtain c where c: "c \<in> set cases" "msg \<in> set (testCase F f c)" by (auto simp: Test_def)
  have "\<exists>rest. msg = errorf F c rest"
    using c(2) by (auto simp: testCase_def check_result_def Let_def split: if_splits prod.splits option.splits)
  moreover have "\<not> passes F (fv f) c" using c(2) testCase_empty [of F f c] by auto
  ultimately show "\<exists>c \<in> set cases. \<not> passes F (fv f) c \<and> (\<exists>rest. msg = errorf F c rest)" using c(1) by blast
qed

text \<open>The square function of the documentation, over integers.\<close>

definition square :: "int Func" where
  "square = \<lparr>Name = ascii ''square'', fv = \<lparr>NumIn = 1, IsVariadic = False, NumOut = 1,
     fn_call = (\<lambda>vs. case vs of [Some n] \<Rightarrow> Rets [Some (n * n)] | _ \<Rightarrow> Panicked None)\<rparr>\<rparr>"

definition int_reflection :: "int reflection" where
  "int_reflection = \<lparr>DeepEqual = (=), format_go = (\<lambda>_. []), format_v = (\<lambda>_. [])\<rparr>"

theorem Test_passes_witness:
  "Test int_reflection square [Func_In square [Some 2], the (Want (Some [Some 9]) (Func_In square [Some 3]))] = [] \<and>
   Test int_reflection square [the (Want (Some [Some 999]) (Func_In square [Some 3]))] \<noteq> []"
  using Test_passes [of int_reflection square "[Func_In square [Some 2], the (Want (Some [Some 9]) (Func_In square [Some 3]))]"]
    Test_passes [of int_reflection square "[the (Want (Some [Some 999]) (Func_In square [Some 3]))]"]
  by (simp add: passes_def Func_In_def Want_def square_def int_reflection_def)

text \<open>
  \<open>Want\<close> keeps the expected values if their number is that of the results and it has not been called before; a second call panics only if the
  first was given values. Other settings do not disturb each other.
\<close>

lemma Want_twice:
  assumes "Want r c = Some c1"
  shows "c_want c1 = r \<and> c_in c1 = c_in c \<and> c_checkRes c1 = c_checkRes c \<and> (Want r' c1 \<noteq> None \<longleftrightarrow>
    r = None \<and> length (case r' of None \<Rightarrow> [] | Some vs \<Rightarrow> vs) = NumOut (fv (c_f c)))"
  using assms by (auto simp: Want_def Let_def split: if_splits)

lemma settings_commute:
  "Case_In args (Check chk c) = Check chk (Case_In args c)"
  "map_option (Case_In args) (Want r c) = Want r (Case_In args c)"
  "map_option (Check chk) (Want r c) = Want r (Check chk c)"
  by (simp_all add: Case_In_def Check_def Want_def Let_def)

text \<open>
  A method is named by its type and name. A function whose own name starts with \<open>func\<close> is taken for an
  anonymous one, and called \<open>f\<close>.
\<close>

lemma func_name_examples:
  "func_name (Some (ascii ''time.(*Time).String'')) = ascii ''Time.String''"
  "func_name (Some (ascii ''a/b.square'')) = ascii ''square''"
  "func_name (Some (ascii ''p.functional'')) = ascii ''f''"
  by code_simp+

end
