(* ===== verification/Spec2Isabelle.thy ===== *)
theory Spec2Isabelle
  imports Sort_Correct Rollsum Writerutil Readerutil Heif_Properties Dumpheif Bytereplacer_Replace Ziputil_Properties Zip_Open_Correct
    Syncutil Syncutil_Once Singleflight Strutil Strutil_Fold Jsonconfig Jsonconfig_Eval Jsonconfig_Typed Xdgdir
    Singlereader Lock Syncdebug Wkfs Wkfs_Gcs Gcsutil Cloud Cloudlaunch Serve_On_Cloud Types Throttle Functest Small_Packages
begin

text \<open>
  A verification of go4 (\<open>src/\<close>), a library of Go packages that Perkeep and other programs share. The
  packages are largely independent of each other; those that call one another are verified against
  what the callee is proved to do. Each package is translated function by function; \<open>Go4_Prelude\<close>, \<open>Go_IO\<close>, \<open>Go_UTF8\<close> and
  \<open>Transitions\<close> hold what is shared.

  \<^bold>\<open>Conventions.\<close> A Go function that may panic, index out of range or loop for ever returns an \<open>option\<close>,
  with \<open>None\<close> for those outcomes, so that a theorem that gives a \<open>Some\<close> is a statement of total
  correctness; an \<open>error\<close> result is a value (an \<open>option\<close> or a sum). Integers are words of their width, or
  \<open>int\<close> and \<open>nat\<close> with the wrap-around written out where it can occur. Slices are lists; where code shares
  the array below a slice, the array is explicit. Goroutines are steps of a transition relation.
  Loops are recursive functions with a measure; those whose end depends on what the caller passes are
  partial functions, and theorems state that they return. The one function with fuel is the reader of
  configuration files that include each other, whose fuel is the depth of inclusion: it is shown that the number
  of files bounds it, and that more fuel changes nothing.

  \<^bold>\<open>The packages.\<close>
  \<^item> \<open>sort\<close> (\<open>sort.go\<close>, \<open>search.go\<close>, \<open>zfuncversion.go\<close>): \<open>Sort_Model\<close> has every function over a record of
    \<open>Len\<close>, \<open>Less\<close> and \<open>Swap\<close>, \<open>Sort_Func\<close> the generated variants over \<open>Less\<close> and \<open>Swap\<close> alone, and \<open>Sort_Func_Correct\<close> shows that
    they compute the same. The locale of \<open>Sort_Interface\<close> states the contract of such a record;
    \<open>Sort_Insertion\<close>, \<open>Sort_Heap\<close>, \<open>Sort_Pivot\<close>, \<open>Sort_Quick\<close>, \<open>Sort_Stable\<close> and \<open>Sort_Merge\<close> verify the algorithms inside it,
    \<open>Sort_Search\<close> the binary search, and \<open>Sort_Correct\<close> has the theorems for \<open>Sort\<close>, \<open>Stable\<close>, \<open>Slice\<close> and the others.
  \<^item> \<open>rollsum\<close>: \<open>Rollsum\<close>, on 32-bit words, with a closed form of the checksum.
  \<^item> \<open>writerutil\<close>: \<open>Writerutil\<close>, the writer that keeps the two ends of its input.
  \<^item> \<open>readerutil\<close>: \<open>Readerutil\<close>, reader adapters over the readers of \<open>Go_IO\<close>.
  \<^item> \<open>media/heif/bmff\<close> and \<open>media/heif\<close>: \<open>BMFF_Reader\<close> and \<open>BMFF_Parse\<close> (the box reader and all box parsers), \<open>Heif_Model\<close> (files,
    items, EXIF, encoding), \<open>BMFF_Correct\<close>, \<open>Heif_Correct\<close> and \<open>Heif_Properties\<close> (round trips, safety, limits); the program
    \<open>dumpheif\<close>: \<open>Dumpheif\<close>, as the lines it prints, shown to end on every file and to succeed on those that \<open>EncodeImage\<close> writes.
  \<^item> \<open>bytereplacer\<close>: \<open>Bytereplacer\<close> (model, with the array below the input), \<open>Bytereplacer_Correct\<close> (the trie), \<open>Bytereplacer_Replace\<close>.
  \<^item> \<open>ziputil\<close>: \<open>Ziputil\<close> and \<open>Zip_Open\<close> (model), \<open>Ziputil_Correct\<close>, \<open>Ziputil_Properties\<close> and \<open>Zip_Open_Correct\<close>. The decompressor of
    \<open>compress/flate\<close> is a parameter.
  \<^item> \<open>syncutil\<close> and \<open>syncutil/singleflight\<close>: \<open>Syncutil\<close> (gate and semaphore), \<open>Syncutil_Once\<close> (once and group), \<open>Singleflight\<close>; invariants
    over all interleavings, through the locale of \<open>Transitions\<close>.
  \<^item> \<open>strutil\<close>: \<open>Strutil\<close> (numbers, splitting, JSON heuristic, interning) and \<open>Strutil_Fold\<close> (case folding, over \<open>unicode.SimpleFold\<close>
    as a parameter).
  \<^item> \<open>jsonconfig\<close>: \<open>Jsonconfig\<close> (typed access to an object and validation), \<open>Jsonconfig_Eval\<close> (\<open>eval.go\<close>: expressions, included files) and
    \<open>Jsonconfig_Typed\<close> (the types of what is read, and reading and access together). The JSON decoder is a parameter.
  \<^item> \<open>xdgdir\<close>: \<open>Xdgdir\<close>, over the environment and the file system as a parameter; \<open>Go_Path\<close> has what it and \<open>jsonconfig\<close> use of
    \<open>path/filepath\<close>.
  \<^item> \<open>readerutil/singlereader\<close>: \<open>Singlereader\<close>, the reference counts of shared files, as steps on top of those of \<open>Singleflight\<close>.
  \<^item> \<open>lock\<close>: \<open>Lock\<close>, the functions on a disk (on Windows, over its interface as a parameter), for one process after the other, through a
    locale for the implementations that \<open>Lock\<close> chooses from, and the portable lock as steps of processes at the same time.
  \<^item> \<open>syncutil/syncdebug\<close>: \<open>Syncdebug\<close>, the counters of the tracked lock over all interleavings; goroutine numbers, through \<open>ParseUintBytes\<close>
    of \<open>strutil\<close>.
  \<^item> \<open>wkfs\<close>: \<open>Wkfs\<close>, the registry of file systems, which are a parameter, as is the order of map iteration; \<open>wkfs/gcs\<close>: \<open>Wkfs_Gcs\<close>, one
    such file system, over the storage client as a parameter.
  \<^item> \<open>cloud/google/gcsutil\<close>: \<open>Gcsutil\<close>; \<open>oauthutil\<close> and \<open>cloud/google/gceutil\<close>: \<open>Cloud\<close>; \<open>cloud/cloudlaunch\<close>:
    \<open>Cloudlaunch\<close>, with the requests of a deployment recorded and its loops as partial functions; \<open>go4test/cloudlaunch\<close>, a
    program that deploys itself so: \<open>Serve_On_Cloud\<close>. The services they call are parameters.
  \<^item> \<open>testing/functest\<close>: \<open>Functest\<close>; what it uses of reflection is a parameter.
  \<^item> \<open>types\<close>: \<open>Types\<close>, times as JSON and closers; \<open>ByTime\<close> is sorted by \<open>sort\<close>, below. The time format is a parameter.
  \<^item> \<open>net/throttle\<close>: \<open>Throttle\<close>, over the connection as a parameter.
  \<^item> \<open>errorutil\<close>, \<open>fault\<close>, \<open>must\<close>, \<open>legal\<close>, \<open>ctxutil\<close>: \<open>Small_Packages\<close>.

  \<^bold>\<open>Not modelled.\<close> The generator \<open>genzfunc\<close>, which rewrites the syntax tree of \<open>sort.go\<close> through \<open>go/ast\<close> (its output is modelled); \<open>osutil\<close>, one call of the system. Log output and, except in \<open>functest\<close>, the wording of error messages are left out.
\<close>

section \<open>Packages together\<close>

text \<open>
  \<open>sort.Sort\<close> on a \<open>types.ByTime\<close> returns the times in ascending order.
\<close>

theorem ByTime_sorts: "Sort (Iface ByTime) ts = Some (sort ts)"
  using Sort_Iface [OF slice_contracts(1), of ts]
  by (auto simp: succeeds_def ByTime_def in_order_def not_less properties_for_sort)

end
